(* ===== verification/Prelude.thy ===== *)
theory Prelude
  imports Main "HOL-Library.Word"
begin

section \<open>Shared vocabulary of the development\<close>

text \<open>
  The types, the error values and the generic lemmas every component theory uses.

  \<^item> Machine integers keep the width the C code gives them (\<open>shared/types.h\<close>): \<open>uint8_t\<close> is
    \<open>8 word\<close> and so on.  \<open>+\<close>, \<open>-\<close> and \<open>*\<close> wrap around; \<open>unat\<close> reads the unsigned value.
  \<^item> A C function that can stop without returning (a panic that spins for ever, a dereference
    of the null pointer, a loop that has not ended when the fuel is spent) returns a value of
    \<open>fault + 'a\<close>; \<open>bindE\<close> sequences two such computations.
  \<^item> The collections \<open>word_nat\<close> (facts that move word arithmetic to \<open>nat\<close>) and \<open>mem_simps\<close>
    (facts on byte memories) are the hints the component proofs give to the simplifier.
\<close>

unbundle bit_operations_syntax

named_theorems word_nat \<open>facts that read word arithmetic as arithmetic on nat\<close>
named_theorems mem_simps \<open>facts on loads from and stores into a byte memory\<close>

subsection \<open>Integers of the C code\<close>

type_synonym u8 = "8 word"
type_synonym u16 = "16 word"
type_synonym u32 = "32 word"
type_synonym u64 = "64 word"

text \<open>A C truth value: \<open>bool\<close> of \<open>types.h\<close> is an unsigned int, and comparisons yield 0 or 1.\<close>

definition c_bool :: "bool \<Rightarrow> u32" where
  "c_bool b = (if b then 1 else 0)"

lemma c_bool_simps [simp]: "c_bool True = 1" "c_bool False = 0"
  by (simp_all add: c_bool_def)

lemma c_bool_eq_iff [simp]: "c_bool b = 1 \<longleftrightarrow> b" "c_bool b = 0 \<longleftrightarrow> \<not> b"
  by (simp_all add: c_bool_def)

lemma c_bool_neq_0 [simp]: "c_bool b \<noteq> 0 \<longleftrightarrow> b" "0 < c_bool b \<longleftrightarrow> b"
  by (simp_all add: c_bool_def)

subsection \<open>Computations that may fault\<close>

datatype fault =
    NullDeref             \<comment> \<open>a read or write through the null pointer\<close>
  | WildDeref             \<comment> \<open>a read or write through a pointer that holds no object\<close>
  | Uninit              \<comment> \<open>a read of a variable that was never assigned\<close>
  | Panic string          \<comment> \<open>\<open>panic\<close> or \<open>panic_with_info\<close>: reports and spins for ever\<close>
  | OutOfFuel             \<comment> \<open>the loop has not ended within the fuel given\<close>

definition bindE :: "fault + 'a \<Rightarrow> ('a \<Rightarrow> fault + 'b) \<Rightarrow> fault + 'b" where
  "bindE r f = (case r of Inl e \<Rightarrow> Inl e | Inr a \<Rightarrow> f a)"

lemma bindE_simps [simp]:
  "bindE (Inl e) f = Inl e" "bindE (Inr a) f = f a"
  by (simp_all add: bindE_def)

lemma bindE_eq_Inr: "bindE r f = Inr b \<longleftrightarrow> (\<exists>a. r = Inr a \<and> f a = Inr b)"
  by (cases r) auto

lemma bindE_InrE [elim!]:
  assumes "bindE r f = Inr b"
  obtains a where "r = Inr a" "f a = Inr b"
  using assms by (auto simp: bindE_eq_Inr)

subsection \<open>Words and natural numbers\<close>

lemma unat_of_nat_lt [simp, word_nat]:
  "n < 2 ^ LENGTH('a) \<Longrightarrow> unat (of_nat n :: 'a::len word) = n"
  by (simp add: unat_of_nat take_bit_nat_eq_self)

lemma unat_of_nat_self: "of_nat (unat w) = (w :: 'a::len word)"
  by simp

lemma unat_lt_2p: "unat (w :: 'a::len word) < 2 ^ LENGTH('a)"
  by (rule unsigned_less)

lemma unat_le_64: "unat (w :: u64) \<le> 2 ^ 64"
  by (rule order_less_imp_le, rule order_less_le_trans [OF unat_lt_2p]) simp

lemma of_nat_inj_word:
  assumes "(of_nat m :: 'a::len word) = of_nat n" "m < 2 ^ LENGTH('a)" "n < 2 ^ LENGTH('a)"
  shows "m = n"
  using assms by (metis unat_of_nat_lt)

lemma unat_add_small [word_nat]:
  "unat (a :: 'a::len word) + unat b < 2 ^ LENGTH('a) \<Longrightarrow> unat (a + b) = unat a + unat b"
  by (simp add: unat_word_ariths)

lemma unat_add_1 [word_nat]:
  "unat (a :: 'a::len word) + 1 < 2 ^ LENGTH('a) \<Longrightarrow> unat (a + 1) = unat a + 1"
  by (simp add: unat_word_ariths unat_1)

lemma unat_Suc_less [word_nat]:
  assumes "(a :: 'a::len word) < c"
  shows "unat (a + 1) = Suc (unat a)"
proof -
  have "unat a < unat c" using assms by (simp add: word_less_nat_alt)
  then have "unat a + 1 < 2 ^ LENGTH('a)" using unat_lt_2p [of c] by linarith
  then show ?thesis using unat_add_1 [of a] by simp
qed

lemma unat_mult_small [word_nat]:
  "unat (a :: 'a::len word) * unat b < 2 ^ LENGTH('a) \<Longrightarrow> unat (a * b) = unat a * unat b"
  by (simp add: unat_word_ariths)

lemma unat_sub_small [word_nat]:
  "b \<le> a \<Longrightarrow> unat (a - b :: 'a::len word) = unat a - unat b"
  by (rule unat_sub)

lemma unat_add_cases:
  "unat (a + b :: 'a::len word) =
     (if unat a + unat b < 2 ^ LENGTH('a) then unat a + unat b
      else unat a + unat b - 2 ^ LENGTH('a))"
proof -
  have "unat a + unat b < 2 ^ LENGTH('a) + 2 ^ LENGTH('a)"
    by (rule add_strict_mono) (rule unat_lt_2p)+
  then show ?thesis
    by (simp add: unat_word_ariths mod_if) 
qed

lemma unat_add_le: "unat (a + b :: 'a::len word) \<le> unat a + unat b"
  by (simp add: unat_word_ariths)

lemma unat_diff_swap:
  assumes "(a :: 'a::len word) \<noteq> b"
  shows "unat (a - b) + unat (b - a) = 2 ^ LENGTH('a)"
proof -
  have "unat (a - b) \<noteq> 0" using assms by (simp add: unat_eq_0)
  moreover have "unat ((a - b) + (b - a)) = 0" by simp
  ultimately show ?thesis
    using unat_lt_2p [of "a - b"] unat_lt_2p [of "b - a"]
    by (simp only: unat_add_cases split: if_splits)
qed

lemma unat_mod_word [word_nat]: "unat (a mod b :: 'a::len word) = unat a mod unat b"
  by (rule unat_mod)

lemma unat_div_word [word_nat]: "unat (a div b :: 'a::len word) = unat a div unat b"
  by (rule unat_div)

lemma unat_ucast_mod [word_nat]: "unat (ucast (w :: 'a::len word) :: 'b::len word) = unat w mod 2 ^ LENGTH('b)"
  by (simp only: unsigned_ucast_eq) (rule take_bit_eq_mod)

lemma word_neq_0_unat [word_nat]: "(w :: 'a::len word) \<noteq> 0 \<longleftrightarrow> 0 < unat w"
  by (simp add: unat_gt_0)

subsection \<open>Masks and alignment\<close>

lemma and_not_mask_push: "w AND NOT (mask n) = push_bit n (drop_bit n (w :: 'a::len word))"
  by (rule bit_word_eqI) (auto simp: bit_simps)

lemma unat_and_not_mask [word_nat]:
  "unat (w AND NOT (mask n) :: 'a::len word) = unat w div 2 ^ n * 2 ^ n"
proof -
  have "unat w div 2 ^ n * 2 ^ n \<le> unat w" by simp
  then have "unat w div 2 ^ n * 2 ^ n < 2 ^ LENGTH('a)"
    using unat_lt_2p [of w] by linarith
  then have "take_bit LENGTH('a) (push_bit n (drop_bit n (unat w))) = unat w div 2 ^ n * 2 ^ n"
    by (simp add: push_bit_eq_mult drop_bit_eq_div take_bit_nat_eq_self)
  moreover have "unat (drop_bit n w) = drop_bit n (unat w)"
    by (rule unat_drop_bit_eq)
  ultimately show ?thesis by (simp only: and_not_mask_push unsigned_push_bit_eq)
qed

lemma unat_and_mask [word_nat]: "unat (w AND mask n :: 'a::len word) = unat w mod 2 ^ n"
  by (simp only: take_bit_eq_mask [symmetric] unsigned_take_bit_eq) (rule take_bit_eq_mod)

lemma mask_numerals:
  "(0xFFF :: 'a::len word) = mask 12" "(0x3F :: 'a::len word) = mask 6"
  "(0x1FF :: 'a::len word) = mask 9" "(0xFF :: 'a::len word) = mask 8"
  by (simp_all add: mask_eq_exp_minus_1)

text \<open>Rounding up to a multiple of the page size, as several allocators do.\<close>

definition round_page :: "u64 \<Rightarrow> u64" where
  "round_page sz = (sz + 0xFFF) AND NOT 0xFFF"

lemma unat_round_page:
  assumes "unat sz + 0xFFF < 2 ^ 64"
  shows "unat (round_page sz) = (unat sz + 0xFFF) div 0x1000 * 0x1000"
proof -
  have "unat (sz + 0xFFF) = unat sz + 0xFFF" using assms by (simp add: unat_add_small)
  then show ?thesis
    by (simp add: round_page_def mask_numerals(1) unat_and_not_mask)
qed

lemma round_page_bounds:
  assumes "unat sz + 0xFFF < 2 ^ 64"
  shows "unat sz \<le> unat (round_page sz)" "unat (round_page sz) < unat sz + 0x1000"
    "0x1000 dvd unat (round_page sz)" "0 < sz \<Longrightarrow> 0x1000 \<le> unat (round_page sz)"
proof -
  have eq: "unat (round_page sz) = (unat sz + 0xFFF) div 0x1000 * 0x1000"
    by (rule unat_round_page [OF assms])
  have split: "(unat sz + 0xFFF) div 0x1000 * 0x1000 + (unat sz + 0xFFF) mod 0x1000 = unat sz + 0xFFF"
    and lt: "(unat sz + 0xFFF) mod 0x1000 < 0x1000" by (rule div_mult_mod_eq, simp)
  show "unat sz \<le> unat (round_page sz)" using split lt unfolding eq by linarith
  show "unat (round_page sz) < unat sz + 0x1000" using split unfolding eq by linarith
  show dvd: "0x1000 dvd unat (round_page sz)" unfolding eq by (rule dvd_triv_right)
  assume "0 < sz"
  then have "0 < unat sz" by (simp add: word_less_nat_alt)
  with \<open>unat sz \<le> unat (round_page sz)\<close> dvd show "0x1000 \<le> unat (round_page sz)"
    by (intro dvd_imp_le) auto
qed

lemma round_page_idem:
  assumes "0x1000 dvd unat sz"
  shows "round_page sz = sz"
proof -
  obtain k where k: "unat sz = 0x1000 * k" using assms by (rule dvdE)
  have "unat sz < 2 ^ 64" using unat_lt_2p [of sz] by simp
  with k have lt: "unat sz + 0xFFF < 2 ^ 64" by simp
  have "unat (round_page sz) = unat sz"
    unfolding unat_round_page [OF lt] k by simp
  then show ?thesis by (simp add: word_unat_eq_iff)
qed

end
