(* ===== verification/Byte_Memory.thy ===== *)
theory Byte_Memory
  imports Prelude
begin

section \<open>Byte-addressed memory\<close>

text \<open>
  The memory the C code reads and writes through raw pointers: a function from 64-bit addresses
  to bytes.  Machine words are stored little-endian, as the AArch64 target does
  (\<open>kernel/memory/memory_access.c\<close>).  \<open>store_bytes\<close> and \<open>load_bytes\<close> are the two primitives; the
  typed accesses are defined through the codec \<open>le_bytes\<close>/\<open>of_le\<close>.  Addresses wrap around at
  \<open>2 ^ 64\<close>, so a region is a start address and a length and membership is decided on the
  (wrapping) difference to the start.
\<close>

type_synonym mem = "u64 \<Rightarrow> u8"

subsection \<open>The little-endian codec\<close>

definition le_bytes :: "nat \<Rightarrow> 'a::len word \<Rightarrow> u8 list" where
  "le_bytes n w = map (\<lambda>i. ucast (drop_bit (8 * i) w)) [0..<n]"

fun of_le :: "u8 list \<Rightarrow> 'a::len word" where
  "of_le [] = 0"
| "of_le (b # bs) = ucast b OR push_bit 8 (of_le bs)"

lemma length_le_bytes [simp]: "length (le_bytes n w) = n"
  by (simp add: le_bytes_def)

lemma nth_le_bytes [simp]: "i < n \<Longrightarrow> le_bytes n w ! i = ucast (drop_bit (8 * i) w)"
  by (simp add: le_bytes_def)

lemma bit_of_le:
  "bit (of_le bs :: 'a::len word) i \<longleftrightarrow>
     i < LENGTH('a) \<and> i div 8 < length bs \<and> bit (bs ! (i div 8)) (i mod 8)"
proof (induction bs arbitrary: i)
  case Nil
  then show ?case by simp
next
  case (Cons b bs)
  show ?case
  proof (cases "i < 8")
    case True
    then show ?thesis by (auto simp: bit_simps)
  next
    case False
    then have eq: "i div 8 = Suc ((i - 8) div 8)" "i mod 8 = (i - 8) mod 8"
      by (auto simp: div_if [of 8 i] le_mod_geq)
    show ?thesis
      using False unfolding eq by (auto simp: bit_simps Cons.IH dest: bit_imp_le_length)
  qed
qed

lemma of_le_le_bytes [simp]:
  assumes "LENGTH('a) = 8 * n"
  shows "of_le (le_bytes n (w :: 'a::len word)) = w"
proof (rule bit_word_eqI)
  fix i assume "i < LENGTH('a)"
  with assms have "i div 8 < n" by auto
  moreover have "8 * (i div 8) + i mod 8 = i" by simp
  ultimately show "bit (of_le (le_bytes n w) :: 'a word) i \<longleftrightarrow> bit w i"
    using \<open>i < LENGTH('a)\<close> by (simp add: bit_of_le bit_simps)
qed

lemma le_bytes_of_le [simp]:
  assumes "LENGTH('a) = 8 * length bs" "n = length bs"
  shows "le_bytes n (of_le bs :: 'a::len word) = bs"
proof (rule nth_equalityI)
  show "length (le_bytes n (of_le bs :: 'a word)) = length bs"
    using assms by simp
next
  fix i assume "i < length (le_bytes n (of_le bs :: 'a word))"
  with assms have i: "i < length bs" by simp
  show "le_bytes n (of_le bs :: 'a word) ! i = bs ! i"
  proof (rule bit_word_eqI)
    fix j assume "j < LENGTH(8)"
    with i assms show "bit (le_bytes n (of_le bs :: 'a word) ! i) j \<longleftrightarrow> bit (bs ! i) j"
      by (simp add: bit_simps bit_of_le)
  qed
qed

lemma of_le_replicate_0 [simp]: "of_le (replicate n 0) = 0"
  by (induction n) auto

lemma of_le_append:
  "(of_le (xs @ ys) :: 'a::len word) = of_le xs OR push_bit (8 * length xs) (of_le ys)"
proof (rule bit_word_eqI)
  fix i assume i: "i < LENGTH('a)"
  show "bit (of_le (xs @ ys) :: 'a word) i \<longleftrightarrow> bit (of_le xs OR push_bit (8 * length xs) (of_le ys) :: 'a word) i"
  proof (cases "i < 8 * length xs")
    case True
    then have "i div 8 < length xs" by (simp add: less_mult_imp_div_less mult.commute)
    with True i show ?thesis by (auto simp: bit_or_iff bit_push_bit_iff bit_of_le nth_append)
  next
    case False
    define j where "j = i - 8 * length xs"
    have j: "i = j + 8 * length xs" using False by (simp add: j_def)
    have d: "i div 8 = length xs + j div 8" "i mod 8 = j mod 8" by (simp_all add: j)
    show ?thesis using i j
      by (auto simp: bit_or_iff bit_push_bit_iff bit_of_le nth_append d)
  qed
qed

lemma ucast_of_le:
  assumes "8 * length xs \<le> LENGTH('a)" "8 * length xs \<le> LENGTH('b)"
  shows "ucast (of_le xs :: 'a::len word) = (of_le xs :: 'b::len word)"
proof (rule bit_word_eqI)
  fix i assume "i < LENGTH('b)"
  moreover have "i < LENGTH('a)" if "i div 8 < length xs" using that assms by linarith
  ultimately show "bit (ucast (of_le xs :: 'a word) :: 'b word) i \<longleftrightarrow> bit (of_le xs :: 'b word) i"
    by (auto simp: bit_ucast_iff bit_of_le)
qed

subsection \<open>Byte swapping: the compiler builtins the code uses\<close>

definition bswap16 :: "u16 \<Rightarrow> u16" where
  "bswap16 w = of_le (rev (le_bytes 2 w))"

definition bswap32 :: "u32 \<Rightarrow> u32" where
  "bswap32 w = of_le (rev (le_bytes 4 w))"

definition bswap64 :: "u64 \<Rightarrow> u64" where
  "bswap64 w = of_le (rev (le_bytes 8 w))"

lemma bswap_bswap [simp]:
  "bswap16 (bswap16 a) = a" "bswap32 (bswap32 b) = b" "bswap64 (bswap64 c) = c"
  by (simp_all add: bswap16_def bswap32_def bswap64_def)

lemma bswap_eq_iff [simp]:
  "bswap16 a = bswap16 a' \<longleftrightarrow> a = a'" "bswap32 b = bswap32 b' \<longleftrightarrow> b = b'"
  by (metis bswap_bswap)+

lemma le_bytes_bswap [simp]:
  "le_bytes 2 (bswap16 a) = rev (le_bytes 2 a)"
  "le_bytes 4 (bswap32 b) = rev (le_bytes 4 b)"
  "le_bytes 8 (bswap64 c) = rev (le_bytes 8 c)"
  by (simp_all add: bswap16_def bswap32_def bswap64_def)

subsection \<open>Regions\<close>

definition in_region :: "u64 \<Rightarrow> nat \<Rightarrow> u64 \<Rightarrow> bool" where
  "in_region a n x \<longleftrightarrow> unat (x - a) < n"

definition disj_regions :: "u64 \<Rightarrow> nat \<Rightarrow> u64 \<Rightarrow> nat \<Rightarrow> bool" where
  "disj_regions a n b k \<longleftrightarrow> n \<le> unat (b - a) \<and> k \<le> unat (a - b)"

lemma disj_regions_commute: "disj_regions a n b k \<longleftrightarrow> disj_regions b k a n"
  by (auto simp: disj_regions_def)

lemma disj_regionsD:
  assumes "disj_regions a n b k" "in_region a n x"
  shows "\<not> in_region b k x"
proof
  assume "in_region b k x"
  with assms have n: "unat (x - a) < n" "n \<le> unat (b - a)"
    and k: "unat (x - b) < k" "k \<le> unat (a - b)"
    by (auto simp: in_region_def disj_regions_def)
  have eq: "b - a = (x - a) - (x - b)" "a - b = (x - b) - (x - a)" by simp_all
  show False
  proof (cases "x - b \<le> x - a")
    case True
    then have "unat (b - a) = unat (x - a) - unat (x - b)" by (metis eq(1) unat_sub)
    with n show False by simp
  next
    case False
    then have "unat (a - b) = unat (x - b) - unat (x - a)" by (metis eq(2) unat_sub linear)
    with k show False by simp
  qed
qed

lemma in_region_sub:
  assumes "in_region a' n' x" "unat (a' - a) + n' \<le> n"
  shows "in_region a n x"
proof -
  have "unat (x - a) \<le> unat (x - a') + unat (a' - a)"
    using unat_add_le [of "x - a'" "a' - a"] by simp
  with assms show ?thesis by (simp add: in_region_def)
qed

lemma disj_regions_sub:
  assumes "disj_regions a n b k" "unat (a' - a) + n' \<le> n" "unat (b' - b) + k' \<le> k" "0 < n'" "0 < k'"
  shows "disj_regions a' n' b' k'"
proof -
  have "in_region a' n' a'" "in_region b' k' b'" using assms(4,5) by (simp_all add: in_region_def)
  then have "\<not> in_region b' k' a'" "\<not> in_region a' n' b'"
    using in_region_sub [OF _ assms(2)] in_region_sub [OF _ assms(3)] disj_regionsD [OF assms(1)]
    by blast+
  then show ?thesis by (auto simp: disj_regions_def in_region_def)
qed

subsection \<open>Loads and stores\<close>

definition store_bytes :: "mem \<Rightarrow> u64 \<Rightarrow> u8 list \<Rightarrow> mem" where
  "store_bytes m a bs = (\<lambda>x. if unat (x - a) < length bs then bs ! unat (x - a) else m x)"

definition load_bytes :: "mem \<Rightarrow> u64 \<Rightarrow> nat \<Rightarrow> u8 list" where
  "load_bytes m a n = map (\<lambda>i. m (a + of_nat i)) [0..<n]"

definition write8 :: "mem \<Rightarrow> u64 \<Rightarrow> u8 \<Rightarrow> mem" where
  "write8 m a v = m(a := v)"

definition read16 :: "mem \<Rightarrow> u64 \<Rightarrow> u16" where
  "read16 m a = of_le (load_bytes m a 2)"

definition write16 :: "mem \<Rightarrow> u64 \<Rightarrow> u16 \<Rightarrow> mem" where
  "write16 m a v = store_bytes m a (le_bytes 2 v)"

definition read32 :: "mem \<Rightarrow> u64 \<Rightarrow> u32" where
  "read32 m a = of_le (load_bytes m a 4)"

definition write32 :: "mem \<Rightarrow> u64 \<Rightarrow> u32 \<Rightarrow> mem" where
  "write32 m a v = store_bytes m a (le_bytes 4 v)"

definition read64 :: "mem \<Rightarrow> u64 \<Rightarrow> u64" where
  "read64 m a = of_le (load_bytes m a 8)"

definition write64 :: "mem \<Rightarrow> u64 \<Rightarrow> u64 \<Rightarrow> mem" where
  "write64 m a v = store_bytes m a (le_bytes 8 v)"

lemma length_load_bytes [simp, mem_simps]: "length (load_bytes m a n) = n"
  by (simp add: load_bytes_def)

lemma nth_load_bytes [simp, mem_simps]: "i < n \<Longrightarrow> load_bytes m a n ! i = m (a + of_nat i)"
  by (simp add: load_bytes_def)

lemma load_bytes_0 [simp, mem_simps]: "load_bytes m a 0 = []"
  by (simp add: load_bytes_def)

lemma store_bytes_Nil [simp, mem_simps]: "store_bytes m a [] = m"
  by (simp add: store_bytes_def)

lemma write8_store: "write8 m a v = store_bytes m a [v]"
proof
  fix x show "write8 m a v x = store_bytes m a [v] x"
    by (cases "x = a") (auto simp: write8_def store_bytes_def unat_eq_0)
qed

lemma load_store_same [simp, mem_simps]:
  "length bs \<le> 2 ^ 64 \<Longrightarrow> n = length bs \<Longrightarrow> load_bytes (store_bytes m a bs) a n = bs"
  by (rule nth_equalityI) (auto simp: store_bytes_def)

lemma store_bytes_outside [mem_simps]:
  "\<not> in_region a (length bs) x \<Longrightarrow> store_bytes m a bs x = m x"
  by (simp add: store_bytes_def in_region_def)

lemma in_region_offset: "i < n \<Longrightarrow> i < 2 ^ 64 \<Longrightarrow> in_region a n (a + of_nat i)"
  by (simp add: in_region_def)

lemma load_bytes_cong:
  assumes "\<And>x. in_region a n x \<Longrightarrow> m x = m' x" "n \<le> 2 ^ 64"
  shows "load_bytes m a n = load_bytes m' a n"
  using assms by (intro nth_equalityI) (auto simp: in_region_offset)

lemma load_store_disj [mem_simps]:
  assumes "disj_regions a n b (length bs)" "n \<le> 2 ^ 64"
  shows "load_bytes (store_bytes m b bs) a n = load_bytes m a n"
  using assms by (intro load_bytes_cong) (auto simp: store_bytes_outside dest: disj_regionsD)

lemma load_bytes_append:
  "load_bytes m a (n + k) = load_bytes m a n @ load_bytes m (a + of_nat n) k"
  by (rule nth_equalityI) (auto simp: nth_append of_nat_diff)

lemma store_store_append:
  assumes "length bs + length cs \<le> 2 ^ 64"
  shows "store_bytes (store_bytes m a bs) (a + of_nat (length bs)) cs = store_bytes m a (bs @ cs)"
proof
  fix x
  define d where "d = unat (x - a)"
  have d: "x - a = of_nat d" "d < 2 ^ 64"
    using unat_lt_2p [of "x - a"] by (simp_all add: d_def)
  have eq: "x - (a + of_nat (length bs)) = of_nat d - of_nat (length bs)"
    using d(1) by (simp add: algebra_simps)
  show "store_bytes (store_bytes m a bs) (a + of_nat (length bs)) cs x
      = store_bytes m a (bs @ cs) x"
  proof (cases "d < length bs")
    case True
    have "(of_nat d - of_nat (length bs) :: u64) = of_nat (2 ^ 64 + d - length bs)"
      using True assms by (simp add: of_nat_diff)
    moreover have "unat (of_nat (2 ^ 64 + d - length bs) :: u64) = 2 ^ 64 + d - length bs"
      using True assms by (intro unat_of_nat_lt) simp
    ultimately have "unat (x - (a + of_nat (length bs))) = 2 ^ 64 + d - length bs"
      by (simp only: eq)
    moreover have "\<not> 2 ^ 64 + d - length bs < length cs" using assms by arith
    ultimately show ?thesis using True
      by (simp add: store_bytes_def nth_append flip: d_def)
  next
    case False
    have "(of_nat d - of_nat (length bs) :: u64) = of_nat (d - length bs)"
      using False by (simp add: of_nat_diff)
    moreover have "unat (of_nat (d - length bs) :: u64) = d - length bs"
      using d(2) by (intro unat_of_nat_lt) simp
    ultimately have "unat (x - (a + of_nat (length bs))) = d - length bs"
      by (simp only: eq)
    with False show ?thesis
      by (auto simp: store_bytes_def nth_append simp flip: d_def)
  qed
qed

lemma load_bytes_1 [simp]: "load_bytes m a (Suc 0) = [m a]"
  by (simp add: load_bytes_def)

lemma bswap_read:
  "bswap16 (read16 m a) = of_le (rev (load_bytes m a 2))"
  "bswap32 (read32 m a) = of_le (rev (load_bytes m a 4))"
  "bswap64 (read64 m a) = of_le (rev (load_bytes m a 8))"
  by (simp_all add: bswap16_def bswap32_def bswap64_def read16_def read32_def read64_def)

lemma read_write_same [simp, mem_simps]:
  "read16 (write16 m a v) a = v" "read32 (write32 m a w) a = w" "read64 (write64 m a x) a = x"
  by (simp_all add: read16_def write16_def read32_def write32_def read64_def write64_def)

lemma read64_store_disj [mem_simps]:
  "disj_regions a 8 b (length bs) \<Longrightarrow> read64 (store_bytes m b bs) a = read64 m a"
  by (simp add: read64_def load_store_disj)

lemma read64_write64_disj [mem_simps]:
  "disj_regions a 8 b 8 \<Longrightarrow> read64 (write64 m b v) a = read64 m a"
  by (simp add: write64_def read64_store_disj)

lemma load_bytes_write64_disj [mem_simps]:
  "disj_regions a n b 8 \<Longrightarrow> n \<le> 2 ^ 64 \<Longrightarrow> load_bytes (write64 m b v) a n = load_bytes m a n"
  by (simp add: write64_def load_store_disj)

end
