(* ===== verification/Fifo.thy ===== *)
theory Fifo
  imports Byte_Memory
begin

section \<open>Circular storage and the FIFO interface\<close>

text \<open>
  Both bounded queues of \<open>shared/data_struct\<close> keep elements of a fixed byte size in a circular
  array of slots.  This theory holds what they share: the list of slot indices in use, the bytes
  those slots hold, and the interface \<open>bounded_fifo\<close> that both implementations satisfy, with the
  fact a client needs: no script of pushes and pops tells the queue from a list.
\<close>

subsection \<open>Slot indices\<close>

definition ring_idx :: "nat \<Rightarrow> nat \<Rightarrow> nat \<Rightarrow> nat list" where
  "ring_idx t n c = map (\<lambda>i. (t + i) mod c) [0..<n]"

lemma ring_idx_0 [simp]: "ring_idx t 0 c = []"
  by (simp add: ring_idx_def)

lemma length_ring_idx [simp]: "length (ring_idx t n c) = n"
  by (simp add: ring_idx_def)

lemma ring_idx_snoc: "ring_idx t (Suc n) c = ring_idx t n c @ [(t + n) mod c]"
  by (simp add: ring_idx_def)

lemma ring_idx_Cons: "t < c \<Longrightarrow> ring_idx t (Suc n) c = t # ring_idx (Suc t mod c) n c"
  by (rule nth_equalityI) (auto simp: ring_idx_def nth_Cons' mod_add_left_eq simp del: upt_Suc)

lemma set_ring_idx_less: "0 < c \<Longrightarrow> i \<in> set (ring_idx t n c) \<Longrightarrow> i < c"
  by (auto simp: ring_idx_def)

lemma ring_idx_fresh:
  assumes "n < c"
  shows "(t + n) mod c \<notin> set (ring_idx t n c)"
proof
  assume "(t + n) mod c \<in> set (ring_idx t n c)"
  then obtain i where i: "i < n" and "(t + n) mod c = (t + i) mod c"
    by (auto simp: ring_idx_def)
  then have "c dvd (t + n) - (t + i)" by (simp add: mod_eq_dvd_iff_nat)
  with i assms show False by (auto dest: dvd_imp_le)
qed

text \<open>The number of slots in use, read off the two indices and the full flag.\<close>

definition ring_count :: "nat \<Rightarrow> nat \<Rightarrow> nat \<Rightarrow> bool \<Rightarrow> nat" where
  "ring_count h t c full = (if full then c else (h + c - t) mod c)"

lemma ring_count_le: "0 < c \<Longrightarrow> ring_count h t c full \<le> c"
  by (simp add: ring_count_def less_imp_le_nat)

lemma ring_count_head:
  assumes "h < c" "t < c" "full \<Longrightarrow> h = t"
  shows "(t + ring_count h t c full) mod c = h"
  using assms by (auto simp: ring_count_def mod_if)

lemma ring_count_0_iff:
  "h < c \<Longrightarrow> t < c \<Longrightarrow> ring_count h t c full = 0 \<longleftrightarrow> \<not> full \<and> h = t"
  by (auto simp: ring_count_def mod_if)

lemma ring_count_full_iff:
  "h < c \<Longrightarrow> t < c \<Longrightarrow> ring_count h t c full = c \<longleftrightarrow> full"
  by (auto simp: ring_count_def mod_if)

lemma ring_count_push:
  assumes "h < c" "t < c"
  shows "ring_count (Suc h mod c) t c (Suc h mod c = t) = Suc (ring_count h t c False)"
  using assms by (auto simp: ring_count_def mod_if)

lemma ring_count_pop:
  assumes "h < c" "t < c" "full \<Longrightarrow> h = t" "ring_count h t c full \<noteq> 0"
  shows "Suc (ring_count h (Suc t mod c) c False) = ring_count h t c full"
  using assms by (auto simp: ring_count_def mod_if split: if_splits)

subsection \<open>The bytes of the slots\<close>

definition slot :: "u64 \<Rightarrow> u64 \<Rightarrow> nat \<Rightarrow> u64" where
  "slot base es i = base + of_nat i * es"

definition slots :: "mem \<Rightarrow> u64 \<Rightarrow> u64 \<Rightarrow> nat list \<Rightarrow> u8 list list" where
  "slots m base es is = map (\<lambda>i. load_bytes m (slot base es i) (unat es)) is"

lemma slots_simps [simp]:
  "slots m base es [] = []"
  "slots m base es (i # is) = load_bytes m (slot base es i) (unat es) # slots m base es is"
  "slots m base es (is @ js) = slots m base es is @ slots m base es js"
  by (simp_all add: slots_def)

lemma length_slots [simp]: "length (slots m base es is) = length is"
  by (simp add: slots_def)

lemma slot_offset: "slot base es i = base + of_nat (i * unat es)"
  by (simp add: slot_def)

lemma slot_in_storage:
  assumes "i < c" "c * unat es \<le> 2 ^ 64" "0 < es"
  shows "unat (slot base es i - base) + unat es \<le> c * unat es"
proof -
  have le: "i * unat es + unat es \<le> c * unat es"
    using assms(1) by (metis add.commute mult_Suc mult_le_mono1 Suc_leI)
  moreover have "0 < unat es" using assms(3) by (simp add: word_less_nat_alt)
  ultimately have "i * unat es < 2 ^ 64" using assms(2) by linarith
  then have "unat (slot base es i - base) = i * unat es"
    unfolding slot_offset by (simp del: of_nat_mult)
  with le show ?thesis by simp
qed

lemma slots_disj:
  assumes "i < c" "j < c" "i \<noteq> j" "c * unat es \<le> 2 ^ 64"
  shows "disj_regions (slot base es i) (unat es) (slot base es j) (unat es)"
proof -
  have apart: "unat es \<le> unat (slot base es b - slot base es a) \<and>
      unat es \<le> unat (slot base es a - slot base es b)" if "a < b" "b < c" for a b
  proof -
    have "slot base es b - slot base es a = of_nat ((b - a) * unat es)"
      using that by (simp add: slot_def of_nat_diff left_diff_distrib)
    moreover have "a * unat es + (b - a) * unat es = b * unat es"
      using that by (simp flip: add_mult_distrib)
    moreover have "b * unat es + unat es \<le> 2 ^ 64"
      using that assms(4) by (metis add.commute mult_Suc mult_le_mono1 Suc_leI order_trans)
    moreover have "unat es \<le> (b - a) * unat es" using that by (cases "b - a") auto
    ultimately have lt: "(b - a) * unat es < 2 ^ 64 \<or> unat es = 0"
      and d: "slot base es b - slot base es a = of_nat ((b - a) * unat es)"
      and le: "unat es \<le> (b - a) * unat es" and sum: "(b - a) * unat es + unat es \<le> 2 ^ 64"
      by (linarith | simp)+
    show ?thesis
    proof (cases "unat es = 0")
      case False
      with lt have u: "unat (slot base es b - slot base es a) = (b - a) * unat es"
        unfolding d by (simp del: of_nat_mult)
      moreover have "unat (slot base es a - slot base es b) = 2 ^ 64 - (b - a) * unat es"
        using u False le unat_diff_swap [of "slot base es b" "slot base es a"] by force
      ultimately show ?thesis using le sum by simp
    qed simp
  qed
  then show ?thesis
    using assms by (cases i j rule: linorder_cases) (auto simp: disj_regions_def)
qed

lemma slots_store_other:
  assumes "j \<notin> set is" "\<forall>i\<in>set is. i < c" "j < c" "c * unat es \<le> 2 ^ 64" "length bs = unat es"
  shows "slots (store_bytes m (slot base es j) bs) base es is = slots m base es is"
proof -
  have "load_bytes (store_bytes m (slot base es j) bs) (slot base es i) (unat es)
      = load_bytes m (slot base es i) (unat es)" if "i \<in> set is" for i
    using assms that unat_lt_2p [of es]
    by (intro load_store_disj) (auto intro!: slots_disj [where c = c])
  then show ?thesis by (simp add: slots_def)
qed

lemma slots_store_outside:
  assumes "disj_regions p k base (c * unat es)" "\<forall>i\<in>set is. i < c" "c * unat es \<le> 2 ^ 64"
    "length bs = k"
  shows "slots (store_bytes m p bs) base es is = slots m base es is"
proof (cases "es = 0 \<or> k = 0")
  case False
  have "load_bytes (store_bytes m p bs) (slot base es i) (unat es)
      = load_bytes m (slot base es i) (unat es)" if i: "i \<in> set is" for i
  proof (rule load_store_disj)
    have "0 < es" "0 < unat es" using False by (simp_all add: word_neq_0_conv unat_gt_0)
    with False assms i show "disj_regions (slot base es i) (unat es) p (length bs)"
      by (intro disj_regions_sub [OF assms(1) [THEN disj_regions_commute [THEN iffD1]]])
        (auto intro: slot_in_storage)
  qed (use unat_lt_2p [of es] in simp)
  then show ?thesis by (simp add: slots_def)
qed (use assms(4) in \<open>auto simp: slots_def\<close>)

lemma slots_cong:
  assumes "\<And>x. in_region base (c * unat es) x \<Longrightarrow> m x = m' x" "\<And>i. i \<in> set is \<Longrightarrow> i < c"
    "c * unat es \<le> 2 ^ 64"
  shows "slots m base es is = slots m' base es is"
proof (cases "es = 0")
  case False
  have "load_bytes m (slot base es i) (unat es) = load_bytes m' (slot base es i) (unat es)"
    if i: "i \<in> set is" for i
  proof (rule load_bytes_cong)
    fix x assume x: "in_region (slot base es i) (unat es) x"
    have "in_region base (c * unat es) x"
      using False assms(2) [OF i] assms(3)
      by (intro in_region_sub [OF x] slot_in_storage) (simp_all add: word_neq_0_conv)
    then show "m x = m' x" by (rule assms(1))
  qed (use unat_lt_2p [of es] in simp)
  then show ?thesis by (simp add: slots_def)
qed (simp add: slots_def)

lemma slot_apart:
  assumes "disj_regions p k base (c * unat es)" "i < c" "c * unat es \<le> 2 ^ 64" "0 < k \<or> k = unat es"
  shows "disj_regions p k (slot base es i) (unat es)"
proof (cases "es = 0")
  case False
  then have "0 < es" "0 < unat es" by (simp_all add: word_neq_0_conv unat_gt_0)
  with assms show ?thesis
    by (intro disj_regions_sub [OF assms(1)]) (auto intro: slot_in_storage)
qed (use assms in \<open>auto simp: disj_regions_def slot_def\<close>)

subsection \<open>Clients of a queue: a script of operations\<close>

text \<open>
  A client pushes the objects at pointers of its choice and pops into the object at one pointer \<open>q\<close>, in any order.
  \<open>run_queue\<close> collects what it sees: the value that each call returns, and the object that a pop delivered.
  \<open>spec_queue\<close> is what a queue of at most \<open>n\<close> elements answers, on a list.
\<close>

datatype 'p queue_op = Enq 'p | Deq

fun queue_ptrs :: "'p queue_op list \<Rightarrow> 'p list" where
  "queue_ptrs [] = []"
| "queue_ptrs (Enq p # ops) = p # queue_ptrs ops"
| "queue_ptrs (Deq # ops) = queue_ptrs ops"

fun run_queue ::
    "('s \<Rightarrow> 'p \<Rightarrow> fault + (u32 \<times> 's)) \<Rightarrow> ('s \<Rightarrow> 'p \<Rightarrow> fault + (u32 \<times> 's)) \<Rightarrow> ('s \<Rightarrow> 'p \<Rightarrow> 'e) \<Rightarrow> 'p \<Rightarrow> 'p queue_op list
     \<Rightarrow> 's \<Rightarrow> fault + (u32 \<times> 'e option) list" where
  "run_queue enq deq val q [] s = Inr []"
| "run_queue enq deq val q (Enq p # ops) s =
     bindE (enq s p) (\<lambda>(r, s). bindE (run_queue enq deq val q ops s) (\<lambda>seen. Inr ((r, None) # seen)))"
| "run_queue enq deq val q (Deq # ops) s =
     bindE (deq s q) (\<lambda>(r, s). bindE (run_queue enq deq val q ops s) (\<lambda>seen.
       Inr ((r, if r = 0 then None else Some (val s q)) # seen)))"

fun spec_queue :: "nat \<Rightarrow> ('p \<Rightarrow> 'e) \<Rightarrow> 'p queue_op list \<Rightarrow> 'e list \<Rightarrow> (u32 \<times> 'e option) list" where
  "spec_queue n v [] es = []"
| "spec_queue n v (Enq p # ops) es =
     (if length es < n then (1, None) # spec_queue n v ops (es @ [v p]) else (0, None) # spec_queue n v ops es)"
| "spec_queue n v (Deq # ops) es =
     (case es of [] \<Rightarrow> (0, None) # spec_queue n v ops [] | e # es \<Rightarrow> (1, Some e) # spec_queue n v ops es)"

text \<open>
  The contract.  \<open>val s p\<close> is the object at pointer \<open>p\<close>, \<open>apart s p\<close> says that this object lies outside the storage of the
  queue, \<open>indep p q\<close> that two objects do not overlap.  A push changes no object outside the storage, a pop only those that
  overlap the one it delivers to.
\<close>

locale bounded_fifo =
  fixes invar :: "'s \<Rightarrow> bool"
    and contents :: "'s \<Rightarrow> 'e list"
    and bound :: "'s \<Rightarrow> nat"
    and enq :: "'s \<Rightarrow> 'p \<Rightarrow> fault + (u32 \<times> 's)"
    and deq :: "'s \<Rightarrow> 'p \<Rightarrow> fault + (u32 \<times> 's)"
    and val :: "'s \<Rightarrow> 'p \<Rightarrow> 'e"
    and apart :: "'s \<Rightarrow> 'p \<Rightarrow> bool"
    and indep :: "'p \<Rightarrow> 'p \<Rightarrow> bool"
  assumes bound_ok: "invar s \<Longrightarrow> length (contents s) \<le> bound s"
    and enq_room: "\<lbrakk>invar s; apart s p; length (contents s) < bound s\<rbrakk> \<Longrightarrow>
      \<exists>s'. enq s p = Inr (1, s') \<and> invar s' \<and> contents s' = contents s @ [val s p] \<and> bound s' = bound s
        \<and> (\<forall>r. apart s r \<longrightarrow> apart s' r \<and> val s' r = val s r)"
    and enq_full: "\<lbrakk>invar s; length (contents s) = bound s\<rbrakk> \<Longrightarrow> enq s p = Inr (0, s)"
    and deq_elem: "\<lbrakk>invar s; apart s p; contents s \<noteq> []\<rbrakk> \<Longrightarrow>
      \<exists>s'. deq s p = Inr (1, s') \<and> invar s' \<and> contents s' = tl (contents s) \<and> bound s' = bound s
        \<and> val s' p = hd (contents s) \<and> (\<forall>r. apart s r \<longrightarrow> apart s' r \<and> (indep p r \<longrightarrow> val s' r = val s r))"
    and deq_empty: "\<lbrakk>invar s; contents s = []\<rbrakk> \<Longrightarrow> deq s p = Inr (0, s)"
begin

text \<open>A client cannot tell the queue from a list.\<close>

lemma run_queue_spec:
  "\<lbrakk>invar s; apart s q; \<forall>p\<in>set (queue_ptrs ops). apart s p \<and> indep q p \<and> val s p = v p\<rbrakk> \<Longrightarrow>
   run_queue enq deq val q ops s = Inr (spec_queue (bound s) v ops (contents s))"
proof (induction ops arbitrary: s)
  case (Cons op ops)
  show ?case
  proof (cases op)
    case (Enq p)
    show ?thesis
    proof (cases "length (contents s) < bound s")
      case True
      with Cons.prems Enq obtain s1 where "enq s p = Inr (1, s1)" "invar s1" "contents s1 = contents s @ [v p]"
          "bound s1 = bound s" "\<forall>r. apart s r \<longrightarrow> apart s1 r \<and> val s1 r = val s r"
        using enq_room [of s p] by auto
      with Cons.prems Cons.IH [of s1] True Enq show ?thesis by auto
    next
      case False
      with Cons.prems bound_ok [of s] have "enq s p = Inr (0, s)" by (intro enq_full) auto
      with Cons.prems Cons.IH [of s] False Enq show ?thesis by auto
    qed
  next
    case Deq
    show ?thesis
    proof (cases "contents s")
      case Nil
      with Cons.prems Cons.IH [of s] Deq show ?thesis by (auto simp: deq_empty)
    next
      case (Cons e es)
      with Cons.prems obtain s1 where "deq s q = Inr (1, s1)" "invar s1" "contents s1 = es" "bound s1 = bound s"
          "val s1 q = e" "\<forall>r. apart s r \<longrightarrow> apart s1 r \<and> (indep q r \<longrightarrow> val s1 r = val s r)"
        using deq_elem [of s q] by auto
      with Cons.prems Cons.IH [of s1] Cons Deq show ?thesis by auto
    qed
  qed
qed simp

end

end
