(* ===== verification/Mem_Functions.thy ===== *)
theory Mem_Functions
  imports Byte_Memory
begin

section \<open>memcmp, memset and memcpy (\<open>shared/std/memfunctions.c\<close>)\<close>

text \<open>
  The three routines copy or fill by blocks of four 64-bit words, then by single 64-bit words,
  then by bytes; a \<open>for\<close> loop of the code is a \<open>fold\<close> over its index range.  The lemmas reduce
  them to one store: \<open>memcpy\<close> of disjoint regions stores the bytes of the source, and \<open>memset\<close>
  stores the bytes \<open>memset_bytes\<close> computes (which are \<open>count\<close> copies of one byte only when the
  32-bit value is zero or \<open>count\<close> is below 8).
\<close>

subsection \<open>Definitions\<close>

fun memcmp_loop :: "mem \<Rightarrow> u64 \<Rightarrow> u64 \<Rightarrow> nat \<Rightarrow> int" where
  "memcmp_loop m a b 0 = 0"
| "memcmp_loop m a b (Suc n) =
     (if m a \<noteq> m b then uint (m a) - uint (m b) else memcmp_loop m (a + 1) (b + 1) n)"

definition memcmp :: "mem \<Rightarrow> u64 \<Rightarrow> u64 \<Rightarrow> u64 \<Rightarrow> int" where
  "memcmp m s1 s2 count = memcmp_loop m s1 s2 (unat count)"

definition memset_block :: "u64 \<Rightarrow> mem \<Rightarrow> u64 \<Rightarrow> mem" where
  "memset_block pattern m d64 =
     write64 (write64 (write64 (write64 m d64 pattern) (d64 + 8) pattern) (d64 + 16) pattern)
       (d64 + 24) pattern"

definition memset :: "mem \<Rightarrow> u64 \<Rightarrow> u32 \<Rightarrow> u64 \<Rightarrow> mem" where
  "memset m dest val count =
     (let pattern = push_bit 32 (ucast val) OR ucast val;
          (m1, d64) = fold (\<lambda>_ (m, d64). (memset_block pattern m d64, d64 + 32))
                        [0..<unat (count div 32)] (m, dest);
          remaining = (count mod 32) div 8;
          m2 = fold (\<lambda>i m. write64 m (d64 + of_nat (8 * i)) pattern) [0..<unat remaining] m1;
          d8 = d64 + 8 * remaining;
          byte_val = ucast (val AND 0xFF)
      in fold (\<lambda>i m. write8 m (d8 + of_nat i) byte_val) [0..<unat (count mod 8)] m2)"

definition memcpy_block :: "mem \<Rightarrow> u64 \<Rightarrow> u64 \<Rightarrow> mem" where
  "memcpy_block m d64 s64 =
     (let m = write64 m d64 (read64 m s64);
          m = write64 m (d64 + 8) (read64 m (s64 + 8));
          m = write64 m (d64 + 16) (read64 m (s64 + 16))
      in write64 m (d64 + 24) (read64 m (s64 + 24)))"

definition memcpy :: "mem \<Rightarrow> u64 \<Rightarrow> u64 \<Rightarrow> u64 \<Rightarrow> mem" where
  "memcpy m dest src count =
     (let (m1, d64, s64) =
            fold (\<lambda>_ (m, d64, s64). (memcpy_block m d64 s64, d64 + 32, s64 + 32))
              [0..<unat (count div 32)] (m, dest, src);
          remaining = (count mod 32) div 8;
          m2 = fold (\<lambda>i m. write64 m (d64 + of_nat (8 * i)) (read64 m (s64 + of_nat (8 * i))))
                 [0..<unat remaining] m1;
          d8 = d64 + 8 * remaining;
          s8 = s64 + 8 * remaining
      in fold (\<lambda>i m. write8 m (d8 + of_nat i) (m (s8 + of_nat i))) [0..<unat (count mod 8)] m2)"

subsection \<open>memcmp\<close>

lemma memcmp_loop_0_iff:
  "memcmp_loop m a b n = 0 \<longleftrightarrow> load_bytes m a n = load_bytes m b n"
proof (induction n arbitrary: a b)
  case 0
  then show ?case by simp
next
  case (Suc n)
  have split: "load_bytes m c (Suc n) = m c # load_bytes m (c + 1) n" for c
    using load_bytes_append [of m c 1 n] by simp
  show ?case by (auto simp: Suc.IH split word_uint_eq_iff)
qed

lemma memcmp_loop_antisym: "memcmp_loop m a b n = - memcmp_loop m b a n"
proof (induction n arbitrary: a b)
  case (Suc n)
  show ?case by (simp add: Suc.IH [of "a + 1" "b + 1"])
qed simp

lemma memcmp_loop_bounds: "-255 \<le> memcmp_loop m a b n \<and> memcmp_loop m a b n \<le> 255"
proof (induction n arbitrary: a b)
  case (Suc n)
  have "uint x < 256" "0 \<le> uint x" for x :: u8 using uint_lt2p [of x] by auto
  then have "-255 \<le> uint (m a) - uint (m b)" "uint (m a) - uint (m b) \<le> 255"
    by (smt (verit, best))+
  with Suc show ?case by simp
qed simp

subsection \<open>Chunked writes are one store\<close>

lemma fold_store_chunks:
  assumes "\<And>i. i < n \<Longrightarrow> length (c i) = w" "w * n \<le> 2 ^ 64"
  shows "fold (\<lambda>i m. store_bytes m (d + of_nat (w * i)) (c i)) [0..<n] m
       = store_bytes m d (concat (map c [0..<n]))"
  using assms
proof (induction n)
  case 0
  then show ?case by simp
next
  case (Suc n)
  have len: "length (concat (map c [0..<n])) = w * n"
  proof -
    have "map (length \<circ> c) [0..<n] = replicate n w"
      using Suc.prems(1) by (intro nth_equalityI) auto
    then show ?thesis by (simp add: length_concat sum_list_replicate flip: map_map)
  qed
  have "w * n + w \<le> 2 ^ 64" using Suc.prems(2) by simp
  then show ?case
    using Suc store_store_append [of "concat (map c [0..<n])" "c n" m d] by (simp add: len)
qed

lemma store_load_step:
  assumes "disj_regions d (n + k) s (n + k)" "n + k \<le> 2 ^ 64"
  shows "store_bytes (store_bytes m d (load_bytes m s n)) (d + of_nat n)
           (load_bytes (store_bytes m d (load_bytes m s n)) (s + of_nat n) k)
       = store_bytes m d (load_bytes m s (n + k))"
proof (cases "n = 0 \<or> k = 0")
  case False
  then have n: "n < 2 ^ 64" using assms(2) by simp
  have "disj_regions (s + of_nat n) k d n"
    by (rule disj_regions_sub [OF assms(1) [THEN disj_regions_commute [THEN iffD1]]])
       (use False assms n in auto)
  then have "load_bytes (store_bytes m d (load_bytes m s n)) (s + of_nat n) k
           = load_bytes m (s + of_nat n) k"
    using assms(2) by (simp add: load_store_disj)
  then show ?thesis
    using assms(2) store_store_append [of "load_bytes m s n" "load_bytes m (s + of_nat n) k" m d]
    by (simp add: load_bytes_append)
qed auto

lemma fold_copy_chunks:
  assumes "disj_regions d (w * n) s (w * n)" "w * n \<le> 2 ^ 64" "0 < w"
  shows "fold (\<lambda>i m. store_bytes m (d + of_nat (w * i)) (load_bytes m (s + of_nat (w * i)) w))
           [0..<n] m = store_bytes m d (load_bytes m s (w * n))"
  using assms
proof (induction n)
  case (Suc n)
  have "disj_regions d (w * n) s (w * n)"
    using Suc.prems(1) by (auto simp: disj_regions_def)
  moreover have "disj_regions d (w * n + w) s (w * n + w)" "w * n + w \<le> 2 ^ 64"
    using Suc.prems by (simp_all add: add.commute)
  ultimately show ?case
    using Suc store_load_step [of d "w * n" w s m] by (simp add: add.commute)
qed simp

lemma fold_pointer:
  "fold (\<lambda>_ (m, d). (f m d, d + of_nat w)) [0..<n] (m, d :: u64)
     = (fold (\<lambda>i m. f m (d + of_nat (w * i))) [0..<n] m, d + of_nat (w * n))"
  by (induction n) (simp_all add: algebra_simps)

lemma fold_pointers:
  "fold (\<lambda>_ (m, d, s). (f m d s, d + of_nat w, s + of_nat w)) [0..<n] (m, d :: u64, s :: u64)
     = (fold (\<lambda>i m. f m (d + of_nat (w * i)) (s + of_nat (w * i))) [0..<n] m,
        d + of_nat (w * n), s + of_nat (w * n))"
  by (induction n) (simp_all add: algebra_simps)

lemma write64_read64: "write64 m d (read64 m' s) = store_bytes m d (load_bytes m' s 8)"
  by (simp add: write64_def read64_def)

lemma memset_block_store:
  "memset_block p m d = store_bytes m d (concat (replicate 4 (le_bytes 8 p)))"
proof -
  have "memset_block p m d = fold (\<lambda>i m. store_bytes m (d + of_nat (8 * i)) (le_bytes 8 p)) [0..<4] m"
    by (simp add: memset_block_def write64_def upt_rec)
  also have "\<dots> = store_bytes m d (concat (map (\<lambda>_. le_bytes 8 p) [0..<4]))"
    by (rule fold_store_chunks) simp_all
  finally show ?thesis by (simp add: map_replicate_const)
qed

lemma memcpy_block_store:
  assumes "disj_regions d 32 s 32"
  shows "memcpy_block m d s = store_bytes m d (load_bytes m s 32)"
proof -
  have "memcpy_block m d s
      = fold (\<lambda>i m. store_bytes m (d + of_nat (8 * i)) (load_bytes m (s + of_nat (8 * i)) 8)) [0..<4] m"
    by (simp add: memcpy_block_def write64_read64 upt_rec Let_def)
  also have "\<dots> = store_bytes m d (load_bytes m s (8 * 4))"
    using assms by (intro fold_copy_chunks) simp_all
  finally show ?thesis by simp
qed

subsection \<open>memset and memcpy as one store\<close>

definition memset_pattern :: "u32 \<Rightarrow> u64" where
  "memset_pattern val = push_bit 32 (ucast val) OR ucast val"

definition memset_bytes :: "u32 \<Rightarrow> nat \<Rightarrow> u8 list" where
  "memset_bytes val n = concat (replicate (n div 8) (le_bytes 8 (memset_pattern val)))
     @ replicate (n mod 8) (ucast (val AND 0xFF))"

lemma length_memset_bytes [simp]: "length (memset_bytes val n) = n"
  by (simp add: memset_bytes_def length_concat sum_list_replicate)

lemma count_split: "n div 8 = 4 * (n div 32) + n mod 32 div 8" for n :: nat
  by (simp add: div_mult2_eq [of n 8 4, simplified] mod_mult2_eq [of n 8 4, simplified])

lemma fold_store_const:
  "w * n \<le> 2 ^ 64 \<Longrightarrow> length b = w \<Longrightarrow>
   fold (\<lambda>i m. store_bytes m (d + of_nat (w * i)) b) [0..<n] m
     = store_bytes m d (concat (replicate n b))"
  using fold_store_chunks [of n "\<lambda>_. b" w d m] by (simp add: map_replicate_const)

lemma fold_write8_const:
  "n \<le> 2 ^ 64 \<Longrightarrow>
   fold (\<lambda>i m. write8 m (d + of_nat i) b) [0..<n] m = store_bytes m d (replicate n b)"
  using fold_store_const [of 1 n "[b]" d m] by (simp add: write8_store concat_replicate_single)

lemma count_words:
  fixes count :: u64
  shows "unat (count div 32) = unat count div 32"
    and "unat ((count mod 32) div 8) = unat count mod 32 div 8"
    and "unat (count mod 8) = unat count mod 8"
    and "8 * ((count mod 32) div 8) = of_nat (8 * (unat count mod 32 div 8))"
proof -
  show r: "unat ((count mod 32) div 8) = unat count mod 32 div 8"
    by (simp add: unat_div unat_mod)
  show "8 * ((count mod 32) div 8) = of_nat (8 * (unat count mod 32 div 8))"
    unfolding r [symmetric] by simp
qed (simp_all add: unat_div unat_mod)

lemma count_pieces:
  fixes n :: nat
  shows "32 * (n div 32) + 8 * (n mod 32 div 8) = 8 * (n div 8)"
    and "8 * (n div 8) + n mod 8 = n"
    and "8 * (n div 8) \<le> n"
proof -
  show "32 * (n div 32) + 8 * (n mod 32 div 8) = 8 * (n div 8)"
    using count_split [of n] by simp
qed simp_all

lemma memset_stages:
  assumes "n = unat count" "B = le_bytes 8 (memset_pattern val)"
  shows "memset m dest val count =
     store_bytes
       (store_bytes (store_bytes m dest (concat (replicate (n div 32) (concat (replicate 4 B)))))
          (dest + of_nat (32 * (n div 32))) (concat (replicate (n mod 32 div 8) B)))
       (dest + of_nat (32 * (n div 32)) + of_nat (8 * (n mod 32 div 8)))
       (replicate (n mod 8) (ucast (val AND 0xFF)))"
proof -
  have n: "n < 2 ^ 64" using unat_lt_2p [of count] by (simp add: assms)
  have len: "length (concat (replicate k B)) = 8 * k" for k
    by (simp add: length_concat sum_list_replicate assms)
  have 1: "fold (\<lambda>i m. memset_block (memset_pattern val) m (dest + of_nat (32 * i))) [0..<n div 32] m
      = store_bytes m dest (concat (replicate (n div 32) (concat (replicate 4 B))))"
    using n fold_store_const [of 32 "n div 32" "concat (replicate 4 B)" dest m]
    by (simp add: memset_block_store len flip: assms(2))
  have 2: "fold (\<lambda>i m. write64 m (d + of_nat (8 * i)) (memset_pattern val)) [0..<n mod 32 div 8] m'
      = store_bytes m' d (concat (replicate (n mod 32 div 8) B))" for d m'
    using n fold_store_const [of 8 "n mod 32 div 8" B d m'] by (simp add: write64_def assms(2))
  have 3: "fold (\<lambda>i m. write8 m (d + of_nat i) b) [0..<n mod 8] m'
      = store_bytes m' d (replicate (n mod 8) b)" for d m' b
    by (rule fold_write8_const) (simp add: less_imp_le_nat)
  show ?thesis
    unfolding memset_def Let_def fold_pointer [where w = 32, simplified of_nat_numeral]
    by (simp only: count_words memset_pattern_def [symmetric] 1 2 3 prod.case flip: assms(1))
qed

lemma memset_store: "memset m dest val count = store_bytes m dest (memset_bytes val (unat count))"
proof -
  define n where "n = unat count"
  define B where "B = le_bytes 8 (memset_pattern val)"
  have n: "n < 2 ^ 64" using unat_lt_2p [of count] by (simp add: n_def)
  have len: "length (concat (replicate k B)) = 8 * k" for k
    by (simp add: length_concat sum_list_replicate B_def)
  have four: "concat (replicate q (concat (replicate 4 B))) = concat (replicate (4 * q) B)" for q
    by (induction q) (simp_all add: replicate_add)
  have pieces: "replicate (n div 8) B
      = replicate (4 * (n div 32)) B @ replicate (n mod 32 div 8) B"
    by (subst count_split) (rule replicate_add)
  have "store_bytes (store_bytes m dest (concat (replicate (4 * (n div 32)) B)))
        (dest + of_nat (32 * (n div 32))) (concat (replicate (n mod 32 div 8) B))
      = store_bytes m dest (concat (replicate (n div 8) B))"
    using store_store_append [of "concat (replicate (4 * (n div 32)) B)"
        "concat (replicate (n mod 32 div 8) B)" m dest] n
      count_pieces [of n]
    by (simp add: len pieces)
  moreover have "dest + of_nat (32 * (n div 32)) + of_nat (8 * (n mod 32 div 8))
      = dest + of_nat (8 * (n div 8))"
    by (simp only: add.assoc count_pieces flip: of_nat_add)
  moreover have "store_bytes (store_bytes m dest (concat (replicate (n div 8) B)))
        (dest + of_nat (8 * (n div 8))) (replicate (n mod 8) (ucast (val AND 0xFF)))
      = store_bytes m dest (memset_bytes val n)"
    using store_store_append [of "concat (replicate (n div 8) B)"] n
    by (simp add: len memset_bytes_def flip: B_def)
  ultimately show ?thesis
    unfolding memset_stages [OF n_def B_def] four n_def [symmetric] by (simp only:)
qed

lemma memset_bytes_0: "memset_bytes 0 n = replicate n 0"
proof (rule nth_equalityI)
  show "length (memset_bytes 0 n) = length (replicate n 0)" by simp
next
  fix i assume "i < length (memset_bytes 0 n)"
  then have "memset_bytes 0 n ! i \<in> set (memset_bytes 0 n)" by (rule nth_mem)
  then have "memset_bytes 0 n ! i = 0"
    by (auto simp: memset_bytes_def memset_pattern_def le_bytes_def split: if_splits)
  then show "memset_bytes 0 n ! i = replicate n 0 ! i" using \<open>i < _\<close> by simp
qed

corollary memset_zero: "memset m dest 0 count = store_bytes m dest (replicate (unat count) 0)"
  by (simp add: memset_store memset_bytes_0)

lemma memset_bytes_short: "n < 8 \<Longrightarrow> memset_bytes val n = replicate n (ucast (val AND 0xFF))"
  by (simp add: memset_bytes_def)

lemma fold_copy_bytes:
  assumes "disj_regions d n s n" "n \<le> 2 ^ 64"
  shows "fold (\<lambda>i m. write8 m (d + of_nat i) (m (s + of_nat i))) [0..<n] m
       = store_bytes m d (load_bytes m s n)"
  using fold_copy_chunks [of d 1 n s m] assms by (simp add: write8_store)

lemma disj_regions_offset:
  assumes "disj_regions d N s N" "j + k \<le> N" "N \<le> 2 ^ 64"
  shows "disj_regions (d + of_nat j) k (s + of_nat j) k"
proof (cases "k = 0")
  case False
  with assms show ?thesis by (intro disj_regions_sub [OF assms(1)]) auto
qed (simp add: disj_regions_def)

lemma disj_regions_shrink: "disj_regions d N s N \<Longrightarrow> k \<le> N \<Longrightarrow> disj_regions d k s k"
  by (simp add: disj_regions_def)

lemma memcpy_store:
  assumes "disj_regions dest (unat count) src (unat count)"
  shows "memcpy m dest src count = store_bytes m dest (load_bytes m src (unat count))"
proof -
  define n where "n = unat count"
  have n: "n < 2 ^ 64" using unat_lt_2p [of count] by (simp add: n_def)
  have d: "disj_regions dest n src n" using assms by (simp add: n_def)
  have blocks: "fold (\<lambda>i m. memcpy_block m (dest + of_nat (32 * i)) (src + of_nat (32 * i)))
        [0..<n div 32] m = store_bytes m dest (load_bytes m src (32 * (n div 32)))"
  proof -
    have "memcpy_block m' (dest + of_nat (32 * i)) (src + of_nat (32 * i))
        = store_bytes m' (dest + of_nat (32 * i)) (load_bytes m' (src + of_nat (32 * i)) 32)"
      if "i \<in> set [0..<n div 32]" for i m'
    proof (intro memcpy_block_store disj_regions_offset [OF d])
      show "32 * i + 32 \<le> n" using that by (simp add: less_eq_div_iff_mult_less_eq Suc_le_eq)
    qed (use n in simp_all)
    then have step: "\<And>i m'. i \<in> set [0..<n div 32] \<Longrightarrow> memcpy_block m' (dest + of_nat (32 * i))
        (src + of_nat (32 * i)) = store_bytes m' (dest + of_nat (32 * i))
          (load_bytes m' (src + of_nat (32 * i)) 32)" .
    have "fold (\<lambda>i m. memcpy_block m (dest + of_nat (32 * i)) (src + of_nat (32 * i)))
          [0..<n div 32] m
        = fold (\<lambda>i m. store_bytes m (dest + of_nat (32 * i))
            (load_bytes m (src + of_nat (32 * i)) 32)) [0..<n div 32] m"
      by (rule fold_cong [OF refl refl], rule ext, rule step)
    also have "\<dots> = store_bytes m dest (load_bytes m src (32 * (n div 32)))"
      using n by (intro fold_copy_chunks disj_regions_shrink [OF d]) simp_all
    finally show ?thesis .
  qed
  have words: "fold (\<lambda>i m. write64 m (a + of_nat (8 * i)) (read64 m (b + of_nat (8 * i)))) [0..<k] m'
      = store_bytes m' a (load_bytes m' b (8 * k))"
    if "a = dest + of_nat j" "b = src + of_nat j" "j + 8 * k \<le> n" for a b j k m'
    using that n fold_copy_chunks [of a 8 k b m'] disj_regions_offset [OF d, of j "8 * k"]
    by (simp add: write64_read64)
  have rest: "store_bytes (store_bytes m dest (load_bytes m src a)) (dest + of_nat a)
        (load_bytes (store_bytes m dest (load_bytes m src a)) (src + of_nat a) k)
      = store_bytes m dest (load_bytes m src (a + k))" if "a + k \<le> n" for a k
    using that n by (intro store_load_step disj_regions_shrink [OF d]) simp_all
  have tail: "fold (\<lambda>i m. write8 m (dest + of_nat a + of_nat i) (m (src + of_nat a + of_nat i)))
        [0..<k] m' = store_bytes m' (dest + of_nat a) (load_bytes m' (src + of_nat a) k)"
    if "a + k \<le> n" for a k m'
    using that n by (intro fold_copy_bytes disj_regions_offset [OF d]) simp_all
  have addr: "c + of_nat (32 * (n div 32)) + of_nat (8 * (n mod 32 div 8))
      = c + of_nat (8 * (n div 8))" for c :: u64
    by (simp only: add.assoc count_pieces flip: of_nat_add)
  show ?thesis
    unfolding memcpy_def Let_def fold_pointers [where w = 32, simplified of_nat_numeral] count_words
    by (simp only: addr blocks prod.case words [OF refl refl] rest tail count_pieces
        n_def [symmetric] order.refl)
qed

subsection \<open>Properties\<close>

text \<open>C3: \<open>memcpy\<close> between disjoint regions makes the destination an exact copy of the source and
  changes no byte outside the destination, for every count (the 32-byte blocks, the 8-byte words
  and the trailing bytes together cover the region once).\<close>

theorem memcpy_copies:
  assumes "disj_regions dest (unat count) src (unat count)"
  shows "load_bytes (memcpy m dest src count) dest (unat count) = load_bytes m src (unat count)
    \<and> (\<forall>x. in_region dest (unat count) x \<or> memcpy m dest src count x = m x)"
  using memcpy_store [OF assms, of m] unat_lt_2p [of count]
  by (simp add: order_less_imp_le) (metis length_load_bytes store_bytes_outside)

theorem memcpy_copies_witness:
  "load_bytes (memcpy (\<lambda>x. ucast x) 0x1000 0x2003 43) 0x1000 43 = load_bytes (\<lambda>x. ucast x) 0x2003 43"
  using memcpy_copies [of "0x1000" 43 "0x2003" "\<lambda>x. ucast x"] by (simp add: disj_regions_def)

lemma memset_bytes_head:
  assumes n: "8 \<le> n"
  shows "memset_bytes val n ! 0 = ucast val"
    and "val < 256 \<Longrightarrow> memset_bytes val n ! Suc 0 = 0"
proof -
  obtain k where k: "n div 8 = Suc k" using n by (cases "n div 8") auto
  have hd: "memset_bytes val n ! i = ucast (drop_bit (8 * i) (memset_pattern val))" if "i < 8" for i
    using that by (simp add: memset_bytes_def k nth_append)
  show "memset_bytes val n ! 0 = ucast val"
    unfolding hd [of 0, simplified] by (rule bit_word_eqI) (simp add: memset_pattern_def bit_simps)
  assume a: "val < 256"
  have mask: "val AND mask 8 = val" using a by (intro less_mask_eq) simp
  have hi: "\<not> bit val j" if "8 \<le> j" for j
  proof
    assume "bit val j"
    then have "bit (val AND mask 8) j" by (simp only: mask)
    with that show False unfolding bit_and_iff bit_mask_iff by simp
  qed
  show "memset_bytes val n ! Suc 0 = 0"
    unfolding hd [of "Suc 0", simplified]
    by (rule bit_word_eqI) (simp add: memset_pattern_def bit_simps hi)
qed

text \<open>\<open>memset\<close> with a value below 256 and a count of at least 8 does not fill the region with
  that byte: the 64-bit pattern holds the 32-bit value twice, so the second byte stays 0, and
  only the trailing bytes are the value.  With value 0, the use in the allocators, every byte of
  the region becomes 0 and nothing else changes.\<close>

lemma memset_fills:
  "(\<forall>x. memset m dest 0 count x = (if in_region dest (unat count) x then 0 else m x))
    \<and> (8 \<le> count \<and> val < 256 \<longrightarrow> load_bytes (memset m dest val count) dest 2 = [ucast val, 0])"
proof (intro conjI allI impI)
  fix x show "memset m dest 0 count x = (if in_region dest (unat count) x then 0 else m x)"
    by (simp add: memset_store memset_bytes_0 store_bytes_def in_region_def)
next
  assume a: "8 \<le> count \<and> val < 256"
  then have n: "8 \<le> unat count" by (simp add: word_le_nat_alt)
  have "load_bytes (memset m dest val count) dest 2
      = [memset_bytes val (unat count) ! 0, memset_bytes val (unat count) ! 1]"
    using n load_bytes_append [of "memset m dest val count" dest 1 1]
    by (simp add: memset_store store_bytes_def numeral_2_eq_2)
  then show "load_bytes (memset m dest val count) dest 2 = [ucast val, 0]"
    using a memset_bytes_head [OF n] by simp
qed

lemma memset_fills_witness:
  "load_bytes (memset (\<lambda>_. 7) 0x1000 0x2A 16) 0x1000 2 = [0x2A, 0]"
  using memset_fills [of "\<lambda>_. 7" "0x1000" 16 "0x2A"] by simp

text \<open>\<open>memcmp\<close> returns 0 exactly when the two regions hold the same bytes, and swapping the
  arguments negates the result.\<close>

lemma memcmp_correct:
  "(memcmp m a b n = 0 \<longleftrightarrow> load_bytes m a (unat n) = load_bytes m b (unat n))
    \<and> memcmp m b a n = - memcmp m a b n"
  using memcmp_loop_0_iff memcmp_loop_antisym [of m b a] by (simp add: memcmp_def)

end
