(* ===== verification/Ring_Buffer.thy ===== *)
theory Ring_Buffer
  imports Fifo Mem_Functions
begin

section \<open>The ring buffer (\<open>shared/data_struct/ring_buffer.c\<close>)\<close>

text \<open>
  \<open>CRingBuffer\<close> as a record over the byte memory that holds its storage.  The state of an
  operation is the memory together with the record; an element is the list of
  \<open>element_size\<close> bytes of a slot.
\<close>

record cring =
  rb_buffer :: u64
  rb_capacity :: u64
  rb_element_size :: u64
  rb_head :: u64
  rb_tail :: u64
  rb_full :: u32

definition cring_init :: "u64 \<Rightarrow> u64 \<Rightarrow> u64 \<Rightarrow> cring" where
  "cring_init storage capacity elem_size =
     \<lparr>rb_buffer = storage, rb_capacity = capacity, rb_element_size = elem_size,
      rb_head = 0, rb_tail = 0, rb_full = 0\<rparr>"

definition cring_capacity :: "cring \<Rightarrow> u64" where
  "cring_capacity rb = rb_capacity rb"

definition copy_bytes :: "mem \<Rightarrow> u64 \<Rightarrow> u64 \<Rightarrow> u64 \<Rightarrow> mem" where
  "copy_bytes m dest src n = fold (\<lambda>i m. write8 m (dest + of_nat i) (m (src + of_nat i))) [0..<unat n] m"

definition cring_push :: "mem \<times> cring \<Rightarrow> u64 \<Rightarrow> u32 \<times> mem \<times> cring" where
  "cring_push = (\<lambda>(m, rb) item.
     if rb_full rb \<noteq> 0 then (0, m, rb)
     else
       let dest = rb_buffer rb + rb_head rb * rb_element_size rb;
           m' = copy_bytes m dest item (rb_element_size rb);
           head' = (rb_head rb + 1) mod rb_capacity rb
       in (1, m', rb\<lparr>rb_head := head', rb_full := c_bool (head' = rb_tail rb)\<rparr>))"

definition cring_pop :: "mem \<times> cring \<Rightarrow> u64 \<Rightarrow> u32 \<times> mem \<times> cring" where
  "cring_pop = (\<lambda>(m, rb) out.
     if rb_full rb = 0 \<and> rb_head rb = rb_tail rb then (0, m, rb)
     else
       let src = rb_buffer rb + rb_tail rb * rb_element_size rb;
           m' = copy_bytes m out src (rb_element_size rb)
       in (1, m', rb\<lparr>rb_tail := (rb_tail rb + 1) mod rb_capacity rb, rb_full := 0\<rparr>))"

definition cring_is_empty :: "cring \<Rightarrow> u32" where
  "cring_is_empty rb = c_bool (rb_full rb = 0 \<and> rb_head rb = rb_tail rb)"

definition cring_is_full :: "cring \<Rightarrow> u32" where
  "cring_is_full rb = rb_full rb"

definition cring_clear :: "cring \<Rightarrow> cring" where
  "cring_clear rb = rb\<lparr>rb_head := 0, rb_tail := 0, rb_full := 0\<rparr>"

subsection \<open>Well-formed buffers and their contents\<close>

definition cring_ok :: "mem \<times> cring \<Rightarrow> bool" where
  "cring_ok = (\<lambda>(m, rb).
     rb_head rb < rb_capacity rb \<and> rb_tail rb < rb_capacity rb
     \<and> unat (rb_capacity rb) * unat (rb_element_size rb) \<le> 2 ^ 64
     \<and> (rb_full rb \<noteq> 0 \<longrightarrow> rb_full rb = 1 \<and> rb_head rb = rb_tail rb))"

definition cring_used :: "cring \<Rightarrow> nat" where
  "cring_used rb =
     ring_count (unat (rb_head rb)) (unat (rb_tail rb)) (unat (rb_capacity rb)) (rb_full rb \<noteq> 0)"

definition cring_contents :: "mem \<times> cring \<Rightarrow> u8 list list" where
  "cring_contents = (\<lambda>(m, rb).
     slots m (rb_buffer rb) (rb_element_size rb)
       (ring_idx (unat (rb_tail rb)) (cring_used rb) (unat (rb_capacity rb))))"

definition cring_bound :: "mem \<times> cring \<Rightarrow> nat" where
  "cring_bound = (\<lambda>(m, rb). unat (rb_capacity rb))"

text \<open>The object at a pointer, and pointers to objects outside the storage.\<close>

definition cring_val :: "mem \<times> cring \<Rightarrow> u64 \<Rightarrow> u8 list" where
  "cring_val = (\<lambda>(m, rb) p. load_bytes m p (unat (rb_element_size rb)))"

definition cring_apart :: "mem \<times> cring \<Rightarrow> u64 \<Rightarrow> bool" where
  "cring_apart = (\<lambda>(m, rb) p.
     disj_regions p (unat (rb_element_size rb)) (rb_buffer rb)
       (unat (rb_capacity rb) * unat (rb_element_size rb)))"

lemmas cring_defs = cring_ok_def cring_used_def cring_contents_def cring_bound_def cring_val_def
  cring_apart_def

subsection \<open>Every operation keeps well-formedness and has its effect on the contents\<close>

lemma copy_bytes_store:
  assumes "disj_regions dest (unat n) src (unat n)"
  shows "copy_bytes m dest src n = store_bytes m dest (load_bytes m src (unat n))"
  unfolding copy_bytes_def using assms unat_lt_2p [of n] by (intro fold_copy_bytes) simp_all

lemma cring_idx_less:
  "cring_ok (m, rb) \<Longrightarrow> \<forall>i\<in>set (ring_idx t n (unat (rb_capacity rb))). i < unat (rb_capacity rb)"
  by (auto simp: cring_ok_def word_less_nat_alt dest: set_ring_idx_less [rotated])

lemma cring_used_bounds:
  assumes "cring_ok (m, rb)"
  shows "cring_used rb \<le> unat (rb_capacity rb)"
    and "cring_used rb = unat (rb_capacity rb) \<longleftrightarrow> rb_full rb \<noteq> 0"
    and "cring_used rb = 0 \<longleftrightarrow> rb_full rb = 0 \<and> rb_head rb = rb_tail rb"
  using assms
  by (auto simp: cring_ok_def cring_used_def word_less_nat_alt ring_count_full_iff
      ring_count_0_iff unat_arith_simps(3) intro: ring_count_le)

lemma length_cring_contents [simp]: "length (cring_contents (m, rb)) = cring_used rb"
  by (simp add: cring_contents_def)

lemma cring_contents_Nil_iff [simp]: "cring_contents (m, rb) = [] \<longleftrightarrow> cring_used rb = 0"
  by (metis length_cring_contents length_0_conv)

lemma cring_push_effect:
  assumes ok: "cring_ok (m, rb)" and ap: "cring_apart (m, rb) p" and nf: "rb_full rb = 0"
  defines "rb' \<equiv> rb\<lparr>rb_head := (rb_head rb + 1) mod rb_capacity rb,
                   rb_full := c_bool ((rb_head rb + 1) mod rb_capacity rb = rb_tail rb)\<rparr>"
    and "m' \<equiv> store_bytes m (slot (rb_buffer rb) (rb_element_size rb) (unat (rb_head rb)))
                (cring_val (m, rb) p)"
  shows "cring_push (m, rb) p = (1, m', rb')"
    and "cring_ok (m', rb')"
    and "cring_contents (m', rb') = cring_contents (m, rb) @ [cring_val (m, rb) p]"
proof -
  let ?c = "unat (rb_capacity rb)" and ?es = "rb_element_size rb" and ?h = "unat (rb_head rb)"
    and ?t = "unat (rb_tail rb)"
  have lt: "?h < ?c" "?t < ?c" and sz: "?c * unat ?es \<le> 2 ^ 64"
    using ok by (auto simp: cring_ok_def word_less_nat_alt)
  have dj: "disj_regions p (unat ?es) (slot (rb_buffer rb) ?es ?h) (unat ?es)"
    using ap lt sz by (intro slot_apart) (auto simp: cring_apart_def)
  have slot: "rb_buffer rb + rb_head rb * ?es = slot (rb_buffer rb) ?es ?h"
    by (simp add: slot_def)
  show "cring_push (m, rb) p = (1, m', rb')"
    using nf copy_bytes_store [OF dj [THEN disj_regions_commute [THEN iffD1]], of m]
    by (simp add: cring_push_def Let_def slot m'_def rb'_def cring_val_def)
  have head': "unat ((rb_head rb + 1) mod rb_capacity rb) = Suc ?h mod ?c"
    using ok unat_Suc_less [of "rb_head rb" "rb_capacity rb"] by (simp add: cring_ok_def unat_mod)
  have "Suc ?h mod ?c < ?c" using lt by simp
  then show "cring_ok (m', rb')"
    using ok head' by (auto simp: cring_ok_def rb'_def word_less_nat_alt c_bool_def)
  have used': "cring_used rb' = Suc (cring_used rb)"
    using lt nf ring_count_push [OF lt]
      word_unat_eq_iff [of "(rb_head rb + 1) mod rb_capacity rb" "rb_tail rb"]
    by (simp add: cring_used_def rb'_def head')
  have n: "cring_used rb < ?c"
    using cring_used_bounds(1,2) [OF ok] nf by simp
  have last: "(?t + cring_used rb) mod ?c = ?h"
    using lt nf by (simp add: cring_used_def ring_count_head)
  have "slots m' (rb_buffer rb) ?es (ring_idx ?t (cring_used rb) ?c)
      = slots m (rb_buffer rb) ?es (ring_idx ?t (cring_used rb) ?c)"
    unfolding m'_def using lt sz ring_idx_fresh [OF n, of ?t] last
    by (intro slots_store_other [where c = ?c] cring_idx_less [OF ok])
      (simp_all add: cring_val_def)
  moreover have "load_bytes m' (slot (rb_buffer rb) ?es ?h) (unat ?es) = cring_val (m, rb) p"
    using unat_lt_2p [of ?es] by (simp add: m'_def cring_val_def)
  ultimately show "cring_contents (m', rb') = cring_contents (m, rb) @ [cring_val (m, rb) p]"
    using used' last by (simp add: cring_contents_def ring_idx_snoc rb'_def)
qed

lemma cring_pop_effect:
  assumes ok: "cring_ok (m, rb)" and ap: "cring_apart (m, rb) p" and ne: "cring_used rb \<noteq> 0"
  defines "rb' \<equiv> rb\<lparr>rb_tail := (rb_tail rb + 1) mod rb_capacity rb, rb_full := 0\<rparr>"
    and "m' \<equiv> store_bytes m p (hd (cring_contents (m, rb)))"
  shows "cring_pop (m, rb) p = (1, m', rb')"
    and "cring_ok (m', rb')"
    and "cring_contents (m', rb') = tl (cring_contents (m, rb))"
    and "cring_val (m', rb') p = hd (cring_contents (m, rb))"
proof -
  let ?c = "unat (rb_capacity rb)" and ?es = "rb_element_size rb" and ?h = "unat (rb_head rb)"
    and ?t = "unat (rb_tail rb)"
  have lt: "?h < ?c" "?t < ?c" and sz: "?c * unat ?es \<le> 2 ^ 64"
    using ok by (auto simp: cring_ok_def word_less_nat_alt)
  obtain u where u: "cring_used rb = Suc u" using ne by (cases "cring_used rb") auto
  have cont: "cring_contents (m, rb) = load_bytes m (slot (rb_buffer rb) ?es ?t) (unat ?es)
      # slots m (rb_buffer rb) ?es (ring_idx (Suc ?t mod ?c) u ?c)"
    using lt by (simp add: cring_contents_def u ring_idx_Cons)
  have len: "length (hd (cring_contents (m, rb))) = unat ?es" by (simp add: cont)
  have dj: "disj_regions p (unat ?es) (slot (rb_buffer rb) ?es ?t) (unat ?es)"
    using ap lt sz by (intro slot_apart) (auto simp: cring_apart_def)
  have slot: "rb_buffer rb + rb_tail rb * ?es = slot (rb_buffer rb) ?es ?t"
    by (simp add: slot_def)
  have nemp: "\<not> (rb_full rb = 0 \<and> rb_head rb = rb_tail rb)"
    using cring_used_bounds(3) [OF ok] ne by simp
  show "cring_pop (m, rb) p = (1, m', rb')"
    using nemp copy_bytes_store [OF dj, of m]
    by (auto simp add: cring_pop_def Let_def slot m'_def rb'_def cont)
  have tail': "unat ((rb_tail rb + 1) mod rb_capacity rb) = Suc ?t mod ?c"
    using ok unat_Suc_less [of "rb_tail rb" "rb_capacity rb"] by (simp add: cring_ok_def unat_mod)
  have "Suc ?t mod ?c < ?c" using lt by simp
  then show ok': "cring_ok (m', rb')"
    using ok tail' by (auto simp: cring_ok_def rb'_def word_less_nat_alt)
  have "cring_used rb' = u"
    using lt u ring_count_pop [OF lt, of "rb_full rb \<noteq> 0"] ok
    by (auto simp: cring_used_def rb'_def tail' cring_ok_def)
  moreover have "slots m' (rb_buffer rb) ?es (ring_idx (Suc ?t mod ?c) u ?c)
      = slots m (rb_buffer rb) ?es (ring_idx (Suc ?t mod ?c) u ?c)"
    unfolding m'_def using ap sz len
    by (intro slots_store_outside [where c = ?c] cring_idx_less [OF ok])
      (auto simp: cring_apart_def)
  ultimately show "cring_contents (m', rb') = tl (cring_contents (m, rb))"
    by (simp add: cont) (simp add: cring_contents_def rb'_def tail')
  show "cring_val (m', rb') p = hd (cring_contents (m, rb))"
    using len unat_lt_2p [of ?es] by (simp add: cring_val_def m'_def rb'_def)
qed

text \<open>The laws hold for all rings of elements of \<open>es\<close> bytes.\<close>

lemma cring_push_law:
  assumes "cring_ok (m, rb)" "cring_apart (m, rb) p" "length (cring_contents (m, rb)) < cring_bound (m, rb)"
  shows "\<exists>s'. cring_push (m, rb) p = (1, s') \<and> cring_ok s' \<and> rb_element_size (snd s') = rb_element_size rb
    \<and> cring_contents s' = cring_contents (m, rb) @ [cring_val (m, rb) p] \<and> cring_bound s' = cring_bound (m, rb)
    \<and> (\<forall>r. cring_apart (m, rb) r \<longrightarrow> cring_apart s' r \<and> cring_val s' r = cring_val (m, rb) r)"
proof -
  have nf: "rb_full rb = 0"
    using cring_used_bounds(2) [of m rb] assms(1,3) by (auto simp: cring_bound_def)
  have frame: "cring_val (store_bytes m (slot (rb_buffer rb) (rb_element_size rb)
      (unat (rb_head rb))) (cring_val (m, rb) p), rb) r = cring_val (m, rb) r" if "cring_apart (m, rb) r" for r
  proof -
    have "disj_regions r (unat (rb_element_size rb)) (slot (rb_buffer rb) (rb_element_size rb)
        (unat (rb_head rb))) (unat (rb_element_size rb))"
      using that assms(1) by (intro slot_apart [where c = "unat (rb_capacity rb)"])
        (auto simp: cring_apart_def cring_ok_def word_less_nat_alt)
    then show ?thesis using unat_lt_2p [of "rb_element_size rb"]
      by (simp add: cring_val_def load_store_disj)
  qed
  show ?thesis
    using cring_push_effect [of m rb p] assms(1,2) nf frame
    by (auto simp: cring_bound_def cring_apart_def cring_val_def)
qed

lemma cring_pop_law:
  assumes "cring_ok (m, rb)" "cring_apart (m, rb) p" "cring_contents (m, rb) \<noteq> []"
  shows "\<exists>s'. cring_pop (m, rb) p = (1, s') \<and> cring_ok s' \<and> rb_element_size (snd s') = rb_element_size rb
    \<and> cring_contents s' = tl (cring_contents (m, rb)) \<and> cring_bound s' = cring_bound (m, rb)
    \<and> cring_val s' p = hd (cring_contents (m, rb))
    \<and> (\<forall>r. cring_apart (m, rb) r \<longrightarrow> cring_apart s' r
        \<and> (disj_regions p (unat (rb_element_size rb)) r (unat (rb_element_size rb)) \<longrightarrow> cring_val s' r = cring_val (m, rb) r))"
proof -
  have used: "cring_used rb \<noteq> 0" using assms(3) by simp
  have len: "length (hd (cring_contents (m, rb))) = unat (rb_element_size rb)"
    using used by (cases "cring_used rb") (simp_all add: cring_contents_def ring_idx_def slots_def hd_map del: upt_Suc)
  have frame: "load_bytes (store_bytes m p (hd (cring_contents (m, rb)))) r (unat (rb_element_size rb))
      = load_bytes m r (unat (rb_element_size rb))"
    if "disj_regions p (unat (rb_element_size rb)) r (unat (rb_element_size rb))" for r
    using that len unat_lt_2p [of "rb_element_size rb"] by (intro load_store_disj) (simp_all add: disj_regions_commute)
  show ?thesis
    using cring_pop_effect [OF assms(1,2) used] frame by (auto simp: cring_bound_def cring_apart_def cring_val_def)
qed

interpretation ring: bounded_fifo "\<lambda>s. cring_ok s \<and> rb_element_size (snd s) = es" cring_contents cring_bound
  "\<lambda>s p. Inr (cring_push s p)" "\<lambda>s p. Inr (cring_pop s p)" cring_val cring_apart
  "\<lambda>p q. disj_regions p (unat es) q (unat es)" for es
proof (unfold_locales, goal_cases)
  case (1 s)
  then show ?case using cring_used_bounds(1) by (cases s) (auto simp: cring_bound_def)
next
  case (2 s p)
  then show ?case using cring_push_law [of "fst s" "snd s" p] by auto
next
  case (3 s p)
  then show ?case using cring_used_bounds(2) by (cases s) (fastforce simp: cring_bound_def cring_push_def)
next
  case (4 s p)
  then show ?case using cring_pop_law [of "fst s" "snd s" p] by auto
next
  case (5 s p)
  then show ?case using cring_used_bounds(3) by (cases s) (fastforce simp: cring_pop_def)
qed

lemma cring_init_ok:
  assumes "0 < capacity" "unat capacity * unat es \<le> 2 ^ 64"
  shows "cring_ok (m, cring_init storage capacity es)"
    and "cring_contents (m, cring_init storage capacity es) = []"
  using assms by (auto simp: cring_ok_def cring_init_def cring_used_def ring_count_def)

lemma cring_clear_ok:
  assumes "cring_ok (m, rb)"
  shows "cring_ok (m, cring_clear rb)" and "cring_contents (m, cring_clear rb) = []"
proof -
  have "unat (rb_head rb) < unat (rb_capacity rb)"
    using assms by (simp add: cring_ok_def word_less_nat_alt)
  then have "0 < rb_capacity rb" by (simp add: word_less_nat_alt)
  with assms show "cring_ok (m, cring_clear rb)"
    by (simp add: cring_ok_def cring_clear_def)
  show "cring_contents (m, cring_clear rb) = []"
    by (simp add: cring_clear_def cring_used_def ring_count_def)
qed

lemma cring_is_empty_iff: "cring_ok (m, rb) \<Longrightarrow> cring_is_empty rb = c_bool (cring_contents (m, rb) = [])"
  using cring_used_bounds(3) by (simp add: cring_is_empty_def)

lemma cring_is_full_iff:
  "cring_ok (m, rb) \<Longrightarrow>
   cring_is_full rb = c_bool (length (cring_contents (m, rb)) = unat (cring_capacity rb))"
  using cring_used_bounds(2) [of m rb]
  by (auto simp: cring_is_full_def cring_capacity_def cring_ok_def c_bool_def)

subsection \<open>Properties\<close>

text \<open>C1: A buffer set up by \<open>cring_init\<close> is a bounded first-in first-out queue: whatever pushes (of the objects at any pointers
  outside the storage) and pops (into an object at \<open>q\<close> that overlaps none of them) a client makes, in any order and number, the
  calls return what a queue of at most \<open>capacity\<close> elements returns, and each pop that returns 1 delivers the bytes of the
  oldest element: a push into a full buffer and a pop from an empty one return 0 and change nothing, and the indices wrap
  around as often as it takes.\<close>

theorem cring_fifo:
  assumes "0 < capacity" "unat capacity * unat es \<le> 2 ^ 64"
    and "\<forall>p\<in>set (q # queue_ptrs ops). disj_regions p (unat es) storage (unat capacity * unat es)"
    and "\<forall>p\<in>set (queue_ptrs ops). disj_regions q (unat es) p (unat es)"
  shows "run_queue (\<lambda>s p. Inr (cring_push s p)) (\<lambda>s p. Inr (cring_pop s p)) cring_val q ops (m, cring_init storage capacity es)
    = Inr (spec_queue (unat capacity) (\<lambda>p. load_bytes m p (unat es)) ops [])"
proof -
  let ?s = "(m, cring_init storage capacity es)"
  have es: "rb_element_size (snd ?s) = es" and bound: "cring_bound ?s = unat capacity"
    by (simp_all add: cring_init_def cring_bound_def)
  show ?thesis
    using ring.run_queue_spec [of ?s es q ops "\<lambda>p. load_bytes m p (unat es)"] assms es cring_init_ok [OF assms(1,2), of m storage]
    by (simp add: bound cring_apart_def cring_val_def) (simp add: cring_init_def)
qed

theorem cring_fifo_witness:
  "run_queue (\<lambda>s p. Inr (cring_push s p)) (\<lambda>s p. Inr (cring_pop s p)) cring_val 0x30
     [Enq 0x10, Enq 0x20, Enq 0x14, Deq, Enq 0x14, Deq, Deq, Deq] (\<lambda>x. ucast x, cring_init 0x1000 2 1)
   = Inr [(1, None), (1, None), (0, None), (1, Some [0x10]), (1, None), (1, Some [0x20]), (1, Some [0x14]), (0, None)]"
  using cring_fifo [where capacity = 2 and es = 1 and q = "0x30" and storage = "0x1000" and m = "\<lambda>x. ucast x"
      and ops = "[Enq 0x10, Enq 0x20, Enq 0x14, Deq, Enq 0x14, Deq, Deq, Deq]"]
  by (simp add: disj_regions_def)

text \<open>Every push and pop of a well-formed buffer keeps it well formed and reports the truth: a
  push returns 1 and appends the element unless the buffer holds \<open>capacity\<close> elements, when it
  returns 0 and changes nothing; a pop returns 1 and removes the oldest element unless the buffer
  is empty, when it returns 0 and changes nothing.\<close>

lemma cring_steps:
  assumes "cring_ok (m, rb)" "cring_apart (m, rb) p"
  shows "(case cring_push (m, rb) p of (r, s') \<Rightarrow> cring_ok s' \<and>
           (if cring_is_full rb = 1 then r = 0 \<and> s' = (m, rb)
            else r = 1 \<and> cring_contents s' = cring_contents (m, rb) @ [cring_val (m, rb) p])) \<and>
    (case cring_pop (m, rb) p of (r, s') \<Rightarrow> cring_ok s' \<and>
           (if cring_is_empty rb = 1 then r = 0 \<and> s' = (m, rb)
            else r = 1 \<and> cring_contents (m, rb) = cring_val s' p # cring_contents s'))"
    (is "?push \<and> ?pop")
proof
  show ?push
    using assms cring_push_effect [OF assms]
    by (cases "rb_full rb = 0") (auto simp: cring_is_full_def cring_push_def cring_ok_def)
  show ?pop
  proof (cases "cring_used rb = 0")
    case True
    then show ?thesis
      using assms cring_used_bounds(3) [of m rb] by (simp add: cring_is_empty_def cring_pop_def)
  next
    case False
    then show ?thesis
      using assms cring_pop_effect [OF assms False] cring_is_empty_iff [OF assms(1)]
      by (cases "cring_contents (m, rb)") auto
  qed
qed

lemma cring_steps_witness:
  "fst (cring_push (\<lambda>_. 0, \<lparr>rb_buffer = 0x1000, rb_capacity = 2, rb_element_size = 4, rb_head = 1,
      rb_tail = 1, rb_full = 1\<rparr>) 0x20) = 0"
  using cring_steps [of "\<lambda>_. 0" "\<lparr>rb_buffer = 0x1000, rb_capacity = 2, rb_element_size = 4,
      rb_head = 1, rb_tail = 1, rb_full = 1\<rparr>" "0x20"]
  by (simp add: cring_ok_def cring_apart_def disj_regions_def cring_is_full_def split: prod.splits)

end
