(* ===== verification/Cqueue.thy ===== *)
theory Cqueue
  imports Fifo Mem_Functions
begin

section \<open>The byte queue (\<open>shared/data_struct/queue.c\<close>)\<close>

text \<open>
  \<open>CQueue\<close> as a record over the byte memory; a queue argument is a \<open>cqueue option\<close>, with \<open>None\<close>
  for the null pointer the operations test for.  \<open>malloc\<close> and \<open>free\<close> are system calls of the
  kernel (\<open>shared/syscalls/syscalls_as.S\<close>) reached through assembly stubs: they are parameters,
  functions on the whole memory, since the allocator keeps its own records there.
  A queue with \<open>max_capacity\<close> 0 doubles its storage when it is full.  A queue whose creation got no memory keeps
  the null pointer as its storage; copying an element through it is a fault.
\<close>

record cqueue =
  q_buffer :: u64
  q_capacity :: u64
  q_max_capacity :: u64
  q_elem_size :: u64
  q_head :: u64
  q_tail :: u64
  q_length :: u64

type_synonym mallocf = "mem \<Rightarrow> u64 \<Rightarrow> u64 \<times> mem"
type_synonym freef = "mem \<Rightarrow> u64 \<Rightarrow> u64 \<Rightarrow> mem"

definition cqueue_init :: "mallocf \<Rightarrow> mem \<Rightarrow> u64 \<Rightarrow> u64 \<Rightarrow> mem \<times> cqueue" where
  "cqueue_init malloc m max_capacity elem_size =
     (let q = \<lparr>q_buffer = 0, q_capacity = max_capacity, q_max_capacity = max_capacity,
               q_elem_size = elem_size, q_head = 0, q_tail = 0, q_length = 0\<rparr>
      in if max_capacity > 0 then
           (case malloc m (max_capacity * elem_size) of
              (b, m') \<Rightarrow> (m', if b \<noteq> 0 then q\<lparr>q_buffer := b\<rparr> else q))
         else (m, q))"

definition cqueue_grow :: "mallocf \<Rightarrow> freef \<Rightarrow> mem \<Rightarrow> cqueue \<Rightarrow> bool \<times> mem \<times> cqueue" where
  "cqueue_grow malloc free m q =
     (let nc = (if q_capacity q > 0 then q_capacity q * 2 else 4) in
      case malloc m (nc * q_elem_size q) of
        (nb, m1) \<Rightarrow>
          if nb = 0 then (False, m1, q)
          else
            let m2 = fold (\<lambda>i m.
                       let idx = (q_tail q + of_nat i) mod q_capacity q
                       in memcpy m (nb + of_nat i * q_elem_size q)
                            (q_buffer q + idx * q_elem_size q) (q_elem_size q))
                     [0..<unat (q_length q)] m1;
                m3 = (if q_buffer q \<noteq> 0 then free m2 (q_buffer q) (q_capacity q * q_elem_size q)
                      else m2)
            in (True, m3, q\<lparr>q_buffer := nb, q_capacity := nc, q_head := q_length q, q_tail := 0\<rparr>))"

definition cqueue_put :: "mem \<Rightarrow> cqueue \<Rightarrow> u64 \<Rightarrow> mem \<times> cqueue" where
  "cqueue_put m q item =
     (memcpy m (q_buffer q + q_head q * q_elem_size q) item (q_elem_size q),
      q\<lparr>q_head := (q_head q + 1) mod q_capacity q, q_length := q_length q + 1\<rparr>)"

text \<open>\<open>memcpy\<close> of an element from or to the storage.\<close>

definition null_storage :: "cqueue \<Rightarrow> bool" where
  "null_storage q \<longleftrightarrow> q_buffer q = 0 \<and> q_elem_size q \<noteq> 0"

definition cqueue_enqueue ::
    "mallocf \<Rightarrow> freef \<Rightarrow> mem \<times> cqueue option \<Rightarrow> u64 \<Rightarrow> fault + (u32 \<times> mem \<times> cqueue option)" where
  "cqueue_enqueue malloc free = (\<lambda>(m, qp) item.
     case qp of
       None \<Rightarrow> Inr (0, m, None)
     | Some q \<Rightarrow>
         if q_length q = q_capacity q then
           if q_max_capacity q > 0 then Inr (0, m, Some q)
           else
             (case cqueue_grow malloc free m q of
                (ok, m', q') \<Rightarrow>
                  if ok then (case cqueue_put m' q' item of (m'', q'') \<Rightarrow> Inr (1, m'', Some q''))
                  else Inr (0, m', Some q'))
         else if null_storage q then Inl NullDeref
         else (case cqueue_put m q item of (m', q') \<Rightarrow> Inr (1, m', Some q')))"

definition cqueue_dequeue :: "mem \<times> cqueue option \<Rightarrow> u64 \<Rightarrow> fault + (u32 \<times> mem \<times> cqueue option)" where
  "cqueue_dequeue = (\<lambda>(m, qp) out.
     case qp of
       None \<Rightarrow> Inr (0, m, None)
     | Some q \<Rightarrow>
         if q_length q = 0 then Inr (0, m, Some q)
         else if null_storage q then Inl NullDeref
         else Inr (1, memcpy m out (q_buffer q + q_tail q * q_elem_size q) (q_elem_size q),
               Some (q\<lparr>q_tail := (q_tail q + 1) mod q_capacity q, q_length := q_length q - 1\<rparr>)))"

definition cqueue_is_empty :: "cqueue option \<Rightarrow> u32" where
  "cqueue_is_empty qp = (case qp of None \<Rightarrow> 1 | Some q \<Rightarrow> if q_length q = 0 then 1 else 0)"

definition cqueue_size :: "cqueue option \<Rightarrow> u64" where
  "cqueue_size qp = (case qp of None \<Rightarrow> 0 | Some q \<Rightarrow> q_length q)"

definition cqueue_clear :: "cqueue option \<Rightarrow> cqueue option" where
  "cqueue_clear qp = map_option (\<lambda>q. q\<lparr>q_head := 0, q_tail := 0, q_length := 0\<rparr>) qp"

definition cqueue_destroy :: "freef \<Rightarrow> mem \<Rightarrow> cqueue option \<Rightarrow> mem" where
  "cqueue_destroy free m qp =
     (case qp of None \<Rightarrow> m
      | Some q \<Rightarrow> if q_buffer q \<noteq> 0 then free m (q_buffer q) (q_capacity q * q_elem_size q) else m)"

subsection \<open>Well-formed queues and their contents\<close>

definition cq_ok :: "cqueue \<Rightarrow> bool" where
  "cq_ok q \<longleftrightarrow> q_length q \<le> q_capacity q
     \<and> (0 < q_capacity q \<longrightarrow> q_tail q < q_capacity q
          \<and> unat (q_head q) = (unat (q_tail q) + unat (q_length q)) mod unat (q_capacity q))
     \<and> unat (q_capacity q) * unat (q_elem_size q) \<le> 2 ^ 64"

definition cq_contents :: "mem \<Rightarrow> cqueue \<Rightarrow> u8 list list" where
  "cq_contents m q = slots m (q_buffer q) (q_elem_size q)
     (ring_idx (unat (q_tail q)) (unat (q_length q)) (unat (q_capacity q)))"

definition cq_val :: "mem \<Rightarrow> cqueue \<Rightarrow> u64 \<Rightarrow> u8 list" where
  "cq_val m q p = load_bytes m p (unat (q_elem_size q))"

definition cq_apart :: "cqueue \<Rightarrow> u64 \<Rightarrow> bool" where
  "cq_apart q p \<longleftrightarrow> disj_regions p (unat (q_elem_size q)) (q_buffer q)
     (unat (q_capacity q) * unat (q_elem_size q))"

lemma length_cq_contents [simp]: "length (cq_contents m q) = unat (q_length q)"
  by (simp add: cq_contents_def)

lemma cq_contents_Nil_iff [simp]: "cq_contents m q = [] \<longleftrightarrow> q_length q = 0"
  by (metis length_cq_contents length_0_conv unat_eq_0)

lemma cq_idx_less:
  "0 < q_capacity q \<Longrightarrow> \<forall>i\<in>set (ring_idx t n (unat (q_capacity q))). i < unat (q_capacity q)"
  by (auto simp: word_less_nat_alt dest: set_ring_idx_less [rotated])

lemma cqueue_put_effect:
  assumes ok: "cq_ok q" and ap: "cq_apart q p" and room: "q_length q < q_capacity q"
  obtains m' q' where "cqueue_put m q p = (m', q')" "cq_ok q'"
    "cq_contents m' q' = cq_contents m q @ [cq_val m q p]"
    "m' = store_bytes m (slot (q_buffer q) (q_elem_size q) (unat (q_head q))) (cq_val m q p)"
    "q_buffer q' = q_buffer q" "q_capacity q' = q_capacity q"
    "q_max_capacity q' = q_max_capacity q" "q_elem_size q' = q_elem_size q"
proof -
  let ?c = "unat (q_capacity q)" and ?es = "q_elem_size q" and ?h = "unat (q_head q)"
    and ?t = "unat (q_tail q)" and ?n = "unat (q_length q)"
  define m' where "m' = store_bytes m (slot (q_buffer q) ?es ?h) (cq_val m q p)"
  define q' where "q' = q\<lparr>q_head := (q_head q + 1) mod q_capacity q, q_length := q_length q + 1\<rparr>"
  have n: "?n < ?c" using room by (simp add: word_less_nat_alt)
  then have c: "0 < q_capacity q" by (simp add: word_less_nat_alt)
  with ok have t: "?t < ?c" and h: "?h = (?t + ?n) mod ?c" and sz: "?c * unat ?es \<le> 2 ^ 64"
    by (auto simp: cq_ok_def word_less_nat_alt)
  have hc: "?h < ?c" using n h by simp
  have dj: "disj_regions (slot (q_buffer q) ?es ?h) (unat ?es) p (unat ?es)"
    using ap hc sz slot_apart [of p "unat ?es" "q_buffer q" ?c ?es ?h]
    by (simp add: cq_apart_def disj_regions_commute)
  have put: "cqueue_put m q p = (m', q')"
    using memcpy_store [OF dj, of m] by (simp add: cqueue_put_def m'_def q'_def cq_val_def slot_def)
  have len': "unat (q_length q + 1) = Suc ?n" using room by (rule unat_Suc_less)
  have head': "unat ((q_head q + 1) mod q_capacity q) = Suc ?h mod ?c"
    using hc unat_Suc_less [of "q_head q" "q_capacity q"] by (simp add: unat_mod word_less_nat_alt)
  have "Suc ?h mod ?c = (?t + Suc ?n) mod ?c" unfolding h by (simp add: mod_Suc_eq)
  with ok c n len' head' have ok': "cq_ok q'"
    by (simp add: cq_ok_def q'_def word_le_nat_alt)
  have "slots m' (q_buffer q) ?es (ring_idx ?t ?n ?c) = slots m (q_buffer q) ?es (ring_idx ?t ?n ?c)"
    unfolding m'_def using hc sz ring_idx_fresh [OF n, of ?t] h
    by (intro slots_store_other [where c = ?c] cq_idx_less [OF c]) (simp_all add: cq_val_def)
  moreover have "load_bytes m' (slot (q_buffer q) ?es ?h) (unat ?es) = cq_val m q p"
    using unat_lt_2p [of ?es] by (simp add: m'_def cq_val_def)
  ultimately have "cq_contents m' q' = cq_contents m q @ [cq_val m q p]"
    using h len' by (simp add: cq_contents_def q'_def ring_idx_snoc)
  with that put ok' show ?thesis by (simp add: m'_def q'_def)
qed

lemma cqueue_dequeue_effect:
  fixes m :: mem
  assumes ok: "cq_ok q" and ap: "cq_apart q p" and ne: "q_length q \<noteq> 0" and st: "\<not> null_storage q"
  defines "m' \<equiv> store_bytes m p (hd (cq_contents m q))"
    and "q' \<equiv> q\<lparr>q_tail := (q_tail q + 1) mod q_capacity q, q_length := q_length q - 1\<rparr>"
  shows "cqueue_dequeue (m, Some q) p = Inr (1, m', Some q')" and "cq_ok q'"
    and "cq_contents m' q' = tl (cq_contents m q)" and "cq_val m' q' p = hd (cq_contents m q)"
proof -
  let ?c = "unat (q_capacity q)" and ?es = "q_elem_size q" and ?t = "unat (q_tail q)"
  obtain u where u: "unat (q_length q) = Suc u"
    using ne by (metis unat_eq_0 not0_implies_Suc)
  have "unat (q_length q) \<le> ?c" using ok by (simp add: cq_ok_def word_le_nat_alt)
  with u have uc: "u < ?c" by simp
  then have c: "0 < q_capacity q" by (simp add: word_less_nat_alt)
  with ok have t: "?t < ?c" and h: "unat (q_head q) = (?t + Suc u) mod ?c"
    and sz: "?c * unat ?es \<le> 2 ^ 64"
    by (auto simp: cq_ok_def word_less_nat_alt u)
  have cont: "cq_contents m q = load_bytes m (slot (q_buffer q) ?es ?t) (unat ?es)
      # slots m (q_buffer q) ?es (ring_idx (Suc ?t mod ?c) u ?c)"
    using t by (simp add: cq_contents_def u ring_idx_Cons)
  have len: "length (hd (cq_contents m q)) = unat ?es" by (simp add: cont)
  have dj: "disj_regions p (unat ?es) (slot (q_buffer q) ?es ?t) (unat ?es)"
    using ap t sz by (intro slot_apart) (auto simp: cq_apart_def)
  show "cqueue_dequeue (m, Some q) p = Inr (1, m', Some q')"
    using ne st memcpy_store [OF dj, of m]
    by (simp add: cqueue_dequeue_def m'_def q'_def cont) (simp add: slot_def)
  have tail': "unat ((q_tail q + 1) mod q_capacity q) = Suc ?t mod ?c"
    using t unat_Suc_less [of "q_tail q" "q_capacity q"] by (simp add: unat_mod word_less_nat_alt)
  have len': "unat (q_length q - 1) = u"
    using u ne by (simp add: unat_minus_one)
  have "(Suc ?t mod ?c + u) mod ?c = (?t + Suc u) mod ?c" by (simp add: mod_add_left_eq)
  with ok c t uc h tail' len' show "cq_ok q'"
    by (simp add: cq_ok_def q'_def word_le_nat_alt word_less_nat_alt)
  have "slots m' (q_buffer q) ?es (ring_idx (Suc ?t mod ?c) u ?c)
      = slots m (q_buffer q) ?es (ring_idx (Suc ?t mod ?c) u ?c)"
    unfolding m'_def using ap sz len
    by (intro slots_store_outside [where c = ?c] cq_idx_less [OF c]) (auto simp: cq_apart_def)
  then show "cq_contents m' q' = tl (cq_contents m q)"
    by (simp add: cont) (simp add: cq_contents_def q'_def tail' len')
  show "cq_val m' q' p = hd (cq_contents m q)"
    using len unat_lt_2p [of ?es] by (simp add: cq_val_def m'_def q'_def)
qed

subsection \<open>Growing an unbounded queue keeps its contents\<close>

lemma ring_idx_unwrapped: "n \<le> c \<Longrightarrow> ring_idx 0 n c = [0..<n]"
  by (rule nth_equalityI) (auto simp: ring_idx_def)

definition cq_next_capacity :: "cqueue \<Rightarrow> nat" where
  "cq_next_capacity q = (if q_capacity q = 0 then 4 else 2 * unat (q_capacity q))"

text \<open>
  What growing relies on: the new block is not null and lies apart from the old storage, the
  allocator leaves the bytes of the old storage alone, and releasing the old storage leaves the
  new block alone.
\<close>

definition grow_alloc_ok :: "mallocf \<Rightarrow> freef \<Rightarrow> mem \<Rightarrow> cqueue \<Rightarrow> bool" where
  "grow_alloc_ok malloc free m q \<longleftrightarrow>
     (let es = unat (q_elem_size q); old = unat (q_capacity q) * es;
          new = cq_next_capacity q * es;
          (nb, m1) = malloc m (of_nat (cq_next_capacity q) * q_elem_size q)
      in nb \<noteq> 0 \<and> disj_regions nb new (q_buffer q) old
         \<and> (\<forall>x. in_region (q_buffer q) old x \<longrightarrow> m1 x = m x)
         \<and> (\<forall>m' x. in_region nb new x \<longrightarrow>
               free m' (q_buffer q) (q_capacity q * q_elem_size q) x = m' x))"

lemma copy_slots:
  fixes es :: u64
  assumes dj: "disj_regions nb (N * unat es) b (c * unat es)"
    and idx: "\<And>i. i < n \<Longrightarrow> idx i < c" and n: "n \<le> N"
    and sz: "N * unat es \<le> 2 ^ 64" "c * unat es \<le> 2 ^ 64"
  defines "f \<equiv> \<lambda>i m. memcpy m (slot nb es i) (slot b es (idx i)) es"
  shows "slots (fold f [0..<n] m) nb es [0..<n] = slots m b es (map idx [0..<n])
    \<and> (\<forall>x. in_region b (c * unat es) x \<longrightarrow> fold f [0..<n] m x = m x)"
  using idx n
proof (induction n)
  case (Suc n)
  let ?m = "fold f [0..<n] m"
  have IH: "slots ?m nb es [0..<n] = slots m b es (map idx [0..<n])"
      "\<forall>x. in_region b (c * unat es) x \<longrightarrow> ?m x = m x"
    using Suc by auto
  have n: "n < N" "idx n < c" using Suc.prems by auto
  have sub: "in_region base (k * unat es) x"
    if "in_region (slot base es i) (unat es) x" "i < k" "k * unat es \<le> 2 ^ 64" for base k i x
  proof (cases "es = 0")
    case False
    with that show ?thesis
      by (intro in_region_sub [OF that(1)] slot_in_storage) (auto simp: word_neq_0_conv)
  qed (use that in \<open>simp add: in_region_def\<close>)
  note in_old = sub [of b, OF _ n(2) sz(2)] and in_new = sub [of nb, OF _ n(1) sz(1)]
  have apart: "disj_regions (slot nb es n) (unat es) (slot b es (idx n)) (unat es)"
  proof (cases "es = 0")
    case False
    with n sz show ?thesis
      by (intro disj_regions_sub [OF dj] slot_in_storage) (auto simp: word_neq_0_conv unat_gt_0)
  qed (simp add: disj_regions_def)
  have step: "f n ?m = store_bytes ?m (slot nb es n) (load_bytes m (slot b es (idx n)) (unat es))"
  proof -
    have "f n ?m = memcpy ?m (slot nb es n) (slot b es (idx n)) es" by (simp add: f_def)
    moreover have "load_bytes ?m (slot b es (idx n)) (unat es) = load_bytes m (slot b es (idx n)) (unat es)"
      using IH(2) in_old unat_lt_2p [of es] by (intro load_bytes_cong) auto
    ultimately show ?thesis by (simp only: memcpy_store [OF apart])
  qed
  have "slots (f n ?m) nb es [0..<n] = slots ?m nb es [0..<n]"
    unfolding step using n sz by (intro slots_store_other [where c = N]) auto
  moreover have "f n ?m x = m x" if "in_region b (c * unat es) x" for x
  proof -
    have "\<not> in_region (slot nb es n) (unat es) x"
      using that in_new disj_regionsD [OF dj] by blast
    with that IH(2) show ?thesis by (simp add: step store_bytes_outside)
  qed
  moreover have "load_bytes (f n ?m) (slot nb es n) (unat es)
      = load_bytes m (slot b es (idx n)) (unat es)"
    using unat_lt_2p [of es] by (simp add: step)
  ultimately show ?case by (simp add: IH(1))
qed (simp add: f_def)

lemma cqueue_grow_effect:
  assumes ok: "cq_ok q" and full: "q_length q = q_capacity q"
    and alloc: "grow_alloc_ok malloc free m q"
    and sz: "cq_next_capacity q < 2 ^ 64" "cq_next_capacity q * unat (q_elem_size q) \<le> 2 ^ 64"
  obtains m' q' where "cqueue_grow malloc free m q = (True, m', q')" "cq_ok q'"
    "cq_contents m' q' = cq_contents m q" "q_length q' = q_length q" "q_length q' < q_capacity q'"
    "unat (q_capacity q') = cq_next_capacity q" "q_elem_size q' = q_elem_size q"
    "q_max_capacity q' = q_max_capacity q"
proof -
  let ?c = "unat (q_capacity q)" and ?es = "q_elem_size q" and ?N = "cq_next_capacity q"
    and ?t = "unat (q_tail q)"
  define nc where "nc = (if q_capacity q > 0 then q_capacity q * 2 else 4)"
  have nc: "nc = of_nat ?N" "unat nc = ?N"
  proof -
    show "nc = of_nat ?N" by (simp add: nc_def cq_next_capacity_def word_neq_0_conv)
    with sz(1) show "unat nc = ?N" by simp
  qed
  obtain nb m1 where mal: "malloc m (nc * ?es) = (nb, m1)" by (cases "malloc m (nc * ?es)")
  define idx where "idx i = (?t + i) mod ?c" for i
  define m2 where "m2 = fold (\<lambda>i m. memcpy m (slot nb ?es i) (slot (q_buffer q) ?es (idx i)) ?es)
      [0..<?c] m1"
  define m3 where "m3 = (if q_buffer q \<noteq> 0 then free m2 (q_buffer q) (q_capacity q * ?es) else m2)"
  define q' where "q' = q\<lparr>q_buffer := nb, q_capacity := nc, q_head := q_length q, q_tail := 0\<rparr>"
  have nb: "nb \<noteq> 0" and dj: "disj_regions nb (?N * unat ?es) (q_buffer q) (?c * unat ?es)"
    and m1: "\<And>x. in_region (q_buffer q) (?c * unat ?es) x \<Longrightarrow> m1 x = m x"
    and fr: "\<And>m' x. in_region nb (?N * unat ?es) x \<Longrightarrow>
               free m' (q_buffer q) (q_capacity q * ?es) x = m' x"
    using alloc mal by (simp_all add: grow_alloc_ok_def Let_def nc(1))
  have csz: "?c * unat ?es \<le> 2 ^ 64" using ok by (simp add: cq_ok_def)
  have cN: "?c < ?N" by (auto simp: cq_next_capacity_def unat_gt_0 word_neq_0_conv)
  have t0: "0 < ?c \<Longrightarrow> ?t < ?c" using ok by (simp add: cq_ok_def word_less_nat_alt)
  have idx_word: "slot (q_buffer q) ?es (idx i)
      = q_buffer q + ((q_tail q + of_nat i) mod q_capacity q) * ?es" if "i < ?c" for i
  proof -
    have "?t + i < 2 ^ 64" "unat (of_nat i :: u64) = i"
      using that t0 cN sz(1) by (auto simp: cq_next_capacity_def split: if_splits)
    then have "unat ((q_tail q + of_nat i) mod q_capacity q) = idx i"
      by (simp add: unat_mod unat_add_small idx_def)
    then have "of_nat (idx i) = (q_tail q + of_nat i) mod q_capacity q"
      by (metis unat_of_nat_self)
    then show ?thesis by (simp add: slot_def)
  qed
  have loop: "fold (\<lambda>i m. let idx = (q_tail q + of_nat i) mod q_capacity q
        in memcpy m (nb + of_nat i * ?es) (q_buffer q + idx * ?es) ?es) [0..<unat (q_length q)] m1 = m2"
    unfolding m2_def full by (rule fold_cong) (auto simp: Let_def slot_def idx_word [unfolded slot_def])
  have copied: "slots m2 nb ?es [0..<?c] = slots m1 (q_buffer q) ?es (map idx [0..<?c])"
    unfolding m2_def using cN sz csz
    by (intro copy_slots [where N = ?N and c = ?c, THEN conjunct1] dj) (auto simp: idx_def)
  have "slots m3 nb ?es [0..<?c] = slots m2 nb ?es [0..<?c]"
    unfolding m3_def using fr cN sz(2) by (auto intro!: slots_cong [where c = ?N])
  also have "\<dots> = slots m (q_buffer q) ?es (map idx [0..<?c])"
    unfolding copied using m1 csz by (auto intro!: slots_cong [where c = ?c] simp: idx_def)
  finally have moved: "slots m3 nb ?es [0..<?c] = slots m (q_buffer q) ?es (map idx [0..<?c])" .
  have cont: "cq_contents m3 q' = cq_contents m q"
  proof -
    have "ring_idx ?t ?c ?c = map idx [0..<?c]" by (simp add: ring_idx_def idx_def)
    then show ?thesis
      using cN moved by (simp add: cq_contents_def q'_def full nc(2) ring_idx_unwrapped)
  qed
  have grow: "cqueue_grow malloc free m q = (True, m3, q')"
    unfolding cqueue_grow_def nc_def [symmetric]
    using loop by (auto simp: Let_def mal nb m3_def q'_def)
  have "cq_ok q'" using cN sz(2) full
    by (auto simp: cq_ok_def q'_def nc(2) word_le_nat_alt word_less_nat_alt)
  with that [OF grow _ cont] show ?thesis
    using cN full by (simp add: q'_def nc(2) word_less_nat_alt)
qed

subsection \<open>The interface\<close>

text \<open>A queue with a maximal capacity that got its storage is a bounded FIFO, whatever the allocator does later.\<close>

definition bq_ok :: "mem \<times> cqueue option \<Rightarrow> bool" where
  "bq_ok = (\<lambda>(m, qp). case qp of None \<Rightarrow> False
     | Some q \<Rightarrow> cq_ok q \<and> 0 < q_max_capacity q \<and> q_capacity q = q_max_capacity q \<and> \<not> null_storage q)"

definition bq_elem :: "mem \<times> cqueue option \<Rightarrow> u64" where
  "bq_elem = (\<lambda>(m, qp). case qp of None \<Rightarrow> 0 | Some q \<Rightarrow> q_elem_size q)"

definition bq_contents :: "mem \<times> cqueue option \<Rightarrow> u8 list list" where
  "bq_contents = (\<lambda>(m, qp). case qp of None \<Rightarrow> [] | Some q \<Rightarrow> cq_contents m q)"

definition bq_bound :: "mem \<times> cqueue option \<Rightarrow> nat" where
  "bq_bound = (\<lambda>(m, qp). case qp of None \<Rightarrow> 0 | Some q \<Rightarrow> unat (q_max_capacity q))"

definition bq_val :: "mem \<times> cqueue option \<Rightarrow> u64 \<Rightarrow> u8 list" where
  "bq_val = (\<lambda>(m, qp) p. case qp of None \<Rightarrow> [] | Some q \<Rightarrow> cq_val m q p)"

definition bq_apart :: "mem \<times> cqueue option \<Rightarrow> u64 \<Rightarrow> bool" where
  "bq_apart = (\<lambda>(m, qp) p. case qp of None \<Rightarrow> False | Some q \<Rightarrow> cq_apart q p)"

lemmas bq_defs = bq_elem_def bq_ok_def bq_contents_def bq_bound_def bq_val_def bq_apart_def

lemma bq_enqueue_room:
  assumes "cq_ok q" "cq_apart q p" "q_length q < q_capacity q" and st: "\<not> null_storage q"
  obtains m' q' where "cqueue_enqueue malloc free (m, Some q) p = Inr (1, m', Some q')" "cq_ok q'"
    "cq_contents m' q' = cq_contents m q @ [cq_val m q p]"
    "q_capacity q' = q_capacity q" "q_max_capacity q' = q_max_capacity q" "q_elem_size q' = q_elem_size q"
    "\<not> null_storage q'"
    "\<forall>r. cq_apart q r \<longrightarrow> cq_apart q' r \<and> cq_val m' q' r = cq_val m q r"
proof -
  obtain m' q' where e: "cqueue_put m q p = (m', q')" "cq_ok q'"
      "cq_contents m' q' = cq_contents m q @ [cq_val m q p]"
      "m' = store_bytes m (slot (q_buffer q) (q_elem_size q) (unat (q_head q))) (cq_val m q p)"
      "q_buffer q' = q_buffer q" "q_capacity q' = q_capacity q"
      "q_max_capacity q' = q_max_capacity q" "q_elem_size q' = q_elem_size q"
    using cqueue_put_effect [OF assms(1-3)] .
  have sz: "unat (q_capacity q) * unat (q_elem_size q) \<le> 2 ^ 64"
    and h: "unat (q_head q) < unat (q_capacity q)"
    using assms(1,3) by (auto simp: cq_ok_def word_less_nat_alt word_le_nat_alt)
  have "cq_val m' q' r = cq_val m q r" if "cq_apart q r" for r
    using slot_apart [OF that [unfolded cq_apart_def] h sz] unat_lt_2p [of "q_elem_size q"]
    by (simp add: cq_val_def e load_store_disj)
  then show ?thesis
    using e assms(3) st by (intro that [of m' q']) (auto simp: cqueue_enqueue_def cq_apart_def null_storage_def)
qed

lemma bq_enqueue_law:
  assumes "bq_ok s" "bq_apart s p" "length (bq_contents s) < bq_bound s"
  shows "\<exists>s'. cqueue_enqueue malloc free s p = Inr (1, s') \<and> bq_ok s' \<and> bq_elem s' = bq_elem s
    \<and> bq_contents s' = bq_contents s @ [bq_val s p] \<and> bq_bound s' = bq_bound s
    \<and> (\<forall>r. bq_apart s r \<longrightarrow> bq_apart s' r \<and> bq_val s' r = bq_val s r)"
proof -
  obtain m q where s: "s = (m, Some q)"
    using assms(1) by (cases s) (auto simp: bq_ok_def split: option.splits)
  have q: "cq_ok q" "0 < q_max_capacity q" "q_capacity q = q_max_capacity q" "cq_apart q p"
      "q_length q < q_capacity q" "\<not> null_storage q"
    using assms by (auto simp: s bq_defs word_less_nat_alt)
  show ?thesis
    by (rule bq_enqueue_room [OF q(1,4,5,6), where malloc = malloc and free = free and m = m])
      (use q in \<open>auto simp: s bq_defs\<close>)
qed

lemma bq_dequeue_law:
  assumes "bq_ok s" "bq_apart s p" "bq_contents s \<noteq> []"
  shows "\<exists>s'. cqueue_dequeue s p = Inr (1, s') \<and> bq_ok s' \<and> bq_elem s' = bq_elem s
    \<and> bq_contents s' = tl (bq_contents s) \<and> bq_bound s' = bq_bound s \<and> bq_val s' p = hd (bq_contents s)
    \<and> (\<forall>r. bq_apart s r \<longrightarrow> bq_apart s' r
        \<and> (disj_regions p (unat (bq_elem s)) r (unat (bq_elem s)) \<longrightarrow> bq_val s' r = bq_val s r))"
proof -
  obtain m q where s: "s = (m, Some q)"
    using assms(1) by (cases s) (auto simp: bq_ok_def split: option.splits)
  have q: "cq_ok q" "0 < q_max_capacity q" "q_capacity q = q_max_capacity q" "cq_apart q p" "q_length q \<noteq> 0" "\<not> null_storage q"
    using assms by (auto simp: s bq_defs)
  obtain n where "unat (q_length q) = Suc n" using q(5) by (metis unat_eq_0 not0_implies_Suc)
  then have len: "length (hd (cq_contents m q)) = unat (q_elem_size q)"
    by (simp add: cq_contents_def ring_idx_def slots_def hd_map del: upt_Suc)
  have frame: "load_bytes (store_bytes m p (hd (cq_contents m q))) r (unat (q_elem_size q)) = load_bytes m r (unat (q_elem_size q))"
    if "disj_regions p (unat (q_elem_size q)) r (unat (q_elem_size q))" for r
    using that len unat_lt_2p [of "q_elem_size q"] by (intro load_store_disj) (simp_all add: disj_regions_commute)
  show ?thesis
    using cqueue_dequeue_effect(1,3,4) [OF q(1,4,5,6), of m] cqueue_dequeue_effect(2) [OF q(1,4,5,6)] q(2,3,6) frame
    by (simp add: s bq_defs cq_apart_def cq_val_def null_storage_def)
qed

interpretation bq: bounded_fifo "\<lambda>s. bq_ok s \<and> bq_elem s = es" bq_contents bq_bound "cqueue_enqueue malloc free"
  cqueue_dequeue bq_val bq_apart "\<lambda>p q. disj_regions p (unat es) q (unat es)" for malloc free es
proof (unfold_locales, goal_cases)
  case (1 s)
  then show ?case by (auto simp: bq_defs cq_ok_def word_le_nat_alt split: option.splits)
next
  case (2 s p)
  then show ?case using bq_enqueue_law [of s p malloc free] by auto
next
  case (3 s p)
  then show ?case by (auto simp: bq_defs cqueue_enqueue_def word_unat_eq_iff split: option.splits)
next
  case (4 s p)
  then show ?case using bq_dequeue_law [of s p] by auto
next
  case (5 s p)
  then show ?case by (auto simp: bq_defs cqueue_dequeue_def split: option.splits)
qed

lemma cqueue_init_bounded:
  assumes "0 < cap" "unat cap * unat es \<le> 2 ^ 64" "cqueue_init malloc m cap es = (m', q0)" "q_buffer q0 \<noteq> 0"
  shows "bq_ok (m', Some q0)" "bq_contents (m', Some q0) = []" "bq_bound (m', Some q0) = unat cap" "bq_elem (m', Some q0) = es"
    "bq_apart (m', Some q0) p \<longleftrightarrow> disj_regions p (unat es) (q_buffer q0) (unat cap * unat es)"
    "bq_val (m', Some q0) p = load_bytes m' p (unat es)"
  using assms
  by (auto simp: bq_defs cqueue_init_def Let_def cq_ok_def null_storage_def cq_apart_def cq_val_def split: prod.splits if_splits)

text \<open>A queue that got no memory accepts its first element by writing through the null pointer.\<close>

lemma cqueue_init_failed:
  assumes "0 < cap" "es \<noteq> 0" "cqueue_init malloc m cap es = (m', q0)" "q_buffer q0 = 0"
  shows "cqueue_enqueue malloc free (m', Some q0) p = Inl NullDeref"
  using assms by (auto simp: cqueue_init_def Let_def cqueue_enqueue_def null_storage_def split: prod.splits if_splits)

lemma cqueue_size_contents:
  "cqueue_size qp = of_nat (length (bq_contents (m, qp)))"
  "cqueue_is_empty qp = c_bool (bq_contents (m, qp) = [])"
  by (auto simp: cqueue_size_def cqueue_is_empty_def bq_contents_def split: option.splits)

subsection \<open>Properties\<close>

text \<open>C2: A queue created with a maximal capacity whose storage was allocated is a bounded first-in first-out queue: whatever
  enqueues and dequeues a client makes, in any order and number, they return what a queue of at most \<open>capacity\<close> elements
  returns, and each dequeue that returns 1 delivers the bytes of the oldest element, whatever the allocator and the deallocator
  do after the creation.  A queue whose storage was not allocated ends in a write through the null pointer when the first
  element (of at least one byte) is enqueued.\<close>

theorem cqueue_fifo:
  assumes "0 < capacity" "unat capacity * unat es \<le> 2 ^ 64"
    and "cqueue_init malloc m capacity es = (m', q0)"
    and "\<forall>p\<in>set (q # queue_ptrs ops). disj_regions p (unat es) (q_buffer q0) (unat capacity * unat es)"
    and "\<forall>p\<in>set (queue_ptrs ops). disj_regions q (unat es) p (unat es)"
  shows "(q_buffer q0 \<noteq> 0 \<longrightarrow>
      run_queue (cqueue_enqueue malloc free) cqueue_dequeue bq_val q ops (m', Some q0)
        = Inr (spec_queue (unat capacity) (\<lambda>p. load_bytes m' p (unat es)) ops []))
    \<and> (q_buffer q0 = 0 \<and> es \<noteq> 0 \<longrightarrow> cqueue_enqueue malloc free (m', Some q0) p = Inl NullDeref)"
proof (intro conjI impI)
  assume "q_buffer q0 \<noteq> 0"
  note init = cqueue_init_bounded [OF assms(1-3) this]
  show "run_queue (cqueue_enqueue malloc free) cqueue_dequeue bq_val q ops (m', Some q0)
      = Inr (spec_queue (unat capacity) (\<lambda>p. load_bytes m' p (unat es)) ops [])"
    using bq.run_queue_spec [where s = "(m', Some q0)" and es = es and q = q and ops = ops and malloc = malloc and free = free
        and v = "\<lambda>p. load_bytes m' p (unat es)"] assms(4,5)
    by (simp add: init)
qed (use cqueue_init_failed [OF assms(1) _ assms(3)] in blast)

theorem cqueue_fifo_witness:
  "run_queue (cqueue_enqueue (\<lambda>m n. (0x1000, m)) (\<lambda>m p n. m)) cqueue_dequeue bq_val 0x30
     [Enq 0x10, Enq 0x20, Enq 0x14, Deq, Enq 0x14, Deq, Deq, Deq]
     (\<lambda>x. ucast x, Some (snd (cqueue_init (\<lambda>m n. (0x1000, m)) (\<lambda>x. ucast x) 2 1)))
   = Inr [(1, None), (1, None), (0, None), (1, Some [0x10]), (1, None), (1, Some [0x20]), (1, Some [0x14]), (0, None)]"
  using cqueue_fifo [where capacity = 2 and es = 1 and q = "0x30" and malloc = "\<lambda>m n. (0x1000, m)" and m = "\<lambda>x. ucast x"
      and free = "\<lambda>m p n. m" and ops = "[Enq 0x10, Enq 0x20, Enq 0x14, Deq, Enq 0x14, Deq, Deq, Deq]"]
  by (simp add: cqueue_init_def disj_regions_def)

text \<open>An unbounded queue never refuses an element while the allocator serves it: when the
  storage is full it is doubled (4 slots at first), the elements move to the new storage in order,
  and the new element is appended to unchanged contents.\<close>

lemma cqueue_unbounded_enqueue:
  assumes "cq_ok q" "q_max_capacity q = 0" "q_length q = q_capacity q"
    and "grow_alloc_ok malloc free m q"
    and "cq_next_capacity q < 2 ^ 64" "cq_next_capacity q * unat (q_elem_size q) \<le> 2 ^ 64"
    and ap: "\<And>m' q'. cqueue_grow malloc free m q = (True, m', q') \<Longrightarrow>
           cq_apart q' p \<and> cq_val m' q' p = cq_val m q p"
  shows "\<exists>m' q'. cqueue_enqueue malloc free (m, Some q) p = Inr (1, m', Some q') \<and> cq_ok q'
    \<and> cq_contents m' q' = cq_contents m q @ [cq_val m q p]
    \<and> unat (q_capacity q') = cq_next_capacity q"
proof -
  obtain m1 q1 where g: "cqueue_grow malloc free m q = (True, m1, q1)" "cq_ok q1"
      "cq_contents m1 q1 = cq_contents m q" "q_length q1 < q_capacity q1"
      "unat (q_capacity q1) = cq_next_capacity q"
    using cqueue_grow_effect [OF assms(1,3,4,5,6)] .
  obtain m2 q2 where p: "cqueue_put m1 q1 p = (m2, q2)" "cq_ok q2"
      "cq_contents m2 q2 = cq_contents m1 q1 @ [cq_val m1 q1 p]" "q_capacity q2 = q_capacity q1"
    using cqueue_put_effect [OF g(2) conjunct1 [OF ap [OF g(1)]] g(4)] .
  show ?thesis
    using g p ap [OF g(1)] assms(2,3) by (simp add: cqueue_enqueue_def)
qed

definition wrapped_queue :: cqueue where
  "wrapped_queue = \<lparr>q_buffer = 0x1000, q_capacity = 2, q_max_capacity = 0, q_elem_size = 1,
     q_head = 1, q_tail = 1, q_length = 2\<rparr>"

lemma cqueue_unbounded_enqueue_witness:
  "\<exists>m' q'. cqueue_enqueue (\<lambda>m n. (0x2000, m)) (\<lambda>m p n. m) (\<lambda>x. ucast x, Some wrapped_queue) 0x42
      = Inr (1, m', Some q') \<and> cq_contents m' q' = [[1], [0], [0x42]] \<and> q_capacity q' = 4"
proof -
  let ?m = "\<lambda>x :: u64. ucast x :: u8" and ?mal = "\<lambda>m :: mem. \<lambda>n :: u64. (0x2000 :: u64, m)"
  have c: "cq_contents ?m wrapped_queue @ [cq_val ?m wrapped_queue 0x42] = [[1], [0], [0x42]]"
    by (simp add: cq_contents_def cq_val_def wrapped_queue_def ring_idx_def slot_def upt_rec)
  have "\<exists>m' q'. cqueue_enqueue ?mal (\<lambda>m p n. m) (?m, Some wrapped_queue) 0x42 = Inr (1, m', Some q')
    \<and> cq_ok q' \<and> cq_contents m' q' = cq_contents ?m wrapped_queue @ [cq_val ?m wrapped_queue 0x42]
    \<and> unat (q_capacity q') = cq_next_capacity wrapped_queue"
  proof (rule cqueue_unbounded_enqueue)
    fix m' q' assume g: "cqueue_grow ?mal (\<lambda>m p n. m) ?m wrapped_queue = (True, m', q')"
    then have "cq_apart q' 0x42" "q_elem_size q' = 1"
      by (auto simp: cqueue_grow_def wrapped_queue_def Let_def cq_apart_def disj_regions_def)
    moreover have "m' (0x42 :: u64) = ?m 0x42"
      using g by (auto simp: cqueue_grow_def wrapped_queue_def Let_def upt_rec memcpy_store
          disj_regions_def store_bytes_def)
    ultimately show "cq_apart q' 0x42 \<and> cq_val m' q' 0x42 = cq_val ?m wrapped_queue 0x42"
      by (simp add: cq_val_def wrapped_queue_def)
  qed (auto simp: cq_ok_def wrapped_queue_def cq_next_capacity_def grow_alloc_ok_def
      disj_regions_def)
  then show ?thesis
    unfolding c by (auto simp: cq_next_capacity_def wrapped_queue_def word_unat_eq_iff)
qed

end
