(* ===== verification/Relocation.thy ===== *)
theory Relocation
  imports Mem_Functions
begin

section \<open>Relocating machine code (\<open>kernel/process/loading/process_loader.c\<close>)\<close>

text \<open>
  \<open>relocate_code\<close> copies the instructions of a program to another address and rewrites the
  pc-relative ones.  Every \<open>print_...\<close> function of the source decodes an instruction for the
  verbose listing and returns the instruction to store: its model returns the pair of the new
  instruction and the operands it prints.  The shifts of signed values are arithmetic shifts on
  the two's complement word, as the compiler makes them.
\<close>

record process_layout =
  code_base_start :: u64
  code_size :: u64
  data_start :: u64
  data_size :: u64

type_synonym printer = "u32 \<Rightarrow> u64 \<Rightarrow> bool \<Rightarrow> process_layout \<Rightarrow> process_layout \<Rightarrow> u32 \<times> int list"

text \<open>The bit field of width \<open>n\<close> at position \<open>i\<close>.\<close>

definition field :: "nat \<Rightarrow> nat \<Rightarrow> u32 \<Rightarrow> u32" where
  "field i n instr = drop_bit i instr AND mask n"

definition in_code :: "process_layout \<Rightarrow> u64 \<Rightarrow> bool" where
  "in_code l target \<longleftrightarrow> target \<ge> code_base_start l \<and> target < code_base_start l + code_size l"

definition in_data :: "process_layout \<Rightarrow> u64 \<Rightarrow> bool" where
  "in_data l target \<longleftrightarrow> target \<ge> data_start l \<and> target < data_start l + data_size l"

definition print_branch :: printer where
  "print_branch instr pc translate source destination =
     (let imm26 = instr AND 0x03FFFFFF;
          signed_imm = signed_drop_bit 6 (push_bit 6 imm26);
          target = pc + push_bit 2 (scast signed_imm);
          shown = [uint target, uint pc];
          off = (ucast (pc - code_base_start source) :: u32);
          rel = signed_drop_bit 2 (target - (code_base_start destination + ucast off))
      in if \<not> translate then (instr, shown)
         else if \<not> in_code source target then
           ((instr AND 0xFC000000) OR ucast (rel AND 0x03FFFFFF),
            if sint rel < - (2 ^ 25) \<or> sint rel \<ge> 2 ^ 25 then shown @ [sint rel] else shown)
         else (instr, shown))"

definition print_cond_branch :: printer where
  "print_cond_branch instr pc translate source destination =
     (let imm19 = drop_bit 5 instr AND 0x7FFFF;
          signed_imm = signed_drop_bit 13 (push_bit 13 imm19);
          target = pc + push_bit 2 (scast signed_imm);
          shown = [uint target, uint (instr AND 0xF)];
          off = (ucast (pc - code_base_start source) :: u32);
          rel = signed_drop_bit 2 (target - (code_base_start destination + ucast off))
      in if \<not> translate then (instr, shown)
         else if \<not> in_code source target then
           ((instr AND 0xFC000000) OR ucast (rel AND 0x03FFFFFF), shown)
         else (instr, shown))"

definition print_add :: printer where
  "print_add instr pc translate source destination =
     (let imm = field 10 12 instr;
          imm = (if drop_bit 22 instr AND 1 \<noteq> 0 then push_bit 12 imm else imm)
      in (instr, [uint (field 0 5 instr), uint (field 5 5 instr), uint imm]))"

definition adrp_offset :: "u32 \<Rightarrow> u64" where
  "adrp_offset instr =
     (let immhi = ucast (drop_bit 5 instr AND 0x7FFFF); immlo = ucast (drop_bit 29 instr AND 3)
      in signed_drop_bit 32 (push_bit 44 (push_bit 2 immhi OR immlo)))"

definition print_adrp :: printer where
  "print_adrp instr pc translate source destination =
     (let offset = adrp_offset instr;
          pc_page = pc AND NOT 0xFFF;
          target = pc_page + offset;
          shown = [uint (field 0 5 instr), uint target];
          pc_offset = pc - code_base_start source;
          new_target = data_start destination + (target - data_start source);
          dst_pc_page = (code_base_start destination + pc_offset) AND NOT 0xFFF;
          new_offset = new_target - dst_pc_page;
          new_immhi = signed_drop_bit 14 new_offset AND 0x7FFFF;
          new_immlo = signed_drop_bit 12 new_offset AND 3;
          instr1 = (instr AND NOT 0x60000000) OR ucast (push_bit 29 new_immlo);
          instr2 = (instr1 AND NOT (push_bit 5 0x7FFFF)) OR ucast (push_bit 5 new_immhi)
      in if translate \<and> in_data source target then (instr2, shown) else (instr, shown))"

definition print_ldr_str :: printer where
  "print_ldr_str instr pc translate source destination =
     (let rt = field 0 5 instr; rn = field 5 5 instr; imm = push_bit 3 (field 10 12 instr)
      in (instr, if rt = 31 then [uint rn] else [uint rt, uint rn, uint imm]))"

definition print_stp_pre :: printer where
  "print_stp_pre instr pc translate source destination =
     (let imm7 = field 15 7 instr;
          imm7 = (if imm7 AND 0x40 \<noteq> 0 then imm7 OR NOT 0x7F else imm7)
      in (instr, [uint (field 0 5 instr), uint (field 10 5 instr), uint (field 5 5 instr), sint (imm7 * 8)]))"

definition print_movz :: printer where
  "print_movz instr pc translate source destination =
     (instr, [uint (field 0 5 instr), uint (field 5 16 instr), uint (field 21 2 instr * 16)])"

definition print_mov32 :: printer where
  "print_mov32 instr pc translate source destination =
     (instr, [uint (field 0 5 instr), uint (field 5 16 instr)])"

definition print_movr :: printer where
  "print_movr instr pc translate source destination =
     (instr, [uint (field 0 5 instr), uint (field 15 5 instr)])"

definition print_cmp :: printer where
  "print_cmp instr pc translate source destination =
     (instr, [uint (field 5 5 instr), uint (field 16 5 instr)])"

definition ops :: "(u32 \<times> u32 \<times> string \<times> printer) list" where
  "ops =
     [(0xFFC00000, 0xA9800000, ''stp'', print_stp_pre),
      (0xFFC00000, 0x52800000, ''mov'', print_mov32),
      (0xFFC00000, 0xD2800000, ''movz'', print_movz),
      (0x9F000000, 0x90000000, ''adrp'', print_adrp),
      (0x7F000000, 0x11000000, ''add'', print_add),
      (0xFFF00000, 0xF9400000, ''ldr'', print_ldr_str),
      (0xFFF00000, 0xF9000000, ''str'', print_ldr_str),
      (0xFC000000, 0x94000000, ''bl'', print_branch),
      (0xFFFFFC1F, 0xEB00001F, ''cmp'', print_cmp),
      (0xFC000000, 0x14000000, ''b'', print_branch),
      (0xFF000010, 0x54000000, ''b.cond'', print_cond_branch),
      (0xFFC00000, 0xB9000000, ''str'', print_ldr_str),
      (0xFFF00000, 0xB9400000, ''ldr'', print_ldr_str),
      (0xFF800000, 0x72800000, ''movk'', print_movz),
      (0xFF00001F, 0x6B00001F, ''cmp'', print_cmp),
      (0xFFE00000, 0xAA000000, ''mov'', print_movr)]"

definition lookup_op :: "u32 \<Rightarrow> (string \<times> printer) option" where
  "lookup_op instr = map_option (snd \<circ> snd) (find (\<lambda>(mask, pattern, _). instr AND mask = pattern) ops)"

text \<open>The instruction to store and, for a known instruction, its mnemonic and operands.\<close>

definition parse_instruction ::
    "u32 \<Rightarrow> u64 \<Rightarrow> bool \<Rightarrow> process_layout \<Rightarrow> process_layout \<Rightarrow> u32 \<times> (string \<times> int list) option" where
  "parse_instruction instr pc translate source destination =
     (case lookup_op instr of
        None \<Rightarrow> (instr, None)
      | Some (mnemonic, print_args) \<Rightarrow>
          (case print_args instr pc translate source destination of
             (newinstr, shown) \<Rightarrow> (newinstr, Some (mnemonic, shown))))"

definition layout_at :: "u64 \<Rightarrow> u32 \<Rightarrow> u64 \<Rightarrow> u32 \<Rightarrow> process_layout" where
  "layout_at base sz dbase dsize =
     \<lparr>code_base_start = base, code_size = ucast sz, data_start = dbase, data_size = ucast dsize\<rparr>"

definition relocate_code :: "mem \<Rightarrow> u64 \<Rightarrow> u64 \<Rightarrow> u32 \<Rightarrow> u64 \<Rightarrow> u64 \<Rightarrow> u32 \<Rightarrow> mem" where
  "relocate_code m dst src sz src_data_base dst_data_base dsize =
     (let source = layout_at src sz src_data_base dsize;
          destination = layout_at dst sz dst_data_base dsize
      in fold (\<lambda>i m. write32 m (dst + of_nat (4 * i))
                (fst (parse_instruction (read32 m (src + of_nat (4 * i))) (src + of_nat (4 * i)) True
                        source destination)))
           [0..<unat (sz div 4)] m)"

subsection \<open>What the processor makes of an instruction\<close>

definition is_branch :: "u32 \<Rightarrow> bool" where
  "is_branch instr \<longleftrightarrow> instr AND 0xFC000000 = 0x94000000 \<or> instr AND 0xFC000000 = 0x14000000"

text \<open>The address a \<open>b\<close> or \<open>bl\<close> at \<open>pc\<close> jumps to, and the page an \<open>adrp\<close> at \<open>pc\<close> forms.\<close>

definition branch_target :: "u32 \<Rightarrow> u64 \<Rightarrow> u64" where
  "branch_target instr pc = pc + of_int (4 * sint (ucast instr :: 26 word))"

definition adrp_imm :: "u32 \<Rightarrow> 21 word" where
  "adrp_imm instr = push_bit 2 (ucast (drop_bit 5 instr AND 0x7FFFF)) OR ucast (drop_bit 29 instr AND 3)"

definition adrp_target :: "u32 \<Rightarrow> u64 \<Rightarrow> u64" where
  "adrp_target instr pc = (pc AND NOT 0xFFF) + of_int (4096 * sint (adrp_imm instr))"

lemma signed_field_26: "signed_drop_bit 6 (push_bit 6 (instr AND 0x03FFFFFF)) = (scast (ucast instr :: 26 word) :: u32)"
proof -
  have m: "bit (0x03FFFFFF :: u32) n \<longleftrightarrow> n < 26" for n
    using bit_mask_iff [of 26 n, where 'a = u32] by (auto simp: mask_eq_exp_minus_1)
  show ?thesis
  proof (rule bit_word_eqI)
    fix n :: nat assume "n < LENGTH(32)"
    then show "bit (signed_drop_bit 6 (push_bit 6 (instr AND 0x03FFFFFF))) n
        \<longleftrightarrow> bit (scast (ucast instr :: 26 word) :: u32) n"
      by (cases n "25 :: nat" rule: linorder_cases)
        (simp_all only: bit_signed_drop_bit_iff bit_push_bit_iff bit_and_iff m bit_signed_iff bit_ucast_iff
           min_def, auto)
  qed
qed

lemma signed_drop_bit_exact:
  assumes "d = 2 ^ k * (q :: u64)" "k < 64"
  shows "2 ^ k * sint (signed_drop_bit k d) = sint d"
proof -
  have "sint (signed_drop_bit k d) = drop_bit k (sint d)" by (rule sint_signed_drop_bit_eq)
  moreover have "2 ^ k dvd sint d"
  proof -
    have "of_int (2 ^ k * uint q) = d" by (simp add: assms(1))
    then have "uint d = 2 ^ k * uint q mod 2 ^ 64" using uint_word_of_int [of "2 ^ k * uint q", where 'a = 64] by simp
    moreover have "(2 :: int) ^ k dvd 2 ^ 64" using assms(2) by (intro le_imp_power_dvd) simp
    ultimately have "2 ^ k dvd uint d" by (simp add: dvd_mod)
    moreover have "uint d < 2 ^ 64" using uint_lt2p [of d] by simp
    then have "take_bit 64 (uint d) = uint d" by (simp add: take_bit_int_eq_self)
    moreover have "sint d = take_bit 64 (uint d) - 2 ^ 64 * of_bool (bit (uint d) 63)"
      by (simp add: sint_uint signed_take_bit_eq_take_bit_minus)
    ultimately show ?thesis using \<open>2 ^ k dvd 2 ^ 64\<close> by (metis dvd_diff dvd_mult2)
  qed
  ultimately show ?thesis by (simp add: drop_bit_eq_div)
qed

lemma sint_ucast_narrow:
  assumes "- (2 ^ (LENGTH('b) - 1)) \<le> sint (w :: u64)" "sint w < 2 ^ (LENGTH('b) - 1)" "LENGTH('b) \<le> 64"
  shows "sint (ucast w :: 'b::len word) = sint w"
proof -
  have "LENGTH('b) - Suc 0 \<le> 63" using assms(3) by linarith
  then have "sint (ucast w :: 'b word) = signed_take_bit (LENGTH('b) - 1) (sint w)"
    by (simp add: sint_uint unsigned_ucast_eq signed_take_bit_take_bit signed_take_bit_signed_take_bit min_def)
  also have "\<dots> = sint w" using assms(1,2) by (intro signed_take_bit_int_eq_self) simp_all
  finally show ?thesis .
qed

text \<open>A branch decoded from the encoding that \<open>print_branch\<close> writes.\<close>

lemma mask_clash: "(instr :: u32) AND k = c \<Longrightarrow> p AND k \<noteq> c AND m \<Longrightarrow> instr AND m \<noteq> p"
  by (metis and.assoc and.commute)

lemma is_branch_lookup:
  assumes "is_branch instr"
  obtains name where "lookup_op instr = Some (name, print_branch)"
proof -
  consider "instr AND 0xFC000000 = 0x94000000" | "instr AND 0xFC000000 = 0x14000000"
    using assms by (auto simp: is_branch_def)
  then show thesis
  proof cases
    case 1
    show thesis by (rule that [of "''bl''"]) (simp add: lookup_op_def ops_def 1 mask_clash [OF 1])
  next
    case 2
    show thesis by (rule that [of "''b''"]) (simp add: lookup_op_def ops_def 2 mask_clash [OF 2])
  qed
qed

lemma print_branch_target:
  "pc + push_bit 2 (scast (signed_drop_bit 6 (push_bit 6 (instr AND 0x03FFFFFF)) :: u32)) = branch_target instr pc"
proof -
  have "(scast (scast (ucast instr :: 26 word) :: u32) :: u64) = of_int (sint (ucast instr :: 26 word))"
    unfolding of_int_sint by (rule bit_word_eqI) (auto simp: bit_simps min_def)
  then show ?thesis
    unfolding signed_field_26 branch_target_def by (simp add: push_bit_eq_mult)
qed

lemma word_slots_apart:
  assumes "4 * N \<le> 2 ^ 64" "i < n" "n < N"
  shows "disj_regions (a + of_nat (4 * i)) 4 (a + of_nat (4 * n)) 4"
proof -
  have d: "(a + of_nat (4 * n)) - (a + of_nat (4 * i)) = (of_nat (4 * (n - i)) :: u64)"
    using assms by (simp add: of_nat_diff algebra_simps)
  have u: "unat (of_nat (4 * (n - i)) :: u64) = 4 * (n - i)"
    using assms by (intro unat_of_nat_lt) simp
  have "(a + of_nat (4 * n)) \<noteq> (a + of_nat (4 * i))"
  proof
    assume "a + of_nat (4 * n) = a + of_nat (4 * i)"
    then have "unat (of_nat (4 * (n - i)) :: u64) = 0" unfolding d [symmetric] by simp
    with u assms show False by simp
  qed
  from unat_diff_swap [OF this] have "4 \<le> unat ((a + of_nat (4 * i)) - (a + of_nat (4 * n)))"
    unfolding d u using assms by simp
  then show ?thesis using assms by (simp only: disj_regions_def d u) simp
qed

text \<open>Copying words one by one to a region apart, each through \<open>g\<close>.\<close>

lemma fold_map_words:
  fixes g :: "nat \<Rightarrow> u32 \<Rightarrow> u32" and m :: mem
  assumes "disj_regions dst (4 * N) src (4 * N)" "4 * N \<le> 2 ^ 64" "n \<le> N"
  defines "F \<equiv> \<lambda>n. fold (\<lambda>i m. write32 m (dst + of_nat (4 * i)) (g i (read32 m (src + of_nat (4 * i))))) [0..<n] m"
  shows "(\<forall>i<n. read32 (F n) (dst + of_nat (4 * i)) = g i (read32 m (src + of_nat (4 * i))))
    \<and> (\<forall>x. \<not> in_region dst (4 * n) x \<longrightarrow> F n x = m x)"
  using assms(3)
proof (induction n)
  case 0
  then show ?case by (simp add: F_def)
next
  case (Suc n)
  then have IH: "i < n \<Longrightarrow> read32 (F n) (dst + of_nat (4 * i)) = g i (read32 m (src + of_nat (4 * i)))"
    "\<not> in_region dst (4 * n) x \<Longrightarrow> F n x = m x" for i x by auto
  have step: "F (Suc n) = write32 (F n) (dst + of_nat (4 * n)) (g n (read32 (F n) (src + of_nat (4 * n))))"
    by (simp add: F_def)
  have "load_bytes (F n) (src + of_nat (4 * n)) 4 = load_bytes m (src + of_nat (4 * n)) 4"
  proof (rule load_bytes_cong)
    fix x assume x: "in_region (src + of_nat (4 * n)) 4 x"
    have "unat (of_nat (4 * n) :: u64) = 4 * n" using Suc.prems assms(2) by (intro unat_of_nat_lt) simp
    then have "in_region src (4 * N) x" by (intro in_region_sub [OF x]) (use Suc.prems in simp)
    then have "\<not> in_region dst (4 * N) x"
      using assms(1) disj_regionsD disj_regions_commute by blast
    then have "\<not> in_region dst (4 * n) x" using Suc.prems by (auto simp: in_region_def)
    then show "F n x = m x" by (rule IH(2))
  qed simp
  then have src: "read32 (F n) (src + of_nat (4 * n)) = read32 m (src + of_nat (4 * n))"
    by (simp add: read32_def)
  have "read32 (F (Suc n)) (dst + of_nat (4 * i)) = g i (read32 m (src + of_nat (4 * i)))" if "i < Suc n" for i
  proof (cases "i = n")
    case False
    then have "disj_regions (dst + of_nat (4 * i)) 4 (dst + of_nat (4 * n)) 4"
      using that Suc.prems by (intro word_slots_apart [OF assms(2)]) auto
    then show ?thesis
      using IH(1) [of i] that False by (simp add: step read32_def write32_def load_store_disj)
  next
    case True
    show ?thesis unfolding True by (simp only: step src read_write_same)
  qed
  moreover have "F (Suc n) x = m x" if x: "\<not> in_region dst (4 * Suc n) x" for x
  proof -
    have "unat (of_nat (4 * n) :: u64) = 4 * n" using Suc.prems assms(2) by (intro unat_of_nat_lt) simp
    then have "\<not> in_region (dst + of_nat (4 * n)) 4 x"
      using x in_region_sub [of "dst + of_nat (4 * n)" 4 x dst "4 * Suc n"] by auto
    moreover have "\<not> in_region dst (4 * n) x" using x by (auto simp: in_region_def)
    ultimately show ?thesis using IH(2) by (simp add: step write32_def store_bytes_outside)
  qed
  ultimately show ?case by blast
qed

text \<open>Decoding what \<open>print_branch\<close> encodes.\<close>

lemma branch_encode:
  "ucast ((instr AND 0xFC000000) OR ucast (rel AND 0x03FFFFFF :: u64) :: u32) = (ucast rel :: 26 word)"
  "((instr AND 0xFC000000) OR ucast (rel AND 0x03FFFFFF :: u64) :: u32) AND 0xFC000000 = instr AND 0xFC000000"
proof -
  have h: "bit (0xFC000000 :: u32) n \<longleftrightarrow> 26 \<le> n \<and> n < 32" for n
  proof -
    have "(0xFC000000 :: u32) = NOT (mask 26)" by (simp add: mask_eq_exp_minus_1)
    then show ?thesis by (auto simp only: bit_not_iff bit_mask_iff) auto
  qed
  have l: "bit (0x03FFFFFF :: u64) n \<longleftrightarrow> n < 26" for n
    using bit_mask_iff [of 26 n, where 'a = u64] by (auto simp: mask_eq_exp_minus_1)
  show "ucast ((instr AND 0xFC000000) OR ucast (rel AND 0x03FFFFFF) :: u32) = (ucast rel :: 26 word)"
    by (rule bit_word_eqI) (simp only: bit_ucast_iff bit_or_iff bit_and_iff h l, auto)
  show "((instr AND 0xFC000000) OR ucast (rel AND 0x03FFFFFF) :: u32) AND 0xFC000000 = instr AND 0xFC000000"
    by (rule bit_word_eqI) (simp only: bit_ucast_iff bit_or_iff bit_and_iff h l, auto)
qed

lemma print_branch_opcode:
  "fst (print_branch instr pc True source destination) AND 0xFC000000 = instr AND 0xFC000000"
  using branch_encode(2) by (simp only: print_branch_def Let_def simp_thms if_False fst_conv split: if_split)

lemma print_branch_external:
  assumes "\<not> in_code source (branch_target instr pc)" "branch_target instr pc - dpc = 4 * q"
    and "- (2 ^ 27) \<le> sint (branch_target instr pc - dpc)" "sint (branch_target instr pc - dpc) < 2 ^ 27"
    and "dpc = code_base_start destination + ucast (ucast (pc - code_base_start source) :: u32)"
  defines "w \<equiv> fst (print_branch instr pc True source destination)"
  shows "branch_target w dpc = branch_target instr pc"
proof -
  let ?d = "branch_target instr pc - dpc"
  let ?rel = "signed_drop_bit 2 ?d"
  have w: "w = (instr AND 0xFC000000) OR ucast (?rel AND 0x03FFFFFF)"
    using assms(1) unfolding w_def print_branch_def Let_def print_branch_target assms(5) [symmetric] by simp
  have four: "4 * sint ?rel = sint ?d" using signed_drop_bit_exact [of ?d 2 q] assms(2) by simp
  then have "sint (ucast ?rel :: 26 word) = sint ?rel" using assms(3,4) by (intro sint_ucast_narrow) simp_all
  moreover have "ucast w = (ucast ?rel :: 26 word)" unfolding w by (rule branch_encode(1))
  ultimately have "branch_target w dpc = dpc + of_int (sint ?d)"
    using four by (simp only: branch_target_def)
  also have "\<dots> = branch_target instr pc" by (simp only: of_int_sint scast_id) simp
  finally show "branch_target w dpc = branch_target instr pc" .
qed

text \<open>Relocating a program into a region apart from it stores, for every instruction word, the
  translation of the original word for its place, and writes nothing outside the new code.\<close>

lemma relocate_translates:
  fixes m :: mem and sdata ddata :: u64 and dsize :: u32
  assumes "disj_regions dst (unat sz) src (unat sz)" "i < unat sz div 4"
  defines "m' \<equiv> relocate_code m dst src sz sdata ddata dsize"
  shows "read32 m' (dst + of_nat (4 * i))
      = fst (parse_instruction (read32 m (src + of_nat (4 * i))) (src + of_nat (4 * i)) True
               (layout_at src sz sdata dsize) (layout_at dst sz ddata dsize))
    \<and> (\<forall>x. \<not> in_region dst (unat sz) x \<longrightarrow> m' x = m x)"
proof -
  have n: "unat (sz div 4) = unat sz div 4" by (simp add: unat_div)
  have "unat sz < 2 ^ 32" using unat_lt_2p [of sz] by simp
  then have le: "4 * (unat sz div 4) \<le> 2 ^ 64" by simp
  have "disj_regions dst (4 * (unat sz div 4)) src (4 * (unat sz div 4))"
    by (rule disj_regions_shrink [OF assms(1)]) simp
  note w = fold_map_words [OF this le order_refl,
      of "\<lambda>i instr. fst (parse_instruction instr (src + of_nat (4 * i)) True (layout_at src sz sdata dsize)
            (layout_at dst sz ddata dsize))" m]
  have "\<not> in_region dst (unat sz) x \<Longrightarrow> \<not> in_region dst (4 * (unat sz div 4)) x" for x
    by (auto simp: in_region_def)
  then show ?thesis
    using w assms(2) unfolding m'_def relocate_code_def Let_def n by blast
qed

lemma relocate_translates_witness:
  "read32 (relocate_code (write32 (\<lambda>_. 0) 0x1004 0x94000004) 0x9000 0x1000 8 0 0 0) 0x9004
     = fst (parse_instruction 0x94000004 0x1004 True (layout_at 0x1000 8 0 0) (layout_at 0x9000 8 0 0))"
proof -
  have "disj_regions 0x9000 (unat (8 :: u32)) 0x1000 (unat (8 :: u32))" by (simp add: disj_regions_def)
  from relocate_translates [OF this, of 1 "write32 (\<lambda>_. 0) 0x1004 0x94000004" 0 0 0] show ?thesis by simp
qed

text \<open>C9: Relocation keeps the meaning of every \<open>b\<close> and \<open>bl\<close>.  A branch inside the program goes to the same
  place of the copy; a branch out of the program (less than 128 MiB away from the copy) goes to the
  same absolute address; in both cases it stays the kind of branch it was.\<close>

theorem branch_relocated:
  fixes src dst :: u64
  assumes "is_branch instr" "4 dvd src" "4 dvd dst" "i < unat (sz :: u32) div 4"
    and "pc = src + of_nat (4 * i)" "dpc = dst + of_nat (4 * i)"
    and "w = fst (parse_instruction instr pc True (layout_at src sz sdata dsize) (layout_at dst sz ddata dsize))"
  shows "(if in_code (layout_at src sz sdata dsize) (branch_target instr pc)
          then branch_target w dpc - dst = branch_target instr pc - src
          else - (2 ^ 27) \<le> sint (branch_target instr pc - dpc) \<and> sint (branch_target instr pc - dpc) < 2 ^ 27
                 \<longrightarrow> branch_target w dpc = branch_target instr pc)
    \<and> w AND 0xFC000000 = instr AND 0xFC000000"
proof -
  let ?s = "layout_at src sz sdata dsize" and ?d = "layout_at dst sz ddata dsize"
  obtain name where "lookup_op instr = Some (name, print_branch)" using assms(1) by (rule is_branch_lookup)
  then have w: "w = fst (print_branch instr pc True ?s ?d)"
    by (simp add: assms(7) parse_instruction_def split: prod.splits)
  have "unat sz < 2 ^ 32" using unat_lt_2p [of sz] by simp
  then have i: "4 * i < 2 ^ 32" using assms(4) by linarith
  have "ucast (ucast (of_nat (4 * i) :: u64) :: u32) = (of_nat (4 * i) :: u64)"
    using i by (intro word_unat_eq_iff [THEN iffD2]) (simp add: unat_ucast_mod del: of_nat_mult)
  then have dpc: "dpc = code_base_start ?d + ucast (ucast (pc - code_base_start ?s) :: u32)"
    by (simp add: assms(5,6) layout_at_def)
  have "4 dvd branch_target instr pc - dpc"
    using assms(2,3) by (simp add: branch_target_def assms(5,6))
  then obtain q where q: "branch_target instr pc - dpc = 4 * q" by (rule dvdE)
  have "branch_target w dpc = branch_target instr pc"
    if "\<not> in_code ?s (branch_target instr pc)"
      "- (2 ^ 27) \<le> sint (branch_target instr pc - dpc)" "sint (branch_target instr pc - dpc) < 2 ^ 27"
    unfolding w using print_branch_external [OF that(1) q that(2,3) dpc] .
  moreover have "w = instr" if "in_code ?s (branch_target instr pc)"
    using that unfolding w print_branch_def Let_def print_branch_target by simp
  then have "branch_target w dpc - dst = branch_target instr pc - src" if "in_code ?s (branch_target instr pc)"
    using that by (simp add: branch_target_def assms(5,6))
  moreover have "w AND 0xFC000000 = instr AND 0xFC000000" unfolding w by (rule print_branch_opcode)
  ultimately show ?thesis by auto
qed

theorem branch_relocated_witness:
  "branch_target (fst (parse_instruction 0x94000004 0x1000 True (layout_at 0x1000 8 0 0) (layout_at 0x9000 8 0 0)))
     0x9000 = 0x1010"
proof -
  have t: "branch_target 0x94000004 0x1000 = 0x1010" by code_simp
  have s: "- (2 ^ 27) \<le> sint (0x1010 - 0x9000 :: u64)" "sint (0x1010 - 0x9000 :: u64) < 2 ^ 27" by code_simp+
  have d: "(4 :: u64) dvd 0x1000" "(4 :: u64) dvd 0x9000"
    by (rule dvdI [of _ _ "0x400"], simp) (rule dvdI [of _ _ "0x2400"], simp)
  show ?thesis
    using branch_relocated [of "0x94000004" "0x1000" "0x9000" 0 8 "0x1000" "0x9000" _ 0 0 0, OF _ d] t s
    by (simp add: is_branch_def in_code_def layout_at_def)
qed

subsection \<open>References to data\<close>

lemma bit_adrp_imm:
  "n < 21 \<Longrightarrow> bit (adrp_imm instr) n \<longleftrightarrow> bit instr (if n < 2 then 29 + n else 3 + n)"
proof -
  assume n: "n < 21"
  have "(0x7FFFF :: u32) = mask 19" "(3 :: u32) = mask 2" by (simp_all add: mask_eq_exp_minus_1)
  moreover have "5 + (n - 2) = 3 + n" if "\<not> n < 2" using that by simp
  ultimately show ?thesis
    using n by (cases "n < 2") (auto simp only: adrp_imm_def bit_or_iff bit_push_bit_iff bit_ucast_iff bit_and_iff
        bit_drop_bit_eq bit_mask_iff o_def, auto simp: add.commute)
qed

text \<open>The code computes the offset from the low 20 of the 21 bits of the immediate.\<close>

lemma adrp_offset_eq:
  assumes "- (2 ^ 19) \<le> sint (adrp_imm instr)" "sint (adrp_imm instr) < 2 ^ 19"
  shows "adrp_offset instr = of_int (4096 * sint (adrp_imm instr))"
proof -
  define k where "k = sint (adrp_imm instr)"
  have low: "push_bit 2 (ucast (drop_bit 5 instr AND 0x7FFFF)) OR ucast (drop_bit 29 instr AND 3) = (ucast (adrp_imm instr) :: u64)"
  proof -
    have "(0x7FFFF :: u32) = mask 19" "(3 :: u32) = mask 2" by (simp_all add: mask_eq_exp_minus_1)
    then show ?thesis
      by (intro bit_word_eqI) (auto simp only: adrp_imm_def bit_or_iff bit_push_bit_iff bit_ucast_iff bit_and_iff
        bit_drop_bit_eq bit_mask_iff o_def, auto)
  qed
  have "push_bit 44 (ucast (adrp_imm instr) :: u64) = push_bit 44 (of_int k)"
  proof (rule bit_word_eqI)
    fix n :: nat assume n: "n < LENGTH(64)"
    have "bit (adrp_imm instr) (n - 44) \<longleftrightarrow> bit k (n - 44)" if "44 \<le> n"
    proof -
      have "\<not> 21 \<le> n - 44" using n by simp
      then show ?thesis by (auto simp: k_def bit_sint_iff min_def)
    qed
    then show "bit (push_bit 44 (ucast (adrp_imm instr) :: u64)) n \<longleftrightarrow> bit (push_bit 44 (of_int k :: u64)) n"
      using n by (auto simp: bit_push_bit_iff bit_ucast_iff bit_word_of_int_iff dest: bit_imp_le_length)
  qed
  also have "\<dots> = of_int (2 ^ 44 * k)" by (simp add: push_bit_eq_mult)
  finally have eq: "adrp_offset instr = signed_drop_bit 32 (of_int (2 ^ 44 * k))"
    by (simp only: adrp_offset_def Let_def low)
  have r: "- (2 ^ 63) \<le> 2 ^ 44 * k" "2 ^ 44 * k < 2 ^ 63" using assms by (simp_all add: k_def)
  have "sint (of_int (2 ^ 44 * k) :: u64) = signed_take_bit 63 (2 ^ 44 * k)" by (simp only: sint_sbintrunc') simp
  also have "\<dots> = 2 ^ 44 * k" using r by (intro signed_take_bit_int_eq_self) simp_all
  finally have "sint (adrp_offset instr) = 4096 * k"
    unfolding eq by (simp add: sint_signed_drop_bit_eq drop_bit_eq_div)
  then have "of_int (sint (adrp_offset instr)) = (of_int (4096 * k) :: u64)" by (rule arg_cong)
  then show ?thesis by (simp add: k_def)
qed

lemma adrp_encode:
  fixes no :: u64 and instr :: u32
  defines "w1 \<equiv> (instr AND NOT 0x60000000) OR ucast (push_bit 29 (signed_drop_bit 12 no AND 3))"
  defines "w \<equiv> (w1 AND NOT (push_bit 5 0x7FFFF)) OR ucast (push_bit 5 (signed_drop_bit 14 no AND 0x7FFFF)) :: u32"
  shows "adrp_imm w = ucast (signed_drop_bit 12 no)" "w AND 0x9F00001F = instr AND 0x9F00001F"
proof -
  have c: "bit (NOT 0x60000000 :: u32) n \<longleftrightarrow> n < 32 \<and> n \<noteq> 29 \<and> n \<noteq> 30" for n
  proof -
    have "(0x60000000 :: u32) = push_bit 29 (mask 2)" by (simp add: mask_eq_exp_minus_1 push_bit_eq_mult)
    then show ?thesis by (auto simp only: bit_not_iff bit_push_bit_iff bit_mask_iff) auto
  qed
  have d: "bit (push_bit 5 0x7FFFF :: u32) n \<longleftrightarrow> 5 \<le> n \<and> n < 24" for n
  proof -
    have "(0x7FFFF :: u32) = mask 19" by (simp add: mask_eq_exp_minus_1)
    then show ?thesis by (auto simp only: bit_push_bit_iff bit_mask_iff) auto
  qed
  have l: "bit (3 :: u64) n \<longleftrightarrow> n < 2" "bit (0x7FFFF :: u64) n \<longleftrightarrow> n < 19" for n
    using bit_mask_iff [of 2 n, where 'a = u64] bit_mask_iff [of 19 n, where 'a = u64]
    by (auto simp: mask_eq_exp_minus_1)
  have w: "bit w n \<longleftrightarrow> n < 32 \<and> (if n = 29 \<or> n = 30 then bit no (n - 17)
      else if 5 \<le> n \<and> n < 24 then bit no (n + 9) else bit instr n)" for n
  proof -
    have raw: "bit w n \<longleftrightarrow> n < 32 \<and>
        ((bit instr n \<and> n \<noteq> 29 \<and> n \<noteq> 30 \<or> 29 \<le> n \<and> n - 29 < 2 \<and> bit no (12 + (n - 29))) \<and> \<not> (5 \<le> n \<and> n < 24)
         \<or> 5 \<le> n \<and> n - 5 < 19 \<and> bit no (14 + (n - 5)))"
    proof -
      have "bit (ucast (push_bit 29 (signed_drop_bit 12 no AND 3)) :: u32) n
          \<longleftrightarrow> n < 32 \<and> 29 \<le> n \<and> n - 29 < 2 \<and> bit no (12 + (n - 29))"
        unfolding bit_ucast_iff bit_push_bit_iff bit_and_iff l bit_signed_drop_bit_iff by auto
      moreover have "bit (ucast (push_bit 5 (signed_drop_bit 14 no AND 0x7FFFF)) :: u32) n
          \<longleftrightarrow> n < 32 \<and> 5 \<le> n \<and> n - 5 < 19 \<and> bit no (14 + (n - 5))"
        unfolding bit_ucast_iff bit_push_bit_iff bit_and_iff l bit_signed_drop_bit_iff by auto
      ultimately show ?thesis
        unfolding w_def w1_def bit_or_iff bit_and_iff c using d [of n]
        by (auto simp only: bit_not_iff dest: bit_imp_le_length) auto
    qed
    consider "n = 29" | "n = 30" | m where "n = 5 + m" "m < 19" | "n \<noteq> 29" "n \<noteq> 30" "\<not> (5 \<le> n \<and> n < 24)"
      using le_Suc_ex [of 5 n] by fastforce
    then show ?thesis using raw by cases auto
  qed
  show "adrp_imm w = ucast (signed_drop_bit 12 no)"
  proof (rule bit_word_eqI)
    fix n :: nat assume "n < LENGTH(21)"
    then have n: "n < 21" by simp
    show "bit (adrp_imm w) n \<longleftrightarrow> bit (ucast (signed_drop_bit 12 no) :: 21 word) n"
      using n unfolding bit_adrp_imm [OF n] by (auto simp: w bit_ucast_iff bit_signed_drop_bit_iff add.commute)
  qed
  have k: "bit (0x9F00001F :: u32) n \<Longrightarrow> n < 32 \<and> n \<noteq> 29 \<and> n \<noteq> 30 \<and> \<not> (5 \<le> n \<and> n < 24)" for n
  proof -
    have "(0x9F00001F :: u32) = NOT (0x60000000 OR push_bit 5 0x7FFFF)" by simp
    then show "bit (0x9F00001F :: u32) n \<Longrightarrow> n < 32 \<and> n \<noteq> 29 \<and> n \<noteq> 30 \<and> \<not> (5 \<le> n \<and> n < 24)"
      using c [of n] d [of n] by (auto simp only: bit_not_iff bit_or_iff)
  qed
  show "w AND 0x9F00001F = instr AND 0x9F00001F"
    by (rule bit_word_eqI) (auto simp only: bit_and_iff w dest: k split: if_splits)
qed

text \<open>An \<open>adrp\<close> (less than 2 GiB away) whose page lies in the program's data is rewritten so that at its
  new place it forms the page at the same offset in the new data, and keeps its destination
  register; this needs the two data areas to differ by whole pages and the new distance to be
  less than 4 GiB.\<close>

lemma adrp_relocated:
  assumes "instr AND 0x9F000000 = 0x90000000"
    and "- (2 ^ 19) \<le> sint (adrp_imm instr)" "sint (adrp_imm instr) < 2 ^ 19"
    and "in_data source (adrp_target instr pc)"
    and "dpc = code_base_start destination + (pc - code_base_start source)"
    and "new = data_start destination + (adrp_target instr pc - data_start source)"
    and "new - (dpc AND NOT 0xFFF) = 4096 * q"
    and "- (2 ^ 32) \<le> sint (new - (dpc AND NOT 0xFFF))" "sint (new - (dpc AND NOT 0xFFF)) < 2 ^ 32"
    and "w = fst (parse_instruction instr pc True source destination)"
  shows "adrp_target w dpc = new \<and> w AND 0x9F00001F = instr AND 0x9F00001F"
proof -
  let ?no = "new - (dpc AND NOT 0xFFF)"
  have "lookup_op instr = Some (''adrp'', print_adrp)"
    by (simp add: lookup_op_def ops_def assms(1) mask_clash [OF assms(1)])
  then have "w = fst (print_adrp instr pc True source destination)"
    by (simp add: assms(10) parse_instruction_def split: prod.splits)
  moreover have t: "(pc AND NOT 0xFFF) + adrp_offset instr = adrp_target instr pc"
    unfolding adrp_target_def adrp_offset_eq [OF assms(2,3)] ..
  ultimately have w: "w = (((instr AND NOT 0x60000000) OR ucast (push_bit 29 (signed_drop_bit 12 ?no AND 3)))
       AND NOT (push_bit 5 0x7FFFF)) OR ucast (push_bit 5 (signed_drop_bit 14 ?no AND 0x7FFFF))"
    using assms(4) by (simp only: print_adrp_def Let_def t simp_thms if_True fst_conv flip: assms(5,6))
  have enc: "adrp_imm w = ucast (signed_drop_bit 12 ?no)" "w AND 0x9F00001F = instr AND 0x9F00001F"
    unfolding w by (rule adrp_encode)+
  have e: "4096 * sint (signed_drop_bit 12 ?no) = sint ?no"
    using signed_drop_bit_exact [of ?no 12 q] assms(7) by simp
  then have "sint (adrp_imm w) = sint (signed_drop_bit 12 ?no)"
    unfolding enc(1) using assms(8,9) by (intro sint_ucast_narrow) simp_all
  then have "adrp_target w dpc = (dpc AND NOT 0xFFF) + of_int (sint ?no)"
    by (simp only: adrp_target_def e)
  also have "\<dots> = new" by (simp only: of_int_sint scast_id) simp
  finally show ?thesis using enc(2) by blast
qed

text \<open>\<open>adrp x0\<close> with immediate 2 at 0x1000: page 0x3000, moved with its data to 0x2000000 and 0x5000000.\<close>

definition demo_layouts :: "process_layout \<times> process_layout" where
  "demo_layouts = (layout_at 0x1000 0x1000 0x3000 0x1000, layout_at 0x2000000 0x1000 0x5000000 0x1000)"

lemma adrp_relocated_witness:
  "adrp_target (fst (parse_instruction 0xD0000000 0x1000 True (fst demo_layouts) (snd demo_layouts))) 0x2000000
     = 0x5000000"
proof -
  have t: "adrp_target 0xD0000000 0x1000 = 0x3000" by code_simp
  have i: "- (2 ^ 19) \<le> sint (adrp_imm 0xD0000000)" "sint (adrp_imm 0xD0000000) < 2 ^ 19" by code_simp+
  have r: "- (2 ^ 32) \<le> sint (0x5000000 - 0x2000000 :: u64)" "sint (0x5000000 - 0x2000000 :: u64) < 2 ^ 32"
    by code_simp+
  have m: "0x2000000 AND NOT 0xFFF = (0x2000000 :: u64)" by simp
  have "adrp_target (fst (parse_instruction 0xD0000000 0x1000 True (fst demo_layouts) (snd demo_layouts))) 0x2000000
     = 0x5000000 \<and> fst (parse_instruction 0xD0000000 0x1000 True (fst demo_layouts) (snd demo_layouts))
       AND 0x9F00001F = 0xD0000000 AND 0x9F00001F"
  proof (rule adrp_relocated [OF _ i, where q = "0x3000" and source = "fst demo_layouts" and destination = "snd demo_layouts"])
    show "in_data (fst demo_layouts) (adrp_target 0xD0000000 0x1000)"
      unfolding t by (simp add: demo_layouts_def layout_at_def in_data_def)
  qed (unfold m t, (rule r | simp add: demo_layouts_def layout_at_def)+)
  then show ?thesis by blast
qed

end
