(* ===== verification/Graphic_Types.thy ===== *)
theory Graphic_Types
  imports Prelude
begin

section \<open>Points, sizes and rectangles (\<open>shared/ui/graphic_types.h\<close>)\<close>

text \<open>The types that the graphics interface and the drawing routines share.\<close>

record gpu_point =
  px :: u32
  py :: u32

record gpu_size =
  width :: u32
  height :: u32

record gpu_rect =
  point :: gpu_point
  rsize :: gpu_size

end
