(* ===== verification/Draw.thy ===== *)
theory Draw
  imports Mem_Functions Graphic_Types
begin

section \<open>Software drawing (\<open>shared/ui/draw/draw.c\<close>)\<close>

text \<open>
  Drawing into a frame buffer in memory, and the rectangles that say which parts of the screen changed.  The
  static variables are a record together with memory.  The font is a parameter (\<open>font8x8_basic.h\<close> is data).
  The local \<open>int\<close>s of the line are integers: their overflow is undefined in C.
\<close>

record draw_state =
  stride :: u32
  max_width :: u32
  max_height :: u32
  dirty_rects :: "gpu_rect list"
  dirty_count :: u32
  full_redraw :: bool
  fb_mem :: mem

subsection \<open>Dirty rectangles\<close>

definition try_merge :: "gpu_rect \<Rightarrow> gpu_rect \<Rightarrow> bool \<times> gpu_rect" where
  "try_merge a b =
     (let ax = px (point a); ay = py (point a); bx = px (point b); bw = py (point b);
          ax2 = ax + width (rsize a); ay2 = ay + height (rsize a);
          bx2 = bx + width (rsize b); by2 = bw + height (rsize b)
      in if ax > bx2 \<or> bx > ax2 \<or> ay > by2 \<or> bw > ay2 then (False, a)
         else
           let min_x = (if ax < bx then ax else bx); min_y = (if ay < bw then ay else bw);
               max_x = (if ax2 > bx2 then ax2 else bx2); max_y = (if ay2 > by2 then ay2 else by2)
           in (True, \<lparr>point = \<lparr>px = min_x, py = min_y\<rparr>, rsize = \<lparr>width = max_x - min_x, height = max_y - min_y\<rparr>\<rparr>))"

fun merge_loop :: "nat list \<Rightarrow> gpu_rect \<Rightarrow> gpu_rect list \<Rightarrow> bool \<times> gpu_rect list" where
  "merge_loop [] r rects = (False, rects)"
| "merge_loop (i # is) r rects =
     (case try_merge (rects ! i) r of
        (True, m) \<Rightarrow> (True, rects[i := m])
      | (False, _) \<Rightarrow> merge_loop is r rects)"

definition mark_dirty :: "u32 \<Rightarrow> u32 \<Rightarrow> u32 \<Rightarrow> u32 \<Rightarrow> draw_state \<Rightarrow> draw_state" where
  "mark_dirty x y w h s =
     (if full_redraw s \<or> x \<ge> max_width s \<or> y \<ge> max_height s then s
      else
        let w = (if x + w > max_width s then max_width s - x else w);
            h = (if y + h > max_height s then max_height s - y else h)
        in if w = 0 \<or> h = 0 then s
           else
             let new_rect = \<lparr>point = \<lparr>px = x, py = y\<rparr>, rsize = \<lparr>width = w, height = h\<rparr>\<rparr>;
                 (merged, rects) = merge_loop [0..<unat (dirty_count s)] new_rect (dirty_rects s)
             in if merged then s\<lparr>dirty_rects := rects\<rparr>
                else if dirty_count s < 64 then
                  s\<lparr>dirty_rects := rects[unat (dirty_count s) := new_rect], dirty_count := dirty_count s + 1\<rparr>
                else s\<lparr>full_redraw := True\<rparr>)"

subsection \<open>Drawing\<close>

definition fb_clear :: "u64 \<Rightarrow> u32 \<Rightarrow> draw_state \<Rightarrow> draw_state" where
  "fb_clear fb color s =
     s\<lparr>fb_mem := memset (fb_mem s) fb color (ucast (stride s * max_height s)), full_redraw := True\<rparr>"

definition pixel_at :: "draw_state \<Rightarrow> u64 \<Rightarrow> u32 \<Rightarrow> u32 \<Rightarrow> u64" where
  "pixel_at s fb x y = fb + 4 * ucast (y * (stride s div 4) + x)"

definition fb_draw_pixel :: "u64 \<Rightarrow> u32 \<Rightarrow> u32 \<Rightarrow> u32 \<Rightarrow> draw_state \<Rightarrow> draw_state" where
  "fb_draw_pixel fb x y color s =
     (if x \<ge> max_width s \<or> y \<ge> max_height s then s
      else s\<lparr>fb_mem := write32 (fb_mem s) (pixel_at s fb x y) color\<rparr>)"

definition fb_fill_rect :: "u64 \<Rightarrow> u32 \<Rightarrow> u32 \<Rightarrow> u32 \<Rightarrow> u32 \<Rightarrow> u32 \<Rightarrow> draw_state \<Rightarrow> draw_state" where
  "fb_fill_rect fb x y w h color s =
     mark_dirty x y w h
       (fold (\<lambda>dy. fold (\<lambda>dx. fb_draw_pixel fb (x + of_nat dx) (y + of_nat dy) color) [0..<unat w]) [0..<unat h] s)"

text \<open>C division by 2 rounds towards zero.\<close>

definition half :: "int \<Rightarrow> int" where
  "half v = (if v < 0 then - (- v div 2) else v div 2)"

text \<open>The endless loop, with one unit of fuel per pixel.\<close>

fun line_loop ::
    "nat \<Rightarrow> u64 \<Rightarrow> u32 \<Rightarrow> u32 \<Rightarrow> int \<Rightarrow> int \<Rightarrow> int \<Rightarrow> int \<Rightarrow> u32 \<Rightarrow> int \<Rightarrow> u32 \<Rightarrow> u32 \<Rightarrow> draw_state
     \<Rightarrow> fault + (u32 \<times> u32 \<times> draw_state)" where
  "line_loop 0 fb x1 y1 dx sx dy sy color err x0 y0 s = Inl OutOfFuel"
| "line_loop (Suc k) fb x1 y1 dx sx dy sy color err x0 y0 s =
     (let s = fb_draw_pixel fb x0 y0 color s
      in if x0 = x1 \<and> y0 = y1 then Inr (x0, y0, s)
         else
           let e2 = err;
               (err, x0) = (if e2 > - dx then (err - dy, x0 + of_int sx) else (err, x0));
               (err, y0) = (if e2 < dy then (err + dx, y0 + of_int sy) else (err, y0))
           in line_loop k fb x1 y1 dx sx dy sy color err x0 y0 s)"

definition fb_draw_line :: "nat \<Rightarrow> u64 \<Rightarrow> u32 \<Rightarrow> u32 \<Rightarrow> u32 \<Rightarrow> u32 \<Rightarrow> u32 \<Rightarrow> draw_state \<Rightarrow> fault + (gpu_rect \<times> draw_state)" where
  "fb_draw_line fuel fb x0 y0 x1 y1 color s =
     (let dx = sint (if x1 > x0 then x1 - x0 else x0 - x1); sx = (if x0 < x1 then 1 else - 1);
          dy = sint (if y1 > y0 then y1 - y0 else y0 - y1); sy = (if y0 < y1 then 1 else - 1);
          err = half (if dx > dy then dx else - dy)
      in bindE (line_loop fuel fb x1 y1 dx sx dy sy color err x0 y0 s) (\<lambda>(x0, y0, s).
           let min_x = (if x0 < x1 then x0 else x1); min_y = (if y0 < y1 then y0 else y1);
               max_x = (if x0 > x1 then x0 else x1); max_y = (if y0 > y1 then y0 else y1);
               s = mark_dirty min_x min_y (max_x - min_x + 1) (max_y - min_y + 1) s
           in Inr (\<lparr>point = \<lparr>px = min_x, py = min_y\<rparr>, rsize = \<lparr>width = max_x - min_x + 1, height = max_y - min_y + 1\<rparr>\<rparr>, s)))"

definition get_font8x8 :: "(u8 \<Rightarrow> u8 list) \<Rightarrow> u8 \<Rightarrow> u8 list" where
  "get_font8x8 font c = font c"

definition fb_draw_char :: "(u8 \<Rightarrow> u8 list) \<Rightarrow> u64 \<Rightarrow> u32 \<Rightarrow> u32 \<Rightarrow> u8 \<Rightarrow> u32 \<Rightarrow> u32 \<Rightarrow> draw_state \<Rightarrow> draw_state" where
  "fb_draw_char font fb x y c scale color s =
     (let glyph = get_font8x8 font c; n = unat (8 * scale)
      in mark_dirty x y (8 * scale) (8 * scale)
           (fold (\<lambda>row. let bits = glyph ! (row div unat scale) in
              fold (\<lambda>col s. if bit bits (7 - col div unat scale) then fb_draw_pixel fb (x + of_nat col) (y + of_nat row) color s else s)
                [0..<n]) [0..<n] s))"

definition fb_get_char_size :: "u32 \<Rightarrow> u32" where
  "fb_get_char_size scale = 8 * scale"

text \<open>The text is its address and length; \<open>line_height\<close> is the size of a character plus 2.\<close>

definition fb_draw_string ::
    "(u8 \<Rightarrow> u8 list) \<Rightarrow> u64 \<Rightarrow> u64 \<times> u32 \<Rightarrow> u32 \<Rightarrow> u32 \<Rightarrow> u32 \<Rightarrow> u32 \<Rightarrow> draw_state \<Rightarrow> gpu_size \<times> draw_state" where
  "fb_draw_string font fb text x0 y0 scale color s =
     (let char_size = fb_get_char_size scale;
          (y0, xoff, xSize, xRowSize, ySize, s) =
            fold (\<lambda>i (y0, xoff, xSize, xRowSize, ySize, s).
                let c = fb_mem s (fst text + of_nat i)
                in if c = 10 then
                     (y0 + char_size + 2, 0, if xRowSize > xSize then xRowSize else xSize, 0, ySize + char_size + 2, s)
                   else (y0, xoff + 1, xSize, xRowSize + char_size, ySize,
                         fb_draw_char font fb (x0 + xoff * char_size) y0 c scale color s))
              [0..<nat (sint (snd text))] (y0, 0, 0, 0, char_size + 2, s);
          xSize = (if xRowSize > xSize then xRowSize else xSize)
      in (\<lparr>width = xSize, height = ySize\<rparr>, mark_dirty x0 y0 xSize ySize s))"

definition fb_set_stride :: "u32 \<Rightarrow> draw_state \<Rightarrow> draw_state" where
  "fb_set_stride n s = s\<lparr>stride := n\<rparr>"

definition fb_set_bounds :: "u32 \<Rightarrow> u32 \<Rightarrow> draw_state \<Rightarrow> draw_state" where
  "fb_set_bounds w h s = s\<lparr>max_width := w, max_height := h\<rparr>"

subsection \<open>Dirty rectangles cover what was drawn\<close>

definition in_rect :: "gpu_rect \<Rightarrow> nat \<Rightarrow> nat \<Rightarrow> bool" where
  "in_rect r x y \<longleftrightarrow> unat (px (point r)) \<le> x \<and> x < unat (px (point r)) + unat (width (rsize r))
     \<and> unat (py (point r)) \<le> y \<and> y < unat (py (point r)) + unat (height (rsize r))"

definition covered :: "draw_state \<Rightarrow> nat \<Rightarrow> nat \<Rightarrow> bool" where
  "covered s x y \<longleftrightarrow> full_redraw s \<or> (\<exists>r\<in>set (take (unat (dirty_count s)) (dirty_rects s)). in_rect r x y)"

definition rect_fits :: "nat \<Rightarrow> nat \<Rightarrow> gpu_rect \<Rightarrow> bool" where
  "rect_fits mw mh r \<longleftrightarrow> 0 < width (rsize r) \<and> 0 < height (rsize r) \<and> unat (px (point r)) + unat (width (rsize r)) \<le> mw
     \<and> unat (py (point r)) + unat (height (rsize r)) \<le> mh"

definition dirty_ok :: "draw_state \<Rightarrow> bool" where
  "dirty_ok s \<longleftrightarrow> length (dirty_rects s) = 64 \<and> unat (dirty_count s) \<le> 64
     \<and> (\<forall>r\<in>set (take (unat (dirty_count s)) (dirty_rects s)). rect_fits (unat (max_width s)) (unat (max_height s)) r)"

lemma unat_diff_le: "b \<le> a \<Longrightarrow> unat (a - b :: u32) = unat a - unat b"
  by (simp add: unat_sub)

lemma try_merge_covers:
  assumes "rect_fits mw mh a" "rect_fits mw mh b" "mw < 2 ^ 32" "mh < 2 ^ 32" "try_merge a b = (True, r)"
  shows "rect_fits mw mh r" "in_rect a x y \<or> in_rect b x y \<Longrightarrow> in_rect r x y"
proof -
  have s: "unat (px (point c) + width (rsize c)) = unat (px (point c)) + unat (width (rsize c))"
    "unat (py (point c) + height (rsize c)) = unat (py (point c)) + unat (height (rsize c))" if "c \<in> {a, b}" for c
    using assms(1-4) that by (auto simp: rect_fits_def unat_add_small)
  let ?ax = "px (point a)" and ?ay = "py (point a)" and ?bx = "px (point b)" and ?bw = "py (point b)"
  let ?ax2 = "?ax + width (rsize a)" and ?ay2 = "?ay + height (rsize a)" and ?bx2 = "?bx + width (rsize b)" and ?by2 = "?bw + height (rsize b)"
  have r: "r = \<lparr>point = \<lparr>px = min ?ax ?bx, py = min ?ay ?bw\<rparr>,
      rsize = \<lparr>width = max ?ax2 ?bx2 - min ?ax ?bx, height = max ?ay2 ?by2 - min ?ay ?bw\<rparr>\<rparr>"
    using assms(5) by (auto simp: try_merge_def Let_def min_def max_def not_less split: if_splits)
  note n = s [of a, simplified] s [of b, simplified]
  have le: "min ?ax ?bx \<le> max ?ax2 ?bx2" "min ?ay ?bw \<le> max ?ay2 ?by2"
    using n by (auto simp: word_le_nat_alt min_def max_def)
  have u: "unat (min ?ax ?bx) = min (unat ?ax) (unat ?bx)" "unat (min ?ay ?bw) = min (unat ?ay) (unat ?bw)"
    "unat (max ?ax2 ?bx2) = max (unat ?ax2) (unat ?bx2)" "unat (max ?ay2 ?by2) = max (unat ?ay2) (unat ?by2)"
    by (simp_all add: min_def max_def word_le_nat_alt)
  note d = unat_diff_le [OF le(1)] unat_diff_le [OF le(2)]
  show "rect_fits mw mh r" using assms(1,2) unfolding r rect_fits_def
    by (simp add: d u n word_less_nat_alt) linarith
  show "in_rect r x y" if "in_rect a x y \<or> in_rect b x y" using that assms(1,2) unfolding r in_rect_def
    by (simp add: d u n) linarith
qed

lemma merge_loop_spec:
  assumes "\<forall>i\<in>set is. i < length rects" "\<forall>i\<in>set is. rect_fits mw mh (rects ! i)" "rect_fits mw mh r" "mw < 2 ^ 32" "mh < 2 ^ 32"
  shows "case merge_loop is r rects of
      (True, rects') \<Rightarrow> \<exists>i\<in>set is. \<exists>m. rects' = rects[i := m] \<and> rect_fits mw mh m
        \<and> (\<forall>x y. in_rect (rects ! i) x y \<or> in_rect r x y \<longrightarrow> in_rect m x y)
    | (False, rects') \<Rightarrow> rects' = rects"
  using assms(1,2)
proof (induction "is")
  case (Cons i "is")
  obtain b m where m: "try_merge (rects ! i) r = (b, m)" by (cases "try_merge (rects ! i) r")
  show ?case
  proof (cases b)
    case True
    have f: "rect_fits mw mh (rects ! i)" using Cons.prems by simp
    have m': "try_merge (rects ! i) r = (True, m)" using m True by simp
    note c = try_merge_covers [OF f assms(3-5) m']
    show ?thesis using c m True by auto
  next
    case False
    then show ?thesis using Cons m by (auto split: prod.splits bool.splits)
  qed
qed simp

lemma set_take_update:
  assumes "i < n" "n \<le> length xs"
  shows "set (take n (xs[i := v])) \<subseteq> insert v (set (take n xs))" "v \<in> set (take n (xs[i := v]))"
    "x \<in> set (take n xs) \<Longrightarrow> x = xs ! i \<or> x \<in> set (take n (xs[i := v]))"
proof -
  have t: "take n (xs[i := v]) = (take n xs)[i := v]" using assms(1) by (simp add: take_update_swap)
  show "set (take n (xs[i := v])) \<subseteq> insert v (set (take n xs))" unfolding t by (rule set_update_subset_insert)
  show "v \<in> set (take n (xs[i := v]))" unfolding t using assms by (simp add: set_update_memI)
  show "x = xs ! i \<or> x \<in> set (take n (xs[i := v]))" if "x \<in> set (take n xs)"
    using that assms unfolding t in_set_conv_nth by (auto simp: nth_list_update)
qed

text \<open>C27: Marking a rectangle whose right and lower edges, \<open>x + w\<close> and \<open>y + h\<close>, do not wrap around 32 bits as dirty keeps the rectangles well formed and inside the screen, covers every pixel of it that is
  on the screen, and uncovers none: merging with a rectangle that touches it, adding it to the list and, when the
  list of 64 is full, giving up and redrawing all of the screen lose no change.\<close>

theorem mark_dirty_covers:
  assumes "dirty_ok s" "unat x + unat w < 2 ^ 32" "unat y + unat h < 2 ^ 32"
  shows "dirty_ok (mark_dirty x y w h s)
    \<and> (\<forall>p q. covered s p q \<longrightarrow> covered (mark_dirty x y w h s) p q)
    \<and> (\<forall>p q. p < unat (max_width s) \<longrightarrow> q < unat (max_height s) \<longrightarrow> unat x \<le> p \<longrightarrow> p < unat x + unat w \<longrightarrow> unat y \<le> q
        \<longrightarrow> q < unat y + unat h \<longrightarrow> covered (mark_dirty x y w h s) p q)"
proof (cases "full_redraw s \<or> x \<ge> max_width s \<or> y \<ge> max_height s")
  case True
  then show ?thesis using assms(1) by (auto simp: mark_dirty_def covered_def word_le_nat_alt)
next
  case in_bounds: False
  let ?mw = "unat (max_width s)" and ?mh = "unat (max_height s)"
  define w' where "w' = (if x + w > max_width s then max_width s - x else w)"
  define h' where "h' = (if y + h > max_height s then max_height s - y else h)"
  have w': "unat w' = min (unat w) (?mw - unat x)"
    using in_bounds assms(2) unat_diff_le [of x "max_width s"]
    by (auto simp: w'_def word_less_nat_alt word_le_nat_alt unat_add_small)
  have h': "unat h' = min (unat h) (?mh - unat y)"
    using in_bounds assms(3) unat_diff_le [of y "max_height s"]
    by (auto simp: h'_def word_less_nat_alt word_le_nat_alt unat_add_small)
  let ?r = "\<lparr>point = \<lparr>px = x, py = y\<rparr>, rsize = \<lparr>width = w', height = h'\<rparr>\<rparr>"
  have eq: "mark_dirty x y w h s = (if w' = 0 \<or> h' = 0 then s
      else let (merged, rects) = merge_loop [0..<unat (dirty_count s)] ?r (dirty_rects s)
           in if merged then s\<lparr>dirty_rects := rects\<rparr>
              else if dirty_count s < 64 then s\<lparr>dirty_rects := rects[unat (dirty_count s) := ?r], dirty_count := dirty_count s + 1\<rparr>
              else s\<lparr>full_redraw := True\<rparr>)"
    using in_bounds by (simp add: mark_dirty_def Let_def flip: w'_def h'_def)
  have inr: "in_rect ?r p q" if "p < ?mw" "q < ?mh" "unat x \<le> p" "p < unat x + unat w" "unat y \<le> q" "q < unat y + unat h" for p q
    using that by (auto simp: in_rect_def w' h' min_def)
  show ?thesis
  proof (cases "w' = 0 \<or> h' = 0")
    case True
    then have "unat w' = 0 \<or> unat h' = 0" by auto
    then have "False" if "p < ?mw" "q < ?mh" "unat x \<le> p" "p < unat x + unat w" "unat y \<le> q" "q < unat y + unat h" for p q
      using that w' h' by auto
    then show ?thesis using True assms(1) unfolding eq by auto
  next
    case False
    let ?n = "unat (dirty_count s)"
    have ok: "length (dirty_rects s) = 64" "?n \<le> 64" "\<forall>r\<in>set (take ?n (dirty_rects s)). rect_fits ?mw ?mh r"
      using assms(1) by (simp_all add: dirty_ok_def)
    have fit: "rect_fits ?mw ?mh ?r"
      using False in_bounds w' h' by (auto simp: rect_fits_def word_le_nat_alt word_neq_0_conv)
    have mem: "dirty_rects s ! i \<in> set (take ?n (dirty_rects s))" if "i < ?n" for i
      using that ok(1,2) by (auto simp: in_set_conv_nth intro!: exI [of _ i])
    have all: "\<forall>i\<in>set [0..<?n]. i < length (dirty_rects s)" "\<forall>i\<in>set [0..<?n]. rect_fits ?mw ?mh (dirty_rects s ! i)"
      using ok mem by auto
    have lim: "?mw < 2 ^ 32" "?mh < 2 ^ 32" using unat_lt_2p [of "max_width s"] unat_lt_2p [of "max_height s"] by simp_all
    obtain b rects where m: "merge_loop [0..<?n] ?r (dirty_rects s) = (b, rects)" by (cases "merge_loop [0..<?n] ?r (dirty_rects s)")
    note spec = merge_loop_spec [OF all fit lim, unfolded m]
    show ?thesis
    proof (cases b)
      case True
      then obtain i mr where i: "i < ?n" "rects = (dirty_rects s)[i := mr]" "rect_fits ?mw ?mh mr"
        "\<forall>x y. in_rect (dirty_rects s ! i) x y \<or> in_rect ?r x y \<longrightarrow> in_rect mr x y" using spec by auto
      note t = set_take_update [where v = mr and xs = "dirty_rects s", OF i(1)]
      have s': "mark_dirty x y w h s = s\<lparr>dirty_rects := (dirty_rects s)[i := mr]\<rparr>" using False True m i(2) unfolding eq by simp
      have "dirty_ok (mark_dirty x y w h s)" using ok i(3) t(1) unfolding s' dirty_ok_def by auto
      moreover have "covered (mark_dirty x y w h s) p q" if cov: "covered s p q" for p q
      proof -
        obtain r where "r \<in> set (take ?n (dirty_rects s))" "in_rect r p q" using cov in_bounds by (auto simp: covered_def)
        then have "\<exists>r\<in>set (take ?n ((dirty_rects s)[i := mr])). in_rect r p q" using t(3) [of r] t(2) i(4) ok(1,2) by auto
        then show ?thesis by (simp add: s' covered_def)
      qed
      moreover have "covered (mark_dirty x y w h s) p q" if "in_rect ?r p q" for p q
        using that i(4) t(2) ok(1,2) unfolding s' covered_def by auto
      ultimately show ?thesis using inr by blast
    next
      case nomerge: False
      then have r: "rects = dirty_rects s" using spec by simp
      show ?thesis
      proof (cases "dirty_count s < 64")
        case True
        then have n: "?n < 64" by (simp add: word_less_nat_alt)
        then have n1: "unat (dirty_count s + 1) = Suc ?n" by (subst unat_add_small) simp_all
        have s': "mark_dirty x y w h s = s\<lparr>dirty_rects := (dirty_rects s)[?n := ?r], dirty_count := dirty_count s + 1\<rparr>"
          using False nomerge True m r unfolding eq by simp
        have tk: "take (Suc ?n) ((dirty_rects s)[?n := ?r]) = take ?n (dirty_rects s) @ [?r]"
          using n ok(1) by (simp add: take_Suc_conv_app_nth)
        show ?thesis using ok n in_bounds fit inr unfolding s' dirty_ok_def covered_def by (simp add: n1 tk)
      next
        case full: False
        have "mark_dirty x y w h s = s\<lparr>full_redraw := True\<rparr>" using False nomerge full m unfolding eq by simp
        then show ?thesis using ok by (simp add: dirty_ok_def covered_def)
      qed
    qed
  qed
qed

definition demo_screen :: draw_state where
  "demo_screen = \<lparr>stride = 400, max_width = 100, max_height = 50,
     dirty_rects = \<lparr>point = \<lparr>px = 0, py = 0\<rparr>, rsize = \<lparr>width = 10, height = 10\<rparr>\<rparr> # replicate 63 \<lparr>point = \<lparr>px = 0, py = 0\<rparr>, rsize = \<lparr>width = 0, height = 0\<rparr>\<rparr>,
     dirty_count = 1, full_redraw = False, fb_mem = (\<lambda>_. 0)\<rparr>"

lemma demo_screen_ok: "dirty_ok demo_screen"
  by (simp add: dirty_ok_def demo_screen_def rect_fits_def)

text \<open>When an edge wraps around, the clip to the screen is skipped and the list takes a rectangle that is not inside the screen.\<close>

lemma mark_dirty_wraps: "\<not> dirty_ok (mark_dirty 8 8 0xFFFFFFFF 4 (demo_screen\<lparr>dirty_count := 0\<rparr>))"
  by (simp add: mark_dirty_def demo_screen_def dirty_ok_def Let_def rect_fits_def)

theorem mark_dirty_covers_witness:
  "dirty_ok (mark_dirty 8 8 200 4 demo_screen) \<and> covered (mark_dirty 8 8 200 4 demo_screen) 99 11"
  using mark_dirty_covers [OF demo_screen_ok, of 8 200 8 4] by (simp add: demo_screen_def)

subsection \<open>Pixels\<close>

text \<open>The screen fits into the frame buffer: no row overlaps the next one and no index wraps around.\<close>

definition screen_ok :: "draw_state \<Rightarrow> bool" where
  "screen_ok s \<longleftrightarrow> max_width s \<le> stride s div 4 \<and> unat (max_height s) * unat (stride s div 4) \<le> 2 ^ 32"

definition pixel :: "draw_state \<Rightarrow> u64 \<Rightarrow> u32 \<Rightarrow> u32 \<Rightarrow> u32" where
  "pixel s fb x y = read32 (fb_mem s) (pixel_at s fb x y)"

definition on_screen :: "draw_state \<Rightarrow> u32 \<Rightarrow> u32 \<Rightarrow> bool" where
  "on_screen s x y \<longleftrightarrow> x < max_width s \<and> y < max_height s"

definition same_screen :: "draw_state \<Rightarrow> draw_state \<Rightarrow> bool" where
  "same_screen s t \<longleftrightarrow> stride t = stride s \<and> max_width t = max_width s \<and> max_height t = max_height s
     \<and> dirty_rects t = dirty_rects s \<and> dirty_count t = dirty_count s \<and> full_redraw t = full_redraw s"

lemma same_screen_refl [simp]: "same_screen s s"
  by (simp add: same_screen_def)

lemma same_screen_trans [trans]: "same_screen s t \<Longrightarrow> same_screen t u \<Longrightarrow> same_screen s u"
  by (simp add: same_screen_def)

lemma draw_pixel_screen [simp]: "same_screen s (fb_draw_pixel fb x y c s)"
  by (simp add: same_screen_def fb_draw_pixel_def)

lemma same_screen_simps:
  assumes "same_screen s t"
  shows "pixel_at t fb x y = pixel_at s fb x y" "on_screen t x y \<longleftrightarrow> on_screen s x y" "screen_ok t \<longleftrightarrow> screen_ok s"
  using assms by (simp_all add: same_screen_def pixel_at_def on_screen_def screen_ok_def)

lemma pixel_index:
  assumes "screen_ok s" "on_screen s x y"
  shows "unat (y * (stride s div 4) + x) = unat y * unat (stride s div 4) + unat x"
    "unat y * unat (stride s div 4) + unat x < 2 ^ 32"
proof -
  let ?k = "unat (stride s div 4)"
  have x: "unat x < ?k" and y: "unat y + 1 \<le> unat (max_height s)" using assms
    by (auto simp: screen_ok_def on_screen_def word_less_nat_alt word_le_nat_alt)
  have "(unat y + 1) * ?k \<le> unat (max_height s) * ?k" using y by (rule mult_le_mono1)
  then have le: "unat y * ?k + ?k \<le> 2 ^ 32" using assms(1) by (simp add: screen_ok_def)
  then show lt: "unat y * ?k + unat x < 2 ^ 32" using x by linarith
  have "unat (y * (stride s div 4)) = unat y * ?k" using le x by (subst unat_mult_small) simp_all
  then show "unat (y * (stride s div 4) + x) = unat y * ?k + unat x" using lt by (subst unat_add_small) simp_all
qed

text \<open>Different pixels lie at addresses at least 4 apart.\<close>

lemma pixel_disj:
  assumes "screen_ok s" "on_screen s x y" "on_screen s x' y'" "(x, y) \<noteq> (x', y')"
  shows "disj_regions (pixel_at s fb x y) 4 (pixel_at s fb x' y') 4"
proof -
  let ?k = "unat (stride s div 4)" and ?i = "\<lambda>x y. y * (stride s div 4) + x"
  note p = pixel_index [OF assms(1,2)] and q = pixel_index [OF assms(1,3)]
  have xs: "unat x < ?k" "unat x' < ?k" using assms(1-3)
    by (auto simp: screen_ok_def on_screen_def word_less_nat_alt word_le_nat_alt)
  have "unat (?i x y) \<noteq> unat (?i x' y')"
  proof
    assume "unat (?i x y) = unat (?i x' y')"
    then have "unat y * ?k + unat x = unat y' * ?k + unat x'" using p(1) q(1) by simp
    then have "(unat y * ?k + unat x) div ?k = (unat y' * ?k + unat x') div ?k"
      "(unat y * ?k + unat x) mod ?k = (unat y' * ?k + unat x') mod ?k" by simp_all
    then have "unat y = unat y'" "unat x = unat x'" using xs by simp_all
    then show False using assms(4) by (simp add: word_unat_eq_iff)
  qed
  then have d: "4 * unat (?i x y) + 4 \<le> 4 * unat (?i x' y') \<or> 4 * unat (?i x' y') + 4 \<le> 4 * unat (?i x y)" by linarith
  have a: "unat (4 * ucast (?i x y) :: u64) = 4 * unat (?i x y)" for x y
  proof -
    have "unat (?i x y) < 2 ^ 32" using unat_lt_2p [of "?i x y"] by simp
    then show ?thesis by (subst unat_mult_small) (simp_all add: unat_ucast_mod)
  qed
  let ?a = "4 * ucast (?i x y) :: u64" and ?b = "4 * ucast (?i x' y') :: u64"
  have lt: "unat ?a < 2 ^ 34" "unat ?b < 2 ^ 34" unfolding a using unat_lt_2p [of "?i x y"] unat_lt_2p [of "?i x' y'"] by simp_all
  have "4 \<le> unat (?a - ?b) \<and> 4 \<le> unat (?b - ?a)"
    using d lt unat_diff_swap [of ?a ?b] unat_diff_swap [of ?b ?a] unfolding a [symmetric]
    by (auto simp: unat_sub_if')
  then show ?thesis by (simp add: disj_regions_def pixel_at_def)
qed

lemma pixel_draw:
  assumes "screen_ok s" "on_screen s p q"
  shows "pixel (fb_draw_pixel fb x y c s) fb p q = (if (p, q) = (x, y) then c else pixel s fb p q)"
proof (cases "on_screen s x y")
  case True
  have e: "fb_draw_pixel fb x y c s = s\<lparr>fb_mem := write32 (fb_mem s) (pixel_at s fb x y) c\<rparr>"
    using True by (simp add: fb_draw_pixel_def on_screen_def linorder_not_le [symmetric])
  show ?thesis
  proof (cases "(p, q) = (x, y)")
    case True
    then show ?thesis by (simp add: e pixel_def pixel_at_def)
  next
    case False
    have "disj_regions (pixel_at s fb p q) 4 (pixel_at s fb x y) 4" by (rule pixel_disj [OF assms True False])
    then have "load_bytes (store_bytes (fb_mem s) (pixel_at s fb x y) (le_bytes 4 c)) (pixel_at s fb p q) 4
        = load_bytes (fb_mem s) (pixel_at s fb p q) 4" by (intro load_store_disj) simp_all
    then show ?thesis using False by (auto simp: e pixel_def pixel_at_def read32_def write32_def)
  qed
next
  case False
  then show ?thesis using assms(2) by (auto simp: fb_draw_pixel_def on_screen_def not_less)
qed

definition draw_points :: "u64 \<Rightarrow> u32 \<Rightarrow> (u32 \<times> u32) list \<Rightarrow> draw_state \<Rightarrow> draw_state" where
  "draw_points fb c pts s = fold (\<lambda>(x, y). fb_draw_pixel fb x y c) pts s"

lemma draw_points_simps [simp]:
  "draw_points fb c [] s = s" "draw_points fb c ((x, y) # pts) s = draw_points fb c pts (fb_draw_pixel fb x y c s)"
  "draw_points fb c (pts @ qts) s = draw_points fb c qts (draw_points fb c pts s)"
  by (simp_all add: draw_points_def)

lemma draw_points_pixels:
  assumes "screen_ok s" "on_screen s p q"
  shows "same_screen s (draw_points fb c pts s)
    \<and> pixel (draw_points fb c pts s) fb p q = (if (p, q) \<in> set pts then c else pixel s fb p q)"
  using assms
proof (induction pts arbitrary: s)
  case (Cons pt pts)
  obtain x y where pt: "pt = (x, y)" by (cases pt)
  let ?t = "fb_draw_pixel fb x y c s"
  have t: "same_screen s ?t" by simp
  note e = same_screen_simps [OF t]
  have "same_screen ?t (draw_points fb c pts ?t)
    \<and> pixel (draw_points fb c pts ?t) fb p q = (if (p, q) \<in> set pts then c else pixel ?t fb p q)"
    using Cons by (intro Cons.IH) (simp_all add: e)
  then show ?case using same_screen_trans [OF t] pixel_draw [OF Cons.prems] by (auto simp: pt)
qed simp

lemma fold_fold_concat: "fold (\<lambda>y. fold (\<lambda>x. f (g x y)) xs) ys s = fold f (concat (map (\<lambda>y. map (\<lambda>x. g x y) xs) ys)) s"
  by (induction ys arbitrary: s) (simp_all add: fold_map comp_def)

lemma mark_dirty_mem [simp]:
  "fb_mem (mark_dirty x y w h s) = fb_mem s" "pixel (mark_dirty x y w h s) = pixel s"
proof -
  show m: "fb_mem (mark_dirty x y w h s) = fb_mem s" by (simp add: mark_dirty_def Let_def split: prod.splits)
  have "stride (mark_dirty x y w h s) = stride s" by (simp add: mark_dirty_def Let_def split: prod.splits)
  then show "pixel (mark_dirty x y w h s) = pixel s" by (simp add: fun_eq_iff pixel_def pixel_at_def m)
qed

lemma word_range:
  fixes a n p :: u32
  assumes "unat a + unat n \<le> 2 ^ 32"
  shows "(\<exists>i<unat n. p = a + of_nat i) \<longleftrightarrow> unat a \<le> unat p \<and> unat p < unat a + unat n"
proof
  assume "\<exists>i<unat n. p = a + of_nat i"
  then obtain i where i: "i < unat n" "p = a + of_nat i" by blast
  then have "unat p = unat a + i" using assms unat_lt_2p [of n] by (simp add: unat_add_small)
  then show "unat a \<le> unat p \<and> unat p < unat a + unat n" using i by simp
next
  assume p: "unat a \<le> unat p \<and> unat p < unat a + unat n"
  then have "p = a + of_nat (unat p - unat a)" by (simp add: of_nat_diff)
  then show "\<exists>i<unat n. p = a + of_nat i" using p by (intro exI [of _ "unat p - unat a"]) auto
qed

text \<open>Filling a rectangle gives its colour to exactly the pixels of the rectangle that are on the screen; a rectangle that
  reaches over the edge is cut off, and no pixel of the next row changes.\<close>

lemma fb_fill_rect_pixels:
  assumes "screen_ok s" "on_screen s p q" "unat x + unat w \<le> 2 ^ 32" "unat y + unat h \<le> 2 ^ 32"
  shows "pixel (fb_fill_rect fb x y w h c s) fb p q
    = (if unat x \<le> unat p \<and> unat p < unat x + unat w \<and> unat y \<le> unat q \<and> unat q < unat y + unat h then c else pixel s fb p q)"
proof -
  let ?pts = "concat (map (\<lambda>dy. map (\<lambda>dx. (x + of_nat dx, y + of_nat dy)) [0..<unat w]) [0..<unat h])"
  have "fold (\<lambda>dy. fold (\<lambda>dx. fb_draw_pixel fb (x + of_nat dx) (y + of_nat dy) c) [0..<unat w]) [0..<unat h] s
      = draw_points fb c ?pts s"
    using fold_fold_concat [of "\<lambda>(x, y). fb_draw_pixel fb x y c" "\<lambda>dx dy. (x + of_nat dx, y + of_nat dy)" "[0..<unat w]" "[0..<unat h]" s]
    by (simp add: draw_points_def)
  then have e: "pixel (fb_fill_rect fb x y w h c s) fb p q = pixel (draw_points fb c ?pts s) fb p q"
    by (simp add: fb_fill_rect_def)
  have "(p, q) \<in> set ?pts \<longleftrightarrow> (\<exists>i<unat w. p = x + of_nat i) \<and> (\<exists>i<unat h. q = y + of_nat i)"
  proof
    assume "(\<exists>i<unat w. p = x + of_nat i) \<and> (\<exists>i<unat h. q = y + of_nat i)"
    then obtain i j where "i < unat w" "p = x + of_nat i" "j < unat h" "q = y + of_nat j" by blast
    then show "(p, q) \<in> set ?pts" by simp (intro bexI [of _ j] image_eqI [of _ _ i]; simp)
  qed auto
  then show ?thesis
    unfolding e using draw_points_pixels [OF assms(1,2), of fb c ?pts] word_range [OF assms(3)] word_range [OF assms(4)] by simp
qed

lemma fb_fill_rect_pixels_witness:
  "pixel (fb_fill_rect 0x1000 90 40 20 20 7 demo_screen) 0x1000 99 49 = 7
   \<and> pixel (fb_fill_rect 0x1000 90 40 20 20 7 demo_screen) 0x1000 0 41 = pixel demo_screen 0x1000 0 41"
proof -
  have "screen_ok demo_screen" "on_screen demo_screen 99 49" "on_screen demo_screen 0 41"
    by (simp_all add: screen_ok_def on_screen_def demo_screen_def)
  then show ?thesis
    using fb_fill_rect_pixels [of demo_screen 99 49 90 20 40 20 "0x1000" 7] fb_fill_rect_pixels [of demo_screen 0 41 90 20 40 20 "0x1000" 7]
    by simp
qed

subsection \<open>Lines\<close>

text \<open>A run of pixels in which each one is next to the one before.\<close>

fun neighbours :: "(u32 \<times> u32) list \<Rightarrow> bool" where
  "neighbours ((x, y) # (x', y') # pts) \<longleftrightarrow>
     x' - x \<in> {0, 1, - 1} \<and> y' - y \<in> {0, 1, - 1} \<and> neighbours ((x', y') # pts)"
| "neighbours _ \<longleftrightarrow> True"

definition run :: "(u32 \<times> u32) list \<Rightarrow> u32 \<times> u32 \<Rightarrow> u32 \<times> u32 \<Rightarrow> nat \<Rightarrow> bool" where
  "run pts a b n \<longleftrightarrow> pts \<noteq> [] \<and> hd pts = a \<and> last pts = b \<and> length pts = n + 1 \<and> neighbours pts"

lemma run_Cons:
  assumes "run pts a b n" "fst a - fst c \<in> {0, 1, - 1}" "snd a - snd c \<in> {0, 1, - 1}"
  shows "run (c # pts) c b (Suc n)"
  using assms by (cases pts; cases c; cases a) (auto simp: run_def)

text \<open>The coordinate after \<open>i\<close> steps; along the longer side every round makes a step.\<close>

definition along :: "u32 \<Rightarrow> int \<Rightarrow> int \<Rightarrow> u32" where
  "along a sg i = a + of_int (sg * i)"

lemma along_end:
  assumes "0 \<le> i" "i \<le> d" "d < 2 ^ 31" "sg \<in> {1, - 1}"
  shows "along a sg i = along a sg d \<longleftrightarrow> i = d"
proof
  assume "along a sg i = along a sg d"
  then have "(of_int i :: u32) = of_int d" using assms(4) by (auto simp: along_def)
  then have "take_bit 32 i = take_bit 32 d" by (simp add: word_of_int_eq_iff)
  then show "i = d" using assms by (simp add: take_bit_int_eq_self)
qed simp

lemma along_step:
  assumes "sg \<in> {1, - 1}"
  shows "along a sg i + of_int sg = along a sg (i + 1)" "along a sg (i + 1) - along a sg i \<in> {0, 1, - 1}"
  using assms by (auto simp: along_def distrib_left)

lemma along_0 [simp]: "along a sg 0 = a"
  by (simp add: along_def)

definition line_ok :: "u32 \<Rightarrow> u32 \<Rightarrow> int \<Rightarrow> int \<Rightarrow> bool" where
  "line_ok a b d sg \<longleftrightarrow> 0 \<le> d \<and> d < 2 ^ 31 \<and> sg \<in> {1, - 1} \<and> b = along a sg d"

text \<open>One round of the loop.\<close>

lemma loop_step:
  assumes "line_ok xs x1 dx sx" "line_ok ys y1 dy sy" "0 \<le> i" "i \<le> dx" "0 \<le> j" "j \<le> dy" "i \<noteq> dx \<or> j \<noteq> dy"
  shows "line_loop (Suc k) fb x1 y1 dx sx dy sy c err (along xs sx i) (along ys sy j) s
    = line_loop k fb x1 y1 dx sx dy sy c (err - (if err > - dx then dy else 0) + (if err < dy then dx else 0))
        (along xs sx (if err > - dx then i + 1 else i)) (along ys sy (if err < dy then j + 1 else j))
        (fb_draw_pixel fb (along xs sx i) (along ys sy j) c s)"
  using assms along_end [of i dx sx xs] along_end [of j dy sy ys] along_step(1) [of sx xs i] along_step(1) [of sy ys j]
  by (auto simp: Let_def line_ok_def)

lemma loop_end:
  assumes "line_ok xs x1 dx sx" "line_ok ys y1 dy sy"
  shows "line_loop (Suc k) fb x1 y1 dx sx dy sy c err (along xs sx dx) (along ys sy dy) s = Inr (x1, y1, fb_draw_pixel fb x1 y1 c s)"
  using assms by (simp add: line_ok_def)

text \<open>The value of \<open>err\<close> says how far the two sides are apart; when the longer side is done, so is the other.\<close>

lemma sides_meet:
  fixes dx dy e0 j :: int
  assumes "0 < dx" "0 \<le> e0 + (j - dy) * dx" "e0 + (j - dy) * dx < dx" "0 \<le> e0" "e0 < dx"
  shows "j = dy"
proof (rule ccontr)
  assume "j \<noteq> dy"
  then have "j - dy \<ge> 1 \<or> j - dy \<le> - 1" by linarith
  then have "(j - dy) * dx \<ge> dx \<or> (j - dy) * dx \<le> - dx"
    using assms(1) mult_right_mono [of 1 "j - dy" dx] mult_right_mono [of "j - dy" "- 1" dx] by auto
  then show False using assms by linarith
qed

lemma line_wide:
  assumes "line_ok xs x1 dx sx" "line_ok ys y1 dy sy" "dy < dx"
    "0 \<le> i" "i \<le> dx" "0 \<le> j" "j \<le> dy" "0 \<le> err" "err < dx" "err = dx div 2 - i * dy + j * dx" "n = nat (dx - i)" "n < fuel"
  shows "\<exists>pts. line_loop fuel fb x1 y1 dx sx dy sy c err (along xs sx i) (along ys sy j) s = Inr (x1, y1, draw_points fb c pts s)
    \<and> run pts (along xs sx i, along ys sy j) (x1, y1) n"
  using assms(4-)
proof (induction n arbitrary: i j err s fuel)
  case 0
  then obtain k where k: "fuel = Suc k" by (cases fuel) auto
  have i: "i = dx" using 0 by simp
  have e: "err = dx div 2 + (j - dy) * dx" using 0 i by (simp add: algebra_simps)
  have "j = dy" by (rule sides_meet [where dx = dx and ?e0.0 = "dx div 2"]) (use 0 e assms(2,3) in \<open>auto simp: line_ok_def\<close>)
  then show ?case using loop_end [OF assms(1,2), of k fb c err s] assms(1,2) i k
    by (intro exI [of _ "[(x1, y1)]"]) (simp add: run_def line_ok_def)
next
  case (Suc n)
  obtain k where k: "fuel = Suc k" using Suc.prems by (cases fuel) auto
  have i: "i < dx" using Suc.prems by simp
  let ?j = "if err < dy then j + 1 else j" and ?err = "err - dy + (if err < dy then dx else 0)"
  have nz: "dy \<ge> 0" "sy \<in> {1, - 1}" "sx \<in> {1, - 1}" using assms(1,2) by (auto simp: line_ok_def)
  have "j < dy" if "err < dy"
  proof (rule ccontr)
    assume "\<not> j < dy"
    then have "err = dx div 2 + dy * (dx - i)" using Suc.prems by (simp add: algebra_simps)
    moreover have "dy * 1 \<le> dy * (dx - i)" using i nz by (intro mult_left_mono) auto
    ultimately show False using that i Suc.prems(1) by linarith
  qed
  then have j: "0 \<le> ?j" "?j \<le> dy" using Suc.prems by auto
  have e: "0 \<le> ?err" "?err < dx" "?err = dx div 2 - (i + 1) * dy + ?j * dx"
    using Suc.prems nz assms(3) by (auto simp: algebra_simps)
  have "\<exists>pts. line_loop k fb x1 y1 dx sx dy sy c ?err (along xs sx (i + 1)) (along ys sy ?j) (fb_draw_pixel fb (along xs sx i) (along ys sy j) c s)
      = Inr (x1, y1, draw_points fb c pts (fb_draw_pixel fb (along xs sx i) (along ys sy j) c s))
    \<and> run pts (along xs sx (i + 1), along ys sy ?j) (x1, y1) n"
    by (rule Suc.IH [OF _ _ j e]) (use Suc.prems(1,2,8,9) i k in linarith)+
  then obtain pts where pts: "line_loop k fb x1 y1 dx sx dy sy c ?err (along xs sx (i + 1)) (along ys sy ?j) (fb_draw_pixel fb (along xs sx i) (along ys sy j) c s)
      = Inr (x1, y1, draw_points fb c pts (fb_draw_pixel fb (along xs sx i) (along ys sy j) c s))"
    "run pts (along xs sx (i + 1), along ys sy ?j) (x1, y1) n" by blast
  have "line_loop fuel fb x1 y1 dx sx dy sy c err (along xs sx i) (along ys sy j) s
      = line_loop k fb x1 y1 dx sx dy sy c ?err (along xs sx (i + 1)) (along ys sy ?j) (fb_draw_pixel fb (along xs sx i) (along ys sy j) c s)"
    using loop_step [OF assms(1,2), of i j k fb c err s] Suc.prems i k by simp
  moreover have "run ((along xs sx i, along ys sy j) # pts) (along xs sx i, along ys sy j) (x1, y1) (Suc n)"
    by (rule run_Cons [OF pts(2)]) (use along_step(2) [OF nz(3), of xs i] along_step(2) [OF nz(2), of ys j] in auto)
  ultimately show ?case using pts(1) by (intro exI [of _ "(along xs sx i, along ys sy j) # pts"]) simp
qed

lemma line_tall:
  assumes "line_ok xs x1 dx sx" "line_ok ys y1 dy sy" "dx \<le> dy" "0 < dy"
    "0 \<le> i" "i \<le> dx" "0 \<le> j" "j \<le> dy" "- dy < err" "err \<le> 0" "err = - (dy div 2) - i * dy + j * dx" "n = nat (dy - j)" "n < fuel"
  shows "\<exists>pts. line_loop fuel fb x1 y1 dx sx dy sy c err (along xs sx i) (along ys sy j) s = Inr (x1, y1, draw_points fb c pts s)
    \<and> run pts (along xs sx i, along ys sy j) (x1, y1) n"
  using assms(5-)
proof (induction n arbitrary: i j err s fuel)
  case 0
  then obtain k where k: "fuel = Suc k" by (cases fuel) auto
  have j: "j = dy" using 0 by simp
  have e: "- err = dy div 2 + (i - dx) * dy" using 0 j by (simp add: algebra_simps)
  have "i = dx" by (rule sides_meet [where dx = dy and ?e0.0 = "dy div 2"]) (use 0 e assms(4) in \<open>simp_all flip: e\<close>)
  then show ?case using loop_end [OF assms(1,2), of k fb c err s] assms(1,2) j k
    by (intro exI [of _ "[(x1, y1)]"]) (simp add: run_def line_ok_def)
next
  case (Suc n)
  obtain k where k: "fuel = Suc k" using Suc.prems by (cases fuel) auto
  have j: "j < dy" using Suc.prems by simp
  let ?i = "if err > - dx then i + 1 else i" and ?err = "err - (if err > - dx then dy else 0) + dx"
  have nz: "dx \<ge> 0" "sy \<in> {1, - 1}" "sx \<in> {1, - 1}" using assms(1,2) by (auto simp: line_ok_def)
  have "i < dx" if "err > - dx"
  proof (rule ccontr)
    assume "\<not> i < dx"
    then have "- err = dy div 2 + dx * (dy - j)" using Suc.prems by (simp add: algebra_simps)
    moreover have "dx * 1 \<le> dx * (dy - j)" using j nz by (intro mult_left_mono) auto
    ultimately show False using that j Suc.prems(3) by linarith
  qed
  then have i: "0 \<le> ?i" "?i \<le> dx" using Suc.prems by auto
  have e: "- dy < ?err" "?err \<le> 0" "?err = - (dy div 2) - ?i * dy + (j + 1) * dx"
    using Suc.prems nz assms(3) by (auto simp: algebra_simps)
  have "\<exists>pts. line_loop k fb x1 y1 dx sx dy sy c ?err (along xs sx ?i) (along ys sy (j + 1)) (fb_draw_pixel fb (along xs sx i) (along ys sy j) c s)
      = Inr (x1, y1, draw_points fb c pts (fb_draw_pixel fb (along xs sx i) (along ys sy j) c s))
    \<and> run pts (along xs sx ?i, along ys sy (j + 1)) (x1, y1) n"
    by (rule Suc.IH [OF i _ _ e]) (use Suc.prems(3,4,8,9) j k in linarith)+
  then obtain pts where pts: "line_loop k fb x1 y1 dx sx dy sy c ?err (along xs sx ?i) (along ys sy (j + 1)) (fb_draw_pixel fb (along xs sx i) (along ys sy j) c s)
      = Inr (x1, y1, draw_points fb c pts (fb_draw_pixel fb (along xs sx i) (along ys sy j) c s))"
    "run pts (along xs sx ?i, along ys sy (j + 1)) (x1, y1) n" by blast
  have "err < dy" using Suc.prems assms(4) by linarith
  then have "line_loop fuel fb x1 y1 dx sx dy sy c err (along xs sx i) (along ys sy j) s
      = line_loop k fb x1 y1 dx sx dy sy c ?err (along xs sx ?i) (along ys sy (j + 1)) (fb_draw_pixel fb (along xs sx i) (along ys sy j) c s)"
    using loop_step [OF assms(1,2), of i j k fb c err s] Suc.prems j k by simp
  moreover have "run ((along xs sx i, along ys sy j) # pts) (along xs sx i, along ys sy j) (x1, y1) (Suc n)"
    by (rule run_Cons [OF pts(2)]) (use along_step(2) [OF nz(3), of xs i] along_step(2) [OF nz(2), of ys j] in auto)
  ultimately show ?case using pts(1) by (intro exI [of _ "(along xs sx i, along ys sy j) # pts"]) simp
qed

lemma sint_small:
  fixes w :: u32
  assumes "unat w < 2 ^ 31"
  shows "sint w = uint w" "uint w < 2 ^ 31"
proof -
  have "int (unat w) < int (2 ^ 31)" using assms by (rule of_nat_less_iff [THEN iffD2])
  then show i: "uint w < 2 ^ 31" by (simp only: uint_nat of_nat_power of_nat_numeral)
  moreover have "0 \<le> uint w" by simp
  ultimately have "signed_take_bit 31 (uint w) = uint w" by (intro signed_take_bit_int_eq_self) linarith+
  then show "sint w = uint w" by (simp add: sint_uint)
qed

lemma line_ok_start:
  fixes a b :: u32
  assumes "unat a < 2 ^ 31" "unat b < 2 ^ 31"
  shows "line_ok a b (sint (if b > a then b - a else a - b)) (if a < b then 1 else - 1)"
    "nat (sint (if b > a then b - a else a - b)) = max (unat a) (unat b) - min (unat a) (unat b)"
proof -
  let ?d = "if b > a then b - a else a - b"
  have u: "unat ?d = max (unat a) (unat b) - min (unat a) (unat b)"
    by (auto simp: unat_diff_le word_less_nat_alt word_le_nat_alt not_less max_def min_def)
  then have lt: "unat ?d < 2 ^ 31" using assms by linarith
  note s = sint_small(1) [OF lt] and i = sint_small(2) [OF lt]
  show "nat (sint ?d) = max (unat a) (unat b) - min (unat a) (unat b)"
    unfolding s u [symmetric] by (simp only: uint_nat nat_int)
  have "b = along a (if a < b then 1 else - 1) (uint ?d)" by (auto simp: along_def)
  then show "line_ok a b (sint ?d) (if a < b then 1 else - 1)" unfolding line_ok_def s using i by simp
qed

text \<open>C28: Drawing a line between points whose coordinates are below \<open>2 ^ 30\<close> ends: after one round per pixel of its longer side it has drawn an unbroken run of pixels from the one
  end to the other, both included, and nothing else.  But the ends are compared when the line has arrived, so
  the rectangle that is marked as dirty and returned is always the single last pixel.\<close>

theorem fb_draw_line_reaches:
  assumes "unat x0 < 2 ^ 30" "unat y0 < 2 ^ 30" "unat x1 < 2 ^ 30" "unat y1 < 2 ^ 30"
    "n = max (max (unat x0) (unat x1) - min (unat x0) (unat x1)) (max (unat y0) (unat y1) - min (unat y0) (unat y1))" "n < fuel"
  shows "\<exists>pts. run pts (x0, y0) (x1, y1) n
    \<and> fb_draw_line fuel fb x0 y0 x1 y1 c s
      = Inr (\<lparr>point = \<lparr>px = x1, py = y1\<rparr>, rsize = \<lparr>width = 1, height = 1\<rparr>\<rparr>, mark_dirty x1 y1 1 1 (draw_points fb c pts s))"
proof -
  define dx where "dx = sint (if x1 > x0 then x1 - x0 else x0 - x1)"
  define dy where "dy = sint (if y1 > y0 then y1 - y0 else y0 - y1)"
  define sx :: int where "sx = (if x0 < x1 then 1 else - 1)"
  define sy :: int where "sy = (if y0 < y1 then 1 else - 1)"
  have x: "line_ok x0 x1 dx sx" "nat dx = max (unat x0) (unat x1) - min (unat x0) (unat x1)"
    using line_ok_start [of x0 x1] assms(1,3) by (simp_all add: dx_def sx_def)
  have y: "line_ok y0 y1 dy sy" "nat dy = max (unat y0) (unat y1) - min (unat y0) (unat y1)"
    using line_ok_start [of y0 y1] assms(2,4) by (simp_all add: dy_def sy_def)
  have nn: "0 \<le> dx" "0 \<le> dy" using x(1) y(1) by (simp_all add: line_ok_def)
  have n: "n = nat (max dx dy)" using nn unfolding assms(5) x(2) [symmetric] y(2) [symmetric] by (simp add: max_def)
  have "\<exists>pts. line_loop fuel fb x1 y1 dx sx dy sy c (half (if dx > dy then dx else - dy)) x0 y0 s = Inr (x1, y1, draw_points fb c pts s)
    \<and> run pts (x0, y0) (x1, y1) n"
  proof (cases "dx > dy")
    case True
    then show ?thesis
      using line_wide [OF x(1) y(1), of 0 0 "dx div 2" n fuel fb c s] nn n assms(6) by (simp add: half_def max_def)
  next
    case False
    show ?thesis
    proof (cases "dy = 0")
      case True
      then have "dx = 0" "n = 0" "x0 = x1" "y0 = y1" using False nn n x(1) y(1) by (simp_all add: line_ok_def)
      then show ?thesis using assms(6) by (cases fuel) (auto simp: run_def intro!: exI [of _ "[(x1, y1)]"])
    next
      case pos: False
      then show ?thesis
        using line_tall [OF x(1) y(1), of 0 0 "- (dy div 2)" n fuel fb c s] False nn n assms(6) by (simp add: half_def max_def)
    qed
  qed
  then obtain pts where pts: "line_loop fuel fb x1 y1 dx sx dy sy c (half (if dx > dy then dx else - dy)) x0 y0 s
      = Inr (x1, y1, draw_points fb c pts s)" "run pts (x0, y0) (x1, y1) n" by blast
  then have "fb_draw_line fuel fb x0 y0 x1 y1 c s
      = Inr (\<lparr>point = \<lparr>px = x1, py = y1\<rparr>, rsize = \<lparr>width = 1, height = 1\<rparr>\<rparr>, mark_dirty x1 y1 1 1 (draw_points fb c pts s))"
    by (simp add: fb_draw_line_def Let_def flip: dx_def dy_def sx_def sy_def)
  then show ?thesis using pts(2) by blast
qed

theorem fb_draw_line_reaches_witness:
  "\<exists>pts. run pts (3, 4) (13, 1) 10 \<and> fb_draw_line 11 0x1000 3 4 13 1 9 demo_screen
     = Inr (\<lparr>point = \<lparr>px = 13, py = 1\<rparr>, rsize = \<lparr>width = 1, height = 1\<rparr>\<rparr>, mark_dirty 13 1 1 1 (draw_points 0x1000 9 pts demo_screen))"
  using fb_draw_line_reaches [of 3 4 13 1 10 11 "0x1000" 9 demo_screen] by simp

end
