(* ===== verification/Node_Heap.thy ===== *)
theory Node_Heap
  imports Prelude
begin

section \<open>Heaps of list nodes\<close>

text \<open>
  The linked structures of \<open>shared/data_struct\<close> get their nodes from \<open>malloc\<close> and give them back to
  \<open>free\<close>, both system calls.  A heap maps the addresses of the nodes in use to their contents;
  \<open>nh_supply\<close> lists the answers of the \<open>malloc\<close> calls to come (0 is a refusal, and an empty list
  refuses every call).  The contract of \<open>malloc\<close> is a hypothesis of the properties: an answer is 0
  or an address not in use.  Reading or writing through NULL or through an address that is not in
  use is a fault.
\<close>

record 'n nheap =
  nh_nodes :: "u64 \<Rightarrow> 'n option"
  nh_supply :: "u64 list"

definition nh_answer :: "'n nheap \<Rightarrow> u64" where
  "nh_answer h = (case nh_supply h of [] \<Rightarrow> 0 | a # _ \<Rightarrow> a)"

text \<open>A successful \<open>malloc\<close> of a node together with the assignments of all its fields.\<close>

definition nh_new :: "'n \<Rightarrow> 'n nheap \<Rightarrow> 'n nheap" where
  "nh_new n h = h\<lparr>nh_nodes := (nh_nodes h)(nh_answer h \<mapsto> n), nh_supply := tl (nh_supply h)\<rparr>"

text \<open>A \<open>malloc\<close> whose block is not a node (the header of a list) or that failed.\<close>

definition nh_skip :: "'n nheap \<Rightarrow> 'n nheap" where
  "nh_skip h = h\<lparr>nh_supply := tl (nh_supply h)\<rparr>"

definition nh_get :: "'n nheap \<Rightarrow> u64 \<Rightarrow> fault + 'n" where
  "nh_get h p = (if p = 0 then Inl NullDeref
                 else case nh_nodes h p of None \<Rightarrow> Inl WildDeref | Some n \<Rightarrow> Inr n)"

definition nh_upd :: "'n nheap \<Rightarrow> u64 \<Rightarrow> ('n \<Rightarrow> 'n) \<Rightarrow> fault + 'n nheap" where
  "nh_upd h p f = bindE (nh_get h p) (\<lambda>n. Inr (h\<lparr>nh_nodes := (nh_nodes h)(p \<mapsto> f n)\<rparr>))"

definition nh_free :: "'n nheap \<Rightarrow> u64 \<Rightarrow> 'n nheap" where
  "nh_free h p = h\<lparr>nh_nodes := (nh_nodes h)(p := None)\<rparr>"

text \<open>\<open>malloc\<close> keeps its contract for the next call.\<close>

definition fresh_next :: "'n nheap \<Rightarrow> bool" where
  "fresh_next h \<longleftrightarrow> nh_answer h \<noteq> 0 \<and> nh_nodes h (nh_answer h) = None"

lemma nh_get_Some [simp]: "p \<noteq> 0 \<Longrightarrow> nh_nodes h p = Some n \<Longrightarrow> nh_get h p = Inr n"
  by (simp add: nh_get_def)

lemma nh_get_0 [simp]: "nh_get h 0 = Inl NullDeref"
  by (simp add: nh_get_def)

lemma nh_upd_Some [simp]:
  "p \<noteq> 0 \<Longrightarrow> nh_nodes h p = Some n \<Longrightarrow> nh_upd h p f = Inr (h\<lparr>nh_nodes := (nh_nodes h)(p \<mapsto> f n)\<rparr>)"
  by (simp add: nh_upd_def)

lemma nh_simps [simp]:
  "nh_nodes (nh_new n h) = (nh_nodes h)(nh_answer h \<mapsto> n)"
  "nh_supply (nh_new n h) = tl (nh_supply h)"
  "nh_nodes (nh_skip h) = nh_nodes h" "nh_supply (nh_skip h) = tl (nh_supply h)"
  "nh_nodes (nh_free h p) = (nh_nodes h)(p := None)" "nh_supply (nh_free h p) = nh_supply h"
  by (simp_all add: nh_new_def nh_skip_def nh_free_def)

text \<open>The next \<open>n\<close> calls of \<open>malloc\<close> succeed with new addresses.\<close>

definition supply_ok :: "nat \<Rightarrow> 'n nheap \<Rightarrow> bool" where
  "supply_ok n h \<longleftrightarrow> n \<le> length (nh_supply h) \<and> distinct (take n (nh_supply h))
     \<and> (\<forall>a\<in>set (take n (nh_supply h)). a \<noteq> 0 \<and> nh_nodes h a = None)"

lemma supply_ok_fresh: "supply_ok (Suc n) h \<Longrightarrow> fresh_next h"
  by (cases "nh_supply h") (auto simp: supply_ok_def fresh_next_def nh_answer_def)

lemma supply_ok_step:
  assumes "supply_ok (Suc n) h" "nh_supply h' = tl (nh_supply h)"
    "dom (nh_nodes h') \<subseteq> insert (nh_answer h) (dom (nh_nodes h))"
  shows "supply_ok n h'"
proof -
  obtain a as where s: "nh_supply h = a # as" using assms(1) by (cases "nh_supply h") (auto simp: supply_ok_def)
  have "nh_nodes h' b = None" if "b \<in> set (take n as)" for b
  proof -
    have "b \<noteq> a" "nh_nodes h b = None" using assms(1) that by (auto simp: supply_ok_def s)
    then show ?thesis using assms(3) by (auto simp: nh_answer_def s)
  qed
  then show ?thesis using assms(1,2) by (simp add: supply_ok_def s)
qed

end
