(* ===== verification/Sequences.thy ===== *)
theory Sequences
  imports Node_Heap
begin

section \<open>The interface of the linked sequences\<close>

text \<open>
  What a client of the linked structures relies on: \<open>push\<close> puts one element into the sequence (where,
  says \<open>ins\<close>) as long as \<open>malloc\<close> still succeeds (\<open>room\<close> counts the calls that do), and \<open>pop\<close> takes
  the first element out.  \<open>push_all\<close> and \<open>pop_n\<close> are the client: it stores a list of elements and
  reads them back.
\<close>

fun push_all :: "('s \<Rightarrow> 'd \<Rightarrow> fault + 's) \<Rightarrow> 'd list \<Rightarrow> 's \<Rightarrow> fault + 's" where
  "push_all push [] s = Inr s"
| "push_all push (d # ds) s = bindE (push s d) (push_all push ds)"

fun pop_n :: "('s \<Rightarrow> fault + ('d \<times> 's)) \<Rightarrow> nat \<Rightarrow> 's \<Rightarrow> fault + ('d list \<times> 's)" where
  "pop_n pop 0 s = Inr ([], s)"
| "pop_n pop (Suc n) s = bindE (pop s) (\<lambda>(d, s). bindE (pop_n pop n s) (\<lambda>(ds, s). Inr (d # ds, s)))"

locale sequence =
  fixes rep :: "'s \<Rightarrow> 'd list \<Rightarrow> bool"
    and room :: "nat \<Rightarrow> 's \<Rightarrow> bool"
    and ins :: "'d \<Rightarrow> 'd list \<Rightarrow> 'd list"
    and push :: "'s \<Rightarrow> 'd \<Rightarrow> fault + 's"
    and pop :: "'s \<Rightarrow> fault + ('d \<times> 's)"
  assumes push_law: "rep s ds \<Longrightarrow> room (Suc n) s \<Longrightarrow> \<exists>s'. push s d = Inr s' \<and> rep s' (ins d ds) \<and> room n s'"
    and pop_law: "rep s (d # ds) \<Longrightarrow> \<exists>s'. pop s = Inr (d, s') \<and> rep s' ds"
begin

lemma push_all_rep:
  "rep s es \<Longrightarrow> room (length ds) s \<Longrightarrow> \<exists>s'. push_all push ds s = Inr s' \<and> rep s' (fold ins ds es)"
proof (induction ds arbitrary: s es)
  case (Cons d ds)
  then show ?case using push_law [of s es "length ds" d] by fastforce
qed simp

lemma pop_n_rep: "rep s ds \<Longrightarrow> \<exists>s'. pop_n pop (length ds) s = Inr (ds, s') \<and> rep s' []"
proof (induction ds arbitrary: s)
  case (Cons d ds)
  then show ?case using pop_law [of s d ds] by fastforce
qed simp

lemma store_and_read:
  assumes "rep s []" "room (length ds) s" "length (fold ins ds []) = length ds"
  shows "\<exists>s'. bindE (push_all push ds s) (pop_n pop (length ds)) = Inr (fold ins ds [], s') \<and> rep s' []"
proof -
  obtain s1 where s1: "push_all push ds s = Inr s1" "rep s1 (fold ins ds [])"
    using push_all_rep [OF assms(1,2)] by blast
  then show ?thesis using pop_n_rep [OF s1(2)] assms(3) by simp
qed

end

text \<open>The two ways \<open>push\<close> inserts: in front (a stack) and at the end (a queue).\<close>

lemma fold_Cons_rev: "fold (#) ds es = rev ds @ es"
  by (induction ds arbitrary: es) auto

lemma fold_snoc: "fold (\<lambda>d ds. ds @ [d]) ds es = es @ ds"
  by (induction ds arbitrary: es) auto

end
