(* ===== verification/Linked_List.thy ===== *)
theory Linked_List
  imports Sequences
begin

section \<open>Singly linked lists (\<open>shared/data_struct/linked_list.c\<close>)\<close>

text \<open>
  The header of a list is a record, a \<open>clinkedlist_t*\<close> that may be NULL an option of it.  Nodes live
  in a heap of \<open>Node_Heap\<close>.  Loops over a chain of nodes take fuel, one unit per node, since a chain
  may be cyclic.
\<close>

record cl_node =
  cl_data :: u64
  cl_next :: u64

record clist =
  cl_head :: u64
  cl_tail :: u64
  cl_length :: u64

type_synonym cl_heap = "cl_node nheap"

subsection \<open>Operations\<close>

definition clinkedlist_create :: "cl_heap \<Rightarrow> cl_heap \<times> clist option" where
  "clinkedlist_create h =
     (nh_skip h, if nh_answer h = 0 then None else Some \<lparr>cl_head = 0, cl_tail = 0, cl_length = 0\<rparr>)"

fun cl_free_all :: "nat \<Rightarrow> cl_heap \<Rightarrow> u64 \<Rightarrow> fault + cl_heap" where
  "cl_free_all 0 h node = (if node = 0 then Inr h else Inl OutOfFuel)"
| "cl_free_all (Suc k) h node =
     (if node = 0 then Inr h
      else bindE (nh_get h node) (\<lambda>n. cl_free_all k (nh_free h node) (cl_next n)))"

definition clinkedlist_destroy :: "nat \<Rightarrow> cl_heap \<Rightarrow> clist option \<Rightarrow> fault + cl_heap" where
  "clinkedlist_destroy fuel h l = (case l of None \<Rightarrow> Inr h | Some l \<Rightarrow> cl_free_all fuel h (cl_head l))"

definition clinkedlist_push_front :: "cl_heap \<Rightarrow> clist option \<Rightarrow> u64 \<Rightarrow> fault + (cl_heap \<times> clist option)" where
  "clinkedlist_push_front h l d =
     (case l of
        None \<Rightarrow> Inr (h, None)
      | Some l \<Rightarrow>
          let node = nh_answer h
          in if node = 0 then Inl NullDeref
             else Inr (nh_new \<lparr>cl_data = d, cl_next = cl_head l\<rparr> h,
                       Some (l\<lparr>cl_head := node,
                               cl_tail := (if cl_tail l = 0 then node else cl_tail l),
                               cl_length := cl_length l + 1\<rparr>)))"

definition clinkedlist_pop_front :: "cl_heap \<Rightarrow> clist option \<Rightarrow> fault + (u64 \<times> cl_heap \<times> clist option)" where
  "clinkedlist_pop_front h l =
     (case l of
        None \<Rightarrow> Inr (0, h, None)
      | Some l \<Rightarrow>
          if cl_head l = 0 then Inr (0, h, Some l)
          else bindE (nh_get h (cl_head l)) (\<lambda>n.
            Inr (cl_data n, nh_free h (cl_head l),
                 Some (l\<lparr>cl_head := cl_next n,
                         cl_tail := (if cl_next n = 0 then 0 else cl_tail l),
                         cl_length := cl_length l - 1\<rparr>))))"

definition clinkedlist_insert_after ::
    "cl_heap \<Rightarrow> clist option \<Rightarrow> u64 \<Rightarrow> u64 \<Rightarrow> fault + (u64 \<times> cl_heap \<times> clist option)" where
  "clinkedlist_insert_after h l node d =
     (case l of
        None \<Rightarrow> Inr (0, h, None)
      | Some l \<Rightarrow>
          if node = 0 then
            bindE (clinkedlist_push_front h (Some l) d) (\<lambda>(h, l).
              Inr (case l of None \<Rightarrow> 0 | Some l \<Rightarrow> cl_head l, h, l))
          else
            let new = nh_answer h
            in if new = 0 then Inl NullDeref
               else bindE (nh_get h node) (\<lambda>n.
                 bindE (nh_upd (nh_new \<lparr>cl_data = d, cl_next = cl_next n\<rparr> h) node (\<lambda>n. n\<lparr>cl_next := new\<rparr>)) (\<lambda>h.
                   Inr (new, h, Some (l\<lparr>cl_tail := (if cl_tail l = node then new else cl_tail l),
                                        cl_length := cl_length l + 1\<rparr>)))))"

text \<open>The predecessor of \<open>node\<close>, or the last node when \<open>node\<close> is not in the chain.\<close>

fun cl_prev :: "nat \<Rightarrow> cl_heap \<Rightarrow> u64 \<Rightarrow> u64 \<Rightarrow> fault + (u64 \<times> cl_node)" where
  "cl_prev 0 h prev node = Inl OutOfFuel"
| "cl_prev (Suc k) h prev node =
     bindE (nh_get h prev) (\<lambda>n.
       if cl_next n \<noteq> 0 \<and> cl_next n \<noteq> node then cl_prev k h (cl_next n) node else Inr (prev, n))"

definition clinkedlist_remove ::
    "nat \<Rightarrow> cl_heap \<Rightarrow> clist option \<Rightarrow> u64 \<Rightarrow> fault + (u64 \<times> cl_heap \<times> clist option)" where
  "clinkedlist_remove fuel h l node =
     (case l of
        None \<Rightarrow> Inr (0, h, None)
      | Some l \<Rightarrow>
          if node = 0 \<or> cl_head l = 0 then Inr (0, h, Some l)
          else if node = cl_head l then clinkedlist_pop_front h (Some l)
          else bindE (cl_prev fuel h (cl_head l) node) (\<lambda>(prev, p).
            if cl_next p \<noteq> node then Inr (0, h, Some l)
            else bindE (nh_get h node) (\<lambda>n.
              bindE (nh_upd h prev (\<lambda>p. p\<lparr>cl_next := cl_next n\<rparr>)) (\<lambda>h.
                Inr (cl_data n, nh_free h node,
                     Some (l\<lparr>cl_tail := (if node = cl_tail l then prev else cl_tail l),
                             cl_length := cl_length l - 1\<rparr>))))))"

definition clinkedlist_update :: "cl_heap \<Rightarrow> u64 \<Rightarrow> u64 \<Rightarrow> fault + cl_heap" where
  "clinkedlist_update h node d = (if node = 0 then Inr h else nh_upd h node (\<lambda>n. n\<lparr>cl_data := d\<rparr>))"

definition clinkedlist_length :: "clist option \<Rightarrow> u64" where
  "clinkedlist_length l = (case l of None \<Rightarrow> 0 | Some l \<Rightarrow> cl_length l)"

definition clinkedlist_size_bytes :: "clist option \<Rightarrow> u64" where
  "clinkedlist_size_bytes l = (case l of None \<Rightarrow> 0 | Some l \<Rightarrow> cl_length l * 16)"

fun cl_find :: "nat \<Rightarrow> cl_heap \<Rightarrow> u64 \<Rightarrow> u64 \<Rightarrow> (u64 \<Rightarrow> u64 \<Rightarrow> int) \<Rightarrow> fault + u64" where
  "cl_find 0 h it key cmp = (if it = 0 then Inr 0 else Inl OutOfFuel)"
| "cl_find (Suc k) h it key cmp =
     (if it = 0 then Inr 0
      else bindE (nh_get h it) (\<lambda>n.
        if cmp (cl_data n) key = 0 then Inr it else cl_find k h (cl_next n) key cmp))"

definition clinkedlist_find ::
    "nat \<Rightarrow> cl_heap \<Rightarrow> clist option \<Rightarrow> u64 \<Rightarrow> (u64 \<Rightarrow> u64 \<Rightarrow> int) option \<Rightarrow> fault + u64" where
  "clinkedlist_find fuel h l key cmp =
     (case (l, cmp) of (Some l, Some cmp) \<Rightarrow> cl_find fuel h (cl_head l) key cmp | _ \<Rightarrow> Inr 0)"

fun cl_each :: "nat \<Rightarrow> cl_heap \<Rightarrow> u64 \<Rightarrow> (u64 \<Rightarrow> 's \<Rightarrow> 's) \<Rightarrow> 's \<Rightarrow> fault + 's" where
  "cl_each 0 h it f s = (if it = 0 then Inr s else Inl OutOfFuel)"
| "cl_each (Suc k) h it f s =
     (if it = 0 then Inr s else bindE (nh_get h it) (\<lambda>n. cl_each k h (cl_next n) f (f (cl_data n) s)))"

text \<open>\<open>func\<close> acts on a state of its own.\<close>

definition clinkedlist_for_each ::
    "nat \<Rightarrow> cl_heap \<Rightarrow> clist option \<Rightarrow> (u64 \<Rightarrow> 's \<Rightarrow> 's) option \<Rightarrow> 's \<Rightarrow> fault + 's" where
  "clinkedlist_for_each fuel h l f s =
     (case (l, f) of (Some l, Some f) \<Rightarrow> cl_each fuel h (cl_head l) f s | _ \<Rightarrow> Inr s)"

fun cl_copy :: "nat \<Rightarrow> cl_heap \<Rightarrow> clist \<Rightarrow> u64 \<Rightarrow> fault + (cl_heap \<times> clist option)" where
  "cl_copy 0 h clone it = (if it = 0 then Inr (h, Some clone) else Inl OutOfFuel)"
| "cl_copy (Suc k) h clone it =
     (if it = 0 then Inr (h, Some clone)
      else bindE (nh_get h it) (\<lambda>n.
        if cl_tail clone \<noteq> 0 then
          let new = nh_answer h
          in if new = 0 then Inl NullDeref
             else bindE (nh_upd (nh_new \<lparr>cl_data = cl_data n, cl_next = 0\<rparr> h) (cl_tail clone)
                          (\<lambda>t. t\<lparr>cl_next := new\<rparr>)) (\<lambda>h.
               cl_copy k h (clone\<lparr>cl_tail := new, cl_length := cl_length clone + 1\<rparr>) (cl_next n))
        else bindE (clinkedlist_push_front h (Some clone) (cl_data n)) (\<lambda>(h, c).
          case c of None \<Rightarrow> Inl NullDeref | Some clone \<Rightarrow> cl_copy k h clone (cl_next n))))"

definition clinkedlist_clone :: "nat \<Rightarrow> cl_heap \<Rightarrow> clist option \<Rightarrow> fault + (cl_heap \<times> clist option)" where
  "clinkedlist_clone fuel h l =
     (case l of
        None \<Rightarrow> Inr (h, None)
      | Some l \<Rightarrow>
          (case clinkedlist_create h of
             (h, None) \<Rightarrow> Inr (h, None)
           | (h, Some clone) \<Rightarrow> cl_copy fuel h clone (cl_head l)))"

subsection \<open>The list a chain of nodes stands for\<close>

text \<open>\<open>chain ns p xs q\<close>: following \<open>next\<close> from \<open>p\<close> passes the nodes \<open>xs\<close> (address and data) and ends at \<open>q\<close>.\<close>

fun chain :: "(u64 \<Rightarrow> cl_node option) \<Rightarrow> u64 \<Rightarrow> (u64 \<times> u64) list \<Rightarrow> u64 \<Rightarrow> bool" where
  "chain ns p [] q \<longleftrightarrow> p = q"
| "chain ns p ((a, d) # xs) q \<longleftrightarrow> p = a \<and> a \<noteq> 0 \<and> (\<exists>r. ns a = Some \<lparr>cl_data = d, cl_next = r\<rparr> \<and> chain ns r xs q)"

definition clist_rep :: "cl_heap \<Rightarrow> clist \<Rightarrow> (u64 \<times> u64) list \<Rightarrow> bool" where
  "clist_rep h l xs \<longleftrightarrow> chain (nh_nodes h) (cl_head l) xs 0 \<and> distinct (map fst xs)
     \<and> cl_tail l = (if xs = [] then 0 else fst (last xs)) \<and> cl_length l = of_nat (length xs)"

lemma chain_append: "chain ns p (xs @ ys) q \<longleftrightarrow> (\<exists>r. chain ns p xs r \<and> chain ns r ys q)"
  by (induction xs arbitrary: p) (simp, fastforce)

lemma chain_upd [simp]: "a \<notin> fst ` set xs \<Longrightarrow> chain (ns(a := v)) p xs q = chain ns p xs q"
  by (induction xs arbitrary: p) auto

lemma chain_cong:
  "(\<And>a d. (a, d) \<in> set xs \<Longrightarrow> ns a = ns' a) \<Longrightarrow> chain ns p xs q = chain ns' p xs q"
  by (induction xs arbitrary: p) (simp, fastforce)

lemma chain_nz: "chain ns p xs q \<Longrightarrow> (a, d) \<in> set xs \<Longrightarrow> a \<noteq> 0"
  by (induction xs arbitrary: p) auto

lemma chain_in_dom: "chain ns p xs q \<Longrightarrow> (a, d) \<in> set xs \<Longrightarrow> \<exists>r. ns a = Some \<lparr>cl_data = d, cl_next = r\<rparr>"
  by (induction xs arbitrary: p) auto

lemma chain_free: "chain ns p xs q \<Longrightarrow> ns a = None \<Longrightarrow> a \<notin> fst ` set xs"
  by (auto dest: chain_in_dom)

lemma chain_head_0: "chain ns p xs 0 \<Longrightarrow> p = 0 \<longleftrightarrow> xs = []"
  by (cases xs) auto

lemma clist_rep_head_0: "clist_rep h l xs \<Longrightarrow> cl_head l = 0 \<longleftrightarrow> xs = []"
  by (auto simp: clist_rep_def dest: chain_head_0)

lemma push_front_rep:
  assumes "clist_rep h l xs" "fresh_next h"
  defines "l' \<equiv> l\<lparr>cl_head := nh_answer h, cl_tail := (if cl_tail l = 0 then nh_answer h else cl_tail l),
      cl_length := cl_length l + 1\<rparr>"
  shows "clinkedlist_push_front h (Some l) d = Inr (nh_new \<lparr>cl_data = d, cl_next = cl_head l\<rparr> h, Some l')"
    and "clist_rep (nh_new \<lparr>cl_data = d, cl_next = cl_head l\<rparr> h) l' ((nh_answer h, d) # xs)"
proof -
  have f: "nh_answer h \<noteq> 0" "nh_nodes h (nh_answer h) = None" using assms(2) by (auto simp: fresh_next_def)
  show "clinkedlist_push_front h (Some l) d = Inr (nh_new \<lparr>cl_data = d, cl_next = cl_head l\<rparr> h, Some l')"
    using f by (simp add: clinkedlist_push_front_def l'_def Let_def)
  have c: "chain (nh_nodes h) (cl_head l) xs 0" using assms(1) by (simp add: clist_rep_def)
  have "nh_answer h \<notin> fst ` set xs" using chain_free [OF c f(2)] .
  moreover have "cl_tail l = 0 \<longleftrightarrow> xs = []"
    using assms(1) chain_nz [OF c, of "fst (last xs)" "snd (last xs)"] by (auto simp: clist_rep_def)
  ultimately show "clist_rep (nh_new \<lparr>cl_data = d, cl_next = cl_head l\<rparr> h) l' ((nh_answer h, d) # xs)"
    using assms(1) f by (auto simp: clist_rep_def l'_def)
qed

lemma pop_front_rep:
  assumes "clist_rep h l ((a, d) # xs)"
  obtains l' where "clinkedlist_pop_front h (Some l) = Inr (d, nh_free h a, Some l')" "clist_rep (nh_free h a) l' xs"
proof -
  obtain r where r: "cl_head l = a" "a \<noteq> 0" "nh_nodes h a = Some \<lparr>cl_data = d, cl_next = r\<rparr>"
    "chain (nh_nodes h) r xs 0" "a \<notin> fst ` set xs" "distinct (map fst xs)"
    using assms by (auto simp: clist_rep_def)
  let ?l = "l\<lparr>cl_head := r, cl_tail := (if r = 0 then 0 else cl_tail l), cl_length := cl_length l - 1\<rparr>"
  show thesis
  proof (rule that [of ?l])
    show "clinkedlist_pop_front h (Some l) = Inr (d, nh_free h a, Some ?l)"
      using r by (simp add: clinkedlist_pop_front_def)
    show "clist_rep (nh_free h a) ?l xs"
      using r assms chain_head_0 [OF r(4)] by (auto simp: clist_rep_def)
  qed
qed

lemma insert_after_rep:
  assumes "clist_rep h l (xs @ (n, e) # ys)" "fresh_next h"
  obtains h' l' where "clinkedlist_insert_after h (Some l) n d = Inr (nh_answer h, h', Some l')"
    "clist_rep h' l' (xs @ (n, e) # (nh_answer h, d) # ys)"
    "\<And>x. x \<noteq> n \<Longrightarrow> x \<noteq> nh_answer h \<Longrightarrow> nh_nodes h' x = nh_nodes h x"
proof -
  have f: "nh_answer h \<noteq> 0" "nh_nodes h (nh_answer h) = None" using assms(2) by (auto simp: fresh_next_def)
  obtain r where r: "chain (nh_nodes h) (cl_head l) xs n" "n \<noteq> 0"
      "nh_nodes h n = Some \<lparr>cl_data = e, cl_next = r\<rparr>" "chain (nh_nodes h) r ys 0"
    using assms(1) by (auto simp: clist_rep_def chain_append)
  have new: "nh_answer h \<notin> fst ` set (xs @ (n, e) # ys)"
    by (rule chain_free [where ns = "nh_nodes h" and p = "cl_head l" and q = 0])
      (use assms(1) f(2) in \<open>simp_all only: clist_rep_def\<close>)
  have dist: "distinct (map fst (xs @ (n, e) # ys))" using assms(1) by (simp add: clist_rep_def)
  have nn: "n \<noteq> nh_answer h" using f r by auto
  let ?h = "(nh_new \<lparr>cl_data = d, cl_next = r\<rparr> h)\<lparr>nh_nodes := (nh_nodes h)(nh_answer h \<mapsto> \<lparr>cl_data = d, cl_next = r\<rparr>,
      n \<mapsto> \<lparr>cl_data = e, cl_next = nh_answer h\<rparr>)\<rparr>"
  let ?l = "l\<lparr>cl_tail := (if cl_tail l = n then nh_answer h else cl_tail l), cl_length := cl_length l + 1\<rparr>"
  show thesis
  proof (rule that [of ?h ?l])
    show "clinkedlist_insert_after h (Some l) n d = Inr (nh_answer h, ?h, Some ?l)"
      using r f nn by (simp add: clinkedlist_insert_after_def Let_def nh_upd_def nh_get_def)
    have "cl_tail l = n \<longleftrightarrow> ys = []"
      using assms(1) dist by (cases ys rule: rev_cases) (auto simp: clist_rep_def)
    then show "clist_rep ?h ?l (xs @ (n, e) # (nh_answer h, d) # ys)"
      using assms(1) r f new dist by (auto simp: clist_rep_def chain_append image_Un)
    show "nh_nodes ?h x = nh_nodes h x" if "x \<noteq> n" "x \<noteq> nh_answer h" for x
      using that by simp
  qed
qed

lemma cl_prev_found:
  assumes "chain (nh_nodes h) p (xs @ [(m, c)]) n" "n \<noteq> 0" "n \<notin> fst ` set (xs @ [(m, c)])"
    "length xs < fuel"
  shows "cl_prev fuel h p n = Inr (m, \<lparr>cl_data = c, cl_next = n\<rparr>)"
  using assms
proof (induction xs arbitrary: p fuel)
  case Nil
  then show ?case by (cases fuel) auto
next
  case (Cons y xs)
  obtain a d where y: "y = (a, d)" by (cases y)
  obtain k where k: "fuel = Suc k" using Cons.prems(4) by (cases fuel) auto
  obtain r where r: "p = a" "a \<noteq> 0" "nh_nodes h a = Some \<lparr>cl_data = d, cl_next = r\<rparr>"
    "chain (nh_nodes h) r (xs @ [(m, c)]) n"
    using Cons.prems(1) by (auto simp: y)
  have "r \<noteq> 0" "r \<noteq> n" using r(4) Cons.prems(3) by (cases xs; auto)+
  then show ?case using Cons.IH [OF r(4) Cons.prems(2)] Cons.prems(3,4) r by (simp add: k y)
qed

lemma cl_prev_missing:
  assumes "chain (nh_nodes h) p xs 0" "xs \<noteq> []" "n \<notin> fst ` set xs" "length xs \<le> fuel"
  shows "\<exists>m c. cl_prev fuel h p n = Inr (m, \<lparr>cl_data = c, cl_next = 0\<rparr>)"
  using assms
proof (induction xs arbitrary: p fuel)
  case (Cons y xs)
  obtain a d where y: "y = (a, d)" by (cases y)
  obtain k where k: "fuel = Suc k" using Cons.prems(4) by (cases fuel) auto
  obtain r where r: "p = a" "a \<noteq> 0" "nh_nodes h a = Some \<lparr>cl_data = d, cl_next = r\<rparr>"
    "chain (nh_nodes h) r xs 0"
    using Cons.prems(1) by (auto simp: y)
  show ?case
  proof (cases "xs = []")
    case True
    then show ?thesis using r by (auto simp: k)
  next
    case False
    then have "r \<noteq> 0" "r \<noteq> n" using r(4) Cons.prems(3) by (cases xs; auto)+
    then show ?thesis using Cons.IH [OF r(4) False] Cons.prems(3,4) r by (simp add: k y)
  qed
qed simp

lemma remove_rep:
  assumes "clist_rep h l (xs @ (n, e) # ys)" "length xs < fuel"
  obtains h' l' where "clinkedlist_remove fuel h (Some l) n = Inr (e, h', Some l')" "clist_rep h' l' (xs @ ys)"
proof (cases xs rule: rev_cases)
  case Nil
  then obtain l' where l': "clinkedlist_pop_front h (Some l) = Inr (e, nh_free h n, Some l')" "clist_rep (nh_free h n) l' ys"
    using pop_front_rep assms(1) by (metis append_Nil)
  have "cl_head l = n" "n \<noteq> 0" using assms(1) Nil by (auto simp: clist_rep_def)
  then have "clinkedlist_remove fuel h (Some l) n = clinkedlist_pop_front h (Some l)"
    by (simp add: clinkedlist_remove_def)
  then show thesis using l' Nil by (intro that) auto
next
  case (snoc zs y)
  obtain m c where y: "y = (m, c)" by (cases y)
  obtain r where r: "chain (nh_nodes h) (cl_head l) (zs @ [(m, c)]) n" "n \<noteq> 0"
      "nh_nodes h n = Some \<lparr>cl_data = e, cl_next = r\<rparr>" "chain (nh_nodes h) r ys 0"
    using assms(1) unfolding clist_rep_def snoc y chain_append [of _ _ "zs @ [(m, c)]"] by auto
  have dist: "distinct (map fst (zs @ (m, c) # (n, e) # ys))" using assms(1) by (simp add: clist_rep_def snoc y)
  have prev: "cl_prev fuel h (cl_head l) n = Inr (m, \<lparr>cl_data = c, cl_next = n\<rparr>)"
    using r(1,2) dist assms(2) by (intro cl_prev_found [of h _ zs]) (auto simp: snoc)
  have m: "m \<noteq> 0" "nh_nodes h m = Some \<lparr>cl_data = c, cl_next = n\<rparr>" using r(1) by (auto simp: chain_append)
  have hd: "cl_head l \<noteq> 0" "cl_head l \<noteq> n" using r(1) dist chain_nz [OF r(1)] by (cases zs; auto)+
  let ?h = "nh_free (h\<lparr>nh_nodes := (nh_nodes h)(m \<mapsto> \<lparr>cl_data = c, cl_next = r\<rparr>)\<rparr>) n"
  let ?l = "l\<lparr>cl_tail := (if n = cl_tail l then m else cl_tail l), cl_length := cl_length l - 1\<rparr>"
  show thesis
  proof (rule that [of ?h ?l])
    show "clinkedlist_remove fuel h (Some l) n = Inr (e, ?h, Some ?l)"
      using r m hd dist by (simp add: clinkedlist_remove_def prev)
    have "cl_tail l = n \<longleftrightarrow> ys = []"
      using assms(1) dist by (cases ys rule: rev_cases) (auto simp: clist_rep_def snoc y)
    then show "clist_rep ?h ?l (xs @ ys)"
      using assms(1) r m dist by (auto simp: clist_rep_def chain_append snoc y)
  qed
qed

lemma remove_missing:
  assumes "clist_rep h l xs" "n \<notin> fst ` set xs" "length xs \<le> fuel"
  shows "clinkedlist_remove fuel h (Some l) n = Inr (0, h, Some l)"
proof (cases "xs = [] \<or> n = 0")
  case True
  then show ?thesis using assms(1) by (auto simp: clinkedlist_remove_def clist_rep_head_0)
next
  case False
  have c: "chain (nh_nodes h) (cl_head l) xs 0" using assms(1) by (simp add: clist_rep_def)
  obtain m d where "cl_prev fuel h (cl_head l) n = Inr (m, \<lparr>cl_data = d, cl_next = 0\<rparr>)"
    using cl_prev_missing [OF c _ assms(2,3)] False by blast
  moreover have "cl_head l \<noteq> n" using c False assms(2) by (cases xs) auto
  ultimately show ?thesis using False by (simp add: clinkedlist_remove_def)
qed

lemma cl_find_first:
  "chain (nh_nodes h) p xs 0 \<Longrightarrow> length xs \<le> fuel \<Longrightarrow>
   cl_find fuel h p key cmp = Inr (case find (\<lambda>(a, d). cmp d key = 0) xs of None \<Rightarrow> 0 | Some (a, d) \<Rightarrow> a)"
proof (induction xs arbitrary: p fuel)
  case (Cons y xs)
  then show ?case by (cases fuel; cases y) auto
next
  case Nil
  then show ?case by (cases fuel) auto
qed

lemma cl_each_fold:
  "chain (nh_nodes h) p xs 0 \<Longrightarrow> length xs \<le> fuel \<Longrightarrow> cl_each fuel h p f s = Inr (fold f (map snd xs) s)"
proof (induction xs arbitrary: p fuel s)
  case (Cons y xs)
  then show ?case by (cases fuel; cases y) auto
next
  case Nil
  then show ?case by (cases fuel) auto
qed

lemma cl_copy_rep:
  "\<lbrakk>chain (nh_nodes h) p zs 0; clist_rep h c cs; fst ` set cs \<inter> fst ` set zs = {};
    supply_ok (length zs) h; length zs \<le> fuel\<rbrakk> \<Longrightarrow>
   \<exists>h' c'. cl_copy fuel h c p = Inr (h', Some c')
     \<and> clist_rep h' c' (cs @ zip (take (length zs) (nh_supply h)) (map snd zs))
     \<and> (\<forall>x. x \<notin> fst ` set cs \<union> set (take (length zs) (nh_supply h)) \<longrightarrow> nh_nodes h' x = nh_nodes h x)"
proof (induction zs arbitrary: h p c cs fuel)
  case Nil
  then show ?case by (cases fuel) auto
next
  case (Cons z zs)
  obtain a d where z: "z = (a, d)" by (cases z)
  obtain k where k: "fuel = Suc k" using Cons.prems(5) by (cases fuel) auto
  obtain r where r: "p = a" "a \<noteq> 0" "nh_nodes h a = Some \<lparr>cl_data = d, cl_next = r\<rparr>" "chain (nh_nodes h) r zs 0"
    using Cons.prems(1) by (auto simp: z)
  have ok: "supply_ok (Suc (length zs)) h" using Cons.prems(4) by simp
  obtain b bs where b: "nh_supply h = b # bs" "nh_answer h = b" "fresh_next h"
    using supply_ok_fresh [OF ok] by (cases "nh_supply h") (auto simp: nh_answer_def fresh_next_def)
  have sup: "supply_ok (length zs) h'"
    if "nh_supply h' = bs" "dom (nh_nodes h') \<subseteq> insert b (dom (nh_nodes h))" for h' :: cl_heap
    using supply_ok_step [OF ok, of h'] that by (simp add: b)
  have bn: "b \<noteq> 0" "nh_nodes h b = None" using b by (auto simp: fresh_next_def)
  have bz: "b \<notin> fst ` set zs" using chain_free [OF r(4) bn(2)] .
  obtain h1 c1 where one: "cl_copy (Suc k) h c p = cl_copy k h1 c1 r" "clist_rep h1 c1 (cs @ [(b, d)])"
    "nh_supply h1 = bs" "\<And>x. x \<notin> fst ` set cs \<Longrightarrow> x \<noteq> b \<Longrightarrow> nh_nodes h1 x = nh_nodes h x"
    "dom (nh_nodes h1) \<subseteq> insert b (dom (nh_nodes h))"
  proof (cases cs rule: rev_cases)
    case Nil
    then have t: "cl_tail c = 0" using Cons.prems(2) by (simp add: clist_rep_def)
    let ?h = "nh_new \<lparr>cl_data = d, cl_next = cl_head c\<rparr> h"
    note pf = push_front_rep [OF Cons.prems(2) b(3), where d = d]
    show thesis
      by (rule that [of ?h]) (use r t pf b Nil in auto)
  next
    case (snoc cs' y)
    obtain t e where y: "y = (t, e)" by (cases y)
    have t: "cl_tail c = t" using Cons.prems(2) by (simp add: clist_rep_def snoc y)
    note ins = insert_after_rep [of h c cs' t e "[]" d]
    obtain c0 where c0: "chain (nh_nodes h) (cl_head c) cs' t" "t \<noteq> 0" "nh_nodes h t = Some \<lparr>cl_data = e, cl_next = 0\<rparr>"
      "t \<notin> fst ` set cs'" "distinct (map fst cs')" "cl_length c = 1 + of_nat (length cs')"
      using Cons.prems(2) by (auto simp: clist_rep_def snoc y chain_append)
    have tb: "t \<noteq> b" using c0(3) bn by auto
    have bc: "b \<notin> fst ` set cs'" using chain_free [OF c0(1) bn(2)] .
    let ?h = "(nh_new \<lparr>cl_data = d, cl_next = 0\<rparr> h)\<lparr>nh_nodes := (nh_nodes h)(b \<mapsto> \<lparr>cl_data = d, cl_next = 0\<rparr>,
        t \<mapsto> \<lparr>cl_data = e, cl_next = b\<rparr>)\<rparr>"
    let ?c = "c\<lparr>cl_tail := b, cl_length := cl_length c + 1\<rparr>"
    show thesis
    proof (rule that [of ?h ?c])
      show "cl_copy (Suc k) h c p = cl_copy k ?h ?c r"
        using r t c0(2,3) tb b bn by (simp add: Let_def nh_upd_def nh_get_def)
      show "clist_rep ?h ?c (cs @ [(b, d)])"
        using Cons.prems(2) c0 tb bc bn by (auto simp: clist_rep_def snoc y chain_append)
    qed (use b c0 in \<open>auto simp: snoc y\<close>)
  qed
  have off: "a' \<notin> fst ` set cs \<and> a' \<noteq> b" if "(a', d') \<in> set zs" for a' d'
  proof -
    have "a' \<in> fst ` set zs" using that by (force simp: image_iff)
    then show ?thesis using Cons.prems(3) bz by (auto simp: z)
  qed
  have "chain (nh_nodes h1) r zs 0 = chain (nh_nodes h) r zs 0"
    by (rule chain_cong) (use off one(4) in blast)
  with r(4) have c1: "chain (nh_nodes h1) r zs 0" by simp
  have dj: "fst ` set (cs @ [(b, d)]) \<inter> fst ` set zs = {}" using Cons.prems(3) bz by (auto simp: z)
  have "length zs \<le> k" using Cons.prems(5) k by simp
  from Cons.IH [OF c1 one(2) dj sup [OF one(3,5)] this]
  obtain h' c' where h': "cl_copy k h1 c1 r = Inr (h', Some c')"
      "clist_rep h' c' ((cs @ [(b, d)]) @ zip (take (length zs) (nh_supply h1)) (map snd zs))"
      "\<And>x. x \<notin> fst ` set (cs @ [(b, d)]) \<union> set (take (length zs) (nh_supply h1)) \<Longrightarrow> nh_nodes h' x = nh_nodes h1 x"
    by blast
  have "cl_copy fuel h c p = Inr (h', Some c')" unfolding k one(1) by (rule h'(1))
  moreover have "clist_rep h' c' (cs @ zip (take (length (z # zs)) (nh_supply h)) (map snd (z # zs)))"
    using h'(2) by (simp add: z b(1) one(3))
  moreover have "nh_nodes h' x = nh_nodes h x" if "x \<notin> fst ` set cs \<union> set (take (length (z # zs)) (nh_supply h))" for x
  proof -
    have "x \<noteq> b" "x \<notin> fst ` set cs" "x \<notin> set (take (length zs) bs)" using that by (auto simp: b(1))
    then show ?thesis using h'(3) [of x] one(4) [of x] by (simp add: one(3))
  qed
  ultimately show ?case by blast
qed

subsection \<open>Properties\<close>

text \<open>C11: A list that stands for the sequence \<open>xs\<close> stands for the sequence with the new element in front after
  \<open>push_front\<close>, and with it right behind node \<open>n\<close> after \<open>insert_after\<close>; \<open>remove\<close> of a node of the list
  returns its data and takes exactly that node out, \<open>remove\<close> of any other address changes nothing and
  returns NULL.\<close>

theorem clinkedlist_refines:
  assumes "clist_rep h l (xs @ (n, e) # ys)" "length (xs @ (n, e) # ys) \<le> fuel"
  shows "(fresh_next h \<longrightarrow>
       (\<exists>h' l'. clinkedlist_push_front h (Some l) d = Inr (h', Some l')
          \<and> clist_rep h' l' ((nh_answer h, d) # xs @ (n, e) # ys))
     \<and> (\<exists>h' l'. clinkedlist_insert_after h (Some l) n d = Inr (nh_answer h, h', Some l')
          \<and> clist_rep h' l' (xs @ (n, e) # (nh_answer h, d) # ys)))
    \<and> (\<exists>h' l'. clinkedlist_remove fuel h (Some l) n = Inr (e, h', Some l') \<and> clist_rep h' l' (xs @ ys))
    \<and> (\<forall>a. a \<notin> fst ` set (xs @ (n, e) # ys) \<longrightarrow> clinkedlist_remove fuel h (Some l) a = Inr (0, h, Some l))"
proof (intro conjI impI allI)
  assume f: "fresh_next h"
  show "\<exists>h' l'. clinkedlist_push_front h (Some l) d = Inr (h', Some l')
      \<and> clist_rep h' l' ((nh_answer h, d) # xs @ (n, e) # ys)"
    using push_front_rep [OF assms(1) f] by blast
  show "\<exists>h' l'. clinkedlist_insert_after h (Some l) n d = Inr (nh_answer h, h', Some l')
      \<and> clist_rep h' l' (xs @ (n, e) # (nh_answer h, d) # ys)"
    using insert_after_rep [OF assms(1) f] by metis
next
  have "length xs < fuel" using assms(2) by simp
  then show "\<exists>h' l'. clinkedlist_remove fuel h (Some l) n = Inr (e, h', Some l') \<and> clist_rep h' l' (xs @ ys)"
    using remove_rep [OF assms(1)] by metis
  show "clinkedlist_remove fuel h (Some l) a = Inr (0, h, Some l)" if "a \<notin> fst ` set (xs @ (n, e) # ys)" for a
    by (rule remove_missing [OF assms(1) that assms(2)])
qed

text \<open>Two nodes at 16 and 32 with data 7 and 9, and a \<open>malloc\<close> that answers 48 next.\<close>

definition demo_nodes :: cl_heap where
  "demo_nodes = \<lparr>nh_nodes = [16 \<mapsto> \<lparr>cl_data = 7, cl_next = 32\<rparr>, 32 \<mapsto> \<lparr>cl_data = 9, cl_next = 0\<rparr>],
     nh_supply = [48, 64, 80, 96]\<rparr>"

definition demo_list :: clist where
  "demo_list = \<lparr>cl_head = 16, cl_tail = 32, cl_length = 2\<rparr>"

lemma demo_rep: "clist_rep demo_nodes demo_list [(16, 7), (32, 9)]"
  by (simp add: clist_rep_def demo_nodes_def demo_list_def)

theorem clinkedlist_refines_witness:
  "(\<exists>h' l'. clinkedlist_insert_after demo_nodes (Some demo_list) 16 8 = Inr (48, h', Some l')
      \<and> clist_rep h' l' [(16, 7), (48, 8), (32, 9)])
   \<and> clinkedlist_remove 2 demo_nodes (Some demo_list) 5 = Inr (0, demo_nodes, Some demo_list)"
proof -
  have "fresh_next demo_nodes" "nh_answer demo_nodes = 48"
    by (simp_all add: fresh_next_def nh_answer_def demo_nodes_def)
  then show ?thesis
    using clinkedlist_refines [of demo_nodes demo_list "[]" 16 7 "[(32, 9)]" 2 8] demo_rep by simp
qed

definition cl_seq :: "cl_heap \<times> clist option \<Rightarrow> u64 list \<Rightarrow> bool" where
  "cl_seq s ds \<longleftrightarrow> (\<exists>l xs. snd s = Some l \<and> clist_rep (fst s) l xs \<and> map snd xs = ds)"

interpretation cl: sequence cl_seq "\<lambda>n s. supply_ok n (fst s)" "(#)"
  "\<lambda>s d. clinkedlist_push_front (fst s) (snd s) d" "\<lambda>s. clinkedlist_pop_front (fst s) (snd s)"
proof
  fix s :: "cl_heap \<times> clist option" and ds :: "u64 list" and n d
  assume "cl_seq s ds" "supply_ok (Suc n) (fst s)"
  then obtain h l xs where s: "s = (h, Some l)" "clist_rep h l xs" "map snd xs = ds" "supply_ok (Suc n) h"
    by (cases s) (auto simp: cl_seq_def)
  note f = supply_ok_fresh [OF s(4)] and sup = supply_ok_step [OF s(4)]
  show "\<exists>s'. clinkedlist_push_front (fst s) (snd s) d = Inr s' \<and> cl_seq s' (d # ds) \<and> supply_ok n (fst s')"
    using push_front_rep [OF s(2) f, of d] s(1,3) sup [of "nh_new \<lparr>cl_data = d, cl_next = cl_head l\<rparr> h"]
    by (fastforce simp: cl_seq_def)
next
  fix s :: "cl_heap \<times> clist option" and ds :: "u64 list" and d
  assume "cl_seq s (d # ds)"
  then obtain h l a xs where s: "s = (h, Some l)" "clist_rep h l ((a, d) # xs)" "map snd xs = ds"
    by (cases s) (auto simp: cl_seq_def)
  obtain l' where "clinkedlist_pop_front h (Some l) = Inr (d, nh_free h a, Some l')" "clist_rep (nh_free h a) l' xs"
    by (rule pop_front_rep [OF s(2)])
  then show "\<exists>s'. clinkedlist_pop_front (fst s) (snd s) = Inr (d, s') \<and> cl_seq s' ds"
    using s by (auto simp: cl_seq_def)
qed

text \<open>A new list is a stack: after pushing the elements \<open>ds\<close> in front, popping as many elements returns
  them in reverse order and leaves the list empty.\<close>

lemma clinkedlist_stack:
  assumes "supply_ok (Suc (length ds)) h" "clinkedlist_create h = (h0, l0)"
  shows "\<exists>s. bindE (push_all (\<lambda>(h, l) d. clinkedlist_push_front h l d) ds (h0, l0))
      (pop_n (\<lambda>(h, l). clinkedlist_pop_front h l) (length ds)) = Inr (rev ds, s) \<and> cl_seq s []"
proof -
  note f = supply_ok_fresh [OF assms(1)] and sup = supply_ok_step [OF assms(1)]
  have h0: "h0 = nh_skip h" "l0 = Some \<lparr>cl_head = 0, cl_tail = 0, cl_length = 0\<rparr>"
    using assms(2) f by (auto simp: clinkedlist_create_def fresh_next_def)
  have "supply_ok (length ds) (fst (h0, l0))" unfolding h0 fst_conv by (rule sup) auto
  moreover have "cl_seq (h0, l0) []" by (simp add: cl_seq_def h0 clist_rep_def)
  ultimately show ?thesis
    using cl.store_and_read [of "(h0, l0)" ds] by (simp add: fold_Cons_rev case_prod_beta')
qed

lemma clinkedlist_stack_witness:
  "\<exists>s. bindE (push_all (\<lambda>(h, l) d. clinkedlist_push_front h l d) [1, 2, 3] (clinkedlist_create demo_nodes))
      (pop_n (\<lambda>(h, l). clinkedlist_pop_front h l) 3) = Inr ([3, 2, 1], s) \<and> cl_seq s []"
proof -
  have ok: "supply_ok (Suc (length [1, 2, 3 :: u64])) demo_nodes" by (simp add: supply_ok_def demo_nodes_def)
  obtain h0 l0 where c: "clinkedlist_create demo_nodes = (h0, l0)" by (cases "clinkedlist_create demo_nodes")
  have "length [1, 2, 3 :: u64] = 3" "rev [1, 2, 3] = [3, 2, 1 :: u64]" by simp_all
  then show ?thesis using clinkedlist_stack [OF ok c] unfolding c by metis
qed

text \<open>Cloning a list makes a new list with the same data in the same order, in nodes of its own, and leaves
  the original as it was.\<close>

lemma clinkedlist_clone_copies:
  assumes "clist_rep h l xs" "supply_ok (Suc (length xs)) h" "length xs \<le> fuel"
  shows "\<exists>h' c ys. clinkedlist_clone fuel h (Some l) = Inr (h', Some c)
    \<and> clist_rep h' c ys \<and> map snd ys = map snd xs \<and> fst ` set ys \<inter> fst ` set xs = {}
    \<and> clist_rep h' l xs"
proof -
  let ?c = "\<lparr>cl_head = 0, cl_tail = 0, cl_length = 0\<rparr>"
  obtain a as where a: "nh_supply h = a # as" "nh_answer h = a" "fresh_next h"
    using supply_ok_fresh [OF assms(2)] by (cases "nh_supply h") (auto simp: nh_answer_def fresh_next_def)
  note sup = supply_ok_step [OF assms(2)]
  have ok: "supply_ok (length xs) (nh_skip h)" by (rule sup) (auto simp: a)
  have c: "chain (nh_nodes h) (cl_head l) xs 0" using assms(1) by (simp add: clist_rep_def)
  have "clist_rep (nh_skip h) ?c []" by (simp add: clist_rep_def)
  with cl_copy_rep [of "nh_skip h" "cl_head l" xs ?c "[]" fuel] c ok assms(3)
  obtain h' c' where h': "cl_copy fuel (nh_skip h) ?c (cl_head l) = Inr (h', Some c')"
    "clist_rep h' c' (zip (take (length xs) as) (map snd xs))"
    "\<forall>x. x \<notin> set (take (length xs) as) \<longrightarrow> nh_nodes h' x = nh_nodes h x"
    by (auto simp: a(1))
  let ?ys = "zip (take (length xs) as) (map snd xs)"
  have len: "length (take (length xs) as) = length xs" using ok by (simp add: supply_ok_def a(1))
  have new: "x \<notin> set (take (length xs) as)" if "x \<in> fst ` set xs" for x
    using that ok chain_in_dom [OF c] by (fastforce simp: supply_ok_def a(1))
  have sub: "fst ` set ?ys \<subseteq> set (take (length xs) as)" by (auto dest: set_zip_leftD)
  have "clinkedlist_clone fuel h (Some l) = Inr (h', Some c')"
    using a h'(1) by (simp add: clinkedlist_clone_def clinkedlist_create_def fresh_next_def)
  moreover have "map snd ?ys = map snd xs" using len by simp
  moreover have "fst ` set ?ys \<inter> fst ` set xs = {}" using sub new by blast
  moreover have "chain (nh_nodes h') (cl_head l) xs 0"
    using c chain_cong [of xs "nh_nodes h" "nh_nodes h'"] h'(3) new by (metis fst_conv image_eqI)
  then have "clist_rep h' l xs" using assms(1) by (simp add: clist_rep_def)
  ultimately show ?thesis using h'(2) by blast
qed

lemma clinkedlist_clone_copies_witness:
  "\<exists>h' c ys. clinkedlist_clone 2 demo_nodes (Some demo_list) = Inr (h', Some c)
    \<and> clist_rep h' c ys \<and> map snd ys = [7, 9] \<and> clist_rep h' demo_list [(16, 7), (32, 9)]"
proof -
  have "supply_ok (Suc (length [(16 :: u64, 7 :: u64), (32, 9)])) demo_nodes"
    by (simp add: supply_ok_def demo_nodes_def)
  from clinkedlist_clone_copies [OF demo_rep this, of 2] show ?thesis by fastforce
qed

end
