(* ===== verification/Double_List.thy ===== *)
theory Double_List
  imports Sequences
begin

section \<open>Circular doubly linked lists (\<open>shared/data_struct/doubly_linked_list.c\<close>)\<close>

text \<open>
  The list is a ring: the successor of the last node is the first one.  Headers, nodes and \<open>malloc\<close>
  are modelled as in \<open>Linked_List\<close>.  The loops of this file run \<open>length\<close> times.
\<close>

record dl_node =
  dl_data :: u64
  dl_next :: u64
  dl_prev :: u64

record dlist =
  dl_head :: u64
  dl_tail :: u64
  dl_length :: u64

type_synonym dl_heap = "dl_node nheap"

subsection \<open>Operations\<close>

definition cdouble_linked_list_create :: "dl_heap \<Rightarrow> dl_heap \<times> dlist option" where
  "cdouble_linked_list_create h =
     (nh_skip h, if nh_answer h = 0 then None else Some \<lparr>dl_head = 0, dl_tail = 0, dl_length = 0\<rparr>)"

fun dl_free_all :: "nat \<Rightarrow> dl_heap \<Rightarrow> u64 \<Rightarrow> fault + dl_heap" where
  "dl_free_all 0 h node = Inr h"
| "dl_free_all (Suc n) h node = bindE (nh_get h node) (\<lambda>x. dl_free_all n (nh_free h node) (dl_next x))"

definition cdouble_linked_list_destroy :: "dl_heap \<Rightarrow> dlist option \<Rightarrow> fault + dl_heap" where
  "cdouble_linked_list_destroy h l =
     (case l of None \<Rightarrow> Inr h | Some l \<Rightarrow> dl_free_all (unat (dl_length l)) h (dl_head l))"

text \<open>Linking a new node, which \<open>malloc\<close> places at \<open>n\<close>, between the last and the first node.\<close>

definition dl_link :: "dl_heap \<Rightarrow> dlist \<Rightarrow> u64 \<Rightarrow> bool \<Rightarrow> fault + (dl_heap \<times> dlist)" where
  "dl_link h l d front =
     (let n = nh_answer h
      in if dl_length l = 0 then
           Inr (nh_new \<lparr>dl_data = d, dl_next = n, dl_prev = n\<rparr> h,
                l\<lparr>dl_head := n, dl_tail := n, dl_length := dl_length l + 1\<rparr>)
         else
           let h = nh_new \<lparr>dl_data = d, dl_next = dl_head l, dl_prev = dl_tail l\<rparr> h
           in if front then
                bindE (nh_upd h (dl_head l) (\<lambda>x. x\<lparr>dl_prev := n\<rparr>)) (\<lambda>h.
                bindE (nh_upd h (dl_tail l) (\<lambda>x. x\<lparr>dl_next := n\<rparr>)) (\<lambda>h.
                  Inr (h, l\<lparr>dl_head := n, dl_length := dl_length l + 1\<rparr>)))
              else
                bindE (nh_upd h (dl_tail l) (\<lambda>x. x\<lparr>dl_next := n\<rparr>)) (\<lambda>h.
                bindE (nh_upd h (dl_head l) (\<lambda>x. x\<lparr>dl_prev := n\<rparr>)) (\<lambda>h.
                  Inr (h, l\<lparr>dl_tail := n, dl_length := dl_length l + 1\<rparr>))))"

definition cdouble_linked_list_push_front :: "dl_heap \<Rightarrow> dlist option \<Rightarrow> u64 \<Rightarrow> fault + (dl_heap \<times> dlist option)" where
  "cdouble_linked_list_push_front h l d =
     (case l of
        None \<Rightarrow> Inr (h, None)
      | Some l \<Rightarrow>
          if nh_answer h = 0 then Inr (nh_skip h, Some l)
          else bindE (dl_link h l d True) (\<lambda>(h, l). Inr (h, Some l)))"

definition cdouble_linked_list_push_back :: "dl_heap \<Rightarrow> dlist option \<Rightarrow> u64 \<Rightarrow> fault + (dl_heap \<times> dlist option)" where
  "cdouble_linked_list_push_back h l d =
     (case l of
        None \<Rightarrow> Inr (h, None)
      | Some l \<Rightarrow>
          if nh_answer h = 0 then Inr (nh_skip h, Some l)
          else bindE (dl_link h l d False) (\<lambda>(h, l). Inr (h, Some l)))"

text \<open>The loop of \<open>clone\<close>: a node that cannot be allocated is left out.\<close>

fun dl_copy :: "nat \<Rightarrow> dl_heap \<Rightarrow> dlist \<Rightarrow> u64 \<Rightarrow> fault + (dl_heap \<times> dlist)" where
  "dl_copy 0 h clone it = Inr (h, clone)"
| "dl_copy (Suc n) h clone it =
     (if nh_answer h = 0 then bindE (nh_get h it) (\<lambda>x. dl_copy n (nh_skip h) clone (dl_next x))
      else bindE (nh_get h it) (\<lambda>x.
        bindE (dl_link h clone (dl_data x) False) (\<lambda>(h, clone).
        bindE (nh_get h it) (\<lambda>x. dl_copy n h clone (dl_next x)))))"

definition cdouble_linked_list_clone :: "dl_heap \<Rightarrow> dlist option \<Rightarrow> fault + (dl_heap \<times> dlist option)" where
  "cdouble_linked_list_clone h l =
     (case l of
        None \<Rightarrow> Inr (h, None)
      | Some l \<Rightarrow>
          (case cdouble_linked_list_create h of
             (h, None) \<Rightarrow> Inr (h, None)
           | (h, Some clone) \<Rightarrow>
               bindE (dl_copy (unat (dl_length l)) h clone (dl_head l)) (\<lambda>(h, c). Inr (h, Some c))))"

definition cdouble_linked_list_pop_front :: "dl_heap \<Rightarrow> dlist option \<Rightarrow> fault + (u64 \<times> dl_heap \<times> dlist option)" where
  "cdouble_linked_list_pop_front h l =
     (case l of
        None \<Rightarrow> Inr (0, h, None)
      | Some l \<Rightarrow>
          if dl_length l = 0 then Inr (0, h, Some l)
          else let node = dl_head l in
            bindE (nh_get h node) (\<lambda>x.
              if dl_length l = 1 then
                Inr (dl_data x, nh_free h node,
                     Some (l\<lparr>dl_head := 0, dl_tail := 0, dl_length := dl_length l - 1\<rparr>))
              else
                bindE (nh_upd h (dl_next x) (\<lambda>y. y\<lparr>dl_prev := dl_tail l\<rparr>)) (\<lambda>h.
                bindE (nh_upd h (dl_tail l) (\<lambda>y. y\<lparr>dl_next := dl_next x\<rparr>)) (\<lambda>h.
                  Inr (dl_data x, nh_free h node,
                       Some (l\<lparr>dl_head := dl_next x, dl_length := dl_length l - 1\<rparr>))))))"

definition cdouble_linked_list_pop_back :: "dl_heap \<Rightarrow> dlist option \<Rightarrow> fault + (u64 \<times> dl_heap \<times> dlist option)" where
  "cdouble_linked_list_pop_back h l =
     (case l of
        None \<Rightarrow> Inr (0, h, None)
      | Some l \<Rightarrow>
          if dl_length l = 0 then Inr (0, h, Some l)
          else let node = dl_tail l in
            bindE (nh_get h node) (\<lambda>x.
              if dl_length l = 1 then
                Inr (dl_data x, nh_free h node,
                     Some (l\<lparr>dl_head := 0, dl_tail := 0, dl_length := dl_length l - 1\<rparr>))
              else
                bindE (nh_upd h (dl_prev x) (\<lambda>y. y\<lparr>dl_next := dl_head l\<rparr>)) (\<lambda>h.
                bindE (nh_upd h (dl_head l) (\<lambda>y. y\<lparr>dl_prev := dl_prev x\<rparr>)) (\<lambda>h.
                  Inr (dl_data x, nh_free h node,
                       Some (l\<lparr>dl_tail := dl_prev x, dl_length := dl_length l - 1\<rparr>))))))"

definition cdouble_linked_list_insert_after ::
    "dl_heap \<Rightarrow> dlist option \<Rightarrow> u64 \<Rightarrow> u64 \<Rightarrow> fault + (u64 \<times> dl_heap \<times> dlist option)" where
  "cdouble_linked_list_insert_after h l node d =
     (case l of
        None \<Rightarrow> Inr (0, h, None)
      | Some l \<Rightarrow>
          if node = 0 then
            bindE (cdouble_linked_list_push_front h (Some l) d) (\<lambda>(h, l).
              Inr (case l of None \<Rightarrow> 0 | Some l \<Rightarrow> dl_head l, h, l))
          else
            let new = nh_answer h
            in if new = 0 then Inr (0, nh_skip h, Some l)
               else bindE (nh_get h node) (\<lambda>x.
                 bindE (nh_upd (nh_new \<lparr>dl_data = d, dl_next = dl_next x, dl_prev = node\<rparr> h) (dl_next x)
                          (\<lambda>y. y\<lparr>dl_prev := new\<rparr>)) (\<lambda>h.
                 bindE (nh_upd h node (\<lambda>y. y\<lparr>dl_next := new\<rparr>)) (\<lambda>h.
                   Inr (new, h, Some (l\<lparr>dl_tail := (if dl_tail l = node then new else dl_tail l),
                                        dl_length := dl_length l + 1\<rparr>))))))"

definition cdouble_linked_list_insert_before ::
    "dl_heap \<Rightarrow> dlist option \<Rightarrow> u64 \<Rightarrow> u64 \<Rightarrow> fault + (u64 \<times> dl_heap \<times> dlist option)" where
  "cdouble_linked_list_insert_before h l node d =
     (case l of
        None \<Rightarrow> Inr (0, h, None)
      | Some l \<Rightarrow>
          if node = 0 then
            bindE (cdouble_linked_list_push_back h (Some l) d) (\<lambda>(h, l).
              Inr (case l of None \<Rightarrow> 0 | Some l \<Rightarrow> dl_tail l, h, l))
          else bindE (nh_get h node) (\<lambda>x. cdouble_linked_list_insert_after h (Some l) (dl_prev x) d))"

definition cdouble_linked_list_remove ::
    "dl_heap \<Rightarrow> dlist option \<Rightarrow> u64 \<Rightarrow> fault + (u64 \<times> dl_heap \<times> dlist option)" where
  "cdouble_linked_list_remove h l node =
     (case l of
        None \<Rightarrow> Inr (0, h, None)
      | Some l \<Rightarrow>
          if node = 0 \<or> dl_length l = 0 then Inr (0, h, Some l)
          else if node = dl_head l then cdouble_linked_list_pop_front h (Some l)
          else if node = dl_tail l then cdouble_linked_list_pop_back h (Some l)
          else bindE (nh_get h node) (\<lambda>x.
            bindE (nh_upd h (dl_prev x) (\<lambda>y. y\<lparr>dl_next := dl_next x\<rparr>)) (\<lambda>h.
            bindE (nh_upd h (dl_next x) (\<lambda>y. y\<lparr>dl_prev := dl_prev x\<rparr>)) (\<lambda>h.
              Inr (dl_data x, nh_free h node, Some (l\<lparr>dl_length := dl_length l - 1\<rparr>))))))"

definition cdouble_linked_list_update :: "dl_heap \<Rightarrow> u64 \<Rightarrow> u64 \<Rightarrow> fault + dl_heap" where
  "cdouble_linked_list_update h node d = (if node = 0 then Inr h else nh_upd h node (\<lambda>x. x\<lparr>dl_data := d\<rparr>))"

definition cdouble_linked_list_length :: "dlist option \<Rightarrow> u64" where
  "cdouble_linked_list_length l = (case l of None \<Rightarrow> 0 | Some l \<Rightarrow> dl_length l)"

definition cdouble_linked_list_size_bytes :: "dlist option \<Rightarrow> u64" where
  "cdouble_linked_list_size_bytes l = (case l of None \<Rightarrow> 0 | Some l \<Rightarrow> dl_length l * 24)"

fun dl_find :: "nat \<Rightarrow> dl_heap \<Rightarrow> u64 \<Rightarrow> u64 \<Rightarrow> (u64 \<Rightarrow> u64 \<Rightarrow> int) \<Rightarrow> fault + u64" where
  "dl_find 0 h it key cmp = Inr 0"
| "dl_find (Suc n) h it key cmp =
     bindE (nh_get h it) (\<lambda>x. if cmp (dl_data x) key = 0 then Inr it else dl_find n h (dl_next x) key cmp)"

definition cdouble_linked_list_find ::
    "dl_heap \<Rightarrow> dlist option \<Rightarrow> u64 \<Rightarrow> (u64 \<Rightarrow> u64 \<Rightarrow> int) option \<Rightarrow> fault + u64" where
  "cdouble_linked_list_find h l key cmp =
     (case (l, cmp) of
        (Some l, Some cmp) \<Rightarrow> if dl_length l = 0 then Inr 0 else dl_find (unat (dl_length l)) h (dl_head l) key cmp
      | _ \<Rightarrow> Inr 0)"

subsection \<open>The ring a list stands for\<close>

fun first_of :: "(u64 \<times> u64) list \<Rightarrow> u64 \<Rightarrow> u64" where
  "first_of [] q = q"
| "first_of ((a, d) # xs) q = a"

text \<open>\<open>dseg ns pv xs q\<close>: the nodes \<open>xs\<close> are linked both ways, the first one back to \<open>pv\<close> and the last one
  on to \<open>q\<close>.\<close>

fun dseg :: "(u64 \<Rightarrow> dl_node option) \<Rightarrow> u64 \<Rightarrow> (u64 \<times> u64) list \<Rightarrow> u64 \<Rightarrow> bool" where
  "dseg ns pv [] q \<longleftrightarrow> True"
| "dseg ns pv ((a, d) # xs) q \<longleftrightarrow>
     a \<noteq> 0 \<and> ns a = Some \<lparr>dl_data = d, dl_next = first_of xs q, dl_prev = pv\<rparr> \<and> dseg ns a xs q"

definition dlist_rep :: "dl_heap \<Rightarrow> dlist \<Rightarrow> (u64 \<times> u64) list \<Rightarrow> bool" where
  "dlist_rep h l xs \<longleftrightarrow>
     distinct (map fst xs) \<and> dl_length l = of_nat (length xs)
     \<and> dseg (nh_nodes h) (dl_tail l) xs (dl_head l)
     \<and> dl_head l = first_of xs 0 \<and> dl_tail l = (if xs = [] then 0 else fst (last xs))"

definition set_prev :: "u64 \<Rightarrow> u64 \<Rightarrow> (u64 \<Rightarrow> dl_node option) \<Rightarrow> (u64 \<Rightarrow> dl_node option)" where
  "set_prev a v ns = ns(a := map_option (\<lambda>x. x\<lparr>dl_prev := v\<rparr>) (ns a))"

definition set_next :: "u64 \<Rightarrow> u64 \<Rightarrow> (u64 \<Rightarrow> dl_node option) \<Rightarrow> (u64 \<Rightarrow> dl_node option)" where
  "set_next a v ns = ns(a := map_option (\<lambda>x. x\<lparr>dl_next := v\<rparr>) (ns a))"

lemma upd_prev:
  assumes "a \<noteq> 0" "nh_nodes h a \<noteq> None"
  shows "nh_upd h a (\<lambda>x. x\<lparr>dl_prev := v\<rparr>) = Inr (h\<lparr>nh_nodes := set_prev a v (nh_nodes h)\<rparr>)"
    "nh_upd h a (\<lambda>x. x\<lparr>dl_next := v\<rparr>) = Inr (h\<lparr>nh_nodes := set_next a v (nh_nodes h)\<rparr>)"
  using assms by (auto simp: set_prev_def set_next_def nh_upd_def nh_get_def)

lemma set_dom [simp]:
  "(set_prev a v ns b = None) = (ns b = None)" "(set_next a v ns b = None) = (ns b = None)"
  by (auto simp: set_prev_def set_next_def)

lemma set_other [simp]: "b \<noteq> a \<Longrightarrow> set_prev a v ns b = ns b" "b \<noteq> a \<Longrightarrow> set_next a v ns b = ns b"
  by (simp_all add: set_prev_def set_next_def)

lemma first_of_append: "first_of (xs @ ys) q = first_of xs (first_of ys q)"
  by (cases xs) auto

lemma first_of_nonempty: "xs \<noteq> [] \<Longrightarrow> first_of xs q = fst (hd xs)"
  by (cases xs) auto

lemma dseg_append:
  "dseg ns pv (xs @ ys) q \<longleftrightarrow> dseg ns pv xs (first_of ys q) \<and> dseg ns (if xs = [] then pv else fst (last xs)) ys q"
  by (induction xs arbitrary: pv) (auto simp: first_of_append)

lemma dseg_cong: "(\<And>a. a \<in> fst ` set xs \<Longrightarrow> ns a = ns' a) \<Longrightarrow> dseg ns pv xs q = dseg ns' pv xs q"
  by (induction xs arbitrary: pv) auto

lemma dseg_other [simp]:
  "a \<notin> fst ` set xs \<Longrightarrow> dseg (ns(a := v)) pv xs q = dseg ns pv xs q"
  "a \<notin> fst ` set xs \<Longrightarrow> dseg (set_prev a w ns) pv xs q = dseg ns pv xs q"
  "a \<notin> fst ` set xs \<Longrightarrow> dseg (set_next a w ns) pv xs q = dseg ns pv xs q"
  by (rule dseg_cong, metis fun_upd_other set_other)+

lemma dseg_dom: "dseg ns pv xs q \<Longrightarrow> a \<in> fst ` set xs \<Longrightarrow> a \<noteq> 0 \<and> ns a \<noteq> None"
proof (induction xs arbitrary: pv)
  case (Cons x xs)
  obtain b d where x: "x = (b, d)" by (cases x)
  then show ?case using Cons.IH [of b] Cons.prems by (cases "a = b") auto
qed simp

text \<open>Redirecting the first node back to \<open>pv'\<close>, or the last node on to \<open>q'\<close>.\<close>

lemma dseg_set_prev:
  assumes "dseg ns pv xs q" "xs \<noteq> []" "distinct (map fst xs)" "a = fst (hd xs)"
  shows "dseg (set_prev a pv' ns) pv' xs q"
proof -
  obtain d ys where xs: "xs = (a, d) # ys" using assms(2,4) by (cases xs) auto
  from assms(1,3) show ?thesis unfolding xs by (simp add: set_prev_def)
qed

lemma dseg_set_next:
  assumes "dseg ns pv xs q" "xs \<noteq> []" "distinct (map fst xs)" "b = fst (last xs)"
  shows "dseg (set_next b q' ns) pv xs q'"
proof -
  obtain d ys where xs: "xs = ys @ [(b, d)]" using assms(2,4) by (cases xs rule: rev_cases) auto
  from assms(1,3) show ?thesis unfolding xs by (simp add: dseg_append set_next_def)
qed

lemma dlist_length:
  assumes "dlist_rep h l xs"
  shows "length xs < 2 ^ 64" "dl_length l = 0 \<longleftrightarrow> xs = []" "dl_length l = 1 \<longleftrightarrow> length xs = 1"
proof -
  have "0 \<notin> fst ` set xs" using assms dseg_dom unfolding dlist_rep_def by blast
  then have "card (fst ` set xs) < card (UNIV :: u64 set)" by (intro psubset_card_mono) auto
  moreover have "card (fst ` set xs) = length xs"
    using assms distinct_card [of "map fst xs"] by (simp add: dlist_rep_def)
  ultimately show lt: "length xs < 2 ^ 64" by (simp add: card_word)
  then have u: "unat (dl_length l) = length xs" using assms by (simp add: dlist_rep_def)
  show "dl_length l = 0 \<longleftrightarrow> xs = []" using u by (simp add: word_unat_eq_iff)
  show "dl_length l = 1 \<longleftrightarrow> length xs = 1" using u by (simp add: word_unat_eq_iff)
qed

lemma dl_link_rep:
  assumes "dlist_rep h l xs" "fresh_next h"
  obtains h' l' where "dl_link h l d front = Inr (h', l')"
    "dlist_rep h' l' (if front then (nh_answer h, d) # xs else xs @ [(nh_answer h, d)])"
    "nh_supply h' = tl (nh_supply h)"
    "\<And>x. x \<notin> fst ` set xs \<Longrightarrow> x \<noteq> nh_answer h \<Longrightarrow> nh_nodes h' x = nh_nodes h x"
proof (cases "xs = []")
  case True
  have "dl_length l = 0" using assms(1) True by (simp add: dlist_rep_def)
  then show thesis
    using that assms(2) True by (fastforce simp: dl_link_def dlist_rep_def fresh_next_def Let_def)
next
  case False
  let ?n = "nh_answer h"
  have f: "?n \<noteq> 0" "nh_nodes h ?n = None" using assms(2) by (auto simp: fresh_next_def)
  have r: "dseg (nh_nodes h) (dl_tail l) xs (dl_head l)" "distinct (map fst xs)"
      "dl_head l = fst (hd xs)" "dl_tail l = fst (last xs)" "dl_length l = of_nat (length xs)"
    using assms(1) False by (auto simp: dlist_rep_def first_of_nonempty)
  have mem: "dl_head l \<in> fst ` set xs" "dl_tail l \<in> fst ` set xs" using False by (simp_all add: r)
  have new: "?n \<notin> fst ` set xs" using dseg_dom [OF r(1)] f(2) by blast
  then have ne: "dl_head l \<noteq> ?n" "dl_tail l \<noteq> ?n" using mem by metis+
  note dom = dseg_dom [OF r(1) mem(1)] dseg_dom [OF r(1) mem(2)]
  have nz: "dl_length l \<noteq> 0" using dlist_length(2) [OF assms(1)] False by simp
  define h1 where "h1 = nh_new \<lparr>dl_data = d, dl_next = dl_head l, dl_prev = dl_tail l\<rparr> h"
  have h1: "nh_nodes h1 = (nh_nodes h)(?n \<mapsto> \<lparr>dl_data = d, dl_next = dl_head l, dl_prev = dl_tail l\<rparr>)"
    "nh_supply h1 = tl (nh_supply h)" by (simp_all add: h1_def)
  have d1: "dseg (nh_nodes h1) (dl_tail l) xs (dl_head l)" using r(1) new by (simp add: h1)
  show thesis
  proof (cases front)
    case True
    let ?ns = "set_next (dl_tail l) ?n (set_prev (dl_head l) ?n (nh_nodes h1))"
    show thesis
    proof (rule that)
      show "dl_link h l d front = Inr (h1\<lparr>nh_nodes := ?ns\<rparr>, l\<lparr>dl_head := ?n, dl_length := dl_length l + 1\<rparr>)"
        using True nz dom ne by (simp add: dl_link_def Let_def upd_prev h1 flip: h1_def)
      have "dseg ?ns ?n xs ?n"
        using dseg_set_next [OF dseg_set_prev [OF d1 False r(2,3)] False r(2,4)] .
      then show "dlist_rep (h1\<lparr>nh_nodes := ?ns\<rparr>) (l\<lparr>dl_head := ?n, dl_length := dl_length l + 1\<rparr>)
          (if front then (?n, d) # xs else xs @ [(?n, d)])"
        using True False r new f ne by (simp add: dlist_rep_def h1 first_of_nonempty)
      fix x
      assume "x \<notin> fst ` set xs" "x \<noteq> ?n"
      moreover from this mem have "x \<noteq> dl_head l" "x \<noteq> dl_tail l" by metis+
      ultimately show "nh_nodes (h1\<lparr>nh_nodes := ?ns\<rparr>) x = nh_nodes h x" by (simp add: h1)
    qed (simp_all add: h1)
  next
    case at_end: False
    let ?ns = "set_prev (dl_head l) ?n (set_next (dl_tail l) ?n (nh_nodes h1))"
    show thesis
    proof (rule that)
      show "dl_link h l d front = Inr (h1\<lparr>nh_nodes := ?ns\<rparr>, l\<lparr>dl_tail := ?n, dl_length := dl_length l + 1\<rparr>)"
        using at_end nz dom ne by (simp add: dl_link_def Let_def upd_prev h1 flip: h1_def)
      have "dseg ?ns ?n xs ?n"
        using dseg_set_prev [OF dseg_set_next [OF d1 False r(2,4)] False r(2,3)] .
      then show "dlist_rep (h1\<lparr>nh_nodes := ?ns\<rparr>) (l\<lparr>dl_tail := ?n, dl_length := dl_length l + 1\<rparr>)
          (if front then (?n, d) # xs else xs @ [(?n, d)])"
        using at_end False r new f ne by (simp add: dlist_rep_def h1 first_of_nonempty dseg_append)
      fix x
      assume "x \<notin> fst ` set xs" "x \<noteq> ?n"
      moreover from this mem have "x \<noteq> dl_head l" "x \<noteq> dl_tail l" by metis+
      ultimately show "nh_nodes (h1\<lparr>nh_nodes := ?ns\<rparr>) x = nh_nodes h x" by (simp add: h1)
    qed (simp_all add: h1)
  qed
qed

text \<open>What a list with at least two nodes looks like from its first and from its last node.\<close>

lemma dlist_front:
  assumes "dlist_rep h l ((a, d) # ys)" "ys \<noteq> []"
  shows "dl_head l = a" "dl_tail l = fst (last ys)" "dl_tail l \<in> fst ` set ys" "fst (hd ys) \<in> fst ` set ys"
    "nh_nodes h a = Some \<lparr>dl_data = d, dl_next = fst (hd ys), dl_prev = dl_tail l\<rparr>"
    "a \<noteq> 0" "a \<notin> fst ` set ys" "distinct (map fst ys)" "dseg (nh_nodes h) a ys a"
  using assms by (auto simp: dlist_rep_def first_of_nonempty)

lemma dlist_back:
  assumes "dlist_rep h l (xs @ [(b, e)])" "xs \<noteq> []"
  shows "dl_tail l = b" "dl_head l = fst (hd xs)" "dl_head l \<in> fst ` set xs" "fst (last xs) \<in> fst ` set xs"
    "nh_nodes h b = Some \<lparr>dl_data = e, dl_next = dl_head l, dl_prev = fst (last xs)\<rparr>"
    "b \<noteq> 0" "b \<notin> fst ` set xs" "distinct (map fst xs)" "dseg (nh_nodes h) b xs b"
  using assms by (auto simp: dlist_rep_def first_of_nonempty first_of_append dseg_append)

lemma dl_pop_front_rep:
  assumes "dlist_rep h l ((a, d) # ys)"
  obtains h' l' where "cdouble_linked_list_pop_front h (Some l) = Inr (d, h', Some l')" "dlist_rep h' l' ys"
proof (cases "ys = []")
  case True
  then show thesis
    using assms that [of "nh_free h a" "l\<lparr>dl_head := 0, dl_tail := 0, dl_length := dl_length l - 1\<rparr>"]
    by (auto simp: cdouble_linked_list_pop_front_def dlist_rep_def Let_def)
next
  case False
  note r = dlist_front [OF assms False]
  have len: "dl_length l \<noteq> 0" "dl_length l \<noteq> 1" using dlist_length(2,3) [OF assms] False by auto
  note dom = dseg_dom [OF r(9) r(3)] dseg_dom [OF r(9) r(4)]
  let ?ns = "set_next (dl_tail l) (fst (hd ys)) (set_prev (fst (hd ys)) (dl_tail l) (nh_nodes h))"
  have "dseg ?ns (dl_tail l) ys (fst (hd ys))"
    using dseg_set_next [OF dseg_set_prev [OF r(9) False r(8) refl] False r(8,2)] .
  then have "dlist_rep (nh_free (h\<lparr>nh_nodes := ?ns\<rparr>) a) (l\<lparr>dl_head := fst (hd ys), dl_length := dl_length l - 1\<rparr>) ys"
    using assms False r by (simp add: dlist_rep_def first_of_nonempty)
  moreover have "cdouble_linked_list_pop_front h (Some l)
      = Inr (d, nh_free (h\<lparr>nh_nodes := ?ns\<rparr>) a, Some (l\<lparr>dl_head := fst (hd ys), dl_length := dl_length l - 1\<rparr>))"
    using r len dom by (simp add: cdouble_linked_list_pop_front_def Let_def upd_prev)
  ultimately show thesis by (intro that)
qed

lemma dl_pop_back_rep:
  assumes "dlist_rep h l (xs @ [(b, e)])"
  obtains h' l' where "cdouble_linked_list_pop_back h (Some l) = Inr (e, h', Some l')" "dlist_rep h' l' xs"
proof (cases "xs = []")
  case True
  then show thesis
    using assms that [of "nh_free h b" "l\<lparr>dl_head := 0, dl_tail := 0, dl_length := dl_length l - 1\<rparr>"]
    by (auto simp: cdouble_linked_list_pop_back_def dlist_rep_def Let_def)
next
  case False
  note r = dlist_back [OF assms False]
  have len: "dl_length l \<noteq> 0" "dl_length l \<noteq> 1" using dlist_length(2,3) [OF assms] False by auto
  note dom = dseg_dom [OF r(9) r(3)] dseg_dom [OF r(9) r(4)]
  let ?ns = "set_prev (dl_head l) (fst (last xs)) (set_next (fst (last xs)) (dl_head l) (nh_nodes h))"
  have "dseg ?ns (fst (last xs)) xs (dl_head l)"
    using dseg_set_prev [OF dseg_set_next [OF r(9) False r(8) refl] False r(8,2)] .
  then have "dlist_rep (nh_free (h\<lparr>nh_nodes := ?ns\<rparr>) b) (l\<lparr>dl_tail := fst (last xs), dl_length := dl_length l - 1\<rparr>) xs"
    using assms False r by (simp add: dlist_rep_def first_of_nonempty)
  moreover have "cdouble_linked_list_pop_back h (Some l)
      = Inr (e, nh_free (h\<lparr>nh_nodes := ?ns\<rparr>) b, Some (l\<lparr>dl_tail := fst (last xs), dl_length := dl_length l - 1\<rparr>))"
    using r len dom by (simp add: cdouble_linked_list_pop_back_def Let_def upd_prev)
  ultimately show thesis by (intro that)
qed

lemma dl_remove_rep:
  assumes "dlist_rep h l (xs @ (n, e) # ys)"
  obtains h' l' where "cdouble_linked_list_remove h (Some l) n = Inr (e, h', Some l')" "dlist_rep h' l' (xs @ ys)"
proof -
  have n: "n \<noteq> 0" "nh_nodes h n \<noteq> None" and dist: "distinct (map fst (xs @ (n, e) # ys))"
    using assms dseg_dom [of "nh_nodes h" "dl_tail l" "xs @ (n, e) # ys" "dl_head l" n] by (auto simp: dlist_rep_def)
  have len: "dl_length l \<noteq> 0" using dlist_length(2) [OF assms] by simp
  consider "xs = []" | "xs \<noteq> []" "ys = []" | "xs \<noteq> []" "ys \<noteq> []" by blast
  then show thesis
  proof cases
    case 1
    then have "dl_head l = n" using assms by (simp add: dlist_rep_def)
    then show thesis
      using dl_pop_front_rep [of h l n e ys] assms that n len 1
      by (auto simp: cdouble_linked_list_remove_def)
  next
    case 2
    then have "fst (hd xs) \<in> fst ` set xs" by simp
    moreover have "n \<notin> fst ` set xs" using dist by simp
    ultimately have "fst (hd xs) \<noteq> n" by metis
    with 2 have "dl_tail l = n" "dl_head l \<noteq> n"
      using assms by (auto simp: dlist_rep_def first_of_append first_of_nonempty)
    then show thesis
      using dl_pop_back_rep [of h l xs n e] assms that n len 2
      by (auto simp: cdouble_linked_list_remove_def)
  next
    case 3
    have hd: "dl_head l = fst (hd xs)" "dl_tail l = fst (last ys)"
      using assms 3 by (simp_all add: dlist_rep_def first_of_append first_of_nonempty)
    have ends: "fst (hd xs) \<in> fst ` set xs" "fst (last xs) \<in> fst ` set xs"
      "fst (hd ys) \<in> fst ` set ys" "fst (last ys) \<in> fst ` set ys" using 3 by simp_all
    have seg: "dseg (nh_nodes h) (dl_tail l) xs n" "dseg (nh_nodes h) n ys (dl_head l)"
      "nh_nodes h n = Some \<lparr>dl_data = e, dl_next = fst (hd ys), dl_prev = fst (last xs)\<rparr>"
      using assms 3 by (auto simp: dlist_rep_def dseg_append first_of_nonempty)
    have out: "n \<notin> fst ` set xs" "n \<notin> fst ` set ys" "fst ` set xs \<inter> fst ` set ys = {}"
      "distinct (map fst xs)" "distinct (map fst ys)" using dist by auto
    note dom = dseg_dom [OF seg(1) ends(2)] dseg_dom [OF seg(2) ends(3)]
    let ?ns = "set_prev (fst (hd ys)) (fst (last xs)) (set_next (fst (last xs)) (fst (hd ys)) (nh_nodes h))"
    have x: "dseg (set_next (fst (last xs)) (fst (hd ys)) (nh_nodes h)) (dl_tail l) xs (fst (hd ys))"
      using dseg_set_next [OF seg(1) 3(1) out(4) refl] .
    have y: "dseg (set_next (fst (last xs)) (fst (hd ys)) (nh_nodes h)) n ys (dl_head l)"
      using seg(2) ends(2) out(3) by (subst dseg_other(3)) auto
    have "dseg ?ns (dl_tail l) xs (fst (hd ys))" using x ends(3) out(3) by (subst dseg_other(2)) auto
    moreover have "dseg ?ns (fst (last xs)) ys (dl_head l)" using dseg_set_prev [OF y 3(2) out(5) refl] .
    ultimately have "dlist_rep (nh_free (h\<lparr>nh_nodes := ?ns\<rparr>) n) (l\<lparr>dl_length := dl_length l - 1\<rparr>) (xs @ ys)"
      using assms 3 out by (simp add: dlist_rep_def dseg_append first_of_append first_of_nonempty)
    moreover have "n \<noteq> fst (hd xs)" "n \<noteq> fst (last ys)" using ends out by metis+
    then have "cdouble_linked_list_remove h (Some l) n
        = Inr (e, nh_free (h\<lparr>nh_nodes := ?ns\<rparr>) n, Some (l\<lparr>dl_length := dl_length l - 1\<rparr>))"
      using n len seg dom by (simp add: cdouble_linked_list_remove_def hd upd_prev)
    ultimately show thesis by (intro that)
  qed
qed

lemma dl_insert_after_rep:
  assumes "dlist_rep h l (xs @ (n, e) # ys)" "fresh_next h"
  obtains h' l' where "cdouble_linked_list_insert_after h (Some l) n d = Inr (nh_answer h, h', Some l')"
    "dlist_rep h' l' (xs @ (n, e) # (nh_answer h, d) # ys)"
proof -
  let ?new = "nh_answer h" and ?zs = "xs @ [(n, e)]"
  have f: "?new \<noteq> 0" "nh_nodes h ?new = None" using assms(2) by (auto simp: fresh_next_def)
  have rep: "dlist_rep h l (?zs @ ys)" using assms(1) by simp
  then have dist: "distinct (map fst (?zs @ ys))" and seg: "dseg (nh_nodes h) (dl_tail l) (?zs @ ys) (dl_head l)"
    and hd: "dl_head l = first_of ?zs 0" and len: "dl_length l = of_nat (length (?zs @ ys))"
    and tl: "dl_tail l = fst (last (?zs @ ys))"
    by (auto simp: dlist_rep_def first_of_append)
  have new: "?new \<notin> fst ` set (?zs @ ys)" using dseg_dom [OF seg] f(2) by blast
  then have nz: "?new \<notin> fst ` set ?zs" and ny: "?new \<notin> fst ` set ys" by (simp_all add: image_Un)
  have n: "n \<noteq> 0" "nh_nodes h n = Some \<lparr>dl_data = e, dl_next = first_of ys (dl_head l),
      dl_prev = (if xs = [] then dl_tail l else fst (last xs))\<rparr>"
    using seg by (auto simp: dseg_append split: if_splits)
  have z: "dseg (nh_nodes h) (dl_tail l) ?zs (first_of ys (dl_head l))" "dseg (nh_nodes h) n ys (dl_head l)"
    using seg unfolding dseg_append [of _ _ ?zs] by simp_all
  define nx where "nx = first_of ys (dl_head l)"
  have nx: "nx \<in> fst ` set (?zs @ ys)"
    by (cases ys; cases xs) (auto simp: nx_def hd first_of_append image_Un)
  then have nxd: "nx \<noteq> 0" "nh_nodes h nx \<noteq> None" "nx \<noteq> ?new" using dseg_dom [OF seg] new by metis+
  define ns1 where "ns1 = (nh_nodes h)(?new \<mapsto> \<lparr>dl_data = d, dl_next = nx, dl_prev = n\<rparr>)"
  define h1 where "h1 = nh_new \<lparr>dl_data = d, dl_next = nx, dl_prev = n\<rparr> h"
  have h1: "nh_nodes h1 = ns1" by (simp add: h1_def ns1_def)
  have nn: "n \<noteq> ?new" using f(2) n(2) by auto
  let ?ns = "set_next n ?new (set_prev nx ?new ns1)"
  let ?l = "l\<lparr>dl_tail := (if dl_tail l = n then ?new else dl_tail l), dl_length := dl_length l + 1\<rparr>"
  have run: "cdouble_linked_list_insert_after h (Some l) n d = Inr (?new, h1\<lparr>nh_nodes := ?ns\<rparr>, Some ?l)"
    using f n nxd nn by (simp add: cdouble_linked_list_insert_after_def Let_def upd_prev h1 ns1_def flip: nx_def h1_def)
  have z1: "dseg ns1 (dl_tail l) ?zs nx" "dseg ns1 n ys (dl_head l)"
    unfolding ns1_def using z nz ny by (simp_all flip: nx_def)
  have new1: "?ns ?new = Some \<lparr>dl_data = d, dl_next = nx, dl_prev = n\<rparr>"
    using nn nxd(3) by (simp add: ns1_def)
  have dz: "distinct (map fst ?zs)" "distinct (map fst ys)" "fst ` set ?zs \<inter> fst ` set ys = {}"
    using dist by (auto simp: image_Un)
  have first: "first_of (?zs @ (?new, d) # ys) 0 = dl_head l" by (simp add: hd first_of_append)
  have dist': "distinct (map fst (?zs @ (?new, d) # ys))" using dist new by auto
  have len': "dl_length l + 1 = of_nat (length (?zs @ (?new, d) # ys))" by (simp add: len)
  have "dseg ?ns (dl_tail ?l) (?zs @ (?new, d) # ys) (dl_head l)"
    and tl': "dl_tail ?l = fst (last (?zs @ (?new, d) # ys))"
  proof (atomize (full), cases "ys = []")
    case True
    have "dl_head l = fst (hd ?zs)" unfolding hd by (simp add: first_of_nonempty)
    then have nxh: "nx = fst (hd ?zs)" "dl_head l = nx" using True by (simp_all add: nx_def)
    have tn: "dl_tail l = n" using tl True by simp
    have "dseg (set_prev nx ?new ns1) ?new ?zs nx" by (rule dseg_set_prev [OF z1(1) _ dz(1) nxh(1)]) simp
    then have "dseg ?ns ?new ?zs ?new" by (rule dseg_set_next [OF _ _ dz(1)]) simp_all
    then have "dseg ?ns ?new (?zs @ [(?new, d)]) nx"
      using new1 f(1) by (subst dseg_append) simp
    then show "dseg ?ns (dl_tail ?l) (?zs @ (?new, d) # ys) (dl_head l)
        \<and> dl_tail ?l = fst (last (?zs @ (?new, d) # ys))"
      using True tn nxh(2) by simp
  next
    case False
    have nxh: "nx = fst (hd ys)" using False by (simp add: nx_def first_of_nonempty)
    then have nxy: "nx \<in> fst ` set ys" using False by simp
    have tn: "dl_tail l = fst (last ys)" "fst (last ys) \<in> fst ` set ys" using tl False by simp_all
    have nys: "n \<notin> fst ` set ys" using dz(3) by (auto simp: image_Un)
    have "nx \<notin> fst ` set ?zs" using nxy dz(3) by blast
    then have "dseg (set_prev nx ?new ns1) (dl_tail l) ?zs nx" using z1(1) by (subst dseg_other(2))
    then have a: "dseg ?ns (dl_tail l) ?zs ?new" by (rule dseg_set_next [OF _ _ dz(1)]) simp_all
    have "dseg (set_prev nx ?new ns1) ?new ys (dl_head l)" using dseg_set_prev [OF z1(2) False dz(2) nxh] .
    then have b: "dseg ?ns ?new ys (dl_head l)" using nys by (subst dseg_other(3))
    have "dseg ?ns (dl_tail l) (?zs @ (?new, d) # ys) (dl_head l)"
      using a b new1 f(1) by (subst dseg_append) (simp add: nx_def)
    moreover have "dl_tail l \<noteq> n" using tn nys by metis
    ultimately show "dseg ?ns (dl_tail ?l) (?zs @ (?new, d) # ys) (dl_head l)
        \<and> dl_tail ?l = fst (last (?zs @ (?new, d) # ys))"
      using False tn by simp
  qed
  then have "dlist_rep (h1\<lparr>nh_nodes := ?ns\<rparr>) ?l (?zs @ (?new, d) # ys)"
    unfolding dlist_rep_def using first dist' len' tl' by simp
  then show thesis using run by (intro that [of "h1\<lparr>nh_nodes := ?ns\<rparr>" ?l]) simp_all
qed

lemma dl_insert_before_rep:
  assumes "dlist_rep h l (xs @ (m, c) # (n, e) # ys)" "fresh_next h"
  obtains h' l' where "cdouble_linked_list_insert_before h (Some l) n d = Inr (nh_answer h, h', Some l')"
    "dlist_rep h' l' (xs @ (m, c) # (nh_answer h, d) # (n, e) # ys)"
proof -
  have "dseg (nh_nodes h) (dl_tail l) (xs @ (m, c) # (n, e) # ys) (dl_head l)"
    using assms(1) unfolding dlist_rep_def by blast
  then have "n \<noteq> 0" "\<exists>x. nh_nodes h n = Some x \<and> dl_prev x = m" by (auto simp: dseg_append)
  then have "cdouble_linked_list_insert_before h (Some l) n d = cdouble_linked_list_insert_after h (Some l) m d"
    by (auto simp: cdouble_linked_list_insert_before_def)
  then show thesis using dl_insert_after_rep [OF assms, of d] that by metis
qed

subsection \<open>Lists as queues in both directions\<close>

definition dl_seq :: "dl_heap \<times> dlist option \<Rightarrow> u64 list \<Rightarrow> bool" where
  "dl_seq s ds \<longleftrightarrow> (\<exists>l xs. snd s = Some l \<and> dlist_rep (fst s) l xs \<and> map snd xs = ds)"

lemma dl_link_dom:
  assumes "dlist_rep h l xs" "\<And>x. x \<notin> fst ` set xs \<Longrightarrow> x \<noteq> a \<Longrightarrow> nh_nodes h' x = nh_nodes h x"
  shows "dom (nh_nodes h') \<subseteq> insert a (dom (nh_nodes h))"
proof
  fix x assume "x \<in> dom (nh_nodes h')"
  moreover have "x \<in> dom (nh_nodes h)" if "x \<in> fst ` set xs"
    using that assms(1) dseg_dom unfolding dlist_rep_def by blast
  ultimately show "x \<in> insert a (dom (nh_nodes h))"
    using assms(2) [of x] by (cases "x \<in> fst ` set xs") (auto simp: domIff)
qed

lemma dl_push_seq:
  assumes "dl_seq s ds" "supply_ok (Suc n) (fst s)"
  shows "\<exists>s'. cdouble_linked_list_push_back (fst s) (snd s) d = Inr s' \<and> dl_seq s' (ds @ [d]) \<and> supply_ok n (fst s')"
    and "\<exists>s'. cdouble_linked_list_push_front (fst s) (snd s) d = Inr s' \<and> dl_seq s' (d # ds) \<and> supply_ok n (fst s')"
proof -
  obtain h l xs where s: "s = (h, Some l)" "dlist_rep h l xs" "map snd xs = ds" "supply_ok (Suc n) h"
    using assms by (cases s) (auto simp: dl_seq_def)
  note f = supply_ok_fresh [OF s(4)]
  then have nz: "nh_answer h \<noteq> 0" by (simp add: fresh_next_def)
  obtain h1 l1 where one: "dl_link h l d False = Inr (h1, l1)" "dlist_rep h1 l1 (xs @ [(nh_answer h, d)])"
    "nh_supply h1 = tl (nh_supply h)"
    "\<And>x. x \<notin> fst ` set xs \<Longrightarrow> x \<noteq> nh_answer h \<Longrightarrow> nh_nodes h1 x = nh_nodes h x"
    using dl_link_rep [OF s(2) f, of d False] by auto
  have "dl_seq (h1, Some l1) (ds @ [d])" unfolding dl_seq_def using one(2) s(3) by fastforce
  moreover have "supply_ok n h1" by (rule supply_ok_step [OF s(4) one(3) dl_link_dom [OF s(2) one(4)]])
  ultimately show "\<exists>s'. cdouble_linked_list_push_back (fst s) (snd s) d = Inr s' \<and> dl_seq s' (ds @ [d]) \<and> supply_ok n (fst s')"
    using nz one(1) by (auto simp: s(1) cdouble_linked_list_push_back_def)
  obtain h2 l2 where two: "dl_link h l d True = Inr (h2, l2)" "dlist_rep h2 l2 ((nh_answer h, d) # xs)"
    "nh_supply h2 = tl (nh_supply h)"
    "\<And>x. x \<notin> fst ` set xs \<Longrightarrow> x \<noteq> nh_answer h \<Longrightarrow> nh_nodes h2 x = nh_nodes h x"
    using dl_link_rep [OF s(2) f, of d True] by auto
  have "dl_seq (h2, Some l2) (d # ds)" unfolding dl_seq_def using two(2) s(3) by fastforce
  moreover have "supply_ok n h2" by (rule supply_ok_step [OF s(4) two(3) dl_link_dom [OF s(2) two(4)]])
  ultimately show "\<exists>s'. cdouble_linked_list_push_front (fst s) (snd s) d = Inr s' \<and> dl_seq s' (d # ds) \<and> supply_ok n (fst s')"
    using nz two(1) by (auto simp: s(1) cdouble_linked_list_push_front_def)
qed

lemma dl_pop_seq:
  "dl_seq s (d # ds) \<Longrightarrow> \<exists>s'. cdouble_linked_list_pop_front (fst s) (snd s) = Inr (d, s') \<and> dl_seq s' ds"
  "dl_seq s (ds @ [d]) \<Longrightarrow> \<exists>s'. cdouble_linked_list_pop_back (fst s) (snd s) = Inr (d, s') \<and> dl_seq s' ds"
proof -
  assume "dl_seq s (d # ds)"
  then obtain h l a xs where s: "s = (h, Some l)" "dlist_rep h l ((a, d) # xs)" "map snd xs = ds"
    by (cases s) (auto simp: dl_seq_def)
  obtain h' l' where "cdouble_linked_list_pop_front h (Some l) = Inr (d, h', Some l')" "dlist_rep h' l' xs"
    by (rule dl_pop_front_rep [OF s(2)])
  then show "\<exists>s'. cdouble_linked_list_pop_front (fst s) (snd s) = Inr (d, s') \<and> dl_seq s' ds"
    using s by (auto simp: dl_seq_def)
next
  assume "dl_seq s (ds @ [d])"
  then obtain h l a xs where s: "s = (h, Some l)" "dlist_rep h l (xs @ [(a, d)])" "map snd xs = ds"
    by (cases s) (auto simp: dl_seq_def map_eq_append_conv)
  obtain h' l' where "cdouble_linked_list_pop_back h (Some l) = Inr (d, h', Some l')" "dlist_rep h' l' xs"
    by (rule dl_pop_back_rep [OF s(2)])
  then show "\<exists>s'. cdouble_linked_list_pop_back (fst s) (snd s) = Inr (d, s') \<and> dl_seq s' ds"
    using s by (auto simp: dl_seq_def)
qed

text \<open>Forwards, elements enter at the back and leave at the front; backwards, the other way round.\<close>

interpretation dl_forward: sequence dl_seq "\<lambda>n s. supply_ok n (fst s)" "\<lambda>d ds. ds @ [d]"
  "\<lambda>s d. cdouble_linked_list_push_back (fst s) (snd s) d" "\<lambda>s. cdouble_linked_list_pop_front (fst s) (snd s)"
  by unfold_locales (blast intro: dl_push_seq(1) dl_pop_seq(1))+

interpretation dl_backward: sequence "\<lambda>s ds. dl_seq s (rev ds)" "\<lambda>n s. supply_ok n (fst s)" "\<lambda>d ds. ds @ [d]"
  "\<lambda>s d. cdouble_linked_list_push_front (fst s) (snd s) d" "\<lambda>s. cdouble_linked_list_pop_back (fst s) (snd s)"
  by unfold_locales (use dl_push_seq(2) dl_pop_seq(2) in \<open>simp_all\<close>)

lemma dl_seq_create:
  assumes "supply_ok (Suc n) h" "cdouble_linked_list_create h = s0"
  shows "dl_seq s0 []" "supply_ok n (fst s0)"
proof -
  have s0: "s0 = (nh_skip h, Some \<lparr>dl_head = 0, dl_tail = 0, dl_length = 0\<rparr>)"
    using assms(2) supply_ok_fresh [OF assms(1)] by (auto simp: cdouble_linked_list_create_def fresh_next_def)
  show "dl_seq s0 []" by (simp add: dl_seq_def s0 dlist_rep_def)
  show "supply_ok n (fst s0)" unfolding s0 fst_conv by (rule supply_ok_step [OF assms(1)]) auto
qed

text \<open>C10: A new list is a queue in both directions: the elements pushed at the back are popped at the front in
  their order, and the elements pushed at the front are popped at the back in their order.\<close>

theorem cdouble_linked_list_queue:
  assumes "supply_ok (Suc (length ds)) h" "cdouble_linked_list_create h = s0"
  shows "(\<exists>s. bindE (push_all (\<lambda>(h, l) d. cdouble_linked_list_push_back h l d) ds s0)
        (pop_n (\<lambda>(h, l). cdouble_linked_list_pop_front h l) (length ds)) = Inr (ds, s) \<and> dl_seq s [])
    \<and> (\<exists>s. bindE (push_all (\<lambda>(h, l) d. cdouble_linked_list_push_front h l d) ds s0)
        (pop_n (\<lambda>(h, l). cdouble_linked_list_pop_back h l) (length ds)) = Inr (ds, s) \<and> dl_seq s [])"
  using dl_forward.store_and_read [of s0 ds] dl_backward.store_and_read [of s0 ds] dl_seq_create [OF assms]
  by (simp add: fold_snoc case_prod_beta')

definition demo_supply :: dl_heap where
  "demo_supply = \<lparr>nh_nodes = Map.empty, nh_supply = [8, 16, 32, 48]\<rparr>"

theorem cdouble_linked_list_queue_witness:
  "\<exists>s. bindE (push_all (\<lambda>(h, l) d. cdouble_linked_list_push_back h l d) [5, 6, 7]
        (cdouble_linked_list_create demo_supply))
        (pop_n (\<lambda>(h, l). cdouble_linked_list_pop_front h l) 3) = Inr ([5, 6, 7], s) \<and> dl_seq s []"
proof -
  have ok: "supply_ok (Suc (length [5, 6, 7 :: u64])) demo_supply" by (simp add: supply_ok_def demo_supply_def)
  have "length [5, 6, 7 :: u64] = 3" by simp
  then show ?thesis using cdouble_linked_list_queue [OF ok refl] by metis
qed

text \<open>Inserting next to a node and removing a node change the ring of a list exactly there: the list stays
  circular and linked both ways, and its length counts its nodes.\<close>

lemma cdouble_linked_list_edits:
  assumes "dlist_rep h l (xs @ (m, c) # (n, e) # ys)" "fresh_next h"
  shows "(\<exists>h' l'. cdouble_linked_list_insert_after h (Some l) m d = Inr (nh_answer h, h', Some l')
        \<and> dlist_rep h' l' (xs @ (m, c) # (nh_answer h, d) # (n, e) # ys))
    \<and> (\<exists>h' l'. cdouble_linked_list_insert_before h (Some l) n d = Inr (nh_answer h, h', Some l')
        \<and> dlist_rep h' l' (xs @ (m, c) # (nh_answer h, d) # (n, e) # ys))
    \<and> (\<exists>h' l'. cdouble_linked_list_remove h (Some l) n = Inr (e, h', Some l') \<and> dlist_rep h' l' (xs @ (m, c) # ys))"
proof (intro conjI)
  show "\<exists>h' l'. cdouble_linked_list_insert_after h (Some l) m d = Inr (nh_answer h, h', Some l')
      \<and> dlist_rep h' l' (xs @ (m, c) # (nh_answer h, d) # (n, e) # ys)"
    by (rule dl_insert_after_rep [OF assms]) blast
  show "\<exists>h' l'. cdouble_linked_list_insert_before h (Some l) n d = Inr (nh_answer h, h', Some l')
      \<and> dlist_rep h' l' (xs @ (m, c) # (nh_answer h, d) # (n, e) # ys)"
    by (rule dl_insert_before_rep [OF assms]) blast
  have "dlist_rep h l ((xs @ [(m, c)]) @ (n, e) # ys)" using assms(1) by simp
  then obtain h' l' where "cdouble_linked_list_remove h (Some l) n = Inr (e, h', Some l')"
    "dlist_rep h' l' ((xs @ [(m, c)]) @ ys)" by (rule dl_remove_rep)
  then show "\<exists>h' l'. cdouble_linked_list_remove h (Some l) n = Inr (e, h', Some l') \<and> dlist_rep h' l' (xs @ (m, c) # ys)"
    by simp
qed

definition demo_ring :: dl_heap where
  "demo_ring = \<lparr>nh_nodes = [16 \<mapsto> \<lparr>dl_data = 7, dl_next = 32, dl_prev = 32\<rparr>,
      32 \<mapsto> \<lparr>dl_data = 9, dl_next = 16, dl_prev = 16\<rparr>], nh_supply = [48]\<rparr>"

lemma cdouble_linked_list_edits_witness:
  "(\<exists>h' l'. cdouble_linked_list_insert_after demo_ring (Some \<lparr>dl_head = 16, dl_tail = 32, dl_length = 2\<rparr>) 16 8
        = Inr (48, h', Some l') \<and> dlist_rep h' l' [(16, 7), (48, 8), (32, 9)])
   \<and> (\<exists>h' l'. cdouble_linked_list_remove demo_ring (Some \<lparr>dl_head = 16, dl_tail = 32, dl_length = 2\<rparr>) 32
        = Inr (9, h', Some l') \<and> dlist_rep h' l' [(16, 7)])"
proof -
  let ?l = "\<lparr>dl_head = 16, dl_tail = 32, dl_length = 2\<rparr>"
  have r: "dlist_rep demo_ring ?l ([] @ (16, 7) # (32, 9) # [])" by (simp add: dlist_rep_def demo_ring_def)
  have f: "fresh_next demo_ring" "nh_answer demo_ring = 48" by (simp_all add: fresh_next_def nh_answer_def demo_ring_def)
  show ?thesis using cdouble_linked_list_edits [OF r f(1), of 8] unfolding f(2) append_Nil by blast
qed

end
