(* ===== verification/Chunked_List.thy ===== *)
theory Chunked_List
  imports Sequences
begin

section \<open>Chunked lists (\<open>shared/data_struct/chunked_list.c\<close>)\<close>

text \<open>
  A chunk is a node with an array of \<open>chunkSize\<close> slots of which the first \<open>count\<close> are in use.  Nodes live in
  a heap of \<open>Node_Heap\<close>; a new array is zeroed, as the kernel's allocator leaves it.  An access past an
  array is a fault.  The size of a chunk is computed in 64 bits: for a \<open>chunkSize\<close> of \<open>2 ^ 61 - 2\<close> or more it wraps around,
  and the array is what the block has left behind the header.  Loops over the chain of chunks take fuel, one unit per chunk.  \<open>sizeof\<close> of
  a chunk without its array is 16, of the header of a list 32.
\<close>

record cc_node =
  cn_count :: u64
  cn_next :: u64
  cn_data :: "u64 list"

record cc_list =
  cc_chunk :: u64
  cc_length :: u64
  cc_head :: u64
  cc_tail :: u64

type_synonym cc_heap = "cc_node nheap"

subsection \<open>Operations\<close>

text \<open>The size asked of \<open>malloc\<close>.\<close>

definition cc_bytes :: "u64 \<Rightarrow> u64" where
  "cc_bytes csize = 16 + csize * 8"

definition cc_empty_node :: "u64 \<Rightarrow> cc_node" where
  "cc_empty_node csize = \<lparr>cn_count = 0, cn_next = 0, cn_data = replicate ((unat (cc_bytes csize) - 16) div 8) 0\<rparr>"

text \<open>Allocating an empty chunk; None when \<open>malloc\<close> refuses.  A block that is too small for the header is a fault.\<close>

definition cc_new_chunk :: "u64 \<Rightarrow> cc_heap \<Rightarrow> fault + (cc_heap \<times> u64 option)" where
  "cc_new_chunk csize h =
     (if nh_answer h = 0 then Inr (nh_skip h, None)
      else if cc_bytes csize < 16 then Inl WildDeref
      else Inr (nh_new (cc_empty_node csize) h, Some (nh_answer h)))"

definition cc_get :: "cc_node \<Rightarrow> u64 \<Rightarrow> fault + u64" where
  "cc_get n i = (if unat i < length (cn_data n) then Inr (cn_data n ! unat i) else Inl WildDeref)"

definition cc_set :: "u64 \<Rightarrow> u64 \<Rightarrow> cc_node \<Rightarrow> fault + cc_node" where
  "cc_set i d n = (if unat i < length (cn_data n) then Inr (n\<lparr>cn_data := (cn_data n)[unat i := d]\<rparr>) else Inl WildDeref)"

text \<open>An assignment to a slot of the node at \<open>p\<close>.\<close>

definition cc_store :: "cc_heap \<Rightarrow> u64 \<Rightarrow> u64 \<Rightarrow> u64 \<Rightarrow> fault + cc_heap" where
  "cc_store h p i d = bindE (nh_get h p) (\<lambda>n. bindE (cc_set i d n) (\<lambda>n. nh_upd h p (\<lambda>_. n)))"

text \<open>The block of the chunk goes back when there is none for the list; the header of the chunk is written last.\<close>

definition cchunked_list_create :: "cc_heap \<Rightarrow> u64 \<Rightarrow> fault + (cc_heap \<times> cc_list option)" where
  "cchunked_list_create h chunkSize =
     (if nh_answer h = 0 then Inr (nh_skip h, None)
      else if nh_answer (nh_skip h) = 0 then Inr (nh_skip (nh_skip h), None)
      else bindE (cc_new_chunk chunkSize h) (\<lambda>(h, raw).
             case raw of
               None \<Rightarrow> Inr (h, None)
             | Some raw \<Rightarrow> Inr (nh_skip h, Some \<lparr>cc_chunk = chunkSize, cc_length = 0, cc_head = raw, cc_tail = raw\<rparr>)))"

fun cc_free_all :: "nat \<Rightarrow> cc_heap \<Rightarrow> u64 \<Rightarrow> fault + cc_heap" where
  "cc_free_all 0 h node = (if node = 0 then Inr h else Inl OutOfFuel)"
| "cc_free_all (Suc k) h node =
     (if node = 0 then Inr h else bindE (nh_get h node) (\<lambda>n. cc_free_all k (nh_free h node) (cn_next n)))"

definition cchunked_list_destroy :: "nat \<Rightarrow> cc_heap \<Rightarrow> cc_list option \<Rightarrow> fault + cc_heap" where
  "cchunked_list_destroy fuel h l = (case l of None \<Rightarrow> Inr h | Some l \<Rightarrow> cc_free_all fuel h (cc_head l))"

text \<open>\<open>list->tail->data[list->tail->count++] = data; list->length++\<close>\<close>

definition cc_append :: "cc_heap \<Rightarrow> cc_list \<Rightarrow> u64 \<Rightarrow> fault + (cc_heap \<times> cc_list option)" where
  "cc_append h l d =
     bindE (nh_get h (cc_tail l)) (\<lambda>t.
     bindE (cc_store h (cc_tail l) (cn_count t) d) (\<lambda>h.
     bindE (nh_upd h (cc_tail l) (\<lambda>t. t\<lparr>cn_count := cn_count t + 1\<rparr>)) (\<lambda>h.
       Inr (h, Some (l\<lparr>cc_length := cc_length l + 1\<rparr>)))))"

definition cc_push_tail :: "cc_heap \<Rightarrow> cc_list \<Rightarrow> u64 \<Rightarrow> fault + (cc_heap \<times> cc_list option)" where
  "cc_push_tail h l d =
     bindE (nh_get h (cc_tail l)) (\<lambda>t.
       if cn_count t = cc_chunk l then
         bindE (cc_new_chunk (cc_chunk l) h) (\<lambda>(h, node).
           case node of
             None \<Rightarrow> Inr (h, Some l)
           | Some node \<Rightarrow>
              bindE (nh_upd h (cc_tail l) (\<lambda>t. t\<lparr>cn_next := node\<rparr>)) (\<lambda>h. cc_append h (l\<lparr>cc_tail := node\<rparr>) d))
       else cc_append h l d)"

definition cchunked_list_push_back :: "cc_heap \<Rightarrow> cc_list option \<Rightarrow> u64 \<Rightarrow> fault + (cc_heap \<times> cc_list option)" where
  "cchunked_list_push_back h l d =
     (case l of
        None \<Rightarrow> Inr (h, None)
      | Some l \<Rightarrow>
          if cc_tail l = 0 then
            bindE (cc_new_chunk (cc_chunk l) h) (\<lambda>(h, node).
              case node of
                None \<Rightarrow> Inr (h, Some l)
              | Some node \<Rightarrow> cc_push_tail h (l\<lparr>cc_head := node, cc_tail := node\<rparr>) d)
          else cc_push_tail h l d)"

definition cchunked_list_insert_after ::
    "cc_heap \<Rightarrow> cc_list option \<Rightarrow> u64 \<Rightarrow> u64 \<Rightarrow> fault + (u64 \<times> cc_heap \<times> cc_list option)" where
  "cchunked_list_insert_after h l node d =
     (case l of
        None \<Rightarrow> Inr (0, h, None)
      | Some l \<Rightarrow>
          if node = 0 then
            bindE (cchunked_list_push_back h (Some l) d) (\<lambda>(h, l). Inr (case l of None \<Rightarrow> 0 | Some l \<Rightarrow> cc_tail l, h, l))
          else bindE (nh_get h node) (\<lambda>n.
            if cn_count n < cc_chunk l then
              bindE (cc_store h node (cn_count n) d) (\<lambda>h.
              bindE (nh_upd h node (\<lambda>n. n\<lparr>cn_count := cn_count n + 1\<rparr>)) (\<lambda>h.
                Inr (node, h, Some (l\<lparr>cc_length := cc_length l + 1\<rparr>))))
            else bindE (cc_new_chunk (cc_chunk l) h) (\<lambda>(h, new_node).
              case new_node of
                None \<Rightarrow> Inr (0, h, Some l)
              | Some new_node \<Rightarrow>
                  bindE (nh_upd h new_node (\<lambda>c. c\<lparr>cn_count := 1, cn_next := cn_next n\<rparr>)) (\<lambda>h.
                  bindE (cc_store h new_node 0 d) (\<lambda>h.
                  bindE (nh_upd h node (\<lambda>n. n\<lparr>cn_next := new_node\<rparr>)) (\<lambda>h.
                    Inr (new_node, h, Some (l\<lparr>cc_tail := (if cc_tail l = node then new_node else cc_tail l),
                                              cc_length := cc_length l + 1\<rparr>))))))))"

text \<open>\<open>for (i = 1; i < count; ++i) data[i - 1] = data[i]\<close>\<close>

fun cc_shift :: "nat list \<Rightarrow> u64 list \<Rightarrow> fault + u64 list" where
  "cc_shift [] xs = Inr xs"
| "cc_shift (i # is) xs = (if i < length xs then cc_shift is (xs[i - 1 := xs ! i]) else Inl WildDeref)"

definition cchunked_list_pop_front :: "cc_heap \<Rightarrow> cc_list option \<Rightarrow> fault + (u64 \<times> cc_heap \<times> cc_list option)" where
  "cchunked_list_pop_front h l =
     (case l of
        None \<Rightarrow> Inr (0, h, None)
      | Some l \<Rightarrow>
          if cc_head l = 0 \<or> cc_length l = 0 then Inr (0, h, Some l)
          else bindE (nh_get h (cc_head l)) (\<lambda>n.
            bindE (cc_get n 0) (\<lambda>d.
            bindE (if cn_count n > 1 then
                     bindE (cc_shift [1..<unat (cn_count n)] (cn_data n)) (\<lambda>xs.
                     bindE (nh_upd h (cc_head l) (\<lambda>n. n\<lparr>cn_data := xs, cn_count := cn_count n - 1\<rparr>)) (\<lambda>h.
                       Inr (h, l)))
                   else Inr (nh_free h (cc_head l),
                             l\<lparr>cc_head := cn_next n, cc_tail := (if cn_next n = 0 then 0 else cc_tail l)\<rparr>))
              (\<lambda>(h, l). Inr (d, h, Some (l\<lparr>cc_length := cc_length l - 1\<rparr>))))))"

text \<open>The predecessor of \<open>node\<close>, or the last chunk when \<open>node\<close> is not in the chain.\<close>

fun cc_prev :: "nat \<Rightarrow> cc_heap \<Rightarrow> u64 \<Rightarrow> u64 \<Rightarrow> fault + (u64 \<times> cc_node)" where
  "cc_prev 0 h prev node = Inl OutOfFuel"
| "cc_prev (Suc k) h prev node =
     bindE (nh_get h prev) (\<lambda>n.
       if cn_next n \<noteq> 0 \<and> cn_next n \<noteq> node then cc_prev k h (cn_next n) node else Inr (prev, n))"

definition cchunked_list_remove_node ::
    "nat \<Rightarrow> cc_heap \<Rightarrow> cc_list option \<Rightarrow> u64 \<Rightarrow> fault + (u64 \<times> cc_heap \<times> cc_list option)" where
  "cchunked_list_remove_node fuel h l node =
     (case l of
        None \<Rightarrow> Inr (0, h, None)
      | Some l \<Rightarrow>
          if node = 0 \<or> cc_head l = 0 then Inr (0, h, Some l)
          else if node = cc_head l then cchunked_list_pop_front h (Some l)
          else bindE (cc_prev fuel h (cc_head l) node) (\<lambda>(prev, p).
            if cn_next p \<noteq> node then Inr (0, h, Some l)
            else bindE (nh_get h node) (\<lambda>n.
              bindE (cc_get n 0) (\<lambda>d.
              bindE (cc_shift [1..<unat (cn_count n)] (cn_data n)) (\<lambda>xs.
              bindE (nh_upd h node (\<lambda>n. n\<lparr>cn_data := xs, cn_count := cn_count n - 1\<rparr>)) (\<lambda>h.
                let l = l\<lparr>cc_length := cc_length l - 1\<rparr>
                in if cn_count n - 1 = 0 then
                     bindE (nh_upd h prev (\<lambda>p. p\<lparr>cn_next := cn_next n\<rparr>)) (\<lambda>h.
                       Inr (d, nh_free h node, Some (l\<lparr>cc_tail := (if cc_tail l = node then prev else cc_tail l)\<rparr>)))
                   else Inr (d, h, Some l)))))))"

definition cchunked_list_update :: "cc_heap \<Rightarrow> u64 \<Rightarrow> u64 \<Rightarrow> fault + cc_heap" where
  "cchunked_list_update h node d =
     (if node = 0 then Inr h
      else bindE (nh_get h node) (\<lambda>n. if cn_count n \<noteq> 0 then cc_store h node 0 d else Inr h))"

definition cchunked_list_update_at :: "cc_heap \<Rightarrow> cc_list option \<Rightarrow> u64 \<Rightarrow> u64 \<Rightarrow> u64 \<Rightarrow> fault + cc_heap" where
  "cchunked_list_update_at h l node offset d =
     (if l = None \<or> node = 0 then Inr h
      else bindE (nh_get h node) (\<lambda>n. if offset \<ge> cn_count n then Inr h else cc_store h node offset d))"


fun cc_count_nodes :: "nat \<Rightarrow> cc_heap \<Rightarrow> u64 \<Rightarrow> u64 \<Rightarrow> fault + u64" where
  "cc_count_nodes 0 h it nodes = (if it = 0 then Inr nodes else Inl OutOfFuel)"
| "cc_count_nodes (Suc k) h it nodes =
     (if it = 0 then Inr nodes else bindE (nh_get h it) (\<lambda>n. cc_count_nodes k h (cn_next n) (nodes + 1)))"

definition cchunked_list_size_bytes :: "nat \<Rightarrow> cc_heap \<Rightarrow> cc_list option \<Rightarrow> fault + u64" where
  "cchunked_list_size_bytes fuel h l =
     (case l of None \<Rightarrow> Inr 0
      | Some l \<Rightarrow> bindE (cc_count_nodes fuel h (cc_head l) 0) (\<lambda>nodes. Inr (nodes * (16 + cc_chunk l * 8))))"

text \<open>The elements of a chunk, in order; an index past the array is a fault.\<close>

definition cc_elements :: "cc_node \<Rightarrow> fault + u64 list" where
  "cc_elements n =
     (if unat (cn_count n) \<le> length (cn_data n) then Inr (take (unat (cn_count n)) (cn_data n)) else Inl WildDeref)"

text \<open>The walk that \<open>for_each\<close> and \<open>clone\<close> share: \<open>f\<close> is applied to every element in turn.\<close>

fun cc_walk :: "nat \<Rightarrow> cc_heap \<Rightarrow> u64 \<Rightarrow> (u64 \<Rightarrow> 's \<Rightarrow> 's) \<Rightarrow> 's \<Rightarrow> fault + 's" where
  "cc_walk 0 h it f s = (if it = 0 then Inr s else Inl OutOfFuel)"
| "cc_walk (Suc k) h it f s =
     (if it = 0 then Inr s
      else bindE (nh_get h it) (\<lambda>n. bindE (cc_elements n) (\<lambda>xs. cc_walk k h (cn_next n) f (fold f xs s))))"

definition cchunked_list_for_each :: "nat \<Rightarrow> cc_heap \<Rightarrow> cc_list option \<Rightarrow> (u64 \<Rightarrow> 's \<Rightarrow> 's) \<Rightarrow> 's \<Rightarrow> fault + 's" where
  "cchunked_list_for_each fuel h l f s = (case l of None \<Rightarrow> Inr s | Some l \<Rightarrow> cc_walk fuel h (cc_head l) f s)"

definition cchunked_list_is_empty :: "cc_list option \<Rightarrow> u32" where
  "cchunked_list_is_empty l = (case l of None \<Rightarrow> 1 | Some l \<Rightarrow> if cc_length l = 0 then 1 else 0)"

text \<open>Copying: every element read is pushed to the clone.\<close>

fun cc_copy :: "nat list \<Rightarrow> u64 \<Rightarrow> cc_heap \<Rightarrow> cc_list option \<Rightarrow> fault + (cc_heap \<times> cc_list option)" where
  "cc_copy [] it h c = Inr (h, c)"
| "cc_copy (i # is) it h c =
     bindE (nh_get h it) (\<lambda>n. bindE (cc_get n (of_nat i)) (\<lambda>d.
       bindE (cchunked_list_push_back h c d) (\<lambda>(h, c). cc_copy is it h c)))"

fun cc_clone_loop :: "nat \<Rightarrow> cc_heap \<Rightarrow> u64 \<Rightarrow> cc_list option \<Rightarrow> fault + (cc_heap \<times> cc_list option)" where
  "cc_clone_loop 0 h it c = (if it = 0 then Inr (h, c) else Inl OutOfFuel)"
| "cc_clone_loop (Suc k) h it c =
     (if it = 0 then Inr (h, c)
      else bindE (nh_get h it) (\<lambda>n.
        bindE (cc_copy [0..<unat (cn_count n)] it h c) (\<lambda>(h, c).
        bindE (nh_get h it) (\<lambda>n. cc_clone_loop k h (cn_next n) c))))"

definition cchunked_list_clone :: "nat \<Rightarrow> cc_heap \<Rightarrow> cc_list option \<Rightarrow> fault + (cc_heap \<times> cc_list option)" where
  "cchunked_list_clone fuel h l =
     (case l of
        None \<Rightarrow> Inr (h, None)
      | Some l \<Rightarrow>
          bindE (cchunked_list_create h (cc_chunk l)) (\<lambda>(h, c).
            case c of None \<Rightarrow> Inr (h, None) | Some c \<Rightarrow> cc_clone_loop fuel h (cc_head l) (Some c)))"

subsection \<open>Chunks and the sequence they stand for\<close>

type_synonym chunks = "(u64 \<times> u64 list) list"

definition cc_node_is :: "nat \<Rightarrow> u64 list \<Rightarrow> cc_node \<Rightarrow> bool" where
  "cc_node_is n xs nd \<longleftrightarrow> length (cn_data nd) = n \<and> unat (cn_count nd) = length xs \<and> length xs \<le> n
     \<and> take (length xs) (cn_data nd) = xs"

fun cc_seg :: "cc_heap \<Rightarrow> nat \<Rightarrow> u64 \<Rightarrow> chunks \<Rightarrow> u64 \<Rightarrow> bool" where
  "cc_seg h n p [] q \<longleftrightarrow> p = q"
| "cc_seg h n p ((a, xs) # cs) q \<longleftrightarrow> p = a \<and> a \<noteq> 0
     \<and> (\<exists>nd. nh_nodes h a = Some nd \<and> cc_node_is n xs nd \<and> cc_seg h n (cn_next nd) cs q)"

definition cc_items :: "chunks \<Rightarrow> u64 list" where
  "cc_items cs = concat (map snd cs)"

definition cc_last :: "chunks \<Rightarrow> u64" where
  "cc_last cs = (if cs = [] then 0 else fst (last cs))"

text \<open>The size of a chunk does not wrap around.\<close>

definition cc_fits :: "u64 \<Rightarrow> bool" where
  "cc_fits csize \<longleftrightarrow> 0 < csize \<and> 16 + unat csize * 8 < 2 ^ 64"

lemma cc_bytes_fits: "cc_fits n \<Longrightarrow> unat (cc_bytes n) = 16 + unat n * 8"
  by (simp add: cc_bytes_def cc_fits_def unat_word_ariths)

lemma cc_empty_node_fits: "cc_fits n \<Longrightarrow> cc_empty_node n = \<lparr>cn_count = 0, cn_next = 0, cn_data = replicate (unat n) 0\<rparr>"
  by (simp add: cc_empty_node_def cc_bytes_fits)

definition cc_rep :: "cc_heap \<Rightarrow> cc_list \<Rightarrow> chunks \<Rightarrow> bool" where
  "cc_rep h l cs \<longleftrightarrow> cc_fits (cc_chunk l) \<and> cc_seg h (unat (cc_chunk l)) (cc_head l) cs 0 \<and> distinct (map fst cs)
     \<and> cc_tail l = cc_last cs \<and> unat (cc_length l) = length (cc_items cs)
     \<and> ((\<forall>c\<in>set cs. snd c \<noteq> []) \<or> (\<exists>a. cs = [(a, [])]))"

text \<open>The addresses of the chunks.\<close>

definition cc_addrs :: "chunks \<Rightarrow> u64 set" where
  "cc_addrs cs = fst ` set cs"

lemma cc_addrs_simps [simp]:
  "cc_addrs [] = {}" "cc_addrs (c # cs) = insert (fst c) (cc_addrs cs)" "cc_addrs (cs @ ds) = cc_addrs cs \<union> cc_addrs ds"
  "fst ` set cs = cc_addrs cs"
  by (auto simp: cc_addrs_def)

lemma cc_addrs_in: "(a, xs) \<in> set cs \<Longrightarrow> a \<in> cc_addrs cs"
  using image_eqI [of a fst "(a, xs)" "set cs"] by simp

lemma cc_node_is_link [simp]: "cc_node_is n xs (nd\<lparr>cn_next := c\<rparr>) \<longleftrightarrow> cc_node_is n xs nd"
  by (simp add: cc_node_is_def)

lemma cc_items_simps [simp]:
  "cc_items [] = []" "cc_items (c # cs) = snd c @ cc_items cs" "cc_items (cs @ ds) = cc_items cs @ cc_items ds"
  by (simp_all add: cc_items_def)


lemma cc_seg_append:
  "cc_seg h n p (cs @ ds) q \<longleftrightarrow> (\<exists>r. cc_seg h n p cs r \<and> cc_seg h n r ds q)"
  by (induction cs arbitrary: p) fastforce+

lemma cc_seg_frame:
  assumes "\<forall>a\<in>cc_addrs cs. nh_nodes h' a = nh_nodes h a"
  shows "cc_seg h' n p cs q \<longleftrightarrow> cc_seg h n p cs q"
  using assms by (induction cs arbitrary: p) auto

lemma cc_seg_upd_other [simp]:
  assumes "b \<notin> cc_addrs cs"
  shows "cc_seg (h\<lparr>nh_nodes := (nh_nodes h)(b := v)\<rparr>) n p cs q \<longleftrightarrow> cc_seg h n p cs q"
  using assms by (intro cc_seg_frame) auto

lemma cc_seg_in:
  assumes "cc_seg h n p cs q" "(a, xs) \<in> set cs"
  shows "\<exists>nd. nh_nodes h a = Some nd \<and> a \<noteq> 0 \<and> cc_node_is n xs nd"
  using assms by (induction cs arbitrary: p) auto

lemma cc_seg_dom: "cc_seg h n p cs q \<Longrightarrow> cc_addrs cs \<subseteq> dom (nh_nodes h) - {0}"
proof (induction cs arbitrary: p)
  case (Cons c cs)
  then obtain nd where "nh_nodes h (fst c) = Some nd" "fst c \<noteq> 0" "cc_seg h n (cn_next nd) cs q" by (cases c) auto
  then show ?case using Cons.IH [of "cn_next nd"] by auto
qed simp

text \<open>Changing the last node of a segment redirects it.\<close>

lemma cc_seg_split:
  assumes "cc_seg h n p (cs @ (a, xs) # ds) q"
  obtains nd where "nh_nodes h a = Some nd" "a \<noteq> 0" "cc_node_is n xs nd" "cc_seg h n p cs a" "cc_seg h n (cn_next nd) ds q"
  using assms by (auto simp: cc_seg_append)

lemma cc_seg_join:
  assumes "cc_seg h n p cs a" "nh_nodes h a = Some nd" "a \<noteq> 0" "cc_node_is n xs nd" "cc_seg h n (cn_next nd) ds q"
  shows "cc_seg h n p (cs @ (a, xs) # ds) q"
  using assms by (auto simp: cc_seg_append)

lemma cc_unat_Suc:
  fixes w :: u64
  assumes "unat w < n" "n < 2 ^ 64"
  shows "unat (w + 1) = Suc (unat w)"
  using assms by (subst unat_add_small) simp_all

lemma cc_node_snoc:
  assumes "cc_node_is n xs nd" "length xs < n" "n < 2 ^ 64"
  shows "cc_node_is n (xs @ [d]) (nd\<lparr>cn_data := (cn_data nd)[unat (cn_count nd) := d], cn_count := cn_count nd + 1\<rparr>)"
proof -
  have "unat (cn_count nd + 1) = Suc (length xs)"
    using cc_unat_Suc [of "cn_count nd" n] assms by (simp add: cc_node_is_def)
  moreover have "take (Suc (length xs)) ((cn_data nd)[length xs := d]) = xs @ [d]"
    using assms by (simp add: cc_node_is_def take_Suc_conv_app_nth)
  ultimately show ?thesis using assms by (simp add: cc_node_is_def)
qed

text \<open>The shifting loop.\<close>

lemma cc_shift_upt:
  assumes "j + k \<le> length xs" "0 < j"
  shows "cc_shift [j..<j + k] xs = Inr (take (j - 1) xs @ take k (drop j xs) @ drop (j + k - 1) xs)"
  using assms
proof (induction k arbitrary: j xs)
  case 0
  then show ?case by (simp add: upt_conv_Nil)
next
  case (Suc k)
  have l: "[j..<j + Suc k] = j # [Suc j..<Suc j + k]" by (simp add: upt_conv_Cons)
  let ?ys = "xs[j - 1 := xs ! j]"
  have "cc_shift [Suc j..<Suc j + k] ?ys = Inr (take j ?ys @ take k (drop (Suc j) ?ys) @ drop (Suc j + k - 1) ?ys)"
    using Suc.IH [of "Suc j" ?ys] Suc.prems by simp
  moreover have "take j ?ys = take (j - 1) xs @ [xs ! j]"
    using Suc.prems take_Suc_conv_app_nth [of "j - 1" ?ys] by (simp add: take_update_cancel)
  moreover have "drop (Suc j) ?ys = drop (Suc j) xs" "drop (j + k) ?ys = drop (j + k) xs"
    using Suc.prems by (simp_all add: drop_update_cancel)
  moreover have "take (Suc k) (drop j xs) = xs ! j # take k (drop (Suc j) xs)"
    using Suc.prems by (simp add: take_Suc_conv_app_nth Cons_nth_drop_Suc [symmetric] del: Cons_nth_drop_Suc)
  ultimately show ?case unfolding l using Suc.prems by simp
qed

lemma cc_node_shift:
  assumes "cc_node_is n (x # xs) nd"
  shows "\<exists>ys. cc_shift [1..<unat (cn_count nd)] (cn_data nd) = Inr ys
    \<and> cc_node_is n xs (nd\<lparr>cn_data := ys, cn_count := cn_count nd - 1\<rparr>)"
proof -
  let ?k = "length xs" and ?ys = "take (length xs) (drop 1 (cn_data nd)) @ drop (length xs) (cn_data nd)"
  have c: "unat (cn_count nd) = 1 + ?k" and l: "1 + ?k \<le> length (cn_data nd)" "length (cn_data nd) = n"
    and t: "take (Suc ?k) (cn_data nd) = x # xs" using assms by (auto simp: cc_node_is_def)
  have "cn_count nd \<noteq> 0" using c by auto
  then have u: "unat (cn_count nd - 1) = ?k" using c by (simp add: unat_minus_one)
  have e: "take ?k (drop 1 (cn_data nd)) = xs" using t by (metis One_nat_def drop_Suc_Cons drop_take drop0 diff_Suc_1)
  have "cc_shift [1..<unat (cn_count nd)] (cn_data nd) = Inr ?ys"
    using cc_shift_upt [of 1 ?k "cn_data nd"] c l by simp
  moreover have "cc_node_is n xs (nd\<lparr>cn_data := ?ys, cn_count := cn_count nd - 1\<rparr>)"
    unfolding e using u l e by (simp add: cc_node_is_def)
  ultimately show ?thesis by blast
qed

lemma cc_node_get:
  assumes "cc_node_is n xs nd" "i < length xs"
  shows "cc_get nd (of_nat i) = Inr (xs ! i)"
proof -
  have "length xs < 2 ^ 64" using assms(1) unat_lt_2p [of "cn_count nd"] by (simp add: cc_node_is_def)
  moreover have "cn_data nd ! i = xs ! i" using assms by (metis cc_node_is_def nth_take)
  ultimately show ?thesis using assms by (simp add: cc_get_def cc_node_is_def take_bit_nat_eq_self)
qed

lemma cc_node_elements: "cc_node_is n xs nd \<Longrightarrow> cc_elements nd = Inr xs"
  by (auto simp: cc_node_is_def cc_elements_def)

subsection \<open>Adding elements\<close>


lemma cc_put_node:
  assumes "cc_seg h n p (cs @ (a, xs) # ds) q" "a \<notin> cc_addrs (cs @ ds)" "length xs < n" "n < 2 ^ 64"
    "nh_nodes h a = Some nd"
  shows "\<exists>nd'. bindE (cc_store h a (cn_count nd) d) (\<lambda>h. nh_upd h a (\<lambda>t. t\<lparr>cn_count := cn_count t + 1\<rparr>))
      = Inr (h\<lparr>nh_nodes := (nh_nodes h)(a \<mapsto> nd')\<rparr>)
    \<and> cc_seg (h\<lparr>nh_nodes := (nh_nodes h)(a \<mapsto> nd')\<rparr>) n p (cs @ (a, xs @ [d]) # ds) q"
proof -
  have nd: "a \<noteq> 0" "cc_node_is n xs nd" "cc_seg h n p cs a" "cc_seg h n (cn_next nd) ds q"
    using cc_seg_split [OF assms(1)] assms(5) by (metis option.inject)+
  let ?nd = "nd\<lparr>cn_data := (cn_data nd)[unat (cn_count nd) := d], cn_count := cn_count nd + 1\<rparr>"
  have "unat (cn_count nd) < length (cn_data nd)" using nd(2) assms(3) by (simp add: cc_node_is_def)
  then have "bindE (cc_store h a (cn_count nd) d) (\<lambda>h. nh_upd h a (\<lambda>t. t\<lparr>cn_count := cn_count t + 1\<rparr>))
      = Inr (h\<lparr>nh_nodes := (nh_nodes h)(a \<mapsto> ?nd)\<rparr>)"
    using nd(1) assms(5) by (simp add: cc_store_def cc_set_def)
  moreover have "cc_seg (h\<lparr>nh_nodes := (nh_nodes h)(a \<mapsto> ?nd)\<rparr>) n p (cs @ (a, xs @ [d]) # ds) q"
    by (rule cc_seg_join [where nd = ?nd]) (use nd assms cc_node_snoc [OF nd(2) assms(3,4)] in simp_all)
  ultimately show ?thesis by (intro exI [of _ ?nd] conjI)
qed


lemma fresh_not_in:
  assumes "cc_seg h n p cs q" "fresh_next h"
  shows "nh_answer h \<notin> cc_addrs cs"
  using cc_seg_dom [OF assms(1)] assms(2) by (auto simp: fresh_next_def)

lemma cc_seg_new:
  assumes "cc_seg h n p cs q" "fresh_next h"
  shows "cc_seg (nh_new nd h) n p cs q"
  using fresh_not_in [OF assms] assms(1) by (subst cc_seg_frame [where h = h]) auto

lemma cc_new_chunk_fresh:
  "fresh_next h \<Longrightarrow> cc_fits n \<Longrightarrow> cc_new_chunk n h = Inr (nh_new (cc_empty_node n) h, Some (nh_answer h))"
  by (simp add: cc_new_chunk_def fresh_next_def word_less_nat_alt cc_bytes_fits)






text \<open>Inserting behind a chunk puts the element at the end of the chunk's part of the sequence.\<close>

lemma cc_insert_after_rep:
  assumes "cc_rep h l (ds @ (a, xs) # es)" "xs \<noteq> []" "fresh_next h" "length (cc_items (ds @ (a, xs) # es)) + 1 < 2 ^ 64"
  shows "\<exists>n h' l' cs'. cchunked_list_insert_after h (Some l) a d = Inr (n, h', Some l') \<and> cc_rep h' l' cs'
    \<and> cc_items cs' = cc_items ds @ xs @ d # cc_items es \<and> n \<in> cc_addrs cs'"
proof -
  let ?n = "unat (cc_chunk l)" and ?c = "nh_answer h"
  have r: "0 < ?n" "cc_seg h ?n (cc_head l) (ds @ (a, xs) # es) 0" "a \<notin> cc_addrs ds" "a \<notin> cc_addrs es"
    "cc_addrs ds \<inter> cc_addrs es = {}" "distinct (map fst ds)" "distinct (map fst es)"
    "cc_tail l = cc_last (ds @ (a, xs) # es)"
    "unat (cc_length l) = length (cc_items (ds @ (a, xs) # es))" "\<forall>c\<in>set ds. snd c \<noteq> []" "\<forall>c\<in>set es. snd c \<noteq> []"
    "cc_fits (cc_chunk l)"
    using assms(1,2) by (auto simp: cc_rep_def cc_fits_def word_less_nat_alt append_eq_Cons_conv)
  obtain nd where nd: "nh_nodes h a = Some nd" "a \<noteq> 0" "cc_node_is ?n xs nd" "cc_seg h ?n (cc_head l) ds a" "cc_seg h ?n (cn_next nd) es 0"
    using cc_seg_split [OF r(2)] by metis
  have full: "cn_count nd < cc_chunk l \<longleftrightarrow> length xs < ?n"
    using nd(3) by (auto simp: cc_node_is_def word_less_nat_alt)
  have len: "unat (cc_length l + 1) = length (cc_items (ds @ (a, xs) # es)) + 1"
    using r(9) assms(4) by (subst unat_add_small) simp_all
  show ?thesis
  proof (cases "length xs < ?n")
    case True
    let ?l = "l\<lparr>cc_length := cc_length l + 1\<rparr>" and ?cs = "ds @ (a, xs @ [d]) # es"
    have "a \<notin> cc_addrs (ds @ es)" using r by simp
    then obtain nd' where nd': "bindE (cc_store h a (cn_count nd) d) (\<lambda>h. nh_upd h a (\<lambda>t. t\<lparr>cn_count := cn_count t + 1\<rparr>))
        = Inr (h\<lparr>nh_nodes := (nh_nodes h)(a \<mapsto> nd')\<rparr>)"
      "cc_seg (h\<lparr>nh_nodes := (nh_nodes h)(a \<mapsto> nd')\<rparr>) ?n (cc_head l) ?cs 0"
      using cc_put_node [OF r(2) _ True _ nd(1), of d] unat_lt_2p [of "cc_chunk l"] by auto
    obtain h1 where "cc_store h a (cn_count nd) d = Inr h1" using nd'(1) by (cases "cc_store h a (cn_count nd) d") auto
    then have "cchunked_list_insert_after h (Some l) a d = Inr (a, h\<lparr>nh_nodes := (nh_nodes h)(a \<mapsto> nd')\<rparr>, Some ?l)"
      using nd nd'(1) True full by (simp add: cchunked_list_insert_after_def)
    moreover have "cc_rep (h\<lparr>nh_nodes := (nh_nodes h)(a \<mapsto> nd')\<rparr>) ?l ?cs"
      using r nd'(2) len by (auto simp: cc_rep_def cc_last_def word_less_nat_alt)
    ultimately show ?thesis by (intro exI conjI) (assumption | simp)+
  next
    case False
    let ?nc = "(cc_empty_node (cc_chunk l))\<lparr>cn_count := 1, cn_next := cn_next nd, cn_data := (cn_data (cc_empty_node (cc_chunk l)))[0 := d]\<rparr>"
    let ?na = "nd\<lparr>cn_next := ?c\<rparr>"
    let ?h = "(nh_new (cc_empty_node (cc_chunk l)) h)\<lparr>nh_nodes := (nh_nodes h)(?c \<mapsto> ?nc, a \<mapsto> ?na)\<rparr>"
    let ?l = "l\<lparr>cc_tail := (if cc_tail l = a then ?c else cc_tail l), cc_length := cc_length l + 1\<rparr>" and ?cs = "ds @ (a, xs) # (?c, [d]) # es"
    have "?c \<notin> cc_addrs (ds @ (a, xs) # es)" by (rule fresh_not_in [OF r(2) assms(3)])
    then have c: "?c \<noteq> 0" "?c \<noteq> a" "?c \<notin> cc_addrs ds" "?c \<notin> cc_addrs es"
      using assms(3) by (auto simp: fresh_next_def)
    have e: "cn_data (cc_empty_node (cc_chunk l)) \<noteq> []" using r(1) by (simp add: cc_empty_node_fits [OF r(12)])
    have run: "cchunked_list_insert_after h (Some l) a d = Inr (?c, ?h, Some ?l)"
      using nd c False full e r(1)
      by (simp add: cchunked_list_insert_after_def cc_new_chunk_fresh [OF assms(3) r(12)] cc_store_def cc_set_def cc_empty_node_fits [OF r(12)])
    have s: "cc_seg ?h ?n (cc_head l) ds a" "cc_seg ?h ?n (cn_next nd) es 0"
      using nd(4,5) r(3,4) c(3,4) by (subst cc_seg_frame [where h = h]; auto)+
    have nc: "cc_node_is ?n [d] ?nc" using r(1) by (cases ?n) (simp_all add: cc_node_is_def cc_empty_node_fits [OF r(12)])
    have "cc_seg ?h ?n (cc_head l) ?cs 0"
      by (rule cc_seg_join [OF s(1), where nd = ?na]) (use nd c s nc in simp_all)
    moreover have "cc_last ?cs = (if cc_tail l = a then ?c else cc_tail l)"
      using r(4,8) by (cases es rule: rev_cases) (auto simp: cc_last_def)
    ultimately have "cc_rep ?h ?l ?cs"
      using r c len assms(2) by (auto simp: cc_rep_def word_less_nat_alt)
    then show ?thesis using run by (intro exI conjI) (assumption | simp)+
  qed
qed

subsection \<open>Taking elements out\<close>

lemma cc_pop_front_chunk:
  assumes "cc_rep h l ((a, x # xs) # cs)"
  shows "\<exists>h' l'. cchunked_list_pop_front h (Some l) = Inr (x, h', Some l') \<and> cc_chunk l' = cc_chunk l
    \<and> cc_rep h' l' (if xs = [] then cs else (a, xs) # cs)"
proof -
  let ?n = "unat (cc_chunk l)"
  have r: "0 < ?n" "cc_head l = a" "a \<noteq> 0" "a \<notin> cc_addrs cs" "distinct (map fst cs)" "cc_tail l = cc_last ((a, x # xs) # cs)"
    "unat (cc_length l) = Suc (length xs + length (cc_items cs))" "\<forall>c\<in>set cs. snd c \<noteq> []"
    "cc_fits (cc_chunk l)"
    using assms by (auto simp: cc_rep_def cc_fits_def word_less_nat_alt)
  obtain nd where nd: "nh_nodes h a = Some nd" "cc_node_is ?n (x # xs) nd" "cc_seg h ?n (cn_next nd) cs 0"
    using assms by (auto simp: cc_rep_def)
  have c: "unat (cn_count nd) = Suc (length xs)" using nd(2) by (simp add: cc_node_is_def)
  have g: "cc_get nd 0 = Inr x" using cc_node_get [OF nd(2), of 0] by simp
  have z: "cc_length l \<noteq> 0" using r(7) by auto
  have len: "unat (cc_length l - 1) = length xs + length (cc_items cs)" using r(7) z by (simp add: unat_minus_one)
  show ?thesis
  proof (cases "xs = []")
    case True
    then have "cn_count nd = 1" using c by (simp add: word_unat_eq_iff)
    let ?l = "l\<lparr>cc_head := cn_next nd, cc_tail := (if cn_next nd = 0 then 0 else cc_tail l), cc_length := cc_length l - 1\<rparr>"
    have "cchunked_list_pop_front h (Some l) = Inr (x, nh_free h a, Some ?l)"
      using r(2,3) nd(1) g z \<open>cn_count nd = 1\<close> by (simp add: cchunked_list_pop_front_def)
    moreover have "cc_seg (nh_free h a) ?n (cn_next nd) cs 0"
      using nd(3) r(4) by (subst cc_seg_frame [where h = h]) auto
    moreover have "cs = [] \<longleftrightarrow> cn_next nd = 0" using nd(3) by (cases cs) auto
    ultimately show ?thesis using r(1,5-9) len True
      by (intro exI [of _ "nh_free h a"] exI [of _ ?l]) (auto simp: cc_rep_def word_less_nat_alt cc_last_def)
  next
    case False
    then have "cn_count nd > 1" using c by (simp add: word_less_nat_alt)
    obtain ys where ys: "cc_shift [1..<unat (cn_count nd)] (cn_data nd) = Inr ys"
      "cc_node_is ?n xs (nd\<lparr>cn_data := ys, cn_count := cn_count nd - 1\<rparr>)" using cc_node_shift [OF nd(2)] by blast
    let ?nd = "nd\<lparr>cn_data := ys, cn_count := cn_count nd - 1\<rparr>" and ?l = "l\<lparr>cc_length := cc_length l - 1\<rparr>"
    let ?h = "h\<lparr>nh_nodes := (nh_nodes h)(a \<mapsto> ?nd)\<rparr>"
    have "cchunked_list_pop_front h (Some l) = Inr (x, ?h, Some ?l)"
      using r(2,3) nd(1) g z \<open>cn_count nd > 1\<close> ys(1) by (simp add: cchunked_list_pop_front_def)
    moreover have "cc_seg ?h ?n a ((a, xs) # cs) 0" using nd(3) ys(2) r(3,4) by simp
    ultimately show ?thesis using r len False
      by (intro exI [of _ ?h] exI [of _ ?l]) (auto simp: cc_rep_def word_less_nat_alt cc_last_def)
  qed
qed

lemma cc_pop_front_rep:
  assumes "cc_rep h l cs" "cc_items cs = x # xs"
  shows "\<exists>h' l' cs'. cchunked_list_pop_front h (Some l) = Inr (x, h', Some l') \<and> cc_chunk l' = cc_chunk l
    \<and> cc_rep h' l' cs' \<and> cc_items cs' = xs"
proof -
  obtain a y ys ds where cs: "cs = (a, y # ys) # ds"
  proof (cases cs)
    case Nil
    then show thesis using assms(2) by simp
  next
    case (Cons c ds)
    have "snd c \<noteq> []" using assms unfolding Cons by (auto simp: cc_rep_def)
    then show thesis using Cons that by (cases c; cases "snd c") auto
  qed
  then have "y = x" "ys @ cc_items ds = xs" using assms(2) by auto
  then show ?thesis using cc_pop_front_chunk [OF assms(1) [unfolded cs]]
    by (cases "ys = []") (fastforce, fastforce)
qed

lemma cc_pop_front_none:
  assumes "cc_rep h l cs" "cc_items cs = []"
  shows "cchunked_list_pop_front h (Some l) = Inr (0, h, Some l)"
  using assms by (simp add: cc_rep_def cchunked_list_pop_front_def unat_eq_0)

lemma cc_prev_found:
  assumes "cc_seg h n p (cs @ [(b, ys)]) a" "a \<notin> cc_addrs (cs @ [(b, ys)])" "a \<noteq> 0" "length cs < fuel"
  shows "\<exists>nd. cc_prev fuel h p a = Inr (b, nd) \<and> nh_nodes h b = Some nd \<and> cn_next nd = a"
  using assms
proof (induction cs arbitrary: p fuel)
  case Nil
  then obtain k where "fuel = Suc k" by (cases fuel) auto
  with Nil show ?case by auto
next
  case (Cons c cs)
  obtain k where k: "fuel = Suc k" using Cons.prems(4) by (cases fuel) auto
  obtain nd where nd: "p = fst c" "p \<noteq> 0" "nh_nodes h p = Some nd" "cc_seg h n (cn_next nd) (cs @ [(b, ys)]) a"
    using Cons.prems(1) by (cases c) auto
  have "cn_next nd \<in> cc_addrs (cs @ [(b, ys)]) \<and> cn_next nd \<noteq> 0" using nd(4) by (cases cs) auto
  then have "cn_next nd \<noteq> a" "cn_next nd \<noteq> 0" using Cons.prems(2) by auto
  then show ?case using nd Cons.IH [OF nd(4), of k] Cons.prems k by simp
qed

text \<open>Removing a node takes out the first element of its chunk.\<close>

lemma cc_remove_node_rep:
  assumes "cc_rep h l (ds @ (a, x # xs) # es)" "length ds < fuel"
  shows "\<exists>h' l' cs'. cchunked_list_remove_node fuel h (Some l) a = Inr (x, h', Some l') \<and> cc_rep h' l' cs'
    \<and> cc_items cs' = cc_items ds @ xs @ cc_items es"
proof (cases ds rule: rev_cases)
  case Nil
  then have h: "cc_head l = a" "a \<noteq> 0" using assms(1) by (auto simp: cc_rep_def)
  have "cc_items (if xs = [] then es else (a, xs) # es) = xs @ cc_items es" by simp
  then show ?thesis using cc_pop_front_chunk [of h l a x xs es] assms(1) Nil h
    by (auto simp: cchunked_list_remove_node_def)
next
  case (snoc bs c)
  obtain b ys where c: "c = (b, ys)" by (cases c)
  let ?n = "unat (cc_chunk l)"
  have r: "0 < ?n" "cc_seg h ?n (cc_head l) (ds @ (a, x # xs) # es) 0" "a \<notin> cc_addrs ds" "a \<notin> cc_addrs es"
    "cc_addrs ds \<inter> cc_addrs es = {}" "distinct (map fst ds)" "distinct (map fst es)"
    "cc_tail l = cc_last (ds @ (a, x # xs) # es)"
    "unat (cc_length l) = length (cc_items (ds @ (a, x # xs) # es))" "\<forall>c\<in>set ds. snd c \<noteq> []" "\<forall>c\<in>set es. snd c \<noteq> []"
    "cc_fits (cc_chunk l)"
    using assms(1) by (auto simp: cc_rep_def cc_fits_def word_less_nat_alt append_eq_Cons_conv)
  obtain nd where nd: "nh_nodes h a = Some nd" "a \<noteq> 0" "cc_node_is ?n (x # xs) nd" "cc_seg h ?n (cc_head l) ds a" "cc_seg h ?n (cn_next nd) es 0"
    using cc_seg_split [OF r(2)] by metis
  obtain pd where pd: "nh_nodes h b = Some pd" "b \<noteq> 0" "cc_node_is ?n ys pd" "cc_seg h ?n (cc_head l) bs b" "cn_next pd = a"
    using nd(4) unfolding snoc c cc_seg_append by auto
  have hd: "cc_head l \<in> cc_addrs ds" using nd(4) snoc by (cases bs) (auto simp: c)
  have ba: "b \<noteq> a" "b \<in> cc_addrs ds" using r(3) by (auto simp: snoc c)
  have pv: "cc_prev fuel h (cc_head l) a = Inr (b, pd)"
    using cc_prev_found [of h ?n "cc_head l" bs b ys a fuel] nd(2,4) r(3) assms(2) pd(1) by (auto simp: snoc c)
  have h: "cc_head l \<noteq> 0" "a \<noteq> cc_head l" using hd r(3) cc_seg_dom [OF nd(4)] by auto
  have g: "cc_get nd 0 = Inr x" using cc_node_get [OF nd(3), of 0] by simp
  obtain zs where zs: "cc_shift [1..<unat (cn_count nd)] (cn_data nd) = Inr zs"
    "cc_node_is ?n xs (nd\<lparr>cn_data := zs, cn_count := cn_count nd - 1\<rparr>)" using cc_node_shift [OF nd(3)] by blast
  let ?nd = "nd\<lparr>cn_data := zs, cn_count := cn_count nd - 1\<rparr>" and ?l = "l\<lparr>cc_length := cc_length l - 1\<rparr>"
  have z: "cc_length l \<noteq> 0" using r(9) by auto
  have len: "unat (cc_length l - 1) = length (cc_items ds @ xs @ cc_items es)" using r(9) z by (simp add: unat_minus_one)
  have cnt: "cn_count nd - 1 = 0 \<longleftrightarrow> xs = []" using zs(2) by (simp add: cc_node_is_def unat_eq_0 [symmetric])
  show ?thesis
  proof (cases "xs = []")
    case False
    let ?h = "h\<lparr>nh_nodes := (nh_nodes h)(a \<mapsto> ?nd)\<rparr>"
    have "cchunked_list_remove_node fuel h (Some l) a = Inr (x, ?h, Some ?l)"
      using h nd(1,2) pv pd(5) g zs(1) cnt False by (simp add: cchunked_list_remove_node_def Let_def)
    moreover have "cc_seg ?h ?n (cc_head l) (ds @ (a, xs) # es) 0"
      by (rule cc_seg_join [where nd = ?nd]) (use nd zs(2) r(3,4) in simp_all)
    then have "cc_rep ?h ?l (ds @ (a, xs) # es)" using r len False by (auto simp: cc_rep_def word_less_nat_alt cc_last_def)
    ultimately show ?thesis by (intro exI conjI) (assumption | simp)+
  next
    case True
    let ?h = "nh_free (h\<lparr>nh_nodes := (nh_nodes h)(a \<mapsto> ?nd, b \<mapsto> pd\<lparr>cn_next := cn_next nd\<rparr>)\<rparr>) a"
      and ?m = "?l\<lparr>cc_tail := (if cc_tail l = a then b else cc_tail l)\<rparr>"
    have "cchunked_list_remove_node fuel h (Some l) a = Inr (x, ?h, Some ?m)"
      using h nd(1,2) pv pd(1,2,5) g zs(1) cnt True ba by (simp add: cchunked_list_remove_node_def Let_def)
    moreover have bb: "b \<notin> cc_addrs bs" "b \<notin> cc_addrs es" "a \<notin> cc_addrs bs" using r(3,5,6) by (auto simp: snoc c)
    have "cc_seg ?h ?n (cc_head l) (bs @ (b, ys) # es) 0"
      by (rule cc_seg_join [where nd = "pd\<lparr>cn_next := cn_next nd\<rparr>"])
        (use pd nd(5) bb ba(1) r(4) in \<open>(subst cc_seg_frame [where h = h]; auto) | simp\<close>)+
    moreover have "cc_last (ds @ es) = (if cc_tail l = a then b else cc_tail l)"
      using r(4,8) by (cases es rule: rev_cases) (auto simp: cc_last_def snoc c)
    ultimately have "cchunked_list_remove_node fuel h (Some l) a = Inr (x, ?h, Some ?m)" "cc_rep ?h ?m (ds @ es)"
      using r len True by (auto simp: cc_rep_def word_less_nat_alt snoc c)
    then show ?thesis using True by (intro exI conjI) (assumption | simp)+
  qed
qed

subsection \<open>Walking\<close>

lemma cc_walk_seg:
  assumes "cc_seg h n p cs 0" "length cs \<le> fuel"
  shows "cc_walk fuel h p f s = Inr (fold f (cc_items cs) s)"
  using assms
proof (induction cs arbitrary: p fuel s)
  case Nil
  then show ?case by (cases fuel) auto
next
  case (Cons c cs)
  obtain k where k: "fuel = Suc k" using Cons.prems(2) by (cases fuel) auto
  obtain a xs where c: "c = (a, xs)" by (cases c)
  obtain nd where nd: "p = a" "a \<noteq> 0" "nh_nodes h a = Some nd" "cc_node_is n xs nd" "cc_seg h n (cn_next nd) cs 0"
    using Cons.prems(1) c by auto
  show ?case using nd k Cons.prems(2) Cons.IH [OF nd(5), of k] cc_node_elements [OF nd(4)] by (simp add: c)
qed

subsection \<open>Properties\<close>

text \<open>A chunked list that stands for a sequence acts on it: taking from the front yields the first element; inserting behind
  a chunk puts the element at the end of what the chunk holds, whether the chunk still has room or a new one is linked in;
  removing a chunk takes out only its first element, however the chain changes; and a walk visits
  all elements in order.\<close>

lemma cchunked_list_edits:
  assumes "cc_rep h l (ds @ (a, x # xs) # es)" "length (ds @ (a, x # xs) # es) \<le> fuel"
    "length (cc_items (ds @ (a, x # xs) # es)) + 1 < 2 ^ 64"
  shows "(fresh_next h \<longrightarrow> (\<exists>n h' l' cs'. cchunked_list_insert_after h (Some l) a d = Inr (n, h', Some l') \<and> cc_rep h' l' cs'
      \<and> cc_items cs' = cc_items ds @ (x # xs) @ d # cc_items es))
    \<and> (\<exists>h' l' cs'. cchunked_list_remove_node fuel h (Some l) a = Inr (x, h', Some l') \<and> cc_rep h' l' cs'
      \<and> cc_items cs' = cc_items ds @ xs @ cc_items es)
    \<and> (\<exists>h' l' cs' y ys. cc_items ds @ (x # xs) @ cc_items es = y # ys \<and> cchunked_list_pop_front h (Some l) = Inr (y, h', Some l')
      \<and> cc_rep h' l' cs' \<and> cc_items cs' = ys)
    \<and> cchunked_list_for_each fuel h (Some l) (\<lambda>d acc. acc @ [d]) [] = Inr (cc_items ds @ (x # xs) @ cc_items es)"
proof (intro conjI impI)
  assume f: "fresh_next h"
  show "\<exists>n h' l' cs'. cchunked_list_insert_after h (Some l) a d = Inr (n, h', Some l') \<and> cc_rep h' l' cs'
      \<and> cc_items cs' = cc_items ds @ (x # xs) @ d # cc_items es"
    using cc_insert_after_rep [OF assms(1) _ f assms(3), of d] by blast
next
  show "\<exists>h' l' cs'. cchunked_list_remove_node fuel h (Some l) a = Inr (x, h', Some l') \<and> cc_rep h' l' cs'
      \<and> cc_items cs' = cc_items ds @ xs @ cc_items es"
    using cc_remove_node_rep [OF assms(1), of fuel] assms(2) by simp
next
  obtain y ys where y: "cc_items ds @ (x # xs) @ cc_items es = y # ys" by (cases "cc_items ds @ (x # xs) @ cc_items es") auto
  then have "cc_items (ds @ (a, x # xs) # es) = y # ys" by simp
  from cc_pop_front_rep [OF assms(1) this] y
  show "\<exists>h' l' cs' y ys. cc_items ds @ (x # xs) @ cc_items es = y # ys \<and> cchunked_list_pop_front h (Some l) = Inr (y, h', Some l')
      \<and> cc_rep h' l' cs' \<and> cc_items cs' = ys" by metis
next
  have "cc_seg h (unat (cc_chunk l)) (cc_head l) (ds @ (a, x # xs) # es) 0" using assms(1) by (simp add: cc_rep_def)
  from cc_walk_seg [OF this assms(2), of "\<lambda>d acc. acc @ [d]" "[]"] fold_snoc [of "cc_items ds @ (x # xs) @ cc_items es" "[]"]
  show "cchunked_list_for_each fuel h (Some l) (\<lambda>d acc. acc @ [d]) [] = Inr (cc_items ds @ (x # xs) @ cc_items es)"
    by (simp add: cchunked_list_for_each_def)
qed

text \<open>Two chunks of two slots at 16 and 48, holding 7 and 8, and 9.\<close>

definition demo_chunks :: cc_heap where
  "demo_chunks = \<lparr>nh_nodes = [16 \<mapsto> \<lparr>cn_count = 2, cn_next = 48, cn_data = [7, 8]\<rparr>, 48 \<mapsto> \<lparr>cn_count = 1, cn_next = 0, cn_data = [9, 0]\<rparr>],
     nh_supply = [80, 112, 144, 176, 208]\<rparr>"

definition demo_chunked :: cc_list where
  "demo_chunked = \<lparr>cc_chunk = 2, cc_length = 3, cc_head = 16, cc_tail = 48\<rparr>"

lemma demo_chunked_rep: "cc_rep demo_chunks demo_chunked [(16, [7, 8]), (48, [9])]"
  by (simp add: cc_rep_def cc_fits_def demo_chunks_def demo_chunked_def cc_node_is_def cc_last_def)

lemma cchunked_list_edits_witness:
  "(\<exists>n h' l' cs'. cchunked_list_insert_after demo_chunks (Some demo_chunked) 16 5 = Inr (n, h', Some l') \<and> cc_rep h' l' cs'
      \<and> cc_items cs' = [7, 8, 5, 9])
   \<and> cchunked_list_for_each 2 demo_chunks (Some demo_chunked) (\<lambda>d acc. acc @ [d]) [] = Inr [7, 8, 9]"
proof -
  have "fresh_next demo_chunks" by (simp add: fresh_next_def nh_answer_def demo_chunks_def)
  then show ?thesis
    using cchunked_list_edits [of demo_chunks demo_chunked "[]" 16 7 "[8]" "[(48, [9])]" 2 5] demo_chunked_rep by simp
qed

subsection \<open>A queue\<close>








end
