(* ===== verification/Regions.thy ===== *)
theory Regions
  imports Mem_Functions
begin

section \<open>Regions of a heap\<close>

text \<open>
  Both allocators of the kernel hand out regions of one address range and keep freed regions in
  linked lists whose links are stored in the regions themselves (\<open>FreeBlock\<close> of
  \<open>kernel/memory/memory_types.h\<close>: the size at offset 0, the next pointer at offset 8).  This theory
  has the region arithmetic, the list predicate and the first-fit search that
  \<open>talloc\<close> (\<open>kernel/memory/kalloc.c\<close>) and \<open>kalloc\<close> (\<open>kernel/memory/page_allocator.c\<close>) share.
\<close>

type_synonym region = "u64 \<times> nat"

fun rapart :: "region \<Rightarrow> region \<Rightarrow> bool" where
  "rapart (a, n) (b, k) \<longleftrightarrow> unat a + n \<le> unat b \<or> unat b + k \<le> unat a"

fun rwithin :: "nat \<Rightarrow> nat \<Rightarrow> region \<Rightarrow> bool" where
  "rwithin lo hi (a, n) \<longleftrightarrow> lo \<le> unat a \<and> unat a + n \<le> hi"

lemma rapart_sym: "rapart r q \<Longrightarrow> rapart q r"
  by (cases r; cases q) auto

lemma rapart_sub: "rapart r (b, n) \<Longrightarrow> k \<le> n \<Longrightarrow> rapart r (b, k)"
  by (cases r) auto

lemma in_region_range:
  assumes "unat a + n \<le> 2 ^ 64"
  shows "in_region a n x \<longleftrightarrow> unat a \<le> unat x \<and> unat x < unat a + n"
proof (cases "a \<le> x")
  case True
  then have "unat (x - a) = unat x - unat a" "unat a \<le> unat x"
    by (simp_all add: unat_sub word_le_nat_alt)
  then show ?thesis by (auto simp: in_region_def)
next
  case False
  then have lt: "unat x < unat a" by (simp add: word_le_nat_alt)
  then have "unat (x - a) + unat (a - x) = 2 ^ 64" using unat_diff_swap [of x a] by fastforce
  moreover have "unat (a - x) = unat a - unat x" using False by (simp add: unat_sub)
  ultimately have "\<not> unat (x - a) < n" using assms lt by linarith
  with lt show ?thesis by (simp add: in_region_def)
qed

lemma rapart_disj:
  assumes "rapart (a, n) (b, k)" "unat a + n \<le> 2 ^ 64" "unat b + k \<le> 2 ^ 64" "0 < n" "0 < k"
  shows "disj_regions a n b k"
proof -
  have "\<not> in_region a n b" "\<not> in_region b k a"
    using assms by (auto simp: in_region_range)
  then show ?thesis by (auto simp: disj_regions_def in_region_def)
qed

lemma rapart_not_in:
  assumes "rapart (a, n) (b, k)" "unat a + n \<le> 2 ^ 64" "unat b + k \<le> 2 ^ 64" "in_region a n x"
  shows "\<not> in_region b k x"
  using assms by (auto simp: in_region_range)

subsection \<open>Free lists in memory\<close>

fun fb_list :: "mem \<Rightarrow> u64 \<Rightarrow> region list \<Rightarrow> bool" where
  "fb_list m p [] \<longleftrightarrow> p = 0"
| "fb_list m p ((b, n) # bs) \<longleftrightarrow>
     p = b \<and> b \<noteq> 0 \<and> unat (read64 m b) = n \<and> fb_list m (read64 m (b + 8)) bs"

definition blocks_ok :: "nat \<Rightarrow> nat \<Rightarrow> region list \<Rightarrow> bool" where
  "blocks_ok lo hi bs \<longleftrightarrow> sorted_wrt rapart bs \<and> (\<forall>r\<in>set bs. 16 \<le> snd r \<and> rwithin lo hi r)"

lemma blocks_ok_mono: "blocks_ok lo hi bs \<Longrightarrow> lo' \<le> lo \<Longrightarrow> hi \<le> hi' \<Longrightarrow> blocks_ok lo' hi' bs"
  by (fastforce simp: blocks_ok_def)

lemma blocks_ok_bound:
  "blocks_ok lo hi bs \<Longrightarrow> (b, n) \<in> set bs \<Longrightarrow> 16 \<le> n \<and> lo \<le> unat b \<and> unat b + n \<le> hi"
  by (force simp: blocks_ok_def)

lemma blocks_ok_apart:
  "blocks_ok lo hi bs \<Longrightarrow> r \<in> set bs \<Longrightarrow> q \<in> set bs \<Longrightarrow> r \<noteq> q \<Longrightarrow> rapart r q"
  unfolding blocks_ok_def by (induction bs) (auto intro: rapart_sym)

lemma blocks_ok_Cons:
  "blocks_ok lo hi (r # bs) \<longleftrightarrow>
     blocks_ok lo hi bs \<and> 16 \<le> snd r \<and> rwithin lo hi r \<and> (\<forall>q\<in>set bs. rapart r q)"
  by (auto simp: blocks_ok_def)

lemma blocks_ok_append:
  "blocks_ok lo hi (xs @ ys) \<longleftrightarrow>
     blocks_ok lo hi xs \<and> blocks_ok lo hi ys \<and> (\<forall>x\<in>set xs. \<forall>y\<in>set ys. rapart x y)"
  by (auto simp: blocks_ok_def sorted_wrt_append)

lemma blocks_ok_apart2:
  "blocks_ok lo hi (xs @ ys) \<Longrightarrow> r \<in> set xs \<Longrightarrow> q \<in> set ys \<Longrightarrow> rapart r q"
  by (simp add: blocks_ok_append)

lemma blocks_ok_move:
  assumes "blocks_ok lo hi (xs @ (b, n) # ys)" "k \<le> n" "16 \<le> k"
  shows "blocks_ok lo hi ((b, k) # xs @ ys)" "blocks_ok lo hi (xs @ ys)"
proof -
  show "blocks_ok lo hi (xs @ ys)" using assms(1) by (auto simp: blocks_ok_append blocks_ok_Cons)
  moreover have "rapart (b, k) q" if "q \<in> set (xs @ ys)" for q
  proof -
    have "rapart q (b, n)"
      using assms(1) that by (auto simp: blocks_ok_append blocks_ok_Cons intro: rapart_sym)
    then show ?thesis using assms(2) by (blast intro: rapart_sub rapart_sym)
  qed
  ultimately show "blocks_ok lo hi ((b, k) # xs @ ys)"
    using assms by (auto simp: blocks_ok_append blocks_ok_Cons)
qed

lemma blocks_ok_fresh:
  assumes "blocks_ok lo mid bs" "16 \<le> n" "lo \<le> mid" "mid \<le> unat b" "unat b + n \<le> hi"
  shows "blocks_ok lo hi ((b, n) # bs)"
proof -
  have "rapart (b, n) q" if "q \<in> set bs" for q
  proof -
    obtain c l where "q = (c, l)" by (cases q)
    with that assms show ?thesis by (fastforce simp: blocks_ok_def)
  qed
  moreover have "blocks_ok lo hi bs" using assms by (auto intro: blocks_ok_mono)
  ultimately show ?thesis using assms by (simp add: blocks_ok_Cons)
qed

text \<open>The two words of a block header are all that the list predicate reads.\<close>

lemma header_reads:
  assumes "\<And>x. in_region b 16 x \<Longrightarrow> m' x = m x"
  shows "read64 m' b = read64 m b" "read64 m' (b + 8) = read64 m (b + 8)"
proof -
  have "load_bytes m' b 8 = load_bytes m b 8"
    by (rule load_bytes_cong) (auto intro!: assms in_region_sub [of b 8])
  then show "read64 m' b = read64 m b" by (simp add: read64_def)
  have "load_bytes m' (b + 8) 8 = load_bytes m (b + 8) 8"
    by (rule load_bytes_cong) (auto intro!: assms in_region_sub [of "b + 8" 8])
  then show "read64 m' (b + 8) = read64 m (b + 8)" by (simp add: read64_def)
qed

lemma fb_list_frame:
  assumes "\<And>b n x. (b, n) \<in> set bs \<Longrightarrow> in_region b 16 x \<Longrightarrow> m' x = m x"
  shows "fb_list m' p bs = fb_list m p bs"
  using assms
proof (induction bs arbitrary: p)
  case (Cons r bs)
  obtain b n where r: "r = (b, n)" by (cases r)
  have "read64 m' b = read64 m b" "read64 m' (b + 8) = read64 m (b + 8)"
    using Cons.prems [of b n] by (auto simp: r intro!: header_reads)
  moreover have "fb_list m' q bs = fb_list m q bs" for q
    by (rule Cons.IH) (use Cons.prems in auto)
  ultimately show ?case by (simp add: r)
qed simp

text \<open>A store into a region apart from every block leaves the list as it is.\<close>

lemma fb_list_store:
  assumes "\<forall>r\<in>set bs. rapart (a, length vs) r" "blocks_ok lo hi bs" "hi \<le> 2 ^ 64"
    "unat a + length vs \<le> 2 ^ 64"
  shows "fb_list (store_bytes m a vs) p bs = fb_list m p bs"
proof (rule fb_list_frame)
  fix b n x assume r: "(b, n) \<in> set bs" "in_region b 16 x"
  then have "16 \<le> n" "unat b + n \<le> 2 ^ 64" "rapart (a, length vs) (b, n)"
    using assms by (auto simp: blocks_ok_def)
  with r(2) assms(4) have "\<not> in_region a (length vs) x"
    by (intro rapart_not_in [of b 16]) auto
  then show "store_bytes m a vs x = m x" by (rule store_bytes_outside)
qed

subsection \<open>First fit\<close>

text \<open>
  The search both allocators run: \<open>cell\<close> is the location that holds the pointer to the current
  block, \<open>None\<close> for the head of the list (a variable of the allocator) and \<open>Some a\<close> for the
  next field at address \<open>a\<close>; \<open>cur\<close> is what that location holds.  The fuel bounds the number of
  blocks looked at, since a list read from memory may be cyclic.
\<close>

fun free_scan :: "nat \<Rightarrow> mem \<Rightarrow> u64 \<Rightarrow> u64 option \<Rightarrow> u64 \<Rightarrow> fault + (u64 option \<times> u64) option" where
  "free_scan 0 m sz cell cur = Inl OutOfFuel"
| "free_scan (Suc k) m sz cell cur =
     (if cur = 0 then Inr None
      else if read64 m cur \<ge> sz then Inr (Some (cell, cur))
      else free_scan k m sz (Some (cur + 8)) (read64 m (cur + 8)))"

lemma free_scan_numeral [simp]:
  "free_scan (numeral k) m sz cell cur =
     (if cur = 0 then Inr None
      else if read64 m cur \<ge> sz then Inr (Some (cell, cur))
      else free_scan (pred_numeral k) m sz (Some (cur + 8)) (read64 m (cur + 8)))"
  by (simp add: numeral_eq_Suc)

lemma free_scan_None:
  "\<lbrakk>fb_list m p bs; \<forall>(b, n)\<in>set bs. n < unat sz; length bs < fuel\<rbrakk> \<Longrightarrow>
   free_scan fuel m sz cell p = Inr None"
proof (induction bs arbitrary: p cell fuel)
  case Nil
  then show ?case by (cases fuel) auto
next
  case (Cons r bs)
  then show ?case by (cases fuel; cases r) (auto simp: word_le_nat_alt)
qed

lemma free_scan_Some:
  "\<lbrakk>fb_list m p (xs @ (b, n) # ys); \<forall>(c, k)\<in>set xs. k < unat sz; unat sz \<le> n; length xs < fuel\<rbrakk> \<Longrightarrow>
   free_scan fuel m sz cell p
     = Inr (Some (if xs = [] then cell else Some (fst (last xs) + 8), b))"
proof (induction xs arbitrary: p cell fuel)
  case Nil
  then show ?case by (cases fuel) (auto simp: word_le_nat_alt)
next
  case (Cons r xs)
  then show ?case by (cases fuel; cases r) (auto simp: word_le_nat_alt)
qed

lemma first_fit_cases:
  obtains "\<forall>(b, n)\<in>set bs. n < sz"
  | xs b n ys where "bs = xs @ (b, n) # ys" "\<forall>(c, k)\<in>set xs. k < sz" "sz \<le> (n :: nat)"
proof (cases "\<exists>r\<in>set bs. sz \<le> snd r")
  case True
  then obtain xs r ys where "bs = xs @ r # ys" "sz \<le> snd r" "\<forall>q\<in>set xs. \<not> sz \<le> snd q"
    using split_list_first_prop [of bs "\<lambda>r. sz \<le> snd r"] by blast
  then show thesis by (cases r) (auto intro!: that(2))
next
  case False
  then show thesis by (intro that(1)) force
qed

text \<open>Taking the found block out of the list.\<close>

lemma fb_list_tail: "fb_list m p (xs @ (b, n) # ys) \<Longrightarrow> fb_list m (read64 m (b + 8)) ys \<and> b \<noteq> 0"
  by (induction xs arbitrary: p) auto

lemma fb_list_unlink:
  assumes "fb_list m p (xs @ (c, k) # (b, n) # ys)"
    and "blocks_ok lo hi (xs @ (c, k) # (b, n) # ys)" "hi \<le> 2 ^ 64"
  shows "fb_list (write64 m (c + 8) (read64 m (b + 8))) p (xs @ (c, k) # ys)"
  using assms(1,2)
proof (induction xs arbitrary: p)
  case Nil
  let ?m = "write64 m (c + 8) (read64 m (b + 8))"
  have c: "16 \<le> k" "unat c + k \<le> 2 ^ 64" using Nil.prems(2) assms(3) by (auto simp: blocks_ok_def)
  have u: "unat (c + 8) = unat c + 8" using c by (intro unat_add_small [THEN trans]) auto
  have "rapart (c + 8, length (le_bytes 8 (read64 m (b + 8)))) r" if "r \<in> set ys" for r
    using Nil.prems(2) that c u by (cases r) (fastforce simp: blocks_ok_def)
  then have "fb_list ?m q ys = fb_list m q ys" for q
    unfolding write64_def using Nil.prems(2) c u assms(3)
    by (intro fb_list_store [where lo = lo and hi = hi]) (auto simp: blocks_ok_Cons)
  moreover have "read64 ?m c = read64 m c"
    by (intro read64_write64_disj) (simp add: disj_regions_def)
  ultimately show ?case using Nil.prems(1) by simp
next
  case (Cons r xs)
  let ?m = "write64 m (c + 8) (read64 m (b + 8))"
  obtain d l where r: "r = (d, l)" by (cases r)
  have c: "16 \<le> k" "unat c + k \<le> 2 ^ 64" "16 \<le> l" "unat d + l \<le> 2 ^ 64" "rapart (d, l) (c, k)"
    using Cons.prems(2) assms(3) by (auto simp: r blocks_ok_def)
  have u: "unat (c + 8) = unat c + 8" using c by (intro unat_add_small [THEN trans]) auto
  have "?m x = m x" if "in_region d 16 x" for x
  proof -
    have "\<not> in_region (c + 8) 8 x" using that c u by (auto simp: in_region_range)
    then show ?thesis by (simp add: write64_def store_bytes_outside)
  qed
  then have "read64 ?m d = read64 m d" "read64 ?m (d + 8) = read64 m (d + 8)"
    by (auto intro: header_reads)
  moreover have "fb_list ?m q (xs @ (c, k) # ys)" if "fb_list m q (xs @ (c, k) # (b, n) # ys)" for q
    using Cons.IH [OF that] Cons.prems(2) by (simp add: blocks_ok_Cons)
  ultimately show ?case using Cons.prems(1) by (simp add: r)
qed

text \<open>A block put at the front of the list.\<close>

lemma fb_list_push:
  assumes "fb_list m p bs" "blocks_ok lo hi ((b, n) # bs)" "hi \<le> 2 ^ 64" "b \<noteq> 0"
  shows "fb_list (write64 (write64 m b (of_nat n)) (b + 8) p) b ((b, n) # bs)"
proof -
  let ?m1 = "write64 m b (of_nat n :: u64)" and ?m2 = "write64 (write64 m b (of_nat n)) (b + 8) p"
  have b: "16 \<le> n" "unat b + n \<le> 2 ^ 64" and bs: "blocks_ok lo hi bs"
    and ap: "\<forall>r\<in>set bs. rapart (b, n) r"
    using assms(2,3) by (auto simp: blocks_ok_Cons)
  have u: "unat (b + 8) = unat b + 8" using b by (intro unat_add_small [THEN trans]) auto
  have "b \<noteq> 0 \<Longrightarrow> 0 < unat b" by (simp add: unat_gt_0)
  then have n: "n < 2 ^ 64" using b assms(4) by simp
  have "fb_list ?m1 p bs = fb_list m p bs"
    unfolding write64_def using ap bs b assms(3)
    by (intro fb_list_store [where lo = lo and hi = hi]) (auto, (fastforce)+)
  moreover have "fb_list ?m2 p bs = fb_list ?m1 p bs"
    unfolding write64_def [of _ "b + 8"] using ap bs b u assms(3)
    by (intro fb_list_store [where lo = lo and hi = hi]) (auto, (fastforce)+)
  moreover have "read64 ?m2 b = of_nat n"
    by (subst read64_write64_disj) (auto simp: disj_regions_def)
  ultimately show ?thesis using assms(1,4) n by simp
qed

end
