(* ===== verification/Talloc.thy ===== *)
theory Talloc
  imports Regions
begin

section \<open>The early kernel allocator (\<open>kernel/memory/kalloc.c\<close>)\<close>

text \<open>
  \<open>talloc\<close> and \<open>temp_free\<close> manage whole pages between \<open>heap_bottom\<close> and \<open>heap_limit\<close> of the
  kernel image; \<open>alloc_mmio_region\<close> hands out device addresses above \<open>MMIO_BASE\<close>.  The state is
  the memory together with the static variables of the file.  Console output (the verbose mode)
  is left out.  Running out of memory ends in \<open>panic_with_info\<close>, which never returns: \<open>Inl (Panic _)\<close>.
\<close>

text \<open>The addresses the linker script (\<open>kernel/linker.ld\<close>) defines.\<close>

record linker =
  ld_kernel_start :: u64
  ld_heap_bottom :: u64
  ld_heap_limit :: u64
  ld_kcode_end :: u64
  ld_kfull_end :: u64
  ld_shared_start :: u64
  ld_shared_end :: u64

record kmem =
  mm :: mem
  temp_free_list :: u64
  next_free_temp_memory :: u64
  next_mmio_base :: u64

definition unlink_block :: "u64 option \<Rightarrow> u64 \<Rightarrow> 'a kmem_scheme \<Rightarrow> 'a kmem_scheme" where
  "unlink_block cell b s =
     (let nxt = read64 (mm s) (b + 8)
      in case cell of
           None \<Rightarrow> s\<lparr>temp_free_list := nxt\<rparr>
         | Some a \<Rightarrow> s\<lparr>mm := write64 (mm s) a nxt\<rparr>)"

definition talloc :: "nat \<Rightarrow> linker \<Rightarrow> 'a kmem_scheme \<Rightarrow> u64 \<Rightarrow> fault + (u64 \<times> 'a kmem_scheme)" where
  "talloc fuel ld s sz0 =
     (let sz = round_page sz0 in
      bindE (free_scan fuel (mm s) sz None (temp_free_list s)) (\<lambda>found.
        case found of
          Some (cell, b) \<Rightarrow>
            let s' = unlink_block cell b s
            in Inr (b, s'\<lparr>mm := memset (mm s') b 0 sz\<rparr>)
        | None \<Rightarrow>
            let result = next_free_temp_memory s
            in if result + sz > ld_heap_limit ld then Inl (Panic ''Kernel allocator overflow'')
               else Inr (result, s\<lparr>next_free_temp_memory := result + sz,
                                   mm := memset (mm s) result 0 sz\<rparr>)))"

definition temp_free :: "'a kmem_scheme \<Rightarrow> u64 \<Rightarrow> u64 \<Rightarrow> 'a kmem_scheme" where
  "temp_free s ptr sz0 =
     (let sz = round_page sz0;
          m1 = memset (mm s) ptr 0 sz;
          m2 = write64 m1 ptr sz;
          m3 = write64 m2 (ptr + 8) (temp_free_list s)
      in s\<lparr>mm := m3, temp_free_list := ptr\<rparr>)"

definition alloc_mmio_region :: "u64 \<Rightarrow> 'a kmem_scheme \<Rightarrow> u64 \<Rightarrow> fault + (u64 \<times> 'a kmem_scheme)" where
  "alloc_mmio_region mmio_base s sz0 =
     (let base = (if next_mmio_base s = 0 then mmio_base else next_mmio_base s);
          sz = round_page sz0
      in if base + sz > mmio_base + 0xFFFFFFF then Inl (Panic ''MMIO alloc overflow'')
         else Inr (base, s\<lparr>next_mmio_base := base + sz\<rparr>))"

definition is_mmio_allocated :: "u64 \<Rightarrow> 'a kmem_scheme \<Rightarrow> u64 \<Rightarrow> bool" where
  "is_mmio_allocated mmio_base s addr \<longleftrightarrow> addr > mmio_base \<and> addr < next_mmio_base s"

definition mem_get_kmem_start :: "linker \<Rightarrow> u64" where
  "mem_get_kmem_start ld = ld_kernel_start ld"

definition mem_get_kmem_end :: "linker \<Rightarrow> u64" where
  "mem_get_kmem_end ld = ld_kcode_end ld"

definition get_shared_start :: "linker \<Rightarrow> u64" where
  "get_shared_start ld = ld_shared_start ld"

definition get_shared_end :: "linker \<Rightarrow> u64" where
  "get_shared_end ld = ld_shared_end ld"

subsection \<open>The heap invariant\<close>

text \<open>
  \<open>free\<close> lists the regions of the free list, \<open>live\<close> the regions handed out and not yet freed:
  all of them are pairwise apart, page aligned and lie between \<open>heap_bottom\<close> and the bump pointer.
\<close>

definition page_aligned :: "u64 \<Rightarrow> bool" where
  "page_aligned a \<longleftrightarrow> 0x1000 dvd unat a"

definition heap_inv :: "linker \<Rightarrow> 'a kmem_scheme \<Rightarrow> region list \<Rightarrow> region list \<Rightarrow> bool" where
  "heap_inv ld s free live \<longleftrightarrow>
     fb_list (mm s) (temp_free_list s) free
     \<and> blocks_ok (unat (ld_heap_bottom ld)) (unat (next_free_temp_memory s)) (free @ live)
     \<and> (\<forall>r\<in>set (free @ live). page_aligned (fst r)) \<and> page_aligned (next_free_temp_memory s)
     \<and> 0 < ld_heap_bottom ld \<and> ld_heap_bottom ld \<le> next_free_temp_memory s
     \<and> next_free_temp_memory s \<le> ld_heap_limit ld"

lemma heap_invD:
  assumes "heap_inv ld s free live"
  shows "fb_list (mm s) (temp_free_list s) free"
    and "blocks_ok (unat (ld_heap_bottom ld)) (unat (next_free_temp_memory s)) (free @ live)"
    and "blocks_ok 0 (2 ^ 64) (free @ live)"
  using assms unat_lt_2p [of "next_free_temp_memory s"]
  by (auto simp: heap_inv_def intro: blocks_ok_mono)

lemma length_memset_0: "memset m a 0 n = store_bytes m a (replicate (unat n) 0)"
  by (simp add: memset_store memset_bytes_0)

text \<open>Zeroing a region that is apart from the blocks leaves the free list as it is.\<close>

lemma fb_list_memset:
  assumes "fb_list m p bs" "blocks_ok 0 (2 ^ 64) ((a, unat n) # bs)"
  shows "fb_list (memset m a 0 n) p bs"
  unfolding length_memset_0 using assms
  by (subst fb_list_store [where lo = 0 and hi = "2 ^ 64"]) (auto simp: blocks_ok_Cons)

lemma talloc_reuse:
  assumes inv: "heap_inv ld s (xs @ (b, n) # ys) live" and fuel: "length xs < fuel"
    and small: "\<forall>(c, k)\<in>set xs. k < unat (round_page sz)" and fit: "unat (round_page sz) \<le> n"
    and sz: "0 < sz" "unat sz + 0xFFF < 2 ^ 64"
  obtains m' p' where
    "talloc fuel ld s sz = Inr (b, s\<lparr>temp_free_list := p', mm := memset m' b 0 (round_page sz)\<rparr>)"
    "heap_inv ld (s\<lparr>temp_free_list := p', mm := memset m' b 0 (round_page sz)\<rparr>)
       (xs @ ys) ((b, unat (round_page sz)) # live)"
    "\<And>x. (\<forall>r\<in>set (xs @ (b, n) # ys). \<not> in_region (fst r) (snd r) x) \<Longrightarrow> m' x = mm s x"
proof -
  let ?sz = "round_page sz" and ?lo = "unat (ld_heap_bottom ld)" and ?hi = "unat (next_free_temp_memory s)"
  note h = heap_invD [OF inv]
  have big: "16 \<le> unat ?sz" using round_page_bounds(4) [OF sz(2,1)] by simp
  have scan: "free_scan fuel (mm s) ?sz None (temp_free_list s)
      = Inr (Some (if xs = [] then None else Some (fst (last xs) + 8), b))"
    using free_scan_Some [OF h(1) small fit fuel] .
  define s' where "s' = unlink_block (if xs = [] then None else Some (fst (last xs) + 8)) b s"
  have s': "fb_list (mm s') (temp_free_list s') (xs @ ys)"
      "\<exists>m' p'. s' = s\<lparr>temp_free_list := p', mm := m'\<rparr>"
      "\<And>x. (\<forall>r\<in>set xs. \<not> in_region (fst r) (snd r) x) \<Longrightarrow> mm s' x = mm s x"
  proof (atomize (full), cases xs rule: rev_cases)
    case Nil
    have "s' = s\<lparr>temp_free_list := read64 (mm s) (b + 8), mm := mm s\<rparr>"
      by (simp add: s'_def Nil unlink_block_def)
    with Nil h(1) show "fb_list (mm s') (temp_free_list s') (xs @ ys) \<and>
        (\<exists>m' p'. s' = s\<lparr>temp_free_list := p', mm := m'\<rparr>) \<and>
        (\<forall>x. (\<forall>r\<in>set xs. \<not> in_region (fst r) (snd r) x) \<longrightarrow> mm s' x = mm s x)"
      by fastforce
  next
    case (snoc zs r)
    obtain c k where r: "r = (c, k)" by (cases r)
    let ?m = "write64 (mm s) (c + 8) (read64 (mm s) (b + 8))"
    have eq: "s' = s\<lparr>temp_free_list := temp_free_list s, mm := ?m\<rparr>"
      by (simp add: s'_def snoc r unlink_block_def)
    have "blocks_ok 0 (2 ^ 64) (zs @ (c, k) # (b, n) # ys)"
      using h(3) by (auto simp: snoc r blocks_ok_append blocks_ok_Cons)
    with h(1) have l: "fb_list ?m (temp_free_list s) (xs @ ys)"
      using fb_list_unlink [of "mm s" "temp_free_list s" zs c k b n ys 0 "2 ^ 64"]
      by (simp add: snoc r)
    have ck: "16 \<le> k" "unat c + k \<le> 2 ^ 64"
      using h(3) by (auto simp: snoc r blocks_ok_append blocks_ok_Cons)
    have "?m x = mm s x" if "\<not> in_region c k x" for x
    proof -
      have "unat (c + 8) = unat c + 8" using ck by (intro unat_add_small [THEN trans]) auto
      then have "\<not> in_region (c + 8) 8 x" using that ck by (auto simp: in_region_range)
      then show ?thesis by (simp add: write64_def store_bytes_outside)
    qed
    moreover have "\<exists>m' p'. s' = s\<lparr>temp_free_list := p', mm := m'\<rparr>" using eq by blast
    moreover have "mm s' = ?m" "temp_free_list s' = temp_free_list s" by (simp_all add: eq)
    ultimately show "fb_list (mm s') (temp_free_list s') (xs @ ys) \<and>
        (\<exists>m' p'. s' = s\<lparr>temp_free_list := p', mm := m'\<rparr>) \<and>
        (\<forall>x. (\<forall>r\<in>set xs. \<not> in_region (fst r) (snd r) x) \<longrightarrow> mm s' x = mm s x)"
      using l by (simp add: snoc r)
  qed
  obtain m' p' where eq: "s' = s\<lparr>temp_free_list := p', mm := m'\<rparr>" using s'(2) by blast
  have split: "(xs @ (b, n) # ys) @ live = xs @ (b, n) # (ys @ live)" by simp
  have ok: "blocks_ok ?lo ?hi ((b, unat ?sz) # xs @ ys @ live)"
    using blocks_ok_move(1) [OF h(2) [unfolded split] fit big] .
  have "fb_list (memset m' b 0 ?sz) p' (xs @ ys)"
  proof (rule fb_list_memset)
    show "fb_list m' p' (xs @ ys)" using s'(1) by (simp add: eq)
    have "blocks_ok 0 (2 ^ 64) ((b, unat ?sz) # (xs @ ys) @ live)"
      using blocks_ok_move(1) [OF h(3) [unfolded split] fit big] by simp
    then show "blocks_ok 0 (2 ^ 64) ((b, unat ?sz) # xs @ ys)"
      by (auto simp: blocks_ok_Cons blocks_ok_append)
  qed
  moreover have "blocks_ok ?lo ?hi ((xs @ ys) @ (b, unat ?sz) # live)"
    using ok by (auto simp: blocks_ok_append blocks_ok_Cons intro: rapart_sym)
  ultimately have "heap_inv ld (s\<lparr>temp_free_list := p', mm := memset m' b 0 ?sz\<rparr>)
       (xs @ ys) ((b, unat ?sz) # live)"
    using inv by (simp add: heap_inv_def)
  moreover have "talloc fuel ld s sz = Inr (b, s\<lparr>temp_free_list := p', mm := memset m' b 0 ?sz\<rparr>)"
    by (simp add: talloc_def Let_def scan flip: s'_def) (simp add: eq)
  moreover have "m' x = mm s x" if "\<forall>r\<in>set (xs @ (b, n) # ys). \<not> in_region (fst r) (snd r) x" for x
    using s'(3) [of x] that by (simp add: eq)
  ultimately show ?thesis by (intro that [of m' p'])
qed

lemma talloc_bump:
  assumes inv: "heap_inv ld s free live" and fuel: "length free < fuel"
    and small: "\<forall>(c, k)\<in>set free. k < unat (round_page sz)"
    and sz: "0 < sz" "unat sz + 0xFFF < 2 ^ 64"
    and room: "unat (next_free_temp_memory s) + unat (round_page sz) \<le> unat (ld_heap_limit ld)"
  defines "r \<equiv> next_free_temp_memory s"
  defines "s' \<equiv> s\<lparr>next_free_temp_memory := r + round_page sz, mm := memset (mm s) r 0 (round_page sz)\<rparr>"
  shows "talloc fuel ld s sz = Inr (r, s')"
    and "heap_inv ld s' free ((r, unat (round_page sz)) # live)"
proof -
  let ?sz = "round_page sz"
  note h = heap_invD [OF inv]
  have big: "16 \<le> unat ?sz" using round_page_bounds(4) [OF sz(2,1)] by simp
  have sum: "unat (r + ?sz) = unat r + unat ?sz"
    using room unat_lt_2p [of "ld_heap_limit ld"] by (intro unat_add_small) (simp add: r_def)
  show "talloc fuel ld s sz = Inr (r, s')"
    using free_scan_None [OF h(1) small fuel] room sum
    by (simp add: talloc_def Let_def r_def s'_def word_less_nat_alt)
  have "ld_heap_bottom ld \<le> r" using inv by (simp add: heap_inv_def r_def)
  then have "blocks_ok (unat (ld_heap_bottom ld)) (unat (r + ?sz)) ((r, unat ?sz) # free @ live)"
    using h(2) big sum 
    by (intro blocks_ok_fresh [where mid = "unat (next_free_temp_memory s)"])
      (auto simp: r_def word_le_nat_alt)
  then have ok: "blocks_ok (unat (ld_heap_bottom ld)) (unat (r + ?sz)) (free @ (r, unat ?sz) # live)"
    and "blocks_ok (unat (ld_heap_bottom ld)) (unat (r + ?sz)) ((r, unat ?sz) # free)"
    by (auto simp: blocks_ok_append blocks_ok_Cons intro: rapart_sym)
  then have "blocks_ok 0 (2 ^ 64) ((r, unat ?sz) # free)"
    using unat_lt_2p [of "r + ?sz"] by (elim blocks_ok_mono) auto
  with h(1) have "fb_list (memset (mm s) r 0 ?sz) (temp_free_list s) free"
    by (rule fb_list_memset)
  moreover have "page_aligned (r + ?sz)"
    using inv round_page_bounds(3) [OF sz(2)] by (simp add: page_aligned_def sum) (simp add: heap_inv_def page_aligned_def r_def)
  ultimately show "heap_inv ld s' free ((r, unat ?sz) # live)"
    using ok inv room sum by (simp add: heap_inv_def s'_def word_le_nat_alt r_def)
qed

lemma talloc_panics:
  assumes inv: "heap_inv ld s free live" and fuel: "length free < fuel"
    and small: "\<forall>(c, k)\<in>set free. k < unat (round_page sz)"
    and full: "unat (ld_heap_limit ld) < unat (next_free_temp_memory s) + unat (round_page sz)"
      "unat (next_free_temp_memory s) + unat (round_page sz) < 2 ^ 64"
  shows "talloc fuel ld s sz = Inl (Panic ''Kernel allocator overflow'')"
  using free_scan_None [OF heap_invD(1) [OF inv] small fuel] full
  by (simp add: talloc_def Let_def word_less_nat_alt unat_add_small)

lemma temp_free_inv:
  assumes inv: "heap_inv ld s free (xs @ (p, n) # ys)"
    and n: "n = unat (round_page sz)"
  shows "heap_inv ld (temp_free s p sz) ((p, n) # free) (xs @ ys)"
proof -
  note h = heap_invD [OF inv]
  have ok: "blocks_ok lo hi ((p, n) # free @ xs @ ys)"
    if "blocks_ok lo hi (free @ xs @ (p, n) # ys)" for lo hi
    using blocks_ok_move(1) [of lo hi "free @ xs" p n ys n] that
    by (auto simp: blocks_ok_append blocks_ok_Cons)
  have ok64: "blocks_ok 0 (2 ^ 64) ((p, n) # free)"
    using ok [OF h(3)] by (auto simp: blocks_ok_append blocks_ok_Cons)
  have p0: "p \<noteq> 0"
    using h(2) inv by (auto simp: heap_inv_def blocks_ok_append blocks_ok_Cons word_less_nat_alt)
  have "fb_list (memset (mm s) p 0 (round_page sz)) (temp_free_list s) free"
    using h(1) ok64 by (intro fb_list_memset) (simp_all add: n)
  then have "fb_list (mm (temp_free s p sz)) p ((p, n) # free)"
    using fb_list_push [OF _ ok64 _ p0] by (simp add: temp_free_def Let_def n)
  then show ?thesis
    using ok [OF h(2)] inv by (simp add: heap_inv_def temp_free_def Let_def)
qed

subsection \<open>Histories of the heap\<close>

text \<open>
  A client of the heap allocates, frees what it holds and writes into what it holds.  The
  histories are sequences of such steps; \<open>heap_steps\<close> runs one and keeps the list of live regions.
\<close>

datatype heap_op = Alloc u64 | Free u64 u64 | Write u64 "u8 list"

inductive heap_step ::
    "nat \<Rightarrow> linker \<Rightarrow> kmem \<times> region list \<Rightarrow> heap_op \<Rightarrow> kmem \<times> region list \<Rightarrow> bool"
  for fuel ld where
  hs_alloc: "talloc fuel ld s sz = Inr (p, s') \<Longrightarrow> 0 < sz \<Longrightarrow>
     unat (ld_heap_limit ld) + unat sz + 0xFFF < 2 ^ 64 \<Longrightarrow>
     heap_step fuel ld (s, live) (Alloc sz) (s', (p, unat (round_page sz)) # live)"
| hs_free: "live = xs @ (p, unat (round_page sz)) # ys \<Longrightarrow>
     heap_step fuel ld (s, live) (Free p sz) (temp_free s p sz, xs @ ys)"
| hs_write: "(b, n) \<in> set live \<Longrightarrow> unat b \<le> unat p \<Longrightarrow> unat p + length bs \<le> unat b + n \<Longrightarrow>
     heap_step fuel ld (s, live) (Write p bs) (s\<lparr>mm := store_bytes (mm s) p bs\<rparr>, live)"

inductive heap_steps ::
    "nat \<Rightarrow> linker \<Rightarrow> kmem \<times> region list \<Rightarrow> heap_op list \<Rightarrow> kmem \<times> region list \<Rightarrow> bool"
  for fuel ld where
  hs_nil: "heap_steps fuel ld c [] c"
| hs_cons: "heap_step fuel ld c op c' \<Longrightarrow> heap_steps fuel ld c' ops c'' \<Longrightarrow>
     heap_steps fuel ld c (op # ops) c''"

inductive_cases heap_stepE:
  "heap_step fuel ld (s, live) (Alloc sz) c'"
  "heap_step fuel ld (s, live) (Free p sz) c'"
  "heap_step fuel ld (s, live) (Write p bs) c'"

text \<open>The free list is never longer than the number of frees, so fuel above that is enough.\<close>

definition heap_ok :: "linker \<Rightarrow> kmem \<times> region list \<Rightarrow> nat \<Rightarrow> bool" where
  "heap_ok ld = (\<lambda>(s, live) k. \<exists>free. heap_inv ld s free live \<and> length free \<le> k)"

text \<open>Zeroing or writing inside one block leaves the bytes of the other blocks alone.\<close>

lemma blocks_frame:
  assumes "blocks_ok 0 (2 ^ 64) ((b, n) # bs)" "r \<in> set bs" "in_region (fst r) (snd r) x"
  shows "\<not> in_region b n x"
proof -
  obtain c k where r: "r = (c, k)" by (cases r)
  then have "rapart (c, k) (b, n)" "unat c + k \<le> 2 ^ 64" "unat b + n \<le> 2 ^ 64"
    using assms(1,2) by (auto simp: blocks_ok_def)
  with assms(3) show ?thesis by (auto simp: r in_region_range)
qed

lemma blocks_frame2:
  assumes "blocks_ok 0 (2 ^ 64) (as @ bs)" "q \<in> set as" "r \<in> set bs" "in_region (fst r) (snd r) x"
  shows "\<not> in_region (fst q) (snd q) x"
  using assms
  by (intro blocks_frame [of "fst q" "snd q" bs r x])
    (auto simp: blocks_ok_append blocks_ok_Cons, (fastforce simp: blocks_ok_def)+)

lemma heap_alloc_inv:
  assumes inv: "heap_inv ld s free live" and fuel: "length free < fuel" and pos: "0 < sz"
    and lim: "unat (ld_heap_limit ld) + unat sz + 0xFFF < 2 ^ 64"
    and t: "talloc fuel ld s sz = Inr (p, s')"
  defines "n \<equiv> unat (round_page sz)"
  shows "\<exists>free'. heap_inv ld s' free' ((p, n) # live) \<and> length free' \<le> length free
    \<and> load_bytes (mm s') p n = replicate n 0
    \<and> (\<forall>r\<in>set live. \<forall>x. in_region (fst r) (snd r) x \<longrightarrow> mm s' x = mm s x)"
proof -
  have sz: "unat sz + 0xFFF < 2 ^ 64" using lim by simp
  have z: "load_bytes (memset m p 0 (round_page sz)) p n = replicate n 0" for m p
    using unat_lt_2p [of "round_page sz"] by (simp add: length_memset_0 n_def)
  have out: "memset m p 0 (round_page sz) x = m x" if "\<not> in_region p n x" for m p x
    using that by (simp add: length_memset_0 store_bytes_outside n_def)
  show ?thesis
  proof (rule first_fit_cases [of free n])
    fix xs b k ys
    assume f: "free = xs @ (b, k) # ys" "\<forall>(c, k)\<in>set xs. k < n" "n \<le> k"
    have len: "length xs < fuel" using fuel f by simp
    obtain m' p' where r: "talloc fuel ld s sz
          = Inr (b, s\<lparr>temp_free_list := p', mm := memset m' b 0 (round_page sz)\<rparr>)"
        "heap_inv ld (s\<lparr>temp_free_list := p', mm := memset m' b 0 (round_page sz)\<rparr>) (xs @ ys) ((b, n) # live)"
        "\<And>x. (\<forall>r\<in>set (xs @ (b, k) # ys). \<not> in_region (fst r) (snd r) x) \<Longrightarrow> m' x = mm s x"
      using talloc_reuse [OF inv [unfolded f(1)] len f(2,3) [unfolded n_def] pos sz]
      unfolding n_def by blast
    with t have eq: "p = b" "s' = s\<lparr>temp_free_list := p', mm := memset m' b 0 (round_page sz)\<rparr>"
      by auto
    have "mm s' x = mm s x" if q: "q \<in> set live" "in_region (fst q) (snd q) x" for q x
    proof -
      have ok: "blocks_ok 0 (2 ^ 64) ((xs @ (b, k) # ys) @ live)"
        using heap_invD(3) [OF inv] f(1) by simp
      have "\<not> in_region (fst r) (snd r) x" if "r \<in> set (xs @ (b, k) # ys)" for r
        using ok that q by (intro blocks_frame2)
      moreover have "\<not> in_region b n x"
        using heap_invD(3) [OF r(2)] q
        by (intro blocks_frame [of b n live q x]) (auto simp: blocks_ok_append)
      ultimately show ?thesis using r(3) [of x] by (simp add: eq out)
    qed
    with eq r(2) show ?thesis using z f(1) by (intro exI [of _ "xs @ ys"]) auto
  next
    assume small: "\<forall>(b, k)\<in>set free. k < n"
    have lt: "unat (ld_heap_limit ld) + n < 2 ^ 64"
      using lim round_page_bounds(2) [OF sz] by (simp add: n_def)
    have le: "next_free_temp_memory s \<le> ld_heap_limit ld" using inv by (simp add: heap_inv_def)
    have room: "unat (next_free_temp_memory s) + n \<le> unat (ld_heap_limit ld)"
    proof (rule ccontr)
      assume "\<not> ?thesis"
      then have "talloc fuel ld s sz = Inl (Panic ''Kernel allocator overflow'')"
        using le lt by (intro talloc_panics [OF inv fuel small [unfolded n_def]])
          (auto simp: word_le_nat_alt n_def)
      with t show False by simp
    qed
    note b = talloc_bump [OF inv fuel small [unfolded n_def] pos sz room [unfolded n_def]]
    have eq: "p = next_free_temp_memory s" "mm s' = memset (mm s) p 0 (round_page sz)"
      using b(1) t by simp_all
    have inv': "heap_inv ld s' free ((p, n) # live)" using b t by (simp add: n_def)
    have "mm s' x = mm s x" if "q \<in> set live" "in_region (fst q) (snd q) x" for q x
      using heap_invD(3) [OF inv'] that
      by (subst eq(2), intro out blocks_frame [of p n live q x]) (auto simp: blocks_ok_append)
    with inv' show ?thesis by (intro exI [of _ free]) (simp add: eq z)
  qed
qed

lemma heap_free_frame:
  assumes inv: "heap_inv ld s free (xs @ (p, unat (round_page sz)) # ys)" and r: "r \<in> set (xs @ ys)"
    and x: "in_region (fst r) (snd r) x"
  shows "mm (temp_free s p sz) x = mm s x"
proof -
  let ?n = "unat (round_page sz)"
  have ok: "blocks_ok 0 (2 ^ 64) ((p, ?n) # xs @ ys)" and n: "16 \<le> ?n" "unat p + ?n \<le> 2 ^ 64"
    using blocks_ok_move(1) [of 0 "2 ^ 64" xs p ?n ys ?n] heap_invD(3) [OF inv]
    by (auto simp: blocks_ok_append blocks_ok_Cons)
  have "\<not> in_region p ?n x" using blocks_frame [OF ok r x] .
  moreover have "unat (p + 8) = unat p + 8" using n by (intro unat_add_small [THEN trans]) auto
  ultimately have "\<not> in_region p 8 x" "\<not> in_region (p + 8) 8 x" "\<not> in_region p ?n x"
    using n by (auto simp: in_region_range)
  then show ?thesis
    by (simp add: temp_free_def Let_def write64_def length_memset_0 store_bytes_outside)
qed

lemma heap_write_inv:
  assumes inv: "heap_inv ld s free live" and bn: "(b, n) \<in> set live"
    and p: "unat b \<le> unat p" "unat p + length bs \<le> unat b + n"
  shows "heap_inv ld (s\<lparr>mm := store_bytes (mm s) p bs\<rparr>) free live"
proof -
  note ok = heap_invD(3) [OF inv]
  have "unat b + n \<le> 2 ^ 64" using ok bn blocks_ok_bound [of 0 "2 ^ 64" "free @ live" b n] by simp
  moreover have "rapart (p, length bs) r" if "r \<in> set free" for r
  proof -
    obtain c l where r: "r = (c, l)" by (cases r)
    have "rapart (c, l) (b, n)" using ok that bn unfolding blocks_ok_append r by blast
    with p show ?thesis by (auto simp: r)
  qed
  ultimately have "fb_list (store_bytes (mm s) p bs) (temp_free_list s) free"
    using heap_invD(1) [OF inv] ok p
    by (subst fb_list_store [where lo = 0 and hi = "2 ^ 64"]) (auto simp: blocks_ok_append)
  then show ?thesis using inv by (simp add: heap_inv_def)
qed

lemma talloc_frame:
  assumes "talloc fuel ld s sz = Inr (p, s')"
  shows "s' = s\<lparr>mm := mm s', temp_free_list := temp_free_list s',
             next_free_temp_memory := next_free_temp_memory s'\<rparr>"
proof -
  from assms obtain found where
    "free_scan fuel (mm s) (round_page sz) None (temp_free_list s) = Inr found"
    by (auto simp: talloc_def Let_def bindE_eq_Inr)
  with assms show ?thesis
    by (cases s; cases found)
      (auto simp: talloc_def Let_def unlink_block_def split: option.splits if_splits)
qed

text \<open>Within the fuel the only failure is the overflow panic.\<close>

lemma talloc_fails:
  assumes inv: "heap_inv ld s free live" and fuel: "length free < fuel"
    and e: "talloc fuel ld s sz = Inl e"
  shows "e = Panic ''Kernel allocator overflow''"
proof (rule first_fit_cases [of free "unat (round_page sz)"])
  assume "\<forall>(b, n)\<in>set free. n < unat (round_page sz)"
  from free_scan_None [OF heap_invD(1) [OF inv] this fuel] e show ?thesis
    by (auto simp: talloc_def Let_def split: if_splits)
next
  fix xs b n ys
  assume f: "free = xs @ (b, n) # ys" "\<forall>(c, k)\<in>set xs. k < unat (round_page sz)"
    "unat (round_page sz) \<le> n"
  then have "length xs < fuel" using fuel by simp
  from free_scan_Some [OF heap_invD(1) [OF inv, unfolded f(1)] f(2,3) this] e show ?thesis
    by (auto simp: talloc_def Let_def split: if_splits)
qed

lemma heap_step_ok:
  assumes "heap_step fuel ld c op c'" "heap_ok ld c k" "k < fuel"
  shows "heap_ok ld c' (Suc k)"
  using assms
proof (cases rule: heap_step.cases)
  case (hs_alloc s sz p s' live)
  then show ?thesis
    using assms(2,3) heap_alloc_inv [of ld s _ live fuel sz p s'] by (fastforce simp: heap_ok_def)
next
  case (hs_free live xs p sz ys s)
  then show ?thesis
    using assms(2) temp_free_inv [of ld s _ xs p _ ys sz] by (fastforce simp: heap_ok_def)
next
  case (hs_write b n live p bs s)
  then show ?thesis
    using assms(2) heap_write_inv [of ld s _ live b n p bs] by (fastforce simp: heap_ok_def)
qed

lemma heap_steps_ok:
  "heap_steps fuel ld c ops c' \<Longrightarrow> heap_ok ld c k \<Longrightarrow> k + length ops \<le> fuel \<Longrightarrow>
   heap_ok ld c' (k + length ops)"
proof (induction arbitrary: k rule: heap_steps.induct)
  case (hs_cons c op c' ops c'')
  then have "heap_ok ld c' (Suc k)" by (intro heap_step_ok [OF hs_cons.hyps(1)]) auto
  with hs_cons.IH [of "Suc k"] hs_cons.prems show ?case by simp
qed simp

text \<open>The state at boot: nothing allocated, the bump pointer at \<open>heap_bottom\<close>.\<close>

definition heap_boot :: "linker \<Rightarrow> mem \<Rightarrow> kmem" where
  "heap_boot ld m = \<lparr>mm = m, temp_free_list = 0, next_free_temp_memory = ld_heap_bottom ld,
     next_mmio_base = 0\<rparr>"

lemma heap_boot_ok:
  "0 < ld_heap_bottom ld \<Longrightarrow> page_aligned (ld_heap_bottom ld) \<Longrightarrow>
   ld_heap_bottom ld \<le> ld_heap_limit ld \<Longrightarrow> heap_ok ld (heap_boot ld m, []) 0"
  by (auto simp: heap_ok_def heap_inv_def heap_boot_def blocks_ok_def page_aligned_def)

subsection \<open>Properties\<close>

text \<open>C4: Whatever a client does, the early allocator never hands out overlapping memory: after any
  sequence of allocations, frees of live regions and writes inside live regions from boot, the
  live regions start on page boundaries, are pairwise apart and lie between \<open>heap_bottom\<close> and \<open>heap_limit\<close>.  Fuel of the
  number of operations is enough for every search of the free list.\<close>

theorem talloc_no_overlap:
  assumes "heap_steps fuel ld (heap_boot ld m, []) ops (s, live)" "length ops \<le> fuel"
    and "0 < ld_heap_bottom ld" "page_aligned (ld_heap_bottom ld)"
      "ld_heap_bottom ld \<le> ld_heap_limit ld"
  shows "sorted_wrt rapart live
    \<and> (\<forall>r\<in>set live. rwithin (unat (ld_heap_bottom ld)) (unat (ld_heap_limit ld)) r \<and> page_aligned (fst r))"
proof -
  obtain free where inv: "heap_inv ld s free live"
    using heap_steps_ok [OF assms(1) heap_boot_ok [OF assms(3,4,5)]] assms(2) by (auto simp: heap_ok_def)
  then have "next_free_temp_memory s \<le> ld_heap_limit ld" by (simp add: heap_inv_def)
  then have "blocks_ok (unat (ld_heap_bottom ld)) (unat (ld_heap_limit ld)) live"
    using heap_invD(2) [OF inv]
    by (auto simp: blocks_ok_append word_le_nat_alt intro: blocks_ok_mono)
  moreover have "\<forall>r\<in>set live. page_aligned (fst r)" using inv by (simp add: heap_inv_def)
  ultimately show ?thesis by (auto simp: blocks_ok_def)
qed

definition demo_linker :: linker where
  "demo_linker = \<lparr>ld_kernel_start = 0x80000, ld_heap_bottom = 0x100000, ld_heap_limit = 0x200000,
     ld_kcode_end = 0x400000, ld_kfull_end = 0x800000, ld_shared_start = 0x600000,
     ld_shared_end = 0x601000\<rparr>"

lemma demo_linker_simps [simp]:
  "ld_heap_bottom demo_linker = 0x100000" "ld_heap_limit demo_linker = 0x200000"
  "ld_shared_start demo_linker = 0x600000" "ld_kfull_end demo_linker = 0x800000"
  by (simp_all add: demo_linker_def)

lemma demo_two_allocs:
  "\<exists>s. heap_steps 4 demo_linker (heap_boot demo_linker m, []) [Alloc 1, Alloc 0x1001]
     (s, [(0x101000, 0x2000), (0x100000, 0x1000)])"
proof -
  have r: "round_page 1 = 0x1000" "round_page 0x1001 = 0x2000" by (simp_all add: round_page_def)
  define s1 where "s1 = (heap_boot demo_linker m)\<lparr>next_free_temp_memory := 0x101000,
    mm := memset m 0x100000 0 0x1000\<rparr>"
  define s2 where "s2 = s1\<lparr>next_free_temp_memory := 0x103000,
    mm := memset (mm s1) 0x101000 0 0x2000\<rparr>"
  have "talloc 4 demo_linker (heap_boot demo_linker m) 1 = Inr (0x100000, s1)"
    by (simp add: talloc_def heap_boot_def r s1_def)
  then have "heap_step 4 demo_linker (heap_boot demo_linker m, []) (Alloc 1) (s1, [(0x100000, unat (round_page 1))])"
    by (rule hs_alloc) simp_all
  moreover have "talloc 4 demo_linker s1 0x1001 = Inr (0x101000, s2)"
    by (simp add: talloc_def s1_def s2_def heap_boot_def r)
  then have "heap_step 4 demo_linker (s1, [(0x100000, unat (round_page 1))]) (Alloc 0x1001)
      (s2, [(0x101000, unat (round_page 0x1001)), (0x100000, unat (round_page 1))])"
    by (rule hs_alloc) simp_all
  ultimately have "heap_steps 4 demo_linker (heap_boot demo_linker m, []) [Alloc 1, Alloc 0x1001]
      (s2, [(0x101000, unat (round_page 0x1001)), (0x100000, unat (round_page 1))])"
    by (blast intro: hs_cons hs_nil)
  then show ?thesis by (auto simp: r)
qed

theorem talloc_no_overlap_witness:
  "\<exists>s live. heap_steps 4 demo_linker (heap_boot demo_linker (\<lambda>_. 0), []) [Alloc 1, Alloc 0x1001] (s, live)
     \<and> length live = 2 \<and> sorted_wrt rapart live"
proof -
  obtain s where h: "heap_steps 4 demo_linker (heap_boot demo_linker (\<lambda>_. 0), []) [Alloc 1, Alloc 0x1001]
      (s, [(0x101000, 0x2000), (0x100000, 0x1000)])"
    using demo_two_allocs by blast
  have "sorted_wrt rapart [(0x101000, 0x2000), (0x100000, 0x1000)]"
    using talloc_no_overlap [OF h] by (simp add: page_aligned_def)
  with h show ?thesis by fastforce
qed

text \<open>A successful \<open>talloc\<close> returns a page-rounded block that is all zero, apart from every live
  block, and leaves the bytes of every live block as they were, whether it reuses a freed block
  or extends the heap.\<close>

lemma talloc_fresh_zeroed:
  assumes "heap_inv ld s free live" "length free < fuel" "0 < sz"
    and "unat (ld_heap_limit ld) + unat sz + 0xFFF < 2 ^ 64"
    and "talloc fuel ld s sz = Inr (p, s')"
  shows "load_bytes (mm s') p (unat (round_page sz)) = replicate (unat (round_page sz)) 0
    \<and> (\<forall>r\<in>set live. rapart (p, unat (round_page sz)) r
         \<and> (\<forall>x. in_region (fst r) (snd r) x \<longrightarrow> mm s' x = mm s x))"
proof -
  obtain free' where h: "heap_inv ld s' free' ((p, unat (round_page sz)) # live)"
      "load_bytes (mm s') p (unat (round_page sz)) = replicate (unat (round_page sz)) 0"
      "\<forall>r\<in>set live. \<forall>x. in_region (fst r) (snd r) x \<longrightarrow> mm s' x = mm s x"
    using heap_alloc_inv [OF assms] by blast
  then show ?thesis using heap_invD(2) [OF h(1)] by (auto simp: blocks_ok_append blocks_ok_Cons)
qed

lemma talloc_fresh_zeroed_witness:
  "\<exists>p s'. talloc 4 demo_linker (heap_boot demo_linker (\<lambda>_. 0xFF)) 1 = Inr (p, s')
     \<and> load_bytes (mm s') p 0x1000 = replicate 0x1000 0"
proof -
  let ?s = "heap_boot demo_linker (\<lambda>_. 0xFF)"
  have r: "round_page 1 = 0x1000" by (simp add: round_page_def)
  have inv: "heap_inv demo_linker ?s [] []"
    by (simp add: heap_inv_def heap_boot_def blocks_ok_def page_aligned_def)
  have t: "\<exists>p s'. talloc 4 demo_linker ?s 1 = Inr (p, s')"
    by (simp add: talloc_def heap_boot_def r)
  then show ?thesis using talloc_fresh_zeroed [OF inv, of 4 1] by (auto simp: r)
qed

text \<open>A freed block is reused: freeing a live block and asking for the same size again returns
  the same address, zeroed, with the heap back in a state where exactly that block is live.\<close>

lemma temp_free_talloc_roundtrip:
  assumes "heap_inv ld s free (xs @ (p, unat (round_page sz)) # ys)"
    and "0 < sz" "unat sz + 0xFFF < 2 ^ 64" "0 < fuel"
  shows "\<exists>s'. talloc fuel ld (temp_free s p sz) sz = Inr (p, s')
    \<and> heap_inv ld s' free ((p, unat (round_page sz)) # xs @ ys)"
proof -
  have "heap_inv ld (temp_free s p sz) ([] @ (p, unat (round_page sz)) # free) (xs @ ys)"
    using temp_free_inv [OF assms(1)] by simp
  from talloc_reuse [OF this, of fuel sz] assms(2-) show ?thesis by auto
qed

lemma temp_free_talloc_roundtrip_witness:
  "\<exists>s s'. talloc 4 demo_linker (heap_boot demo_linker (\<lambda>_. 0)) 1 = Inr (0x100000, s)
     \<and> talloc 4 demo_linker (temp_free s 0x100000 1) 1 = Inr (0x100000, s')"
proof -
  let ?s = "heap_boot demo_linker (\<lambda>_. 0)"
  have r: "round_page 1 = 0x1000" by (simp add: round_page_def)
  have inv: "heap_inv demo_linker ?s [] []"
    by (simp add: heap_inv_def heap_boot_def blocks_ok_def page_aligned_def)
  obtain s where t: "talloc 4 demo_linker ?s 1 = Inr (0x100000, s)"
    by (simp add: talloc_def heap_boot_def r)
  with heap_alloc_inv [OF inv, of 4 1] have "heap_inv demo_linker s [] ([] @ (0x100000, unat (round_page 1)) # [])"
    by (auto simp: r)
  from t temp_free_talloc_roundtrip [OF this, of 4] show ?thesis by auto
qed

end
