(* ===== verification/Mmu.thy ===== *)
theory Mmu
  imports Talloc
begin

section \<open>Page tables (\<open>kernel/memory/mmu.c\<close>)\<close>

text \<open>
  The four-level translation tables the kernel builds.  The top table \<open>page_table_l0\<close> is a static
  array, the lower tables are pages from \<open>talloc\<close>, read and written through the byte memory.  The
  instructions that act on the processor (TLB and instruction cache maintenance, system registers)
  are events of a log, in the order they are issued.  \<open>mmu_leaf\<close> is what the hardware walk finds
  for an address: the specification against which mapping and unmapping are proved.
\<close>

datatype mmu_event =
    TlbFlush | ICacheFlush
  | SetMair u64 | SetTcr u64 | SetTtbr0 | EnableMmu
  | MapError u64 u64 u64 u64 u64
  | MapWarning u64

record mmu_state = kmem +
  page_table_l0 :: "u64 \<Rightarrow> u64"
  mmu_events :: "mmu_event list"

subsection \<open>Indices and descriptors\<close>

definition l0_index :: "u64 \<Rightarrow> u64" where "l0_index va = drop_bit 39 va AND 0x1FF"

definition l1_index :: "u64 \<Rightarrow> u64" where "l1_index va = drop_bit 30 va AND 0x1FF"

definition l2_index :: "u64 \<Rightarrow> u64" where "l2_index va = drop_bit 21 va AND 0x1FF"

definition l3_index :: "u64 \<Rightarrow> u64" where "l3_index va = drop_bit 12 va AND 0x1FF"

definition table_addr :: "u64 \<Rightarrow> u64" where
  "table_addr e = e AND 0xFFFFFFFFF000"

definition table_desc :: "u64 \<Rightarrow> u64" where
  "table_desc t = (t AND 0xFFFFFFFFF000) OR 3"

definition entry_at :: "'a kmem_scheme \<Rightarrow> u64 \<Rightarrow> u64 \<Rightarrow> u64" where
  "entry_at s tbl i = read64 (mm s) (tbl + 8 * i)"

definition set_entry :: "'a kmem_scheme \<Rightarrow> u64 \<Rightarrow> u64 \<Rightarrow> u64 \<Rightarrow> 'a kmem_scheme" where
  "set_entry s tbl i v = s\<lparr>mm := write64 (mm s) (tbl + 8 * i) v\<rparr>"

text \<open>A missing table is allocated and linked in; an existing one is left as it is.\<close>

definition ensure_l1 :: "nat \<Rightarrow> linker \<Rightarrow> 'a mmu_state_scheme \<Rightarrow> u64 \<Rightarrow> fault + 'a mmu_state_scheme" where
  "ensure_l1 fuel ld s i =
     (if page_table_l0 s i AND 1 = 0 then
        bindE (talloc fuel ld s 0x1000) (\<lambda>(t, s').
          Inr (s'\<lparr>page_table_l0 := (page_table_l0 s')(i := table_desc t)\<rparr>))
      else Inr s)"

definition ensure_table ::
    "nat \<Rightarrow> linker \<Rightarrow> 'a mmu_state_scheme \<Rightarrow> u64 \<Rightarrow> u64 \<Rightarrow> fault + 'a mmu_state_scheme" where
  "ensure_table fuel ld s tbl i =
     (if entry_at s tbl i AND 1 = 0 then
        bindE (talloc fuel ld s 0x1000) (\<lambda>(t, s'). Inr (set_entry s' tbl i (table_desc t)))
      else Inr s)"

definition log_mmu :: "mmu_event list \<Rightarrow> 'a mmu_state_scheme \<Rightarrow> 'a mmu_state_scheme" where
  "log_mmu es s = s\<lparr>mmu_events := mmu_events s @ es\<rparr>"

subsection \<open>Mapping and unmapping\<close>

definition block_attr :: "u64 \<Rightarrow> u64" where
  "block_attr attr_index =
     push_bit 54 1 OR push_bit 53 0 OR push_bit 10 1 OR push_bit 8 3 OR push_bit 6 0
       OR push_bit 2 attr_index OR 1"

definition page_attr :: "u64 \<Rightarrow> u64 \<Rightarrow> u64 \<Rightarrow> u64" where
  "page_attr level permission attr_index =
     push_bit 54 (if level = 1 then 1 else 0) OR push_bit 53 0 OR push_bit 10 1 OR push_bit 8 1
       OR push_bit 6 permission OR push_bit 2 attr_index OR 3"

definition mmu_map_2mb ::
    "nat \<Rightarrow> linker \<Rightarrow> 'a mmu_state_scheme \<Rightarrow> u64 \<Rightarrow> u64 \<Rightarrow> u64 \<Rightarrow> fault + 'a mmu_state_scheme" where
  "mmu_map_2mb fuel ld s va pa attr_index =
     bindE (ensure_l1 fuel ld s (l0_index va)) (\<lambda>s.
       let l1 = table_addr (page_table_l0 s (l0_index va))
       in bindE (ensure_table fuel ld s l1 (l1_index va)) (\<lambda>s.
         let l2 = table_addr (entry_at s l1 (l1_index va))
         in Inr (set_entry s l2 (l2_index va) ((pa AND 0xFFFFFFFFF000) OR block_attr attr_index))))"

definition level_permission :: "u64 \<Rightarrow> fault + u64" where
  "level_permission level =
     (if level = 0 then Inr 1 else if level = 1 then Inr 0 else if level = 2 then Inr 2
      else Inl Uninit)"

definition mmu_map_4kb ::
    "nat \<Rightarrow> linker \<Rightarrow> 'a mmu_state_scheme \<Rightarrow> u64 \<Rightarrow> u64 \<Rightarrow> u64 \<Rightarrow> u64 \<Rightarrow> fault + 'a mmu_state_scheme" where
  "mmu_map_4kb fuel ld s va pa attr_index level =
     bindE (ensure_l1 fuel ld s (l0_index va)) (\<lambda>s.
       let l1 = table_addr (page_table_l0 s (l0_index va))
       in bindE (ensure_table fuel ld s l1 (l1_index va)) (\<lambda>s.
         let l2 = table_addr (entry_at s l1 (l1_index va)); l2_val = entry_at s l2 (l2_index va)
         in if l2_val AND 1 \<noteq> 0 \<and> l2_val AND 3 = 1 then
              Inr (log_mmu [MapError va (l0_index va) (l1_index va) (l2_index va) (l3_index va)] s)
            else bindE (ensure_table fuel ld s l2 (l2_index va)) (\<lambda>s.
              let l3 = table_addr (entry_at s l2 (l2_index va))
              in if entry_at s l3 (l3_index va) AND 1 \<noteq> 0 then Inr (log_mmu [MapWarning va] s)
                 else bindE (level_permission level) (\<lambda>permission.
                   Inr (set_entry s l3 (l3_index va)
                          ((pa AND 0xFFFFFFFFF000) OR page_attr level permission attr_index))))))"

definition mmu_unmap :: "'a mmu_state_scheme \<Rightarrow> u64 \<Rightarrow> u64 \<Rightarrow> 'a mmu_state_scheme" where
  "mmu_unmap s va pa =
     (if page_table_l0 s (l0_index va) AND 1 = 0 then s
      else
        let l1 = table_addr (page_table_l0 s (l0_index va))
        in if entry_at s l1 (l1_index va) AND 1 = 0 then s
           else
             let l2 = table_addr (entry_at s l1 (l1_index va)); l3_val = entry_at s l2 (l2_index va)
             in if l3_val AND 1 = 0 then s
                else if l3_val AND 3 = 1 then set_entry s l2 (l2_index va) 0
                else log_mmu [TlbFlush, ICacheFlush]
                       (set_entry s (table_addr l3_val) (l3_index va) 0))"

definition register_device_memory ::
    "nat \<Rightarrow> linker \<Rightarrow> 'a mmu_state_scheme \<Rightarrow> u64 \<Rightarrow> u64 \<Rightarrow> fault + 'a mmu_state_scheme" where
  "register_device_memory fuel ld s va pa =
     bindE (mmu_map_4kb fuel ld s va pa 0 1) (\<lambda>s. Inr (log_mmu [TlbFlush, ICacheFlush] s))"

definition register_device_memory_2mb ::
    "nat \<Rightarrow> linker \<Rightarrow> 'a mmu_state_scheme \<Rightarrow> u64 \<Rightarrow> u64 \<Rightarrow> fault + 'a mmu_state_scheme" where
  "register_device_memory_2mb fuel ld s va pa =
     bindE (mmu_map_2mb fuel ld s va pa 0) (\<lambda>s. Inr (log_mmu [TlbFlush, ICacheFlush] s))"

definition register_proc_memory ::
    "nat \<Rightarrow> linker \<Rightarrow> 'a mmu_state_scheme \<Rightarrow> u64 \<Rightarrow> u64 \<Rightarrow> u32 \<Rightarrow> fault + 'a mmu_state_scheme" where
  "register_proc_memory fuel ld s va pa kern =
     bindE (mmu_map_4kb fuel ld s va pa 1 (ucast kern)) (\<lambda>s.
       Inr (log_mmu [TlbFlush, ICacheFlush] s))"

text \<open>What \<open>debug_mmu_address\<close> reports; its top-level index is taken from bit 37.\<close>

datatype mmu_report = L1Missing | L2Missing | L3Missing | Mapped2MB u64 | L4Missing | Mapped4KB u64

definition debug_mmu_address :: "'a mmu_state_scheme \<Rightarrow> u64 \<Rightarrow> mmu_report" where
  "debug_mmu_address s va =
     (let i0 = drop_bit 37 va AND 0x1FF; e0 = page_table_l0 s i0
      in if e0 AND 1 = 0 then L1Missing
         else
           let l1 = table_addr e0; e1 = entry_at s l1 (l1_index va)
           in if e1 AND 1 = 0 then L2Missing
              else
                let l2 = table_addr e1; l3_val = entry_at s l2 (l2_index va)
                in if l3_val AND 1 = 0 then L3Missing
                   else if drop_bit 1 l3_val AND 1 = 0 then Mapped2MB l3_val
                   else
                     let l4_val = entry_at s (table_addr l3_val) (l3_index va)
                     in if l4_val AND 1 = 0 then L4Missing else Mapped4KB l4_val)"

subsection \<open>Bringing the MMU up\<close>

text \<open>\<open>for (addr = a; addr <= b; addr += step) f(addr)\<close>; the fuel bounds the number of rounds.\<close>

fun for_range :: "nat \<Rightarrow> ('s \<Rightarrow> u64 \<Rightarrow> fault + 's) \<Rightarrow> u64 \<Rightarrow> u64 \<Rightarrow> u64 \<Rightarrow> 's \<Rightarrow> fault + 's" where
  "for_range 0 f a b step s = (if a \<le> b then Inl OutOfFuel else Inr s)"
| "for_range (Suc k) f a b step s =
     (if a \<le> b then bindE (f s a) (for_range k f (a + step) b step) else Inr s)"

definition tcr_value :: u64 where
  "tcr_value = scast (push_bit 0 16 OR push_bit 16 16 OR push_bit 14 0 OR push_bit 30 2 :: u32)"

definition mair_value :: u64 where
  "mair_value = push_bit 0 0 OR push_bit 8 0x44"

definition mmu_init ::
    "nat \<Rightarrow> linker \<Rightarrow> 'a mmu_state_scheme \<Rightarrow> u64 \<Rightarrow> u64 \<Rightarrow> u64 \<Rightarrow> u64 \<Rightarrow> (u64 \<times> u64) option
     \<Rightarrow> fault + 'a mmu_state_scheme" where
  "mmu_init fuel ld s uart gicd gicc xhci dtb =
     (let normal2 = (\<lambda>s a. mmu_map_2mb fuel ld s a a 1);
          dev = (\<lambda>s a. mmu_map_4kb fuel ld s a a 0 1);
          shr = (\<lambda>s a. mmu_map_4kb fuel ld s a a 1 2);
          normal = (\<lambda>s a. mmu_map_4kb fuel ld s a a 1 1)
      in bindE (for_range fuel normal2 (mem_get_kmem_start ld) (mem_get_kmem_end ld) 0x200000 s) (\<lambda>s.
         bindE (for_range fuel dev uart uart 0x1000 s) (\<lambda>s.
         bindE (for_range fuel dev gicd (gicc + 0x1000) 0x1000 s) (\<lambda>s.
         bindE (for_range fuel shr (get_shared_start ld) (get_shared_end ld) 0x1000 s) (\<lambda>s.
         bindE (if xhci \<noteq> 0 then for_range fuel dev xhci (xhci + 0x1000) 0x1000 s else Inr s) (\<lambda>s.
         bindE (case dtb of
                  Some (dstart, dsize) \<Rightarrow> for_range fuel normal dstart (dstart + dsize) 0x1000 s
                | None \<Rightarrow> Inr s) (\<lambda>s.
         Inr (log_mmu [SetMair mair_value, SetTcr tcr_value, SetTtbr0, EnableMmu] s))))))))"

subsection \<open>What the hardware finds\<close>

definition mmu_leaf :: "'a mmu_state_scheme \<Rightarrow> u64 \<Rightarrow> u64 option" where
  "mmu_leaf s va =
     (let e0 = page_table_l0 s (l0_index va)
      in if e0 AND 1 = 0 then None
         else
           let e1 = entry_at s (table_addr e0) (l1_index va)
           in if e1 AND 1 = 0 then None
              else
                let e2 = entry_at s (table_addr e1) (l2_index va)
                in if e2 AND 1 = 0 then None
                   else if e2 AND 3 = 1 then Some e2
                   else
                     let e3 = entry_at s (table_addr e2) (l3_index va)
                     in if e3 AND 1 = 0 then None else Some e3)"

subsection \<open>The tree of tables\<close>

text \<open>
  Ghost view: \<open>P\<close> sends the path of indices to a lower table to its address (\<open>[]\<close> stands for
  \<open>page_table_l0\<close>).  Every table is a live page of the heap of its own, and an entry of a table is
  a descriptor exactly when the longer path is in \<open>P\<close>.
\<close>

type_synonym ptree = "u64 list \<Rightarrow> u64 option"

definition at_path :: "ptree \<Rightarrow> u64 list \<Rightarrow> bool" where
  "at_path P p \<longleftrightarrow> p = [] \<or> P p \<noteq> None"

definition pt_entry :: "'a mmu_state_scheme \<Rightarrow> ptree \<Rightarrow> u64 list \<Rightarrow> u64 \<Rightarrow> u64" where
  "pt_entry s P p i = (if p = [] then page_table_l0 s i else entry_at s (the (P p)) i)"

definition pt_set :: "'a mmu_state_scheme \<Rightarrow> ptree \<Rightarrow> u64 list \<Rightarrow> u64 \<Rightarrow> u64 \<Rightarrow> 'a mmu_state_scheme" where
  "pt_set s P p i v =
     (if p = [] then s\<lparr>page_table_l0 := (page_table_l0 s)(i := v)\<rparr> else set_entry s (the (P p)) i v)"

definition points :: "u64 list \<Rightarrow> u64 \<Rightarrow> bool" where
  "points p e \<longleftrightarrow> (if length p < 2 then e AND 1 \<noteq> 0 else e AND 3 = 3)"

definition table_ok :: "region list \<Rightarrow> u64 \<Rightarrow> bool" where
  "table_ok live t \<longleftrightarrow> (t, 0x1000) \<in> set live \<and> page_aligned t \<and> unat t < 2 ^ 48"

definition pt_tree :: "ptree \<Rightarrow> 'a mmu_state_scheme \<Rightarrow> region list \<Rightarrow> bool" where
  "pt_tree P s live \<longleftrightarrow>
     P [] = None
     \<and> (\<forall>p t. P p = Some t \<longrightarrow> table_ok live t)
     \<and> (\<forall>p q t. P p = Some t \<longrightarrow> P q = Some t \<longrightarrow> p = q)
     \<and> (\<forall>p i. P (p @ [i]) \<noteq> None \<longrightarrow> at_path P p \<and> length p < 3 \<and> i < 512)
     \<and> (\<forall>p i. at_path P p \<longrightarrow> length p < 3 \<longrightarrow> i < 512 \<longrightarrow>
          (if points p (pt_entry s P p i)
           then \<exists>t. P (p @ [i]) = Some t \<and> pt_entry s P p i = t OR 3
           else P (p @ [i]) = None))"

lemma pt_treeD:
  assumes "pt_tree P s live"
  shows "P [] = None" "P p = Some t \<Longrightarrow> table_ok live t" "P p = Some t \<Longrightarrow> P q = Some t \<Longrightarrow> p = q"
    "P (p @ [i]) \<noteq> None \<Longrightarrow> at_path P p \<and> length p < 3 \<and> i < 512"
    "at_path P p \<Longrightarrow> length p < 3 \<Longrightarrow> i < 512 \<Longrightarrow> points p (pt_entry s P p i) \<Longrightarrow>
       \<exists>t. P (p @ [i]) = Some t \<and> pt_entry s P p i = t OR 3"
    "at_path P p \<Longrightarrow> length p < 3 \<Longrightarrow> i < 512 \<Longrightarrow> \<not> points p (pt_entry s P p i) \<Longrightarrow> P (p @ [i]) = None"
  using assms unfolding pt_tree_def by metis+

lemma index_less [simp]:
  "l0_index va < 512" "l1_index va < 512" "l2_index va < 512" "l3_index va < 512"
  by (simp_all add: l0_index_def l1_index_def l2_index_def l3_index_def mask_numerals(3)
      word_less_nat_alt unat_and_mask)

lemma table_addr_desc:
  assumes "page_aligned t" "unat t < 2 ^ 48"
  shows "table_addr (t OR 3) = t" "table_desc t = t OR 3" "(t OR 3) AND 3 = 3" "(t OR 3) AND 1 = 1"
proof -
  have lo: "\<not> bit t i" if "i < 12" for i
  proof -
    have "unat (t AND mask 12) = 0" using assms(1) by (simp add: unat_and_mask page_aligned_def)
    then have "t AND mask 12 = 0" by (simp add: unat_eq_0)
    then have "\<not> bit (t AND mask 12) i" by simp
    then show ?thesis using that by (auto simp: bit_and_iff bit_mask_iff dest: bit_imp_le_length)
  qed
  have hi: "\<not> bit t i" if "48 \<le> i" for i
  proof
    assume "bit t i"
    moreover have "t AND mask 48 = t" using assms(2) by (intro less_mask_eq) (simp add: word_less_nat_alt)
    ultimately have "bit (t AND mask 48) i" by simp
    with that show False unfolding bit_and_iff bit_mask_iff by simp
  qed
  have m: "(0xFFFFFFFFF000 :: u64) = push_bit 12 (mask 36)" "(3 :: u64) = mask 2" "(1 :: u64) = mask 1"
    by (simp_all add: mask_eq_exp_minus_1)
  have tm: "t AND 0xFFFFFFFFF000 = t"
  proof (rule bit_word_eqI)
    fix i assume "i < LENGTH(64)"
    then show "bit (t AND 0xFFFFFFFFF000) i \<longleftrightarrow> bit t i"
      unfolding m by (cases "i < 12"; cases "48 \<le> i") (auto simp: bit_simps lo hi)
  qed
  then show "table_desc t = t OR 3" by (simp add: table_desc_def)
  show "table_addr (t OR 3) = t"
  proof (rule bit_word_eqI)
    fix i assume "i < LENGTH(64)"
    then show "bit (table_addr (t OR 3)) i \<longleftrightarrow> bit t i"
      unfolding table_addr_def m
      by (cases "i < 12"; cases "48 \<le> i") (auto simp: bit_simps lo hi)
  qed
  show "(t OR 3) AND 3 = 3" "(t OR 3) AND 1 = 1"
    unfolding m by (rule bit_word_eqI; auto simp: bit_simps)+
qed

lemma pt_table:
  assumes "pt_tree P s live" "P p = Some t"
  shows "table_addr (t OR 3) = t" "table_desc t = t OR 3" "(t OR 3) AND 3 = 3" "(t OR 3) AND 1 = 1"
  using table_addr_desc [of t] pt_treeD(2) [OF assms(1,2)] by (auto simp: table_ok_def)

lemma unat_entry:
  fixes i :: u64
  assumes "unat t + 0x1000 \<le> 2 ^ 64" "i < 512"
  shows "unat (t + 8 * i) = unat t + 8 * unat i" "unat i < 512"
proof -
  show i: "unat i < 512" using assms(2) by (simp add: word_less_nat_alt)
  then have "unat (8 * i) = 8 * unat i" using unat_mult_small [of 8 i] by simp
  with i assms(1) show "unat (t + 8 * i) = unat t + 8 * unat i"
    using unat_add_small [of t "8 * i"] by simp
qed

lemma entry_set:
  assumes "table_ok live t" "table_ok live u" "blocks_ok 0 (2 ^ 64) live" "i < 512" "j < 512"
  shows "entry_at (set_entry s t i v) u j = (if t = u \<and> i = j then v else entry_at s u j)"
proof -
  have b: "unat t + 0x1000 \<le> 2 ^ 64" "unat u + 0x1000 \<le> 2 ^ 64"
    using assms(1-3) blocks_ok_bound [of 0 "2 ^ 64" live] by (auto simp: table_ok_def)
  note e = unat_entry [OF b(1) assms(4)] unat_entry [OF b(2) assms(5)]
  have "read64 (write64 (mm s) (t + 8 * i) v) (u + 8 * j) = read64 (mm s) (u + 8 * j)"
    if ne: "\<not> (t = u \<and> i = j)"
  proof (rule read64_write64_disj, rule rapart_disj)
    show "rapart (u + 8 * j, 8) (t + 8 * i, 8)"
    proof (cases "t = u")
      case True
      with ne have "unat i \<noteq> unat j" by (auto simp: word_unat_eq_iff)
      then show ?thesis using e True by auto
    next
      case False
      then have "rapart (u, 0x1000) (t, 0x1000)"
        using assms(1-3) by (intro blocks_ok_apart [of 0 "2 ^ 64" live]) (auto simp: table_ok_def)
      then show ?thesis using e by auto
    qed
  qed (use e b in auto)
  then show ?thesis by (auto simp: entry_at_def set_entry_def)
qed

lemma at_path_table:
  "pt_tree P s live \<Longrightarrow> at_path P p \<Longrightarrow> p \<noteq> [] \<Longrightarrow> table_ok live (the (P p))"
  using pt_treeD(2) by (fastforce simp: at_path_def)

lemma pt_entry_set:
  assumes "pt_tree P s live" "blocks_ok 0 (2 ^ 64) live" "at_path P p" "at_path P q" "i < 512" "j < 512"
  shows "pt_entry (pt_set s P p i v) P q j = (if p = q \<and> i = j then v else pt_entry s P q j)"
proof (cases "p = [] \<or> q = []")
  case True
  then show ?thesis by (auto simp: pt_entry_def pt_set_def entry_at_def set_entry_def)
next
  case False
  with assms have t: "table_ok live (the (P p))" "table_ok live (the (P q))"
    by (auto intro: at_path_table)
  have "the (P p) = the (P q) \<Longrightarrow> p = q"
    using assms(3,4) False pt_treeD(3) [OF assms(1)] by (fastforce simp: at_path_def)
  then show ?thesis
    using False entry_set [OF t assms(2,5,6), of s v] by (auto simp: pt_entry_def pt_set_def)
qed

subsection \<open>The walk along the tree\<close>

definition pt_walk :: "ptree \<Rightarrow> 'a mmu_state_scheme \<Rightarrow> u64 \<Rightarrow> u64 \<Rightarrow> u64 \<Rightarrow> u64 \<Rightarrow> u64 option" where
  "pt_walk P s i j k l =
     (if P [i] = None \<or> P [i, j] = None then None
      else
        let e2 = pt_entry s P [i, j] k
        in if e2 AND 1 = 0 then None else if e2 AND 3 = 1 then Some e2
           else let e3 = pt_entry s P [i, j, k] l in if e3 AND 1 = 0 then None else Some e3)"

lemma unat_and_1_3: "unat (e AND 1 :: u64) = unat e mod 2" "unat (e AND 3 :: u64) = unat e mod 4"
proof -
  have "(1 :: u64) = mask 1" "(3 :: u64) = mask 2" by (simp_all add: mask_eq_exp_minus_1)
  then show "unat (e AND 1) = unat e mod 2" "unat (e AND 3) = unat e mod 4"
    using unat_and_mask [of e 1] unat_and_mask [of e 2] by simp_all
qed

lemma and_1_3: "(e :: u64) AND 1 \<noteq> 0 \<longleftrightarrow> e AND 3 = 1 \<or> e AND 3 = 3"
proof -
  have "unat e mod 2 \<noteq> 0 \<longleftrightarrow> unat e mod 4 = 1 \<or> unat e mod 4 = 3" by presburger
  then show ?thesis by (simp add: word_unat_eq_iff unat_and_1_3)
qed

lemma pt_child:
  assumes "pt_tree P s live" "at_path P p" "length p < 2" "i < 512"
  shows "pt_entry s P p i AND 1 = 0 \<longleftrightarrow> P (p @ [i]) = None"
    and "pt_entry s P p i AND 1 \<noteq> 0 \<Longrightarrow>
           P (p @ [i]) = Some (table_addr (pt_entry s P p i)) \<and> at_path P (p @ [i])"
proof -
  have len: "length p < 3" and pts: "points p e \<longleftrightarrow> e AND 1 \<noteq> 0" for e
    using assms(3) by (auto simp: points_def)
  show "pt_entry s P p i AND 1 = 0 \<longleftrightarrow> P (p @ [i]) = None"
    using pt_treeD(5,6) [OF assms(1,2) len assms(4)] pts by fastforce
  assume "pt_entry s P p i AND 1 \<noteq> 0"
  then obtain t where "P (p @ [i]) = Some t" "pt_entry s P p i = t OR 3"
    using pt_treeD(5) [OF assms(1,2) len assms(4)] pts by blast
  then show "P (p @ [i]) = Some (table_addr (pt_entry s P p i)) \<and> at_path P (p @ [i])"
    using pt_table(1) [OF assms(1)] by (simp add: at_path_def)
qed

lemma pt_child2:
  assumes "pt_tree P s live" "P [a, b] \<noteq> None" "i < 512"
  shows "P [a, b, i] = None \<longleftrightarrow> pt_entry s P [a, b] i AND 3 \<noteq> 3"
    and "pt_entry s P [a, b] i AND 3 = 3 \<Longrightarrow> P [a, b, i] = Some (table_addr (pt_entry s P [a, b] i))"
proof -
  have at: "at_path P [a, b]" using assms(2) by (simp add: at_path_def)
  have pts: "points [a, b] e \<longleftrightarrow> e AND 3 = 3" for e by (simp add: points_def)
  note d = pt_treeD(5,6) [OF assms(1) at _ assms(3), unfolded pts, simplified]
  show "P [a, b, i] = None \<longleftrightarrow> pt_entry s P [a, b] i AND 3 \<noteq> 3" using d by fastforce
  assume "pt_entry s P [a, b] i AND 3 = 3"
  with d obtain t where "P [a, b, i] = Some t" "pt_entry s P [a, b] i = t OR 3" by blast
  then show "P [a, b, i] = Some (table_addr (pt_entry s P [a, b] i))"
    using pt_table(1) [OF assms(1)] by simp
qed

lemma mmu_leaf_walk:
  assumes "pt_tree P s live"
  shows "mmu_leaf s va = pt_walk P s (l0_index va) (l1_index va) (l2_index va) (l3_index va)"
proof -
  let ?i = "l0_index va" and ?j = "l1_index va" and ?k = "l2_index va"
  have root: "at_path P []" "page_table_l0 s ?i = pt_entry s P [] ?i"
    by (simp_all add: at_path_def pt_entry_def)
  note c1 = pt_child [OF assms root(1), of ?i, simplified]
  show ?thesis
  proof (cases "P [?i]")
    case None
    then show ?thesis using c1 by (simp add: mmu_leaf_def pt_walk_def root)
  next
    case (Some t1)
    then have at1: "at_path P [?i]" by (simp add: at_path_def)
    note c2 = pt_child [OF assms at1, of ?j, simplified]
    have e1: "entry_at s (table_addr (pt_entry s P [] ?i)) ?j = pt_entry s P [?i] ?j"
      using c1 Some by (simp add: pt_entry_def)
    show ?thesis
    proof (cases "P [?i, ?j]")
      case None
      then show ?thesis using c1 c2 Some by (simp add: mmu_leaf_def pt_walk_def root e1)
    next
      case S2: (Some t2)
      then have n2: "P [?i, ?j] \<noteq> None" by simp
      have e2: "entry_at s (table_addr (pt_entry s P [?i] ?j)) ?k = pt_entry s P [?i, ?j] ?k"
        using c2 S2 by (simp add: pt_entry_def)
      have e3: "entry_at s (table_addr (pt_entry s P [?i, ?j] ?k)) (l3_index va)
          = pt_entry s P [?i, ?j, ?k] (l3_index va)" if "pt_entry s P [?i, ?j] ?k AND 3 = 3"
        using pt_child2(2) [OF assms n2 index_less(3) that] by (simp add: pt_entry_def [of s P "[_,_,_]"])
      show ?thesis using c1 c2 Some S2 e3 and_1_3 [of "pt_entry s P [?i, ?j] ?k"]
        by (auto simp: mmu_leaf_def pt_walk_def root e1 e2 Let_def)
    qed
  qed
qed

subsection \<open>Adding a table\<close>

definition pt_ok :: "nat \<Rightarrow> linker \<Rightarrow> 'a mmu_state_scheme \<Rightarrow> ptree \<Rightarrow> bool" where
  "pt_ok fuel ld s P \<longleftrightarrow> unat (ld_heap_limit ld) \<le> 2 ^ 48 \<and>
     (\<exists>free live. heap_inv ld s free live \<and> length free < fuel \<and> pt_tree P s live)"

definition same_walks :: "ptree \<Rightarrow> 'a mmu_state_scheme \<Rightarrow> ptree \<Rightarrow> 'a mmu_state_scheme \<Rightarrow> bool" where
  "same_walks P s P' s' \<longleftrightarrow> (\<forall>i j k l. i < 512 \<longrightarrow> j < 512 \<longrightarrow> k < 512 \<longrightarrow> l < 512 \<longrightarrow>
     pt_walk P' s' i j k l = pt_walk P s i j k l)"

lemma same_walks_trans [trans]:
  "same_walks P s Q t \<Longrightarrow> same_walks Q t R u \<Longrightarrow> same_walks P s R u"
  by (simp add: same_walks_def)

lemma zero_page_entry:
  assumes zero: "load_bytes (mm s) t n = replicate n 0" and n: "n = 0x1000" and "i < (512 :: u64)"
  shows "entry_at s t i = 0"
proof -
  have z: "mm s (t + of_nat m) = 0" if "m < n" for m
    using nth_load_bytes [OF that, of "mm s" t] zero that by simp
  have "unat i < 512" using assms(3) by (simp add: word_less_nat_alt)
  then have lt: "8 * unat i + k < n" if "k < 8" for k using that n by simp
  have eq: "t + 8 * i + of_nat k = t + of_nat (8 * unat i + k)" for k by simp
  have "load_bytes (mm s) (t + 8 * i) 8 = replicate 8 0"
    by (rule nth_equalityI) (simp_all only: length_load_bytes length_replicate nth_load_bytes nth_replicate eq z lt)
  then show ?thesis by (simp only: entry_at_def read64_def of_le_replicate_0)
qed

lemma pt_walk_cong:
  assumes tree: "pt_tree P s live" and k: "k < 512"
    and P: "P' [i] = None \<longleftrightarrow> P [i] = None" "P' [i, j] = None \<longleftrightarrow> P [i, j] = None"
    and e2: "P [i, j] \<noteq> None \<Longrightarrow> pt_entry s' P' [i, j] k = pt_entry s P [i, j] k"
    and e3: "P [i, j, k] \<noteq> None \<Longrightarrow> pt_entry s' P' [i, j, k] l = pt_entry s P [i, j, k] l"
  shows "pt_walk P' s' i j k l = pt_walk P s i j k l"
proof (cases "P [i] = None \<or> P [i, j] = None")
  case True
  then show ?thesis using P by (auto simp: pt_walk_def)
next
  case False
  then have ne: "P [i, j] \<noteq> None" by simp
  have "pt_entry s P [i, j] k AND 3 = 3 \<Longrightarrow> pt_entry s' P' [i, j, k] l = pt_entry s P [i, j, k] l"
    using e3 pt_child2(2) [OF tree ne k] by simp
  then show ?thesis
    using False P e2 [OF ne] and_1_3 [of "pt_entry s P [i, j] k"] by (auto simp: pt_walk_def Let_def)
qed

lemma pt_entry_after_grow:
  assumes tree: "pt_tree P s1 live" and ok: "blocks_ok 0 (2 ^ 64) live"
    and p: "at_path P p" "i < 512" and new: "P (p @ [i]) = None"
    and t: "table_ok live t" "\<And>q. P q \<noteq> Some t" "\<And>j. j < 512 \<Longrightarrow> entry_at s1 t j = 0"
    and q: "at_path (P(p @ [i] \<mapsto> t)) q" "j < 512"
  shows "pt_entry (pt_set s1 P p i v) (P(p @ [i] \<mapsto> t)) q j =
           (if q = p \<and> j = i then v else if q = p @ [i] then 0 else pt_entry s1 P q j)"
proof (cases "q = p @ [i]")
  case True
  then have eq: "pt_entry (pt_set s1 P p i v) (P(p @ [i] \<mapsto> t)) q j = entry_at (pt_set s1 P p i v) t j"
    by (simp add: pt_entry_def)
  show ?thesis
  proof (cases "p = []")
    case True
    then show ?thesis unfolding eq using \<open>q = p @ [i]\<close> t(3) [OF q(2)] by (simp add: pt_set_def entry_at_def)
  next
    case False
    then obtain u where u: "P p = Some u" "u \<noteq> t" using p(1) t(2) by (auto simp: at_path_def)
    have "table_ok live u" using pt_treeD(2) [OF tree u(1)] .
    then show ?thesis
      unfolding eq using False u \<open>q = p @ [i]\<close> t(3) [OF q(2)] entry_set [OF _ t(1) ok p(2) q(2), of u s1 v]
      by (simp add: pt_set_def)
  qed
next
  case False
  then have at: "at_path P q" using q(1) by (auto simp: at_path_def split: if_splits)
  have "pt_entry (pt_set s1 P p i v) (P(p @ [i] \<mapsto> t)) q j = pt_entry (pt_set s1 P p i v) P q j"
    using False by (simp add: pt_entry_def)
  then show ?thesis using False pt_entry_set [OF tree ok p(1) at p(2) q(2), of v] by auto
qed

lemma pt_tree_frame:
  assumes "pt_tree P s live" "\<And>q j. at_path P q \<Longrightarrow> j < 512 \<Longrightarrow> pt_entry s' P q j = pt_entry s P q j"
    "set live \<subseteq> set live'"
  shows "pt_tree P s' live'"
  unfolding pt_tree_def
proof (intro conjI allI impI)
  show "P [] = None" by (rule pt_treeD(1) [OF assms(1)])
  show "table_ok live' t" if "P p = Some t" for p t
    using pt_treeD(2) [OF assms(1) that] assms(3) by (auto simp: table_ok_def)
  show "p = q" if "P p = Some t" "P q = Some t" for p q t
    by (rule pt_treeD(3) [OF assms(1) that])
  show "at_path P p" "length p < 3" "i < 512" if "P (p @ [i]) \<noteq> None" for p and i :: u64
    using pt_treeD(4) [OF assms(1) that] by simp_all
  fix p and i :: u64 assume p: "at_path P p" "length p < 3" "i < 512"
  show "if points p (pt_entry s' P p i) then \<exists>t. P (p @ [i]) = Some t \<and> pt_entry s' P p i = t OR 3
      else P (p @ [i]) = None"
    unfolding assms(2) [OF p(1,3)] using pt_treeD(5,6) [OF assms(1) p] by (simp split: if_split)
qed

text \<open>A page from \<open>talloc\<close> is a fresh table without entries, and no existing entry changes.\<close>

lemma talloc_table:
  assumes inv: "heap_inv ld s free live" and tree: "pt_tree P s live"
    and lim: "unat (ld_heap_limit ld) \<le> 2 ^ 48" and fuel: "length free < fuel"
    and t: "talloc fuel ld s 0x1000 = Inr (t, s1)"
  defines "live' \<equiv> (t, 0x1000) # live"
  shows "\<exists>free'. heap_inv ld s1 free' live' \<and> length free' \<le> length free"
    and "table_ok live' t" "\<And>q. P q \<noteq> Some t"
    and "\<And>j. j < 512 \<Longrightarrow> entry_at s1 t j = 0"
    and "\<And>q j. at_path P q \<Longrightarrow> j < 512 \<Longrightarrow> pt_entry s1 P q j = pt_entry s P q j"
    and "mmu_events s1 = mmu_events s"
proof -
  define n where "n = unat (round_page 0x1000)"
  have r: "n = 0x1000" by (simp add: round_page_def n_def)
  have lt: "unat (ld_heap_limit ld) + unat (0x1000 :: u64) + 0xFFF < 2 ^ 64" using lim by simp
  have z: "(0 :: u64) < 0x1000" by simp
  obtain free' where h: "heap_inv ld s1 free' ((t, n) # live)" and len: "length free' \<le> length free"
    and zero: "load_bytes (mm s1) t n = replicate n 0"
    and frame: "\<forall>r\<in>set live. \<forall>x. in_region (fst r) (snd r) x \<longrightarrow> mm s1 x = mm s x"
    using heap_alloc_inv [OF inv fuel z lt t] unfolding n_def by blast
  have h1: "heap_inv ld s1 free' live'" using h by (simp add: r live'_def)
  with len show "\<exists>free'. heap_inv ld s1 free' live' \<and> length free' \<le> length free" by blast
  have fr: "s1 = s\<lparr>mm := mm s1, temp_free_list := temp_free_list s1,
      next_free_temp_memory := next_free_temp_memory s1\<rparr>" by (rule talloc_frame [OF t])
  have l0: "page_table_l0 s1 = page_table_l0 s" by (subst fr) simp
  show "mmu_events s1 = mmu_events s" by (subst fr) simp
  have ok': "blocks_ok 0 (2 ^ 64) live'" using heap_invD(3) [OF h1] by (simp add: blocks_ok_append)
  have t_in: "(t, 0x1000) \<in> set (free' @ live')" by (simp add: live'_def)
  show "table_ok live' t"
    using h1 lim blocks_ok_bound [OF heap_invD(2) [OF h1] t_in]
    by (auto simp: table_ok_def live'_def heap_inv_def word_le_nat_alt)
  show "P q \<noteq> Some t" for q
  proof
    assume "P q = Some t"
    then have "(t, 0x1000) \<in> set live" using pt_treeD(2) [OF tree] by (auto simp: table_ok_def)
    with ok' show False by (auto simp: live'_def blocks_ok_Cons)
  qed
  show "entry_at s1 t j = 0" if "j < 512" for j by (rule zero_page_entry [OF zero r that])
  show "pt_entry s1 P q j = pt_entry s P q j" if q: "at_path P q" "j < 512" for q j
  proof (cases "q = []")
    case False
    with tree q have tb: "table_ok live (the (P q))" by (auto intro: at_path_table)
    let ?u = "the (P q)"
    have b: "unat ?u + 0x1000 \<le> 2 ^ 64"
      using tb heap_invD(3) [OF inv] blocks_ok_bound [of 0 "2 ^ 64" "free @ live" ?u "0x1000"]
      by (auto simp: table_ok_def)
    have "mm s1 x = mm s x" if "in_region (?u + 8 * j) 8 x" for x
    proof -
      have "in_region ?u 0x1000 x"
        using that unat_entry [OF b q(2)] b by (auto simp: in_region_range)
      then show ?thesis using frame tb by (auto simp: table_ok_def)
    qed
    then have "load_bytes (mm s1) (?u + 8 * j) 8 = load_bytes (mm s) (?u + 8 * j) 8"
      by (rule load_bytes_cong) simp_all
    then show ?thesis using False by (simp add: pt_entry_def entry_at_def read64_def)
  qed (simp add: pt_entry_def l0)
qed

lemma pt_grow:
  assumes inv: "heap_inv ld s free live" and tree: "pt_tree P s live"
    and p: "at_path P p" "length p < 3" "i < 512" and inval: "pt_entry s P p i AND 1 = 0"
    and lim: "unat (ld_heap_limit ld) \<le> 2 ^ 48" and fuel: "length free < fuel"
    and t: "talloc fuel ld s 0x1000 = Inr (t, s1)"
  defines "s2 \<equiv> pt_set s1 P p i (table_desc t)" and "P' \<equiv> P(p @ [i] \<mapsto> t)"
    and "live' \<equiv> (t, 0x1000) # live"
  shows "pt_tree P' s2 live'" "same_walks P s P' s2" "mmu_events s2 = mmu_events s"
    "\<exists>free'. heap_inv ld s2 free' live' \<and> length free' \<le> length free"
proof -
  note T = talloc_table [OF inv tree lim fuel t, folded live'_def]
  obtain free' where h1: "heap_inv ld s1 free' live'" and len: "length free' \<le> length free"
    using T(1) by blast
  note t_ok = T(2) and t_new = T(3) and t0 = T(4) and e1 = T(5) and ev = T(6)
  have ok': "blocks_ok 0 (2 ^ 64) live'" using heap_invD(3) [OF h1] by (simp add: blocks_ok_append)
  have tree1: "pt_tree P s1 live'"
    by (rule pt_tree_frame [OF tree e1]) (auto simp: live'_def)
  have none: "P (p @ [i]) = None"
  proof (rule pt_treeD(6) [OF tree p])
    show "\<not> points p (pt_entry s P p i)"
      using inval and_1_3 [of "pt_entry s P p i"] by (auto simp: points_def)
  qed
  have desc: "table_desc t = t OR 3" "(t OR 3) AND 3 = 3" "(t OR 3) AND 1 = 1"
    using table_addr_desc [of t] t_ok by (auto simp: table_ok_def)
  have E: "pt_entry s2 P' q j = (if q = p \<and> j = i then t OR 3 else if q = p @ [i] then 0 else pt_entry s P q j)"
    if "at_path P' q" "j < 512" for q j
  proof -
    have "at_path P q" if "q \<noteq> p @ [i]" using that \<open>at_path P' q\<close> by (auto simp: at_path_def P'_def)
    then show ?thesis
      using pt_entry_after_grow [OF tree1 ok' p(1,3) none t_ok t_new t0, of q j "table_desc t"] that e1
      by (auto simp: s2_def P'_def desc)
  qed
  have pt: "at_path P' q \<longleftrightarrow> at_path P q \<or> q = p @ [i]" for q by (auto simp: at_path_def P'_def)
  show "pt_tree P' s2 live'"
    unfolding pt_tree_def
  proof (intro conjI allI impI)
    show "P' [] = None" using pt_treeD(1) [OF tree] by (simp add: P'_def)
    fix q u assume "P' q = Some u"
    then show "table_ok live' u"
      using t_ok pt_treeD(2) [OF tree1] by (auto simp: P'_def split: if_splits)
  next
    fix q q' u assume "P' q = Some u" "P' q' = Some u"
    then show "q = q'" using t_new pt_treeD(3) [OF tree] by (auto simp: P'_def split: if_splits)
  next
    fix q j assume "P' (q @ [j]) \<noteq> None"
    then have "q @ [j] = p @ [i] \<or> P (q @ [j]) \<noteq> None" by (auto simp: P'_def split: if_splits)
    then show "at_path P' q" "length q < 3" "j < 512"
      using p pt_treeD(4) [OF tree] by (auto simp: pt)
  next
    fix q and j :: u64 assume q: "at_path P' q" "length q < 3" "j < 512"
    note E [OF q(1,3)]
    moreover have "points p (t OR 3)" using desc by (auto simp: points_def)
    moreover have "\<not> points q 0" by (auto simp: points_def)
    moreover have "P' (q @ [j]) = None" if "q = p @ [i]"
    proof -
      have "\<not> at_path P (p @ [i])" using none by (simp add: at_path_def)
      then have "P ((p @ [i]) @ [j]) = None" using pt_treeD(4) [OF tree, of "p @ [i]" j] by blast
      then show ?thesis using that by (simp add: P'_def)
    qed
    moreover have "at_path P q" if "q \<noteq> p @ [i]" using that q(1) by (simp add: pt)
    moreover have "P' (q @ [j]) = P (q @ [j])" if "q \<noteq> p \<or> j \<noteq> i" using that by (auto simp: P'_def)
    ultimately show "if points q (pt_entry s2 P' q j)
        then \<exists>t. P' (q @ [j]) = Some t \<and> pt_entry s2 P' q j = t OR 3 else P' (q @ [j]) = None"
      using pt_treeD(5,6) [OF tree _ q(2,3)] by (cases "q = p @ [i]") (auto simp: P'_def)
  qed
  show "mmu_events s2 = mmu_events s" by (simp add: s2_def pt_set_def set_entry_def ev)
  show "\<exists>free'. heap_inv ld s2 free' live' \<and> length free' \<le> length free"
  proof (cases "p = []")
    case True
    then have "heap_inv ld s2 free' live'" using h1 by (simp add: s2_def pt_set_def heap_inv_def)
    with len show ?thesis by blast
  next
    case False
    with tree1 p have tb: "table_ok live' (the (P p))" by (auto intro: at_path_table)
    have b: "unat (the (P p)) + 0x1000 \<le> 2 ^ 64"
      using tb ok' blocks_ok_bound [of 0 "2 ^ 64" live' "the (P p)" "0x1000"] by (auto simp: table_ok_def)
    have "heap_inv ld s2 free' live'"
      using False tb unat_entry [OF b p(3)]
      by (simp add: s2_def pt_set_def set_entry_def write64_def)
        (rule heap_write_inv [OF h1, of "the (P p)" "0x1000"], auto simp: table_ok_def)
    with len show ?thesis by blast
  qed
  show "same_walks P s P' s2"
    unfolding same_walks_def
  proof (intro allI impI)
    fix a b c l :: u64 assume lt: "a < 512" "b < 512" "c < 512" "l < 512"
    show "pt_walk P' s2 a b c l = pt_walk P s a b c l"
    proof (cases "p @ [i] = [a] \<or> p @ [i] = [a, b] \<or> p @ [i] = [a, b, c]")
      case True
      have nb: "P [a, b] = None" if "P [a] = None"
        using that pt_treeD(4) [OF tree, of "[a]" b]
        by (cases "P [a, b]") (auto simp: at_path_def)
      from True show ?thesis
      proof (elim disjE)
        assume "p @ [i] = [a]"
        then have eq: "p = []" "i = a" by simp_all
        with none nb have "P [a, b] = None" "P' [a, b] = None" by (simp_all add: P'_def)
        then show ?thesis by (simp add: pt_walk_def)
      next
        assume "p @ [i] = [a, b]"
        then have eq: "p = [a]" "i = b" by (simp_all add: append_eq_Cons_conv)
        then have "P [a, b] = None" using none by simp
        moreover have "pt_entry s2 P' [a, b] c = 0"
          using E [of "[a, b]" c] lt eq by (simp add: pt)
        ultimately show ?thesis by (simp add: pt_walk_def)
      next
        assume "p @ [i] = [a, b, c]"
        then have eq: "p = [a, b]" "i = c" by (simp_all add: append_eq_Cons_conv)
        have "pt_walk P s a b c l = None" using inval eq by (simp add: pt_walk_def)
        moreover have "pt_entry s2 P' [a, b] c = t OR 3" "pt_entry s2 P' [a, b, c] l = 0"
          using E [of "[a, b]" c] E [of "[a, b, c]" l] lt eq p(1) by (simp_all add: pt)
        then have "pt_walk P' s2 a b c l = None" using desc by (simp add: pt_walk_def)
        ultimately show ?thesis by simp
      qed
    next
      case False
      then have ne: "[a] \<noteq> p @ [i]" "[a, b] \<noteq> p @ [i]" "[a, b, c] \<noteq> p @ [i]" by auto
      then have "P' [a] = P [a]" "P' [a, b] = P [a, b]" "P' [a, b, c] = P [a, b, c]"
        by (auto simp: P'_def)
      moreover have "\<not> ([a, b] = p \<and> c = i)" using ne(3) by auto
      moreover have "length p \<noteq> 3" using p(2) by simp
      ultimately show ?thesis
        using ne lt E [of "[a, b]" c] E [of "[a, b, c]" l]
        by (intro pt_walk_cong [OF tree]) (auto simp: at_path_def)
    qed
  qed
qed

definition ensure_at ::
    "nat \<Rightarrow> linker \<Rightarrow> 'a mmu_state_scheme \<Rightarrow> ptree \<Rightarrow> u64 list \<Rightarrow> u64 \<Rightarrow> fault + 'a mmu_state_scheme" where
  "ensure_at fuel ld s P p i =
     (if p = [] then ensure_l1 fuel ld s i else ensure_table fuel ld s (the (P p)) i)"

lemma ensure_at_eq:
  "ensure_at fuel ld s P p i =
     (if pt_entry s P p i AND 1 = 0 then
        bindE (talloc fuel ld s 0x1000) (\<lambda>(t, s'). Inr (pt_set s' P p i (table_desc t)))
      else Inr s)"
  by (auto simp: ensure_at_def ensure_l1_def ensure_table_def pt_entry_def pt_set_def)

definition extends :: "ptree \<Rightarrow> ptree \<Rightarrow> bool" where
  "extends P P' \<longleftrightarrow> (\<forall>q. P q \<noteq> None \<longrightarrow> P' q = P q)"

text \<open>After an ensure step the entry points to a table, and no address translates differently.\<close>

lemma ensure_at_ok:
  assumes ok: "pt_ok fuel ld s P" and p: "at_path P p" "length p < 3" "i < 512"
  shows "ensure_at fuel ld s P p i = Inl e \<Longrightarrow> e = Panic ''Kernel allocator overflow''"
    and "ensure_at fuel ld s P p i = Inr s' \<Longrightarrow>
      \<exists>P'. pt_ok fuel ld s' P' \<and> same_walks P s P' s' \<and> mmu_events s' = mmu_events s
        \<and> extends P P' \<and> pt_entry s' P' p i AND 1 \<noteq> 0 \<and> (\<forall>q. q \<noteq> p @ [i] \<longrightarrow> P' q = P q)"
proof -
  obtain free live where inv: "heap_inv ld s free live" and fuel: "length free < fuel"
    and tree: "pt_tree P s live" and lim: "unat (ld_heap_limit ld) \<le> 2 ^ 48"
    using ok by (auto simp: pt_ok_def)
  show "e = Panic ''Kernel allocator overflow''" if "ensure_at fuel ld s P p i = Inl e"
    using that talloc_fails [OF inv fuel, of "0x1000" e]
    by (auto simp: ensure_at_eq bindE_def split: if_splits sum.splits)
  assume r: "ensure_at fuel ld s P p i = Inr s'"
  show "\<exists>P'. pt_ok fuel ld s' P' \<and> same_walks P s P' s' \<and> mmu_events s' = mmu_events s
        \<and> extends P P' \<and> pt_entry s' P' p i AND 1 \<noteq> 0 \<and> (\<forall>q. q \<noteq> p @ [i] \<longrightarrow> P' q = P q)"
  proof (cases "pt_entry s P p i AND 1 = 0")
    case False
    with r ok show ?thesis by (auto simp: ensure_at_eq same_walks_def extends_def)
  next
    case True
    with r obtain t s1 where t: "talloc fuel ld s 0x1000 = Inr (t, s1)"
        and s': "s' = pt_set s1 P p i (table_desc t)"
      by (auto simp: ensure_at_eq bindE_eq_Inr)
    let ?P = "P(p @ [i] \<mapsto> t)"
    note g = pt_grow [OF inv tree p True lim fuel t, folded s']
    from g(4) fuel g(1) lim have ok': "pt_ok fuel ld s' ?P" by (fastforce simp: pt_ok_def)
    have none: "P (p @ [i]) = None"
      using pt_treeD(6) [OF tree p] True and_1_3 [of "pt_entry s P p i"] by (auto simp: points_def)
    have at: "at_path ?P p" using p(1) by (auto simp: at_path_def)
    have "points p (pt_entry s' ?P p i)"
    proof (rule ccontr)
      assume "\<not> points p (pt_entry s' ?P p i)"
      from pt_treeD(6) [OF g(1) at p(2,3) this] show False by simp
    qed
    then have "pt_entry s' ?P p i AND 1 \<noteq> 0"
      using and_1_3 [of "pt_entry s' ?P p i"]
      by (auto simp: points_def split: if_splits)
    then show ?thesis using ok' g(2,3) none by (intro exI [of _ ?P]) (auto simp: extends_def)
  qed
qed

text \<open>Writing an entry that neither was nor becomes a table pointer.\<close>

lemma pt_set_ok:
  assumes ok: "pt_ok fuel ld s P" and p: "at_path P p" "i < 512"
    and leaf: "length p < 3 \<Longrightarrow> \<not> points p v \<and> P (p @ [i]) = None"
  shows "pt_ok fuel ld (pt_set s P p i v) P"
    and "at_path P q \<Longrightarrow> j < 512 \<Longrightarrow>
      pt_entry (pt_set s P p i v) P q j = (if p = q \<and> i = j then v else pt_entry s P q j)"
proof -
  obtain free live where inv: "heap_inv ld s free live" and fuel: "length free < fuel"
    and tree: "pt_tree P s live" and lim: "unat (ld_heap_limit ld) \<le> 2 ^ 48"
    using ok by (auto simp: pt_ok_def)
  have bl: "blocks_ok 0 (2 ^ 64) live" using heap_invD(3) [OF inv] by (simp add: blocks_ok_append)
  have E: "pt_entry (pt_set s P p i v) P q j = (if p = q \<and> i = j then v else pt_entry s P q j)"
    if "at_path P q" "j < 512" for q j
    by (rule pt_entry_set [OF tree bl p(1) that(1) p(2) that(2)])
  then show "at_path P q \<Longrightarrow> j < 512 \<Longrightarrow>
      pt_entry (pt_set s P p i v) P q j = (if p = q \<and> i = j then v else pt_entry s P q j)" .
  have "pt_tree P (pt_set s P p i v) live"
    unfolding pt_tree_def
  proof (intro conjI allI impI)
    show "P [] = None" by (rule pt_treeD(1) [OF tree])
    show "table_ok live t" if "P q = Some t" for q t by (rule pt_treeD(2) [OF tree that])
    show "q = q'" if "P q = Some t" "P q' = Some t" for q q' t by (rule pt_treeD(3) [OF tree that])
    show "at_path P q" "length q < 3" "j < 512" if "P (q @ [j]) \<noteq> None" for q and j :: u64
      using pt_treeD(4) [OF tree that] by simp_all
    fix q and j :: u64 assume q: "at_path P q" "length q < 3" "j < 512"
    show "if points q (pt_entry (pt_set s P p i v) P q j)
        then \<exists>t. P (q @ [j]) = Some t \<and> pt_entry (pt_set s P p i v) P q j = t OR 3
        else P (q @ [j]) = None"
      unfolding E [OF q(1,3)] using leaf q(2) pt_treeD(5,6) [OF tree q] by (auto split: if_split)
  qed
  moreover have "heap_inv ld (pt_set s P p i v) free live"
  proof (cases "p = []")
    case True
    then show ?thesis using inv by (simp add: pt_set_def heap_inv_def)
  next
    case False
    with tree p have tb: "table_ok live (the (P p))" by (auto intro: at_path_table)
    have b: "unat (the (P p)) + 0x1000 \<le> 2 ^ 64"
      using tb bl blocks_ok_bound [of 0 "2 ^ 64" live "the (P p)" "0x1000"] by (auto simp: table_ok_def)
    show ?thesis
      using False tb unat_entry [OF b p(2)]
      by (simp add: pt_set_def set_entry_def write64_def)
        (rule heap_write_inv [OF inv, of "the (P p)" "0x1000"], auto simp: table_ok_def)
  qed
  ultimately show "pt_ok fuel ld (pt_set s P p i v) P" using fuel lim by (auto simp: pt_ok_def)
qed

subsection \<open>Properties\<close>

definition va_page :: "u64 \<Rightarrow> u64 \<times> u64 \<times> u64 \<times> u64" where
  "va_page va = (l0_index va, l1_index va, l2_index va, l3_index va)"

lemma pt_ok_leaf:
  "pt_ok fuel ld s P \<Longrightarrow> mmu_leaf s va = pt_walk P s (l0_index va) (l1_index va) (l2_index va) (l3_index va)"
  by (auto simp: pt_ok_def mmu_leaf_walk)

lemma same_walks_leaf:
  "pt_ok fuel ld s P \<Longrightarrow> pt_ok fuel ld s' P' \<Longrightarrow> same_walks P s P' s' \<Longrightarrow> mmu_leaf s' va = mmu_leaf s va"
  by (simp add: pt_ok_leaf same_walks_def)

lemma pt_ok_child:
  assumes "pt_ok fuel ld s P" "at_path P p" "length p < 2" "i < 512" "pt_entry s P p i AND 1 \<noteq> 0"
  shows "P (p @ [i]) = Some (table_addr (pt_entry s P p i))" "at_path P (p @ [i])"
  using assms pt_child(2) by (fastforce simp: pt_ok_def)+

lemma extends_at: "extends P P' \<Longrightarrow> at_path P p \<Longrightarrow> at_path P' p"
  by (auto simp: extends_def at_path_def)

text \<open>The first two levels of both mapping functions.\<close>

lemma ensure_upper:
  assumes ok: "pt_ok fuel ld s P" and ij: "i < 512" "j < 512"
  defines "r \<equiv> bindE (ensure_l1 fuel ld s i) (\<lambda>s. bindE (ensure_table fuel ld s (table_addr (page_table_l0 s i)) j)
      (\<lambda>s'. Inr (table_addr (page_table_l0 s i), s')))"
  shows "r = Inl e \<Longrightarrow> e = Panic ''Kernel allocator overflow''"
    and "r = Inr (l1, s') \<Longrightarrow> \<exists>P'. pt_ok fuel ld s' P' \<and> same_walks P s P' s' \<and> mmu_events s' = mmu_events s
      \<and> P' [i] = Some l1 \<and> P' [i, j] = Some (table_addr (entry_at s' l1 j))
      \<and> (\<forall>q. length q = 3 \<longrightarrow> P' q = P q)"
proof -
  have e1: "ensure_l1 fuel ld s i = ensure_at fuel ld s P [] i" by (simp add: ensure_at_def)
  have root: "at_path P []" by (simp add: at_path_def)
  note E1 = ensure_at_ok [OF ok root _ ij(1)]
  have step: "\<exists>P1. pt_ok fuel ld s1 P1 \<and> same_walks P s P1 s1 \<and> mmu_events s1 = mmu_events s
      \<and> P1 [i] = Some (table_addr (page_table_l0 s1 i)) \<and> (\<forall>q. length q = 3 \<longrightarrow> P1 q = P q)
      \<and> ensure_table fuel ld s1 (table_addr (page_table_l0 s1 i)) j = ensure_at fuel ld s1 P1 [i] j"
    if s1: "ensure_l1 fuel ld s i = Inr s1" for s1
  proof -
    obtain P1 where P1: "pt_ok fuel ld s1 P1" "same_walks P s P1 s1" "mmu_events s1 = mmu_events s"
        "pt_entry s1 P1 [] i AND 1 \<noteq> 0" "\<forall>q. q \<noteq> [i] \<longrightarrow> P1 q = P q"
      using E1(2) [of s1] s1 unfolding e1 by auto
    have "P1 q = P q" if "length q = 3" for q
      using that P1(5) by (cases "q = [i]") auto
    then have len3: "\<forall>q. length q = 3 \<longrightarrow> P1 q = P q" by simp
    have "P1 [i] = Some (table_addr (page_table_l0 s1 i))"
      using pt_ok_child(1) [OF P1(1), of "[]" i] P1(4) ij by (simp add: at_path_def pt_entry_def)
    then show ?thesis using P1(1-3) len3 by (intro exI [of _ P1]) (simp add: ensure_at_def)
  qed
  show "e = Panic ''Kernel allocator overflow''" if a: "r = Inl e"
  proof (cases "ensure_l1 fuel ld s i")
    case (Inl e')
    moreover have "e' = Panic ''Kernel allocator overflow''" using E1(1) [of e'] Inl unfolding e1 by simp
    ultimately show ?thesis using a by (simp add: r_def)
  next
    case (Inr s1)
    then obtain P1 where P1: "pt_ok fuel ld s1 P1" "P1 [i] = Some (table_addr (page_table_l0 s1 i))"
        "ensure_table fuel ld s1 (table_addr (page_table_l0 s1 i)) j = ensure_at fuel ld s1 P1 [i] j"
      using step by blast
    then have "at_path P1 [i]" by (simp add: at_path_def)
    with a Inr P1 ensure_at_ok(1) [OF P1(1), of "[i]" j e] ij show ?thesis
      by (auto simp: r_def bindE_def split: sum.splits)
  qed
  assume a: "r = Inr (l1, s')"
  then obtain s1 where s1: "ensure_l1 fuel ld s i = Inr s1" "l1 = table_addr (page_table_l0 s1 i)"
      "ensure_table fuel ld s1 l1 j = Inr s'"
    by (auto simp: r_def bindE_eq_Inr)
  then obtain P1 where P1: "pt_ok fuel ld s1 P1" "same_walks P s P1 s1" "mmu_events s1 = mmu_events s"
      "P1 [i] = Some l1" "ensure_at fuel ld s1 P1 [i] j = Inr s'" "\<forall>q. length q = 3 \<longrightarrow> P1 q = P q"
    using step by metis
  then have at1: "at_path P1 [i]" by (simp add: at_path_def)
  obtain P' where P': "pt_ok fuel ld s' P'" "same_walks P1 s1 P' s'" "mmu_events s' = mmu_events s1"
      "extends P1 P'" "pt_entry s' P' [i] j AND 1 \<noteq> 0" "\<forall>q. q \<noteq> [i, j] \<longrightarrow> P' q = P1 q"
    using ensure_at_ok(2) [OF P1(1) at1 _ ij(2) P1(5)] by auto
  have "P' q = P q" if "length q = 3" for q
    using that P'(6) P1(6) by (cases "q = [i, j]") auto
  then have len3: "\<forall>q. length q = 3 \<longrightarrow> P' q = P q" by simp
  have "P' [i] = Some l1" using P'(4) P1(4) by (simp add: extends_def)
  moreover
  have "P' [i, j] = Some (table_addr (pt_entry s' P' [i] j))"
    using pt_ok_child(1) [OF P'(1) extends_at [OF P'(4) at1] _ ij(2) P'(5)] by simp
  ultimately show "\<exists>P'. pt_ok fuel ld s' P' \<and> same_walks P s P' s' \<and> mmu_events s' = mmu_events s
      \<and> P' [i] = Some l1 \<and> P' [i, j] = Some (table_addr (entry_at s' l1 j))
      \<and> (\<forall>q. length q = 3 \<longrightarrow> P' q = P q)"
    using P'(1,3) P1(3) same_walks_trans [OF P1(2) P'(2)] len3 by (intro exI [of _ P']) (simp add: pt_entry_def)
qed

lemma walk_page_set:
  assumes ok: "pt_ok fuel ld s P" and ne: "P [i, j, k] \<noteq> None"
    and lt: "l < 512" "a < 512" "b < 512" "c < 512" "d < 512"
  shows "pt_walk P (pt_set s P [i, j, k] l v) a b c d =
    (if (a, b, c, d) = (i, j, k, l) then (if v AND 1 = 0 then None else Some v) else pt_walk P s a b c d)"
proof -
  obtain live where tree: "pt_tree P s live" using ok by (auto simp: pt_ok_def)
  have up: "P [i, j] \<noteq> None" "k < 512" "P [i] \<noteq> None"
    using pt_treeD(4) [OF tree, of "[i, j]" k] pt_treeD(4) [OF tree, of "[i]" j] ne
    by (auto simp: at_path_def)
  have E: "at_path P q \<Longrightarrow> x < 512 \<Longrightarrow> pt_entry (pt_set s P [i, j, k] l v) P q x
      = (if [i, j, k] = q \<and> l = x then v else pt_entry s P q x)" for q x
    by (rule pt_set_ok(2) [OF ok]) (use ne lt in \<open>auto simp: at_path_def\<close>)
  show ?thesis
  proof (cases "(a, b, c, d) = (i, j, k, l)")
    case True
    have "pt_entry s P [i, j] k AND 3 = 3" using pt_child2(1) [OF tree up(1,2)] ne by simp
    moreover have "at_path P [i, j]" "at_path P [i, j, k]" using up ne by (auto simp: at_path_def)
    ultimately show ?thesis
      using True E up lt and_1_3 [of "pt_entry s P [i, j] k"] by (auto simp: pt_walk_def Let_def)
  next
    case False
    then show ?thesis using E lt by (auto intro!: pt_walk_cong [OF tree] simp: at_path_def)
  qed
qed

lemma walk_block_set:
  assumes ok: "pt_ok fuel ld s P" and ne: "P [i, j] \<noteq> None" "P [i, j, k] = None"
    and v: "v AND 3 \<noteq> 3" and lt: "k < 512" "a < 512" "b < 512" "c < 512" "d < 512"
  shows "pt_walk P (pt_set s P [i, j] k v) a b c d =
    (if (a, b, c) = (i, j, k) then (if v AND 1 = 0 then None else Some v) else pt_walk P s a b c d)"
proof -
  obtain live where tree: "pt_tree P s live" using ok by (auto simp: pt_ok_def)
  have up: "P [i] \<noteq> None" using pt_treeD(4) [OF tree, of "[i]" j] ne by (auto simp: at_path_def)
  have E: "at_path P q \<Longrightarrow> x < 512 \<Longrightarrow> pt_entry (pt_set s P [i, j] k v) P q x
      = (if [i, j] = q \<and> k = x then v else pt_entry s P q x)" for q x
    by (rule pt_set_ok(2) [OF ok]) (use ne v lt in \<open>auto simp: at_path_def points_def\<close>)
  show ?thesis
  proof (cases "(a, b, c) = (i, j, k)")
    case True
    have "at_path P [i, j]" using ne by (auto simp: at_path_def)
    then show ?thesis
      using True E ne up lt v and_1_3 [of v] by (auto simp: pt_walk_def Let_def)
  next
    case False
    then show ?thesis using E lt by (auto intro!: pt_walk_cong [OF tree] simp: at_path_def)
  qed
qed

lemma bindE_assoc: "bindE (bindE x f) g = bindE x (\<lambda>a. bindE (f a) g)"
  by (cases x) auto

definition ensure_two ::
    "nat \<Rightarrow> linker \<Rightarrow> 'a mmu_state_scheme \<Rightarrow> u64 \<Rightarrow> u64 \<Rightarrow> fault + (u64 \<times> 'a mmu_state_scheme)" where
  "ensure_two fuel ld s i j = bindE (ensure_l1 fuel ld s i)
     (\<lambda>s. bindE (ensure_table fuel ld s (table_addr (page_table_l0 s i)) j)
      (\<lambda>s'. Inr (table_addr (page_table_l0 s i), s')))"

lemmas ensure_two_ok = ensure_upper [folded ensure_two_def]

definition map_page_at ::
    "nat \<Rightarrow> linker \<Rightarrow> 'a mmu_state_scheme \<Rightarrow> u64 \<Rightarrow> u64 \<Rightarrow> u64 \<Rightarrow> u64 \<Rightarrow> u64 \<Rightarrow> fault + 'a mmu_state_scheme" where
  "map_page_at fuel ld s l2 va pa attr_index level =
     (let l2_val = entry_at s l2 (l2_index va)
      in if l2_val AND 1 \<noteq> 0 \<and> l2_val AND 3 = 1 then
           Inr (log_mmu [MapError va (l0_index va) (l1_index va) (l2_index va) (l3_index va)] s)
         else bindE (ensure_table fuel ld s l2 (l2_index va)) (\<lambda>s.
           let l3 = table_addr (entry_at s l2 (l2_index va))
           in if entry_at s l3 (l3_index va) AND 1 \<noteq> 0 then Inr (log_mmu [MapWarning va] s)
              else bindE (level_permission level) (\<lambda>permission.
                Inr (set_entry s l3 (l3_index va)
                       ((pa AND 0xFFFFFFFFF000) OR page_attr level permission attr_index)))))"

lemma mmu_map_4kb_eq:
  "mmu_map_4kb fuel ld s va pa attr_index level =
     bindE (ensure_two fuel ld s (l0_index va) (l1_index va)) (\<lambda>(l1, s).
       map_page_at fuel ld s (table_addr (entry_at s l1 (l1_index va))) va pa attr_index level)"
  by (simp add: mmu_map_4kb_def ensure_two_def bindE_assoc map_page_at_def Let_def)

lemma mmu_map_2mb_eq:
  "mmu_map_2mb fuel ld s va pa attr_index =
     bindE (ensure_two fuel ld s (l0_index va) (l1_index va)) (\<lambda>(l1, s).
       Inr (set_entry s (table_addr (entry_at s l1 (l1_index va))) (l2_index va)
         ((pa AND 0xFFFFFFFFF000) OR block_attr attr_index)))"
  by (simp add: mmu_map_2mb_def ensure_two_def bindE_assoc Let_def)

lemma page_desc_valid: "((pa AND 0xFFFFFFFFF000) OR page_attr level perm ai) AND 1 \<noteq> 0"
proof -
  have "bit (((pa AND 0xFFFFFFFFF000) OR page_attr level perm ai) AND 1) 0"
    by (simp add: page_attr_def bit_simps)
  then show ?thesis by (metis bit_0_eq bot_apply bot_bool_def)
qed

lemma block_desc_valid:
  "((pa AND 0xFFFFFFFFF000) OR block_attr ai) AND 3 = 1" 
proof -
  have m: "(0xFFFFFFFFF000 :: u64) = push_bit 12 (mask 36)" "(3 :: u64) = mask 2" "(1 :: u64) = mask 1"
    by (simp_all add: mask_eq_exp_minus_1)
  define q where "q = push_bit 2 ai"
  have q: "\<not> bit q 0" "\<not> bit q (Suc 0)" unfolding q_def bit_push_bit_iff by simp_all
  show ?thesis unfolding block_attr_def m q_def [symmetric]
    by (rule bit_word_eqI) (auto simp: bit_simps less_Suc_eq numeral_2_eq_2 q)
qed

lemma pt_set_entry: "p \<noteq> [] \<Longrightarrow> P p = Some t \<Longrightarrow> set_entry s t i v = pt_set s P p i v"
  by (simp add: pt_set_def)

text \<open>The last step of a 4 KiB mapping, on tables that exist down to the third level.\<close>

lemma map_page_at_ok:
  fixes pa ai :: u64
  assumes ok: "pt_ok fuel ld s P" and l2: "P [l0_index va, l1_index va] = Some l2"
    and free: "mmu_leaf s va = None" and perm: "level_permission level = Inr perm"
  defines "r \<equiv> map_page_at fuel ld s l2 va pa ai level"
    and "e \<equiv> (pa AND 0xFFFFFFFFF000) OR page_attr level perm ai"
  shows "r = Inl f \<Longrightarrow> f = Panic ''Kernel allocator overflow''"
    and "r = Inr s' \<Longrightarrow> (\<exists>P'. pt_ok fuel ld s' P') \<and> mmu_leaf s' va = Some e
      \<and> (\<forall>va'. va_page va' \<noteq> va_page va \<longrightarrow> mmu_leaf s' va' = mmu_leaf s va')
      \<and> mmu_events s' = mmu_events s"
proof -
  let ?i = "l0_index va" and ?j = "l1_index va" and ?k = "l2_index va" and ?l = "l3_index va"
  have at: "at_path P [?i, ?j]" using l2 by (simp add: at_path_def)
  have tbl: "ensure_table fuel ld s l2 ?k = ensure_at fuel ld s P [?i, ?j] ?k"
    by (simp add: ensure_at_def l2)
  obtain live where tree: "pt_tree P s live" using ok by (auto simp: pt_ok_def)
  have i: "P [?i] \<noteq> None" using pt_treeD(4) [OF tree, of "[?i]" ?j] l2 by (auto simp: at_path_def)
  have nb: "\<not> (entry_at s l2 ?k AND 1 \<noteq> 0 \<and> entry_at s l2 ?k AND 3 = 1)"
    using free i l2 unfolding pt_ok_leaf [OF ok]
    by (auto simp: pt_walk_def pt_entry_def Let_def split: if_splits)
  have go: "\<exists>P1 l3. pt_ok fuel ld s1 P1 \<and> (\<forall>va. mmu_leaf s1 va = mmu_leaf s va)
      \<and> mmu_events s1 = mmu_events s \<and> P1 [?i, ?j, ?k] = Some l3
      \<and> table_addr (entry_at s1 l2 ?k) = l3 \<and> entry_at s1 l3 ?l AND 1 = 0"
    if s1: "ensure_table fuel ld s l2 ?k = Inr s1" for s1
  proof -
    obtain P1 where P1: "pt_ok fuel ld s1 P1" "same_walks P s P1 s1" "mmu_events s1 = mmu_events s"
        "extends P P1" "pt_entry s1 P1 [?i, ?j] ?k AND 1 \<noteq> 0"
      using ensure_at_ok(2) [OF ok at _ index_less(3) [of va], of s1] s1 tbl by auto
    obtain live1 where tree1: "pt_tree P1 s1 live1" using P1(1) by (auto simp: pt_ok_def)
    have up: "P1 [?i, ?j] = Some l2" "P1 [?i] \<noteq> None"
      using P1(4) l2 i by (auto simp: extends_def)
    then have n2: "P1 [?i, ?j] \<noteq> None" by simp
    have leaf: "mmu_leaf s1 va = mmu_leaf s va" for va
      by (rule same_walks_leaf [OF ok P1(1,2)])
    have e2: "pt_entry s1 P1 [?i, ?j] ?k = entry_at s1 l2 ?k" by (simp add: pt_entry_def up)
    have w: "pt_walk P1 s1 ?i ?j ?k ?l = None" using free leaf pt_ok_leaf [OF P1(1)] by simp
    then have "pt_entry s1 P1 [?i, ?j] ?k AND 3 \<noteq> 1"
      using up P1(5) by (auto simp: pt_walk_def Let_def split: if_splits)
    then have "pt_entry s1 P1 [?i, ?j] ?k AND 3 = 3" using P1(5) and_1_3 by blast
    then have l3: "P1 [?i, ?j, ?k] = Some (table_addr (entry_at s1 l2 ?k))"
      using pt_child2(2) [OF tree1 n2 index_less(3) [of va]] e2 by simp
    have "entry_at s1 (table_addr (entry_at s1 l2 ?k)) ?l AND 1 = 0"
      using w up P1(5) \<open>pt_entry s1 P1 [?i, ?j] ?k AND 3 = 3\<close> l3
      by (auto simp: pt_walk_def Let_def pt_entry_def [of s1 P1 "[_, _, _]"] split: if_splits)
    with P1 leaf l3 show ?thesis by blast
  qed
  show "f = Panic ''Kernel allocator overflow''" if "r = Inl f"
  proof (cases "ensure_table fuel ld s l2 ?k")
    case (Inl e')
    then show ?thesis
      using that nb ensure_at_ok(1) [OF ok at _ index_less(3) [of va], of e'] tbl
      by (simp add: r_def map_page_at_def Let_def)
  next
    case (Inr s1)
    from go [OF this] that nb Inr show ?thesis by (auto simp: r_def map_page_at_def Let_def perm)
  qed
  assume r: "r = Inr s'"
  then obtain s1 where s1: "ensure_table fuel ld s l2 ?k = Inr s1"
    using nb by (auto simp: r_def map_page_at_def Let_def bindE_eq_Inr)
  from go [OF s1] obtain P1 l3 where P1: "pt_ok fuel ld s1 P1"
      "\<And>va. mmu_leaf s1 va = mmu_leaf s va" "mmu_events s1 = mmu_events s"
      "P1 [?i, ?j, ?k] = Some l3" "table_addr (entry_at s1 l2 ?k) = l3" "entry_at s1 l3 ?l AND 1 = 0"
    by blast
  have s': "s' = pt_set s1 P1 [?i, ?j, ?k] ?l e"
    using r nb s1 P1(4,5,6) by (simp add: r_def map_page_at_def Let_def perm e_def pt_set_def)
  have at1: "at_path P1 [?i, ?j, ?k]" "P1 [?i, ?j, ?k] \<noteq> None" using P1(4) by (auto simp: at_path_def)
  have ok': "pt_ok fuel ld s' P1"
    unfolding s' by (rule pt_set_ok(1) [OF P1(1) at1(1) index_less(4) [of va]]) simp
  have W: "mmu_leaf s' va' = (if va_page va' = va_page va then Some e else mmu_leaf s va')" for va'
    using walk_page_set [OF P1(1) at1(2) index_less(4) [of va] index_less(1-4) [of va'], of e]
      page_desc_valid [of pa level perm ai, folded e_def]
    unfolding pt_ok_leaf [OF ok'] P1(2) [symmetric] pt_ok_leaf [OF P1(1)]
    unfolding s' by (simp add: va_page_def)
  have "mmu_events s' = mmu_events s" using P1(3) by (simp add: s' pt_set_def set_entry_def)
  then show "(\<exists>P'. pt_ok fuel ld s' P') \<and> mmu_leaf s' va = Some e
      \<and> (\<forall>va'. va_page va' \<noteq> va_page va \<longrightarrow> mmu_leaf s' va' = mmu_leaf s va')
      \<and> mmu_events s' = mmu_events s"
    using W ok' by auto
qed

lemma map_4kb_ok:
  assumes ok: "pt_ok fuel ld s P" and free: "mmu_leaf s va = None"
    and perm: "level_permission level = Inr perm"
  shows "case mmu_map_4kb fuel ld s va pa ai level of
      Inl e \<Rightarrow> e = Panic ''Kernel allocator overflow''
    | Inr s' \<Rightarrow> (\<exists>P'. pt_ok fuel ld s' P')
        \<and> mmu_leaf s' va = Some ((pa AND 0xFFFFFFFFF000) OR page_attr level perm ai)
        \<and> (\<forall>va'. va_page va' \<noteq> va_page va \<longrightarrow> mmu_leaf s' va' = mmu_leaf s va')
        \<and> mmu_events s' = mmu_events s"
proof (cases "ensure_two fuel ld s (l0_index va) (l1_index va)")
  case (Inl e)
  with ensure_two_ok(1) [OF ok index_less(1) [of va] index_less(2) [of va]] show ?thesis by (simp add: mmu_map_4kb_eq)
next
  case (Inr x)
  obtain l1 s1 where x: "x = (l1, s1)" by (cases x)
  from ensure_two_ok(2) [OF ok index_less(1) [of va] index_less(2) [of va] Inr [unfolded x]] obtain P1 where
      P1: "pt_ok fuel ld s1 P1" "same_walks P s P1 s1" "mmu_events s1 = mmu_events s"
        "P1 [l0_index va, l1_index va] = Some (table_addr (entry_at s1 l1 (l1_index va)))" by blast
  have leaf: "mmu_leaf s1 va = mmu_leaf s va" for va by (rule same_walks_leaf [OF ok P1(1,2)])
  have m: "mmu_map_4kb fuel ld s va pa ai level
      = map_page_at fuel ld s1 (table_addr (entry_at s1 l1 (l1_index va))) va pa ai level"
    by (simp add: mmu_map_4kb_eq Inr x)
  show ?thesis
    using P1(3) map_page_at_ok [OF P1(1,4) _ perm] free leaf unfolding m
    by (auto split: sum.split)
qed

text \<open>An address that already translates keeps its mapping; only the log grows.\<close>

lemma map_4kb_mapped:
  assumes ok: "pt_ok fuel ld s P" and leaf: "mmu_leaf s va = Some e"
  shows "\<exists>ev. mmu_map_4kb fuel ld s va pa ai level = Inr (log_mmu [ev] s)"
proof -
  let ?i = "l0_index va" and ?j = "l1_index va" and ?k = "l2_index va" and ?l = "l3_index va"
  define l1 where "l1 = table_addr (page_table_l0 s ?i)"
  define l2 where "l2 = table_addr (entry_at s l1 ?j)"
  have e: "page_table_l0 s ?i AND 1 \<noteq> 0" "entry_at s l1 ?j AND 1 \<noteq> 0" "entry_at s l2 ?k AND 1 \<noteq> 0"
    and l3: "entry_at s l2 ?k AND 3 = 1 \<or> entry_at s (table_addr (entry_at s l2 ?k)) ?l AND 1 \<noteq> 0"
    using leaf by (auto simp: mmu_leaf_def l1_def l2_def Let_def split: if_splits)
  have "ensure_two fuel ld s ?i ?j = Inr (l1, s)"
    using e by (simp add: ensure_two_def ensure_l1_def ensure_table_def l1_def)
  then show ?thesis
    using e l3 by (auto simp: mmu_map_4kb_eq map_page_at_def ensure_table_def Let_def simp flip: l2_def)
qed

lemma map_2mb_ok:
  fixes pa ai :: u64
  assumes ok: "pt_ok fuel ld s P" and free: "P [l0_index va, l1_index va, l2_index va] = None"
  defines "e \<equiv> (pa AND 0xFFFFFFFFF000) OR block_attr ai"
  shows "mmu_map_2mb fuel ld s va pa ai = Inl f \<Longrightarrow> f = Panic ''Kernel allocator overflow''"
    and "mmu_map_2mb fuel ld s va pa ai = Inr s' \<Longrightarrow>
      (\<exists>P'. pt_ok fuel ld s' P' \<and> P' [l0_index va, l1_index va] \<noteq> None
          \<and> P' [l0_index va, l1_index va, l2_index va] = None)
      \<and> (\<forall>va'. mmu_leaf s' va' = (if (l0_index va', l1_index va', l2_index va')
            = (l0_index va, l1_index va, l2_index va) then Some e else mmu_leaf s va'))
      \<and> mmu_events s' = mmu_events s"
proof -
  let ?i = "l0_index va" and ?j = "l1_index va" and ?k = "l2_index va"
  show "f = Panic ''Kernel allocator overflow''" if "mmu_map_2mb fuel ld s va pa ai = Inl f"
    using that ensure_two_ok(1) [OF ok index_less(1) [of va] index_less(2) [of va]]
    by (cases "ensure_two fuel ld s ?i ?j") (auto simp: mmu_map_2mb_eq split: prod.splits)
  assume r: "mmu_map_2mb fuel ld s va pa ai = Inr s'"
  then obtain l1 s1 where s1: "ensure_two fuel ld s ?i ?j = Inr (l1, s1)"
      "s' = set_entry s1 (table_addr (entry_at s1 l1 ?j)) ?k e"
    by (auto simp: mmu_map_2mb_eq e_def bindE_eq_Inr)
  from ensure_two_ok(2) [OF ok index_less(1) index_less(2) s1(1)] obtain P1 where
      P1: "pt_ok fuel ld s1 P1" "same_walks P s P1 s1" "mmu_events s1 = mmu_events s"
        "P1 [?i, ?j] = Some (table_addr (entry_at s1 l1 ?j))" "\<forall>q. length q = 3 \<longrightarrow> P1 q = P q" by blast
  have leaf: "mmu_leaf s1 va = mmu_leaf s va" for va by (rule same_walks_leaf [OF ok P1(1,2)])
  have s': "s' = pt_set s1 P1 [?i, ?j] ?k e" by (simp add: s1(2) pt_set_def P1(4))
  have at: "at_path P1 [?i, ?j]" "P1 [?i, ?j] \<noteq> None" "P1 [?i, ?j, ?k] = None"
    using P1(4,5) free by (auto simp: at_path_def)
  have e: "e AND 3 = 1" "e AND 3 \<noteq> 3" "e AND 1 \<noteq> 0"
    using block_desc_valid [of pa ai] and_1_3 [of e] by (simp_all add: e_def)
  have ok': "pt_ok fuel ld s' P1"
    unfolding s' by (rule pt_set_ok(1) [OF P1(1) at(1) index_less(3)]) (use e at in \<open>auto simp: points_def\<close>)
  have "mmu_leaf s' va' = (if (l0_index va', l1_index va', l2_index va') = (?i, ?j, ?k)
      then Some e else mmu_leaf s va')" for va'
    using walk_block_set [OF P1(1) at(2,3) e(2) index_less(3) index_less(1-4) [of va']] e
    unfolding pt_ok_leaf [OF ok'] leaf [symmetric] pt_ok_leaf [OF P1(1)] unfolding s' by simp
  moreover have "mmu_events s' = mmu_events s" using P1(3) by (simp add: s' pt_set_def set_entry_def)
  ultimately show "(\<exists>P'. pt_ok fuel ld s' P' \<and> P' [?i, ?j] \<noteq> None \<and> P' [?i, ?j, ?k] = None)
      \<and> (\<forall>va'. mmu_leaf s' va' = (if (l0_index va', l1_index va', l2_index va') = (?i, ?j, ?k)
            then Some e else mmu_leaf s va'))
      \<and> mmu_events s' = mmu_events s"
    using ok' at by blast
qed

lemma mmu_unmap_eq:
  assumes ok: "pt_ok fuel ld s P" and leaf: "mmu_leaf s va = Some e"
  shows "e AND 3 = 3 \<Longrightarrow> P [l0_index va, l1_index va, l2_index va] \<noteq> None \<and>
      mmu_unmap s va pa = log_mmu [TlbFlush, ICacheFlush]
        (pt_set s P [l0_index va, l1_index va, l2_index va] (l3_index va) 0)"
    and "P [l0_index va, l1_index va, l2_index va] = None \<Longrightarrow> P [l0_index va, l1_index va] \<noteq> None \<and>
      mmu_unmap s va pa = pt_set s P [l0_index va, l1_index va] (l2_index va) 0"
proof -
  let ?i = "l0_index va" and ?j = "l1_index va" and ?k = "l2_index va" and ?l = "l3_index va"
  obtain live where tree: "pt_tree P s live" using ok by (auto simp: pt_ok_def)
  have w: "pt_walk P s ?i ?j ?k ?l = Some e" using leaf pt_ok_leaf [OF ok] by simp
  then have n: "P [?i] \<noteq> None" "P [?i, ?j] \<noteq> None" by (auto simp: pt_walk_def split: if_splits)
  have root: "at_path P []" "at_path P [?i]" using n by (auto simp: at_path_def)
  have e0: "pt_entry s P [] ?i AND 1 \<noteq> 0" "pt_entry s P [?i] ?j AND 1 \<noteq> 0"
    using pt_child(1) [OF tree root(1) _ index_less(1) [of va]] n
      pt_child(1) [OF tree root(2) _ index_less(2) [of va]] by auto
  have l1: "P [?i] = Some (table_addr (page_table_l0 s ?i))"
    using pt_child(2) [OF tree root(1) _ index_less(1) e0(1)] by (simp add: pt_entry_def)
  have l2: "P [?i, ?j] = Some (table_addr (entry_at s (table_addr (page_table_l0 s ?i)) ?j))"
    using pt_child(2) [OF tree root(2) _ index_less(2) e0(2)] by (simp add: pt_entry_def l1)
  let ?e2 = "pt_entry s P [?i, ?j] ?k"
  have e2: "?e2 AND 1 \<noteq> 0" using w n by (auto simp: pt_walk_def Let_def split: if_splits)
  have un: "mmu_unmap s va pa = (if ?e2 AND 3 = 1 then set_entry s (the (P [?i, ?j])) ?k 0
      else log_mmu [TlbFlush, ICacheFlush] (set_entry s (table_addr ?e2) ?l 0))"
    using e0 e2 by (simp add: mmu_unmap_def Let_def pt_entry_def l1 l2)
  show "P [?i, ?j, ?k] \<noteq> None \<and> mmu_unmap s va pa = log_mmu [TlbFlush, ICacheFlush]
        (pt_set s P [?i, ?j, ?k] ?l 0)" if "e AND 3 = 3"
  proof -
    have "?e2 AND 3 \<noteq> 1" using w n that by (auto simp: pt_walk_def Let_def split: if_splits)
    then have "?e2 AND 3 = 3" using e2 and_1_3 by blast
    then show ?thesis
      using pt_child2(2) [OF tree n(2) index_less(3)] un by (simp add: pt_set_def)
  qed
  show "P [?i, ?j] \<noteq> None \<and> mmu_unmap s va pa = pt_set s P [?i, ?j] ?k 0" if "P [?i, ?j, ?k] = None"
  proof -
    have "?e2 AND 3 \<noteq> 3" using pt_child2(1) [OF tree n(2) index_less(3) [of va]] that by simp
    then have "?e2 AND 3 = 1" using e2 and_1_3 by blast
    then show ?thesis using un n by (simp add: pt_set_def)
  qed
qed

lemma log_mmu_leaf [simp]: "mmu_leaf (log_mmu es s) va = mmu_leaf s va"
  by (simp add: mmu_leaf_def log_mmu_def entry_at_def Let_def)

lemma log_mmu_ok [simp]: "pt_ok fuel ld (log_mmu es s) P = pt_ok fuel ld s P"
  by (simp add: pt_ok_def log_mmu_def pt_tree_def heap_inv_def pt_entry_def entry_at_def)

definition mmu_boot :: "linker \<Rightarrow> mem \<Rightarrow> mmu_state" where
  "mmu_boot ld m = kmem.extend (heap_boot ld m) \<lparr>page_table_l0 = \<lambda>_. 0, mmu_events = []\<rparr>"

lemma mmu_boot_simps [simp]:
  "page_table_l0 (mmu_boot ld m) = (\<lambda>_. 0)" "mm (mmu_boot ld m) = m" "mmu_events (mmu_boot ld m) = []"
  "mmu_leaf (mmu_boot ld m) va = None"
  by (simp_all add: mmu_boot_def heap_boot_def kmem.defs mmu_leaf_def)

lemma mmu_boot_ok:
  assumes "0 < ld_heap_bottom ld" "page_aligned (ld_heap_bottom ld)" "ld_heap_bottom ld \<le> ld_heap_limit ld"
    "unat (ld_heap_limit ld) \<le> 2 ^ 48" "0 < fuel"
  shows "pt_ok fuel ld (mmu_boot ld m) (\<lambda>_. None)"
proof -
  have "heap_inv ld (mmu_boot ld m) [] []"
    using assms by (simp add: heap_inv_def mmu_boot_def heap_boot_def kmem.defs blocks_ok_def)
  moreover have "pt_tree (\<lambda>_. None) (mmu_boot ld m) []"
    by (simp add: pt_tree_def at_path_def pt_entry_def points_def)
  ultimately show ?thesis using assms(4,5) unfolding pt_ok_def by (intro conjI exI [of _ "[]"]) simp_all
qed

text \<open>C5: Mapping a 4 KiB page at an address that does not translate either stops in the panic of an
  exhausted kernel heap, or makes the address translate to exactly the given frame with the
  attributes of the given level, while every address of another page translates as before,
  whichever intermediate tables had to be allocated; the tables stay a well-formed tree.\<close>

theorem mmu_map_4kb_maps:
  assumes "pt_ok fuel ld s P" "mmu_leaf s va = None" "level_permission level = Inr perm"
  shows "case mmu_map_4kb fuel ld s va pa attr_index level of
      Inl e \<Rightarrow> e = Panic ''Kernel allocator overflow''
    | Inr s' \<Rightarrow> (\<exists>P'. pt_ok fuel ld s' P')
        \<and> mmu_leaf s' va = Some ((pa AND 0xFFFFFFFFF000) OR page_attr level perm attr_index)
        \<and> (\<forall>va'. va_page va' \<noteq> va_page va \<longrightarrow> mmu_leaf s' va' = mmu_leaf s va')"
  using map_4kb_ok [OF assms, of pa attr_index] by (auto split: sum.splits)

theorem mmu_map_4kb_maps_witness:
  "case mmu_map_4kb 1 demo_linker (mmu_boot demo_linker (\<lambda>_. 0)) 0x40001000 0x9000000 0 1 of
      Inl e \<Rightarrow> e = Panic ''Kernel allocator overflow''
    | Inr s' \<Rightarrow> mmu_leaf s' 0x40001000 = Some (0x9000000 OR page_attr 1 0 0) \<and> mmu_leaf s' 0 = None"
proof -
  have "pt_ok 1 demo_linker (mmu_boot demo_linker (\<lambda>_. 0)) (\<lambda>_. None)"
    by (rule mmu_boot_ok) (simp_all add: page_aligned_def)
  from mmu_map_4kb_maps [OF this, of "0x40001000" 1 0 "0x9000000" 0] show ?thesis
    by (auto simp: level_permission_def va_page_def l0_index_def l1_index_def split: sum.split)
qed

text \<open>Mapping never replaces: a 4 KiB mapping at an address that already translates (as a page or
  inside a 2 MiB block) leaves memory and tables untouched and only reports a message.\<close>

lemma mmu_map_4kb_no_overwrite:
  assumes "pt_ok fuel ld s P" "mmu_leaf s va = Some e"
  shows "\<exists>ev. mmu_map_4kb fuel ld s va pa attr_index level = Inr (log_mmu [ev] s)"
  by (rule map_4kb_mapped [OF assms])

lemma boot_block:
  obtains s' P' where "mmu_map_2mb 1 demo_linker (mmu_boot demo_linker (\<lambda>_. 0)) 0x200000 0x200000 1 = Inr s'"
    "pt_ok 1 demo_linker s' P'" "P' [0, 0, 1] = None"
    "mmu_leaf s' 0x201000 = Some (0x200000 OR block_attr 1)"
proof -
  let ?s = "mmu_boot demo_linker (\<lambda>_. 0)"
  have ok: "pt_ok 1 demo_linker ?s (\<lambda>_. None)"
    by (rule mmu_boot_ok) (simp_all add: page_aligned_def)
  have r: "round_page 0x1000 = 0x1000" by (simp add: round_page_def)
  have "\<exists>s'. mmu_map_2mb 1 demo_linker ?s 0x200000 0x200000 1 = Inr s'"
    by (simp add: mmu_map_2mb_def ensure_l1_def ensure_table_def talloc_def r mmu_boot_def heap_boot_def
        kmem.defs Let_def numeral_eq_Suc [of num.One] bindE_def split: sum.splits if_splits)
  then obtain s' where s': "mmu_map_2mb 1 demo_linker ?s 0x200000 0x200000 1 = Inr s'" ..
  from map_2mb_ok(2) [OF ok _ s'] obtain P' where P': "pt_ok 1 demo_linker s' P'"
      "P' [l0_index 0x200000, l1_index 0x200000, l2_index 0x200000] = None"
      "mmu_leaf s' 0x201000 = Some ((0x200000 AND 0xFFFFFFFFF000) OR block_attr 1)"
    by (auto simp: l0_index_def l1_index_def l2_index_def)
  show ?thesis
    by (rule that [OF s' P'(1)]) (use P'(2,3) in \<open>simp_all add: l0_index_def l1_index_def l2_index_def\<close>)
qed

lemma mmu_map_4kb_no_overwrite_witness:
  "\<exists>s' ev. mmu_map_2mb 1 demo_linker (mmu_boot demo_linker (\<lambda>_. 0)) 0x200000 0x200000 1 = Inr s'
     \<and> mmu_map_4kb 1 demo_linker s' 0x201000 0x5000 1 0 = Inr (log_mmu [ev] s')"
proof -
  obtain s' P' where s': "mmu_map_2mb 1 demo_linker (mmu_boot demo_linker (\<lambda>_. 0)) 0x200000 0x200000 1 = Inr s'"
    "pt_ok 1 demo_linker s' P'" "mmu_leaf s' 0x201000 = Some (0x200000 OR block_attr 1)"
    by (rule boot_block)
  from mmu_map_4kb_no_overwrite [OF s'(2,3)] s'(1) show ?thesis by blast
qed

text \<open>Mapping a 2 MiB block where no third-level table exists makes every address of the block
  translate to the block descriptor and leaves every other address as it was, or stops in the
  panic of an exhausted heap.\<close>

lemma mmu_map_2mb_maps:
  assumes "pt_ok fuel ld s P" "P [l0_index va, l1_index va, l2_index va] = None"
  shows "case mmu_map_2mb fuel ld s va pa attr_index of
      Inl e \<Rightarrow> e = Panic ''Kernel allocator overflow''
    | Inr s' \<Rightarrow> (\<exists>P'. pt_ok fuel ld s' P')
        \<and> (\<forall>va'. mmu_leaf s' va' =
             (if (l0_index va', l1_index va', l2_index va') = (l0_index va, l1_index va, l2_index va)
              then Some ((pa AND 0xFFFFFFFFF000) OR block_attr attr_index) else mmu_leaf s va'))"
  using map_2mb_ok [OF assms, of pa attr_index] by (auto split: sum.split)

lemma mmu_map_2mb_maps_witness:
  "\<exists>s'. mmu_map_2mb 1 demo_linker (mmu_boot demo_linker (\<lambda>_. 0)) 0x200000 0x200000 1 = Inr s'
     \<and> mmu_leaf s' 0x3FF000 = Some (0x200000 OR block_attr 1) \<and> mmu_leaf s' 0x400000 = None"
proof -
  obtain s' where s': "mmu_map_2mb 1 demo_linker (mmu_boot demo_linker (\<lambda>_. 0)) 0x200000 0x200000 1 = Inr s'"
    by (rule boot_block)
  have "pt_ok 1 demo_linker (mmu_boot demo_linker (\<lambda>_. 0)) (\<lambda>_. None)"
    by (rule mmu_boot_ok) (simp_all add: page_aligned_def)
  from mmu_map_2mb_maps [OF this, of "0x200000" "0x200000" 1] s' show ?thesis
    by (auto simp: l0_index_def l1_index_def l2_index_def)
qed

text \<open>Unmapping a mapped page makes exactly that page untranslated, keeps every other page, and
  flushes the TLB and the instruction cache.\<close>

lemma mmu_unmap_page:
  assumes "pt_ok fuel ld s P" "mmu_leaf s va = Some e" "e AND 3 = 3"
  shows "(\<forall>va'. mmu_leaf (mmu_unmap s va pa) va' = (if va_page va' = va_page va then None else mmu_leaf s va'))
    \<and> mmu_events (mmu_unmap s va pa) = mmu_events s @ [TlbFlush, ICacheFlush]
    \<and> pt_ok fuel ld (mmu_unmap s va pa) P"
proof -
  let ?p = "[l0_index va, l1_index va, l2_index va]"
  have p: "P ?p \<noteq> None" "at_path P ?p"
    and u: "mmu_unmap s va pa = log_mmu [TlbFlush, ICacheFlush] (pt_set s P ?p (l3_index va) 0)"
    using mmu_unmap_eq(1) [OF assms, of pa] by (auto simp: at_path_def)
  have ok': "pt_ok fuel ld (pt_set s P ?p (l3_index va) 0) P"
    by (rule pt_set_ok(1) [OF assms(1) p(2) index_less(4)]) simp
  have "mmu_leaf (mmu_unmap s va pa) va' = (if va_page va' = va_page va then None else mmu_leaf s va')" for va'
    unfolding u log_mmu_leaf pt_ok_leaf [OF ok'] pt_ok_leaf [OF assms(1)]
    using walk_page_set [OF assms(1) p(1) index_less(4) [of va] index_less(1-4) [of va'], of 0]
    by (simp add: va_page_def)
  then show ?thesis using ok' by (simp add: u) (simp add: log_mmu_def pt_set_def set_entry_def)
qed

lemma boot_page:
  obtains s' P' where "mmu_map_4kb 1 demo_linker (mmu_boot demo_linker (\<lambda>_. 0)) 0x40001000 0x9000000 0 1 = Inr s'"
    "pt_ok 1 demo_linker s' P'" "mmu_leaf s' 0x40001000 = Some (0x9000000 OR page_attr 1 0 0)"
    "mmu_events s' = []"
proof -
  let ?s = "mmu_boot demo_linker (\<lambda>_. 0)"
  have ok: "pt_ok 1 demo_linker ?s (\<lambda>_. None)"
    by (rule mmu_boot_ok) (simp_all add: page_aligned_def)
  have r: "round_page 0x1000 = 0x1000" by (simp add: round_page_def)
  have "\<exists>s'. mmu_map_4kb 1 demo_linker ?s 0x40001000 0x9000000 0 1 = Inr s'"
    by (simp add: mmu_map_4kb_def ensure_l1_def ensure_table_def talloc_def r mmu_boot_def heap_boot_def
        kmem.defs Let_def numeral_eq_Suc [of num.One] length_memset_0 entry_at_def l0_index_def
        l1_index_def l2_index_def l3_index_def table_addr_def table_desc_def set_entry_def
        level_permission_def)
  then obtain s' where s': "mmu_map_4kb 1 demo_linker ?s 0x40001000 0x9000000 0 1 = Inr s'" by blast
  from map_4kb_ok [OF ok, of "0x40001000" 1 0 "0x9000000" 0] s' show ?thesis
    by (auto simp: level_permission_def intro: that)
qed

lemma mmu_unmap_page_witness:
  "\<exists>s. mmu_map_4kb 1 demo_linker (mmu_boot demo_linker (\<lambda>_. 0)) 0x40001000 0x9000000 0 1 = Inr s
     \<and> mmu_leaf s 0x40001000 \<noteq> None \<and> mmu_leaf (mmu_unmap s 0x40001000 0) 0x40001000 = None
     \<and> mmu_events (mmu_unmap s 0x40001000 0) = [TlbFlush, ICacheFlush]"
proof -
  obtain s P where s: "mmu_map_4kb 1 demo_linker (mmu_boot demo_linker (\<lambda>_. 0)) 0x40001000 0x9000000 0 1 = Inr s"
    "pt_ok 1 demo_linker s P" "mmu_leaf s 0x40001000 = Some (0x9000000 OR page_attr 1 0 0)"
    "mmu_events s = []" by (rule boot_page)
  have "(0x9000000 OR page_attr 1 0 0) AND 3 = 3" by (simp add: page_attr_def)
  from mmu_unmap_page [OF s(2,3) this, of 0] s show ?thesis by (auto simp: va_page_def)
qed

text \<open>Unmapping inside a 2 MiB block removes the translation of the whole block and returns
  without flushing: no TLB or instruction cache maintenance is issued.\<close>

lemma mmu_unmap_block_unflushed:
  assumes "pt_ok fuel ld s P" "mmu_leaf s va = Some e"
    and "P [l0_index va, l1_index va, l2_index va] = None"
  shows "(\<forall>va'. mmu_leaf (mmu_unmap s va pa) va' =
       (if (l0_index va', l1_index va', l2_index va') = (l0_index va, l1_index va, l2_index va)
        then None else mmu_leaf s va'))
    \<and> mmu_events (mmu_unmap s va pa) = mmu_events s"
proof -
  let ?p = "[l0_index va, l1_index va]"
  have p: "P ?p \<noteq> None" "at_path P ?p" and u: "mmu_unmap s va pa = pt_set s P ?p (l2_index va) 0"
    using mmu_unmap_eq(2) [OF assms, of pa] by (auto simp: at_path_def)
  have ok': "pt_ok fuel ld (pt_set s P ?p (l2_index va) 0) P"
    by (rule pt_set_ok(1) [OF assms(1) p(2) index_less(3)]) (use assms(3) in \<open>simp add: points_def\<close>)
  have z: "(0 :: u64) AND 3 \<noteq> 3" by simp
  have "mmu_leaf (mmu_unmap s va pa) va' =
       (if (l0_index va', l1_index va', l2_index va') = (l0_index va, l1_index va, l2_index va)
        then None else mmu_leaf s va')" for va'
    unfolding u pt_ok_leaf [OF ok'] pt_ok_leaf [OF assms(1)]
    using walk_block_set [OF assms(1) p(1) assms(3) z index_less(3) [of va] index_less(1-4) [of va']]
    by simp
  then show ?thesis by (simp add: u) (simp add: pt_set_def set_entry_def)
qed

lemma mmu_unmap_block_unflushed_witness:
  "\<exists>s. mmu_map_2mb 1 demo_linker (mmu_boot demo_linker (\<lambda>_. 0)) 0x200000 0x200000 1 = Inr s
     \<and> mmu_leaf (mmu_unmap s 0x201000 0) 0x3FF000 = None
     \<and> mmu_events (mmu_unmap s 0x201000 0) = mmu_events s"
proof -
  obtain s P where s: "mmu_map_2mb 1 demo_linker (mmu_boot demo_linker (\<lambda>_. 0)) 0x200000 0x200000 1 = Inr s"
    "pt_ok 1 demo_linker s P" "P [0, 0, 1] = None" "mmu_leaf s 0x201000 = Some (0x200000 OR block_attr 1)"
    by (rule boot_block)
  have "P [l0_index 0x201000, l1_index 0x201000, l2_index 0x201000] = None"
    using s(3) by (simp add: l0_index_def l1_index_def l2_index_def)
  from mmu_unmap_block_unflushed [OF s(2,4) this, of 0] s(1) show ?thesis
    by (auto simp: l0_index_def l1_index_def l2_index_def)
qed

end
