(* ===== verification/Strings.thy ===== *)
theory Strings
  imports Mem_Functions "HOL-Library.Sublist"
begin

section \<open>Strings (\<open>shared/std/string.c\<close>)\<close>

text \<open>
  A \<open>char*\<close> is the list of bytes from the pointer to the end of its array (\<open>char\<close> is unsigned on
  AArch64); reading at the end of the list gives the terminating 0, and a 0 inside the list ends the
  string as in C.  A pointer that may be NULL is an option.  A \<open>string\<close> is a record of the bytes of
  its buffer and the two lengths; \<open>ok n\<close> says whether \<open>malloc(n)\<close> succeeds (a system call).
  Arguments of the formatter are values of \<open>fmt_arg\<close>; the floating-point arithmetic of \<open>%f\<close>
  is a parameter that gives the sign, the whole part and the digits.
\<close>

type_synonym cstr = "u8 list"

fun hd0 :: "cstr \<Rightarrow> u8" where
  "hd0 [] = 0"
| "hd0 (c # cs) = c"

definition cut :: "cstr \<Rightarrow> cstr" where
  "cut s = takeWhile (\<lambda>c. c \<noteq> 0) s"

record str =
  s_data :: "cstr option"
  s_length :: u32
  s_mem_length :: u32

definition null_str :: str where
  "null_str = \<lparr>s_data = None, s_length = 0, s_mem_length = 0\<rparr>"

subsection \<open>Lengths and copies\<close>

fun strlen_loop :: "cstr \<Rightarrow> u32 \<Rightarrow> u32 \<Rightarrow> u32" where
  "strlen_loop [] limit len = len"
| "strlen_loop (c # cs) limit len =
     (if (limit = 0 \<or> len < limit) \<and> c \<noteq> 0 then strlen_loop cs limit (len + 1) else len)"

definition strlen :: "cstr option \<Rightarrow> u32 \<Rightarrow> u32" where
  "strlen p limit = (case p of None \<Rightarrow> 0 | Some s \<Rightarrow> strlen_loop s limit 0)"

definition copy_str :: "(u32 \<Rightarrow> bool) \<Rightarrow> cstr \<Rightarrow> u32 \<Rightarrow> str" where
  "copy_str ok s len =
     (if ok (len + 1) then
        \<lparr>s_data = Some (take (unat len) s @ [0]), s_length = len, s_mem_length = len + 1\<rparr>
      else null_str)"

definition string_l :: "(u32 \<Rightarrow> bool) \<Rightarrow> cstr option \<Rightarrow> str" where
  "string_l ok p = (case p of None \<Rightarrow> null_str | Some s \<Rightarrow> copy_str ok s (strlen p 0))"

definition string_ca_max :: "(u32 \<Rightarrow> bool) \<Rightarrow> cstr option \<Rightarrow> u32 \<Rightarrow> str" where
  "string_ca_max ok p limit = (case p of None \<Rightarrow> null_str | Some s \<Rightarrow> copy_str ok s (strlen p limit))"

definition string_tail :: "(u32 \<Rightarrow> bool) \<Rightarrow> cstr option \<Rightarrow> u32 \<Rightarrow> str" where
  "string_tail ok p limit =
     (case p of None \<Rightarrow> null_str
      | Some s \<Rightarrow>
          let len = strlen p 0; off = sint len - sint limit; off = (if off < 0 then 0 else off)
          in copy_str ok (drop (nat off) s) (len - of_int off))"

definition string_repeat :: "(u32 \<Rightarrow> bool) \<Rightarrow> u8 \<Rightarrow> u32 \<Rightarrow> fault + str" where
  "string_repeat ok symbol amount =
     (if ok (amount + 1) then
        Inr \<lparr>s_data = Some (memset_bytes (ucast symbol) (unat amount) @ [0]),
             s_length = amount, s_mem_length = amount + 1\<rparr>
      else Inl NullDeref)"

definition string_c :: "(u32 \<Rightarrow> bool) \<Rightarrow> u8 \<Rightarrow> fault + str" where
  "string_c ok c =
     (if ok 2 then Inr \<lparr>s_data = Some [c, 0], s_length = 1, s_mem_length = 2\<rparr> else Inl NullDeref)"

subsection \<open>Numbers to text\<close>

definition hex_char :: "u8 \<Rightarrow> u8" where
  "hex_char nibble = (if nibble < 10 then 48 + nibble else 65 + (nibble - 10))"

fun hex_loop :: "u64 \<Rightarrow> bool \<Rightarrow> nat list \<Rightarrow> cstr" where
  "hex_loop value started [] = []"
| "hex_loop value started (i # is) =
     (let curr = hex_char (ucast (drop_bit i value AND 0xF))
      in if started \<or> curr \<noteq> 48 \<or> i = 0 then curr # hex_loop value True is
         else hex_loop value started is)"

fun shifts :: "nat \<Rightarrow> nat \<Rightarrow> nat list" where
  "shifts w 0 = []"
| "shifts w (Suc k) = w * k # shifts w k"

definition parse_hex :: "u64 \<Rightarrow> cstr" where
  "parse_hex value = [48, 120] @ hex_loop value False (shifts 4 16)"

definition string_from_hex :: "(u32 \<Rightarrow> bool) \<Rightarrow> u64 \<Rightarrow> fault + str" where
  "string_from_hex ok value =
     (if ok 18 then Inr \<lparr>s_data = Some (parse_hex value @ [0]),
                         s_length = of_nat (length (parse_hex value)), s_mem_length = 18\<rparr>
      else Inl NullDeref)"

fun bin_loop :: "u64 \<Rightarrow> bool \<Rightarrow> nat list \<Rightarrow> cstr" where
  "bin_loop value started [] = []"
| "bin_loop value started (i # is) =
     (let b = (if drop_bit i value AND 1 \<noteq> 0 then 49 else 48)
      in if started \<or> b \<noteq> 48 \<or> i = 0 then b # bin_loop value True is
         else bin_loop value started is)"

definition parse_bin :: "u64 \<Rightarrow> cstr" where
  "parse_bin value = [48, 98] @ bin_loop value False (shifts 1 64)"

definition string_from_bin :: "(u32 \<Rightarrow> bool) \<Rightarrow> u64 \<Rightarrow> fault + str" where
  "string_from_bin ok value =
     (if ok 66 then Inr \<lparr>s_data = Some (parse_bin value @ [0]),
                         s_length = of_nat (length (parse_bin value)), s_mem_length = 66\<rparr>
      else Inl NullDeref)"

fun parse_hex_acc :: "u64 \<Rightarrow> cstr \<Rightarrow> nat \<Rightarrow> u64" where
  "parse_hex_acc result s 0 = result"
| "parse_hex_acc result [] (Suc n) = result"
| "parse_hex_acc result (c # s) (Suc n) =
     (if 48 \<le> c \<and> c \<le> 57 then parse_hex_acc (push_bit 4 result OR ucast (c - 48)) s n
      else if 97 \<le> c \<and> c \<le> 102 then parse_hex_acc (push_bit 4 result OR ucast (c - 97 + 10)) s n
      else if 65 \<le> c \<and> c \<le> 70 then parse_hex_acc (push_bit 4 result OR ucast (c - 65 + 10)) s n
      else result)"

definition parse_hex_u64 :: "cstr \<Rightarrow> u64 \<Rightarrow> u64" where
  "parse_hex_u64 s sz = parse_hex_acc 0 s (unat sz)"

subsection \<open>Comparing and searching\<close>

definition tolower :: "u8 \<Rightarrow> u8" where
  "tolower c = (if 65 \<le> c \<and> c \<le> 90 then c + 97 - 65 else c)"

definition fold_case :: "bool \<Rightarrow> u8 \<Rightarrow> u8" where
  "fold_case ci c = (if ci then tolower c else c)"

fun strcmp_loop :: "bool \<Rightarrow> cstr \<Rightarrow> cstr \<Rightarrow> int" where
  "strcmp_loop ci (a # as) (b # bs) =
     (if a \<noteq> 0 \<and> b \<noteq> 0 then
        if fold_case ci a \<noteq> fold_case ci b then uint (fold_case ci a) - uint (fold_case ci b)
        else strcmp_loop ci as bs
      else uint (fold_case ci a) - uint (fold_case ci b))"
| "strcmp_loop ci as bs = uint (fold_case ci (hd0 as)) - uint (fold_case ci (hd0 bs))"

definition strcmp :: "cstr option \<Rightarrow> cstr option \<Rightarrow> bool \<Rightarrow> int" where
  "strcmp a b ci =
     (case (a, b) of (None, None) \<Rightarrow> 0 | (None, Some _) \<Rightarrow> -1 | (Some _, None) \<Rightarrow> 1
      | (Some s, Some t) \<Rightarrow> strcmp_loop ci s t)"

definition string_equals :: "str \<Rightarrow> str \<Rightarrow> bool" where
  "string_equals a b \<longleftrightarrow> strcmp (s_data a) (s_data b) False = 0"

fun strstart_loop :: "bool \<Rightarrow> cstr \<Rightarrow> cstr \<Rightarrow> int \<Rightarrow> int" where
  "strstart_loop ci (a # as) (b # bs) index =
     (if a \<noteq> 0 \<and> b \<noteq> 0 then
        if fold_case ci a \<noteq> fold_case ci b then index else strstart_loop ci as bs (index + 1)
      else index)"
| "strstart_loop ci as bs index = index"

definition strstart :: "cstr \<Rightarrow> cstr \<Rightarrow> bool \<Rightarrow> int" where
  "strstart a b ci = strstart_loop ci a b 0"

fun match_at :: "cstr \<Rightarrow> cstr \<Rightarrow> bool" where
  "match_at a [] = True"
| "match_at a (y # ys) = (y = 0 \<or> hd0 a = y \<and> match_at (tl a) ys)"

fun strindex_loop :: "cstr \<Rightarrow> cstr \<Rightarrow> int \<Rightarrow> int" where
  "strindex_loop [] b i = -1"
| "strindex_loop (x # xs) b i =
     (if x = 0 then -1 else if match_at (x # xs) b then i else strindex_loop xs b (i + 1))"

definition strindex :: "cstr \<Rightarrow> cstr \<Rightarrow> int" where
  "strindex a b = strindex_loop a b 0"

fun strend_at :: "bool \<Rightarrow> cstr \<Rightarrow> cstr \<Rightarrow> bool" where
  "strend_at ci [] pb = True"
| "strend_at ci (x # xs) pb =
     (fold_case ci x = 0 \<or> fold_case ci x = fold_case ci (hd0 pb) \<and> strend_at ci xs (tl pb))"

fun strend :: "cstr \<Rightarrow> cstr \<Rightarrow> bool \<Rightarrow> int" where
  "strend [] b ci = 1"
| "strend (x # xs) b ci =
     (if x \<noteq> 0 \<and> hd0 b \<noteq> 0 then
        if fold_case ci x = fold_case ci (hd0 b) \<and> strend_at ci (x # xs) b then 0 else strend xs b ci
      else 1)"

fun cont_at :: "cstr \<Rightarrow> cstr \<Rightarrow> bool" where
  "cont_at (x # xs) (y # ys) = (if x \<noteq> 0 \<and> y \<noteq> 0 \<and> x = y then cont_at xs ys else y = 0)"
| "cont_at p q = (hd0 q = 0)"

fun strcont :: "cstr \<Rightarrow> cstr \<Rightarrow> bool" where
  "strcont [] b = False"
| "strcont (x # xs) b = (if x \<noteq> 0 then cont_at (x # xs) b \<or> strcont xs b else False)"

fun utf16_loop :: "u16 list \<Rightarrow> nat \<Rightarrow> cstr" where
  "utf16_loop ws 0 = []"
| "utf16_loop [] (Suc n) = []"
| "utf16_loop (w # ws) (Suc n) =
     (if w = 0 then [] else (if w \<le> 0x7F then ucast (w AND 0xFF) else 63) # utf16_loop ws n)"

definition utf16tochar :: "u16 list \<Rightarrow> u64 \<Rightarrow> u32 \<times> cstr" where
  "utf16tochar ws max_len = (1, utf16_loop ws (unat max_len) @ [0])"

subsection \<open>The formatter\<close>

datatype 'd fmt_arg = ArgInt u64 | ArgStr cstr | ArgDouble 'd

text \<open>Digits of \<open>do ... while (val && temp_len < 20)\<close>, least significant first.\<close>

fun dec_loop :: "nat \<Rightarrow> u64 \<Rightarrow> cstr" where
  "dec_loop 0 val = []"
| "dec_loop (Suc n) val =
     (48 + ucast (val mod 10)) # (if val div 10 \<noteq> 0 then dec_loop n (val div 10) else [])"

definition put_lim :: "cstr \<Rightarrow> cstr \<Rightarrow> cstr" where
  "put_lim buf bs = buf @ take (255 - length buf) bs"

definition format_int :: "cstr \<Rightarrow> u64 \<Rightarrow> cstr" where
  "format_int buf val =
     (let neg = sint (ucast val :: u32) < 0;
          buf = (if neg then buf @ [45] else buf);
          val = (if neg then scast (- (ucast val :: u32)) else val)
      in put_lim buf (rev (dec_loop 20 val)))"

definition format_double :: "('d \<Rightarrow> bool \<times> u64 \<times> u8 list) \<Rightarrow> cstr \<Rightarrow> 'd \<Rightarrow> cstr" where
  "format_double fd buf d =
     (case fd d of (neg, whole, fracs) \<Rightarrow>
        let buf = (if neg then buf @ [45] else buf);
            buf = put_lim buf (rev (dec_loop 20 whole));
            buf = put_lim buf [46]
        in put_lim buf (map (\<lambda>digit. 48 + digit) fracs))"

definition format_spec ::
    "('d \<Rightarrow> bool \<times> u64 \<times> u8 list) \<Rightarrow> u8 \<Rightarrow> 'd fmt_arg list \<Rightarrow> cstr \<Rightarrow> fault + ('d fmt_arg list \<times> cstr)" where
  "format_spec fd c args buf =
     (if c \<in> {120, 98, 99, 115, 105, 102, 100} then
        case args of
          [] \<Rightarrow> Inl Uninit
        | arg # rest \<Rightarrow>
            (case arg of
               ArgInt val \<Rightarrow>
                 if c = 120 then Inr (rest, buf @ parse_hex val)
                 else if c = 98 then Inr (rest, put_lim buf (parse_bin val))
                 else if c = 99 then Inr (rest, buf @ [ucast val])
                 else if c = 105 then Inr (rest, format_int buf val)
                 else Inl WildDeref
             | ArgStr s \<Rightarrow> if c = 115 then Inr (rest, put_lim buf (cut s)) else Inl WildDeref
             | ArgDouble d \<Rightarrow>
                 if c = 102 \<or> c = 100 then Inr (rest, format_double fd buf d) else Inl WildDeref)
      else Inr (args, buf @ [37, c]))"

fun format_loop ::
    "('d \<Rightarrow> bool \<times> u64 \<times> u8 list) \<Rightarrow> cstr \<Rightarrow> 'd fmt_arg list \<Rightarrow> cstr \<Rightarrow> fault + cstr" where
  "format_loop fd [] args buf = Inr buf"
| "format_loop fd [c] args buf =
     (if c \<noteq> 0 \<and> length buf < 255 then Inr (buf @ [c]) else Inr buf)"
| "format_loop fd (c # d # fmt) args buf =
     (if c \<noteq> 0 \<and> length buf < 255 then
        if c = 37 \<and> d \<noteq> 0 then
          bindE (format_spec fd d args buf) (\<lambda>(args', buf'). format_loop fd fmt args' buf')
        else format_loop fd (d # fmt) args (buf @ [c])
      else Inr buf)"

definition string_format_va_buf ::
    "('d \<Rightarrow> bool \<times> u64 \<times> u8 list) \<Rightarrow> cstr \<Rightarrow> 'd fmt_arg list \<Rightarrow> fault + (cstr \<times> nat)" where
  "string_format_va_buf fd fmt args =
     bindE (format_loop fd fmt args []) (\<lambda>buf. Inr (buf @ [0], length buf))"

definition string_format_va ::
    "(u32 \<Rightarrow> bool) \<Rightarrow> ('d \<Rightarrow> bool \<times> u64 \<times> u8 list) \<Rightarrow> cstr \<Rightarrow> 'd fmt_arg list \<Rightarrow> fault + str" where
  "string_format_va ok fd fmt args =
     (if ok 256 then
        bindE (string_format_va_buf fd fmt args) (\<lambda>(buf, len).
          Inr \<lparr>s_data = Some buf, s_length = of_nat len, s_mem_length = 256\<rparr>)
      else Inl NullDeref)"

definition string_format ::
    "(u32 \<Rightarrow> bool) \<Rightarrow> ('d \<Rightarrow> bool \<times> u64 \<times> u8 list) \<Rightarrow> cstr option \<Rightarrow> 'd fmt_arg list \<Rightarrow> fault + str" where
  "string_format ok fd p args =
     (case p of None \<Rightarrow> Inr null_str | Some fmt \<Rightarrow> string_format_va ok fd fmt args)"

subsection \<open>Strings without an inner 0\<close>

lemma cut_simps [simp]:
  "cut [] = []" "cut (c # cs) = (if c = 0 then [] else c # cut cs)"
  by (simp_all add: cut_def)

lemma cut_id [simp]: "0 \<notin> set s \<Longrightarrow> cut s = s"
  by (induction s) auto

lemma cut_no_nul [simp]: "0 \<notin> set (cut s)"
  by (induction s) auto

lemma fold_case_0 [simp]: "fold_case ci c = 0 \<longleftrightarrow> c = 0"
proof -
  have "tolower c = 0 \<longleftrightarrow> c = 0"
  proof (cases "65 \<le> c \<and> c \<le> 90")
    case True
    then have u: "65 \<le> unat c" "unat c \<le> 90" by (simp_all add: word_le_nat_alt)
    then have "unat (c + 32) = unat c + 32" using unat_add_small [of c 32] by simp
    then have "c + 32 \<noteq> 0" "c \<noteq> 0" using u by (auto simp: word_unat_eq_iff)
    then show ?thesis using True by (simp add: tolower_def add.commute)
  qed (auto simp: tolower_def)
  then show ?thesis by (simp add: fold_case_def)
qed

lemma fold_case_zero [simp]: "fold_case ci 0 = 0"
  by (simp add: fold_case_def tolower_def)

lemma hd0_cut: "hd0 (cut s) = hd0 s"
  by (cases s) auto

lemma strlen_loop_length:
  "length s + unat len < 2 ^ 32 \<Longrightarrow> strlen_loop s 0 len = len + of_nat (length (cut s))"
proof (induction s arbitrary: len)
  case (Cons c s)
  then have "unat (len + 1) = unat len + 1" by (intro unat_add_1) simp
  with Cons show ?case by simp
qed simp

lemma strcmp_loop_0:
  "strcmp_loop ci a b = 0 \<longleftrightarrow> map (fold_case ci) (cut a) = map (fold_case ci) (cut b)"
proof (induction ci a b rule: strcmp_loop.induct [case_names cons left right])
  case (cons ci a as b bs)
  have "uint (fold_case ci a) - uint (fold_case ci b) = 0 \<longleftrightarrow> fold_case ci a = fold_case ci b"
    unfolding word_uint_eq_iff [of "fold_case ci a"] by simp
  moreover have "fold_case ci a = fold_case ci b \<Longrightarrow> a = 0 \<longleftrightarrow> b = 0" by (metis fold_case_0)
  ultimately show ?case using cons by (auto simp del: uint_0_iff)
next
  case (left ci bs)
  then show ?case by (cases bs) (auto simp: eq_commute [of 0] uint_0_iff)
next
  case (right ci as)
  then show ?case by (cases as) (auto simp: uint_0_iff)
qed

lemma match_at_prefix: "0 \<notin> set b \<Longrightarrow> match_at a b = prefix b a"
proof (induction a b rule: match_at.induct)
  case (2 a y ys)
  then show ?case by (cases a) auto
qed simp

lemma strindex_loop_spec:
  assumes "0 \<notin> set a" "0 \<notin> set b"
  shows "(strindex_loop a b i = -1 \<or> (\<exists>k<length a. strindex_loop a b i = i + int k
            \<and> prefix b (drop k a) \<and> (\<forall>j<k. \<not> prefix b (drop j a))))
    \<and> (0 \<le> i \<longrightarrow> strindex_loop a b i = -1 \<longrightarrow> (\<forall>j<length a. \<not> prefix b (drop j a)))"
  using assms
proof (induction a arbitrary: i)
  case (Cons x xs)
  show ?case
  proof (cases "match_at (x # xs) b")
    case True
    then show ?thesis using Cons.prems match_at_prefix by auto
  next
    case False
    have np: "\<not> prefix b (x # xs)" using False Cons.prems match_at_prefix by blast
    have step: "strindex_loop (x # xs) b i = strindex_loop xs b (i + 1)"
      using False Cons.prems by simp
    have IH: "strindex_loop xs b (i + 1) = -1 \<or> (\<exists>k<length xs. strindex_loop xs b (i + 1) = i + 1 + int k
            \<and> prefix b (drop k xs) \<and> (\<forall>j<k. \<not> prefix b (drop j xs)))"
        "0 \<le> i \<Longrightarrow> strindex_loop xs b (i + 1) = -1 \<Longrightarrow> \<forall>j<length xs. \<not> prefix b (drop j xs)"
      using Cons.IH [of "i + 1"] Cons.prems by auto
    have drop_Suc: "(\<forall>j<Suc n. \<not> prefix b (drop j (x # xs))) \<longleftrightarrow> (\<forall>j<n. \<not> prefix b (drop j xs))" for n
      using np by (auto simp: less_Suc_eq_0_disj)
    show ?thesis
      unfolding step
    proof (intro conjI impI)
      show "strindex_loop xs b (i + 1) = -1 \<or> (\<exists>k<length (x # xs). strindex_loop xs b (i + 1) = i + int k
            \<and> prefix b (drop k (x # xs)) \<and> (\<forall>j<k. \<not> prefix b (drop j (x # xs))))"
      proof (cases "strindex_loop xs b (i + 1) = -1")
        case False
        then obtain k where "k < length xs" "strindex_loop xs b (i + 1) = i + 1 + int k"
            "prefix b (drop k xs)" "\<forall>j<k. \<not> prefix b (drop j xs)" using IH(1) by blast
        then show ?thesis using drop_Suc [of k] by (intro disjI2 exI [of _ "Suc k"]) simp
      qed simp
      assume "0 \<le> i" "strindex_loop xs b (i + 1) = -1"
      then show "\<forall>j<length (x # xs). \<not> prefix b (drop j (x # xs))"
        using IH(2) drop_Suc [of "length xs"] by simp
    qed
  qed
qed simp

lemma cont_at_prefix: "0 \<notin> set q \<Longrightarrow> 0 \<notin> set p \<Longrightarrow> cont_at p q = prefix q p"
proof (induction p q rule: cont_at.induct [case_names both left right])
  case (left q)
  then show ?case by (cases q) auto
qed auto

lemma strstart_loop_lcp:
  "0 \<notin> set a \<Longrightarrow> 0 \<notin> set b \<Longrightarrow> strstart_loop ci a b i
     = i + int (length (longest_common_prefix (map (fold_case ci) a) (map (fold_case ci) b)))"
  by (induction ci a b i rule: strstart_loop.induct) auto

lemma strend_at_prefix:
  "0 \<notin> set a \<Longrightarrow> 0 \<notin> set b \<Longrightarrow> strend_at ci a b = prefix (map (fold_case ci) a) (map (fold_case ci) b)"
proof (induction ci a b rule: strend_at.induct)
  case (2 ci x xs pb)
  then show ?case by (cases pb) auto
qed simp

subsection \<open>Hexadecimal text\<close>

lemma hex_digit_value:
  assumes "n < 16"
  shows "parse_hex_acc r (hex_char n # s) (Suc k) = parse_hex_acc (push_bit 4 r OR ucast n) s k"
    and "hex_char n = 48 \<longleftrightarrow> n = 0"
proof -
  have u: "unat n < 16" using assms by (simp add: word_less_nat_alt)
  show "hex_char n = 48 \<longleftrightarrow> n = 0"
  proof (cases "n < 10")
    case False
    then have "unat (55 + n) = 55 + unat n" using unat_add_small [of 55 n] u by simp
    moreover have "10 \<le> unat n" using False by (simp add: word_less_nat_alt)
    ultimately show ?thesis using False by (auto simp: hex_char_def word_unat_eq_iff)
  qed (simp add: hex_char_def)
  show "parse_hex_acc r (hex_char n # s) (Suc k) = parse_hex_acc (push_bit 4 r OR ucast n) s k"
  proof (cases "n < 10")
    case True
    then have "unat (48 + n) = 48 + unat n" "unat n < 10"
      using unat_add_small [of 48 n] u by (simp_all add: word_less_nat_alt)
    with True show ?thesis by (simp add: hex_char_def word_le_nat_alt)
  next
    case False
    then have "unat (55 + n) = 55 + unat n" "10 \<le> unat n"
      using unat_add_small [of 55 n] u by (simp_all add: word_less_nat_alt)
    moreover have "hex_char n = 55 + n" using False by (simp add: hex_char_def)
    ultimately show ?thesis using u by (simp add: word_le_nat_alt)
  qed
qed

lemma nibble_less: "(ucast (drop_bit i (v :: u64) AND 0xF) :: u8) < 16"
proof -
  have m: "(0xF :: u64) = mask 4" by (simp add: mask_eq_exp_minus_1)
  have "unat (drop_bit i v AND 0xF) < 16" unfolding m unat_and_mask by simp
  then show ?thesis by (simp add: word_less_nat_alt unat_ucast_mod)
qed

lemma drop_bit_nibble:
  "drop_bit (4 * k) (v :: u64) =
     push_bit 4 (drop_bit (4 * Suc k) v) OR ucast (ucast (drop_bit (4 * k) v AND 0xF) :: u8)"
proof (rule bit_word_eqI)
  have m: "(0xF :: u64) = mask 4" by (simp add: mask_eq_exp_minus_1)
  fix i assume "i < LENGTH(64)"
  then show "bit (drop_bit (4 * k) v) i \<longleftrightarrow>
      bit (push_bit 4 (drop_bit (4 * Suc k) v) OR ucast (ucast (drop_bit (4 * k) v AND 0xF) :: u8)) i"
    unfolding m by (cases "i < 4") (auto simp: bit_simps)
qed

lemma parse_hex_acc_Nil [simp]: "parse_hex_acc r [] n = r"
  by (cases n) auto

lemma hex_loop_value:
  "k \<le> n \<Longrightarrow> length (hex_loop v started (shifts 4 k)) \<le> n \<Longrightarrow> started \<or> drop_bit (4 * k) v = 0 \<Longrightarrow>
   parse_hex_acc (drop_bit (4 * k) v) (hex_loop v started (shifts 4 k)) n = v"
proof (induction k arbitrary: started n)
  case (Suc k)
  let ?d = "ucast (drop_bit (4 * k) v AND 0xF) :: u8"
  note dig = hex_digit_value [OF nibble_less [of "4 * k" v]]
  show ?case
  proof (cases "started \<or> hex_char ?d \<noteq> 48 \<or> k = 0")
    case True
    obtain n' where n': "n = Suc n'" using Suc.prems(1) by (cases n) auto
    have "hex_loop v started (shifts 4 (Suc k)) = hex_char ?d # hex_loop v True (shifts 4 k)"
      using True by (auto simp: Let_def)
    then show ?thesis
      using Suc.IH [of n' True] Suc.prems by (simp only: n' dig(1) flip: drop_bit_nibble) simp
  next
    case False
    then have d0: "?d = 0" using dig(2) by blast
    have eq: "hex_loop v started (shifts 4 (Suc k)) = hex_loop v False (shifts 4 k)"
      using False by (auto simp: Let_def)
    have "drop_bit (4 * Suc k) v = 0" using False Suc.prems(3) by blast
    moreover have "drop_bit (4 * k) v = 0"
      using drop_bit_nibble [of k v] unfolding calculation d0 by simp
    ultimately show ?thesis using Suc.IH [of n False] Suc.prems unfolding eq by simp
  qed
qed simp

lemma length_hex_loop: "length (hex_loop v b is) \<le> length is"
  by (induction v b "is" rule: hex_loop.induct) (auto simp: Let_def)

lemma length_shifts [simp]: "length (shifts w k) = k"
  by (induction k) auto

lemma length_parse_hex: "length (parse_hex v) \<le> 18"
  using length_hex_loop [of v False "shifts 4 16"] by (simp add: parse_hex_def del: shifts.simps)

subsection \<open>Decimal text\<close>

text \<open>The number a list of decimal digits stands for, least significant digit first.\<close>

fun dec_value :: "cstr \<Rightarrow> nat" where
  "dec_value [] = 0"
| "dec_value (c # cs) = unat (c - 48) + 10 * dec_value cs"

lemma dec_loop_value: "unat v < 10 ^ n \<Longrightarrow> dec_value (dec_loop n v) = unat v"
proof (induction n arbitrary: v)
  case (Suc n)
  have d: "unat (48 + ucast (v mod 10) - 48 :: u8) = unat v mod 10"
    by (simp add: unat_ucast_mod unat_mod)
  have q: "unat (v div 10) = unat v div 10" by (simp add: unat_div)
  have "unat v div 10 < 10 ^ n"
    using Suc.prems by (intro less_mult_imp_div_less) (simp add: mult.commute)
  then have IH: "dec_value (dec_loop n (v div 10)) = unat v div 10"
    using Suc.IH [of "v div 10"] unfolding q by simp
  have "dec_value (dec_loop (Suc n) v) = unat v mod 10 + 10 * (unat v div 10)"
  proof (cases "v div 10 = 0")
    case True
    then have "unat v div 10 = 0" unfolding q [symmetric] by (simp only: unat_0)
    with True show ?thesis by (simp only: dec_loop.simps dec_value.simps d) simp
  next
    case False
    then show ?thesis by (simp only: dec_loop.simps dec_value.simps d IH if_True not_False_eq_True)
  qed
  then show ?case by simp
qed simp

subsection \<open>How far the formatter writes\<close>

lemma length_put_lim: "length buf \<le> 255 \<Longrightarrow> length (put_lim buf bs) \<le> 255"
  by (simp add: put_lim_def)

lemma length_format_int: "length buf < 255 \<Longrightarrow> length (format_int buf v) \<le> 255"
  unfolding format_int_def Let_def by (intro length_put_lim) simp

lemma length_format_double: "length buf < 255 \<Longrightarrow> length (format_double fd buf d) \<le> 255"
  unfolding format_double_def Let_def by (cases "fd d") (auto intro!: length_put_lim)

lemma length_format_spec:
  assumes r: "format_spec fd c args buf = Inr (args', buf')" and b: "length buf < 255"
  shows "c \<in> {98, 99, 115, 105, 102, 100} \<Longrightarrow> length buf' \<le> 255" "length buf' \<le> 272"
proof -
  have b': "length buf \<le> 255" using b by simp
  show c: "length buf' \<le> 255" if "c \<in> {98, 99, 115, 105, 102, 100}"
    using r b that length_put_lim [OF b'] length_format_int [OF b] length_format_double [OF b]
    by (auto simp: format_spec_def split: list.splits fmt_arg.splits if_splits)
  have "length (buf @ parse_hex v) \<le> 272" for v
    using b length_parse_hex [of v] by simp
  then have "length buf' \<le> 272" if "c \<notin> {98, 99, 115, 105, 102, 100}"
    using r b that by (auto simp: format_spec_def split: list.splits fmt_arg.splits if_splits)
  with c show "length buf' \<le> 272" by (cases "c \<in> {98, 99, 115, 105, 102, 100}") auto
qed

lemma format_loop_bound:
  "format_loop fd fmt args buf = Inr buf' \<Longrightarrow> length buf \<le> 272 \<Longrightarrow> length buf' \<le> 272"
proof (induction fd fmt args buf rule: format_loop.induct)
  case (3 fd c d fmt args buf)
  show ?case
  proof (cases "c \<noteq> 0 \<and> length buf < 255 \<and> c = 37 \<and> d \<noteq> 0")
    case True
    with 3 show ?thesis by (auto dest: length_format_spec(2))
  qed (use 3 in \<open>auto split: if_splits\<close>)
qed (auto split: if_splits)

text \<open>Formats without \<open>%x\<close> and without unknown conversions.\<close>

fun plain_fmt :: "cstr \<Rightarrow> bool" where
  "plain_fmt (c # d # fmt) =
     (if c = 37 \<and> d \<noteq> 0 then d \<in> {98, 99, 115, 105, 102, 100} \<and> plain_fmt fmt
      else plain_fmt (d # fmt))"
| "plain_fmt fmt = True"

lemma format_loop_plain:
  "format_loop fd fmt args buf = Inr buf' \<Longrightarrow> plain_fmt fmt \<Longrightarrow> length buf \<le> 255 \<Longrightarrow> length buf' \<le> 255"
proof (induction fd fmt args buf rule: format_loop.induct)
  case (3 fd c d fmt args buf)
  show ?case
  proof (cases "c \<noteq> 0 \<and> length buf < 255 \<and> c = 37 \<and> d \<noteq> 0")
    case True
    with 3 show ?thesis by (auto dest: length_format_spec(1))
  qed (use 3 in \<open>auto split: if_splits\<close>)
qed (auto split: if_splits)

lemma format_loop_chars:
  "c \<noteq> 0 \<Longrightarrow> c \<noteq> 37 \<Longrightarrow> fmt \<noteq> [] \<Longrightarrow> length buf + n \<le> 255 \<Longrightarrow>
   format_loop fd (replicate n c @ fmt) args buf = format_loop fd fmt args (buf @ replicate n c)"
proof (induction n arbitrary: buf)
  case (Suc n)
  obtain d rest where d: "replicate n c @ fmt = d # rest"
    using Suc.prems(3) by (cases "replicate n c @ fmt") auto
  have "format_loop fd (replicate (Suc n) c @ fmt) args buf
      = format_loop fd (replicate n c @ fmt) args (buf @ [c])"
    using Suc.prems unfolding replicate_Suc append_Cons d by simp
  also have "\<dots> = format_loop fd fmt args ((buf @ [c]) @ replicate n c)"
    using Suc.prems by (intro Suc.IH) simp_all
  finally show ?case by simp
qed simp

lemma drop2_parse_hex: "drop 2 (parse_hex v) = hex_loop v False (shifts 4 16)"
  unfolding parse_hex_def by (simp only: append_Cons append_Nil numeral_2_eq_2 drop_Suc_Cons drop_0)

lemma parse_hex_acc_fuel:
  "length s \<le> k \<Longrightarrow> length s \<le> n \<Longrightarrow> parse_hex_acc r s k = parse_hex_acc r s n"
proof (induction s arbitrary: r k n)
  case (Cons c s)
  obtain k' n' where eq: "k = Suc k'" "n = Suc n'"
    using Cons.prems by (cases k; cases n) auto
  have "parse_hex_acc r s k' = parse_hex_acc r s n'" for r
    by (rule Cons.IH) (use Cons.prems eq in simp_all)
  then show ?case unfolding eq parse_hex_acc.simps by (simp only:)
qed simp

lemma hex_digits_value: "parse_hex_acc 0 (drop 2 (parse_hex v)) 16 = v"
proof -
  have z: "drop_bit (4 * 16) v = 0" by (rule bit_word_eqI) (simp add: bit_simps)
  have "length (hex_loop v False (shifts 4 16)) \<le> 16"
    using length_hex_loop [of v False "shifts 4 16"] unfolding length_shifts .
  from hex_loop_value [OF order_refl this] z show ?thesis unfolding drop2_parse_hex by (simp only: z simp_thms)
qed

subsection \<open>Properties\<close>

text \<open>\<open>strcmp\<close> returns 0 exactly when the two C strings are equal up to their first 0 byte, with
  \<open>case_insensitive\<close> exactly when they are equal after lowering ASCII capitals; the null pointer equals
  only itself.\<close>

lemma strcmp_equal_iff:
  "strcmp a b ci = 0 \<longleftrightarrow>
     (case (a, b) of (Some s, Some t) \<Rightarrow> map (fold_case ci) (cut s) = map (fold_case ci) (cut t)
      | _ \<Rightarrow> a = b)"
  using strcmp_loop_0 by (auto simp: strcmp_def split: option.splits)

text \<open>C6: Printing a 64-bit number with \<open>parse_hex\<close> and reading the digits after the \<open>0x\<close> back with
  \<open>parse_hex_u64\<close> yields the number, for every value, although leading zeros are dropped.\<close>

theorem hex_roundtrip:
  assumes "length (parse_hex v) \<le> unat n + 2"
  shows "parse_hex_u64 (drop 2 (parse_hex v)) n = v"
proof -
  have "parse_hex_acc 0 (drop 2 (parse_hex v)) (unat n) = parse_hex_acc 0 (drop 2 (parse_hex v)) 16"
    using assms length_parse_hex [of v] by (intro parse_hex_acc_fuel) auto
  then show ?thesis by (simp only: parse_hex_u64_def hex_digits_value)
qed

theorem hex_roundtrip_witness: "parse_hex_u64 (drop 2 (parse_hex 0xBEEF)) 16 = 0xBEEF"
  by (rule hex_roundtrip) (use length_parse_hex [of "0xBEEF"] in simp)

text \<open>\<open>strindex\<close> returns the least index at which the second string occurs in the first, and -1
  exactly when it occurs at no index below the length.\<close>

lemma strindex_first:
  assumes "0 \<notin> set a" "0 \<notin> set b"
  shows "if \<exists>j<length a. prefix b (drop j a)
    then \<exists>k<length a. strindex a b = int k \<and> prefix b (drop k a) \<and> (\<forall>j<k. \<not> prefix b (drop j a))
    else strindex a b = -1"
  using strindex_loop_spec [OF assms, of 0] by (auto simp: strindex_def)

lemma strindex_first_witness:
  "\<exists>k<4. strindex [97, 98, 97, 98] [98, 97] = int k \<and> prefix [98, 97] (drop k [97, 98, 97, 98 :: u8])"
proof -
  have "prefix [98, 97] (drop 1 [97, 98, 97, 98 :: u8])" by simp
  then have ex: "\<exists>j<length [97, 98, 97, 98 :: u8]. prefix [98, 97] (drop j [97, 98, 97, 98 :: u8])"
    by (intro exI [of _ 1]) simp
  have "0 \<notin> set [97, 98, 97, 98 :: u8]" "0 \<notin> set [98, 97 :: u8]" by simp_all
  from strindex_first [OF this, unfolded if_P [OF ex]] show ?thesis by auto
qed

text \<open>\<open>strcont\<close> answers whether the second string is a contiguous part of a non-empty first
  string; \<open>strstart\<close> returns the length of the longest common prefix; \<open>strend\<close> returns 0 exactly when
  some non-empty end of the first string is a beginning of the second, so it does not require the whole
  second string to be matched.\<close>

lemma string_searches:
  assumes "0 \<notin> set a" "0 \<notin> set b"
  shows "(strcont a b \<longleftrightarrow> a \<noteq> [] \<and> sublist b a)
    \<and> strstart a b ci = int (length (longest_common_prefix (map (fold_case ci) a) (map (fold_case ci) b)))
    \<and> (strend a b ci = 0 \<longleftrightarrow>
         (\<exists>s. s \<noteq> [] \<and> suffix s a \<and> prefix (map (fold_case ci) s) (map (fold_case ci) b)))"
proof (intro conjI)
  show "strcont a b \<longleftrightarrow> a \<noteq> [] \<and> sublist b a"
    using assms(1)
  proof (induction a)
    case (Cons x xs)
    have "cont_at (x # xs) b = prefix b (x # xs)" using assms(2) Cons.prems by (intro cont_at_prefix) auto
    moreover have "prefix [] xs" by simp
    ultimately show ?case using Cons by (cases "xs = []") (auto simp: sublist_Cons_right)
  qed simp
  show "strstart a b ci = int (length (longest_common_prefix (map (fold_case ci) a) (map (fold_case ci) b)))"
    using strstart_loop_lcp [OF assms, of ci 0] by (simp add: strstart_def)
  show "strend a b ci = 0 \<longleftrightarrow>
         (\<exists>s. s \<noteq> [] \<and> suffix s a \<and> prefix (map (fold_case ci) s) (map (fold_case ci) b))"
    using assms(1)
  proof (induction a)
    case (Cons x xs)
    have at: "strend_at ci (x # xs) b = prefix (map (fold_case ci) (x # xs)) (map (fold_case ci) b)"
      using assms(2) Cons.prems by (intro strend_at_prefix) auto
    have "strend (x # xs) b ci = 0 \<longleftrightarrow> strend_at ci (x # xs) b \<or> strend xs b ci = 0"
    proof (cases b)
      case Nil
      have "strend xs [] ci = 1" by (cases xs) auto
      with Nil Cons.prems at show ?thesis by simp
    next
      case (Cons y ys)
      then show ?thesis using assms(2) Cons.prems by auto
    qed
    then show ?case using Cons at by (auto simp: suffix_Cons)
  qed simp
qed

lemma string_searches_witness:
  "strend [46, 101] [46, 101, 108, 102] False = 0 \<and> strcont [97, 98, 99] [98, 99]"
proof -
  have a: "strcont [97, 98, 99] [98, 99] \<longleftrightarrow> [97, 98, 99 :: u8] \<noteq> [] \<and> sublist [98, 99] [97, 98, 99 :: u8]"
    by (intro string_searches [THEN conjunct1]) simp_all
  have b: "strend [46, 101] [46, 101, 108, 102] False = 0 \<longleftrightarrow>
      (\<exists>s. s \<noteq> [] \<and> suffix s [46, 101 :: u8]
         \<and> prefix (map (fold_case False) s) (map (fold_case False) [46, 101, 108, 102]))"
    by (intro string_searches [THEN conjunct2, THEN conjunct2]) simp_all
  show ?thesis
    unfolding a b by (auto simp: sublist_Cons_right intro!: exI [of _ "[46, 101]"])
qed

lemma length_hex_loop_started: "length (hex_loop v True is) = length is"
  by (induction "is") (auto simp: Let_def)

definition big :: u64 where "big = 0x1000000000000000"

text \<open>The formatter writes at most 273 bytes (terminator included), and at most 256 for a format
  without \<open>%x\<close> and unknown conversions; but 273 is reached, so a \<open>%x\<close> near the end of a long format
  writes past the 256 bytes that \<open>string_format_va\<close> allocates.\<close>

lemma format_overrun:
  "(\<forall>fmt args buf n. string_format_va_buf fd fmt args = Inr (buf, n) \<longrightarrow>
      length buf = n + 1 \<and> n \<le> 272 \<and> (plain_fmt fmt \<longrightarrow> n \<le> 255))
    \<and> (\<exists>buf. string_format_va_buf fd (replicate 254 97 @ [37, 120]) [ArgInt big] = Inr (buf, 272))"
proof (intro conjI allI impI)
  fix fmt args buf n
  assume r: "string_format_va_buf fd fmt args = Inr (buf, n)"
  then obtain b where b: "format_loop fd fmt args [] = Inr b" "buf = b @ [0]" "n = length b"
    by (auto simp: string_format_va_buf_def bindE_eq_Inr)
  then show "length buf = n + 1" "n \<le> 272" "plain_fmt fmt \<Longrightarrow> n \<le> 255"
    using format_loop_bound [OF b(1)] format_loop_plain [OF b(1)] by simp_all
next
  have "length (hex_loop big False (60 # shifts 4 15)) = 16"
    by (simp add: big_def hex_char_def Let_def length_hex_loop_started del: shifts.simps)
  moreover have "shifts 4 16 = 60 # shifts 4 15"
    using shifts.simps(2) [of 4 15] by (simp del: shifts.simps)
  ultimately have "length (parse_hex big) = 18"
    unfolding parse_hex_def by (simp del: shifts.simps hex_loop.simps)
  moreover have "format_loop fd (replicate 254 97 @ [37, 120]) [ArgInt big] []
      = Inr (replicate 254 97 @ parse_hex big)"
    by (subst format_loop_chars) (simp_all add: format_spec_def del: replicate.simps)
  ultimately show "\<exists>buf. string_format_va_buf fd (replicate 254 97 @ [37, 120]) [ArgInt big] = Inr (buf, 272)"
    unfolding string_format_va_buf_def by (simp del: replicate.simps)
qed

lemma format_overrun_witness:
  "\<exists>n. string_format_va_buf (\<lambda>_ :: nat. (False, 0, [])) [37, 115] [ArgStr [72, 105]] = Inr ([72, 105, 0], n)
     \<and> n \<le> 255"
proof -
  have r: "string_format_va_buf (\<lambda>_ :: nat. (False, 0, [])) [37, 115] [ArgStr [72, 105]] = Inr ([72, 105, 0], 2)"
    by (simp add: string_format_va_buf_def format_spec_def put_lim_def)
  have "plain_fmt [37, 115]" by simp
  with r format_overrun [of "\<lambda>_ :: nat. (False, 0, [])", THEN conjunct1, rule_format, OF r]
  show ?thesis by blast
qed

end
