(* ===== verification/Platform.thy ===== *)
theory Platform
  imports Talloc Strings
begin

section \<open>Hardware description and memory layout\<close>

text \<open>
  The device tree reader (\<open>kernel/dtb.c\<close>), the board tables (\<open>kernel/hw/hw.c\<close>) and the part of
  \<open>kernel/memory/kalloc.c\<close> that derives the RAM available to user processes from them.
\<close>

subsection \<open>The device tree (\<open>kernel/dtb.c\<close>)\<close>

text \<open>A C string in memory, read up to its terminator or to the fuel.\<close>

fun cstr_at :: "nat \<Rightarrow> mem \<Rightarrow> u64 \<Rightarrow> cstr" where
  "cstr_at 0 m a = []"
| "cstr_at (Suc n) m a = (if m a = 0 then [] else m a # cstr_at n m (a + 1))"

record dtb_match =
  dt_compatible :: u64
  dt_reg_base :: u64
  dt_reg_size :: u64
  dt_irq :: u32
  dt_found :: u32

definition dtb_addr :: u64 where "dtb_addr = 0x40000000"

definition dtb_get_header :: "mem \<Rightarrow> bool" where
  "dtb_get_header m \<longleftrightarrow> bswap32 (read32 m dtb_addr) = 0xD00DFEED"

definition dtb_addresses :: "mem \<Rightarrow> (u64 \<times> u64) option" where
  "dtb_addresses m =
     (if dtb_get_header m then Some (dtb_addr, ucast (bswap32 (read32 m (dtb_addr + 4)))) else None)"

type_synonym dtb_handler = "u64 \<Rightarrow> u64 \<Rightarrow> u32 \<Rightarrow> dtb_match \<Rightarrow> dtb_match"

definition dtb_reset :: "dtb_match \<Rightarrow> dtb_match" where
  "dtb_reset mt = mt\<lparr>dt_compatible := 0, dt_reg_base := 0, dt_reg_size := 0, dt_irq := 0, dt_found := 0\<rparr>"

definition name_skip :: "cstr \<Rightarrow> u32" where
  "name_skip name = (of_nat (length name) + 4) AND NOT 3"

fun dtb_scan_loop ::
    "nat \<Rightarrow> mem \<Rightarrow> cstr \<Rightarrow> dtb_handler \<Rightarrow> u64 \<Rightarrow> u64 \<Rightarrow> bool \<Rightarrow> dtb_match \<Rightarrow> fault + (bool \<times> dtb_match)" where
  "dtb_scan_loop 0 m search handler strings p active mt = Inl OutOfFuel"
| "dtb_scan_loop (Suc k) m search handler strings p active mt =
     (let token = bswap32 (read32 m p); p = p + 4
      in if token = 9 then Inr (False, mt)
         else if token = 1 then
           let name = cstr_at (Suc k) m p
           in dtb_scan_loop k m search handler strings (p + 4 * (ucast (name_skip name) div 4))
                (strcont name search) mt
         else if token = 3 \<and> active then
           let len = bswap32 (read32 m p); nameoff = bswap32 (read32 m (p + 4));
               prop = p + 8;
               mt = handler (strings + ucast nameoff) prop len mt
           in dtb_scan_loop k m search handler strings (prop + 4 * ucast ((len + 3) div 4)) active mt
         else if token = 2 then
           if active \<and> dt_found mt \<noteq> 0 then Inr (True, mt)
           else dtb_scan_loop k m search handler strings p False (dtb_reset mt)
         else dtb_scan_loop k m search handler strings p active mt)"

definition dtb_scan :: "nat \<Rightarrow> mem \<Rightarrow> cstr \<Rightarrow> dtb_handler \<Rightarrow> dtb_match \<Rightarrow> fault + (bool \<times> dtb_match)" where
  "dtb_scan fuel m search handler mt =
     (if \<not> dtb_get_header m then Inr (False, mt)
      else dtb_scan_loop fuel m search handler
             (dtb_addr + ucast (bswap32 (read32 m (dtb_addr + 12))))
             (dtb_addr + ucast (bswap32 (read32 m (dtb_addr + 8)))) False mt)"

text \<open>The handler of memory nodes and the query it serves (\<open>kernel/memory/kalloc.c\<close>).\<close>

definition be64_at :: "mem \<Rightarrow> u64 \<Rightarrow> u64" where
  "be64_at m a = push_bit 32 (ucast (bswap32 (read32 m a))) OR ucast (bswap32 (read32 m (a + 4)))"

definition handle_mem_node :: "nat \<Rightarrow> mem \<Rightarrow> dtb_handler" where
  "handle_mem_node n m propname prop len mt =
     (if strcmp (Some (cstr_at n m propname)) (Some [114, 101, 103]) False = 0 \<and> len \<ge> 16 then
        mt\<lparr>dt_reg_base := be64_at m prop, dt_reg_size := be64_at m (prop + 8)\<rparr>
      else if strcmp (Some (cstr_at n m propname))
                (Some [100, 101, 118, 105, 99, 101, 95, 116, 121, 112, 101]) False = 0
              \<and> strcmp (Some (cstr_at n m prop)) (Some [109, 101, 109, 111, 114, 121]) False = 0 then
        mt\<lparr>dt_found := 1\<rparr>
      else mt)"

definition empty_match :: dtb_match where
  "empty_match = \<lparr>dt_compatible = 0, dt_reg_base = 0, dt_reg_size = 0, dt_irq = 0, dt_found = 0\<rparr>"

definition get_memory_region :: "nat \<Rightarrow> mem \<Rightarrow> fault + (u64 \<times> u64) option" where
  "get_memory_region fuel m =
     bindE (dtb_scan fuel m [109, 101, 109, 111, 114, 121] (handle_mem_node fuel m) empty_match)
       (\<lambda>(found, mt). Inr (if found then Some (dt_reg_base mt, dt_reg_size mt) else None))"

subsection \<open>Board tables (\<open>kernel/hw/hw.c\<close>)\<close>

record hw =
  BOARD_TYPE :: u8
  RPI_BOARD :: u8
  PCI_BASE :: u64
  RAM_START :: u64
  RAM_SIZE :: u64
  CRAM_START :: u64
  CRAM_END :: u64
  UART0_BASE :: u64
  XHCI_BASE :: u64
  MMIO_BASE :: u64
  GICD_BASE :: u64
  GICC_BASE :: u64
  SDHCI_BASE :: u64
  MAILBOX_BASE :: u64
  GPIO_BASE :: u64
  GPIO_PIN_BASE :: u64
  DWC2_BASE :: u64
  MSI_OFFSET :: u32

text \<open>\<open>midr\<close> is the value of the register \<open>midr_el1\<close>; \<open>reset\<close> says whether \<open>reset_gpio\<close> is called.\<close>

definition detect_hardware :: "u32 \<Rightarrow> hw \<Rightarrow> hw \<times> bool" where
  "detect_hardware midr h =
     (if BOARD_TYPE h = 1 then
        (h\<lparr>UART0_BASE := 0x9000000, MMIO_BASE := 0x10010000, CRAM_END := 0x60000000,
           RAM_START := 0x40000000, CRAM_START := 0x43600000, PCI_BASE := 0x4010000000,
           GICD_BASE := 0x08000000, GICC_BASE := 0x08010000, MSI_OFFSET := 50\<rparr>, False)
      else
        let raspi = drop_bit 4 midr AND 0xFFF;
            h = (if raspi = 0xD08 then
                   h\<lparr>MMIO_BASE := 0xFE000000, RPI_BOARD := 4, GPIO_PIN_BASE := 0x50,
                     GICD_BASE := 0xFE000000 + 0x1841000, GICC_BASE := 0xFE000000 + 0x1842000\<rparr>
                 else if raspi = 0xD0B then
                   h\<lparr>MMIO_BASE := 0x107C000000, RPI_BOARD := 5,
                     GICD_BASE := 0x107C000000 + 0x3FF9000, GICC_BASE := 0x107C000000 + 0x3FFA000,
                     MAILBOX_BASE := 0x107C000000 + 0x13880, SDHCI_BASE := 0x107C000000 + 0xFFF000,
                     UART0_BASE := 0x107C000000 + 0x1001000, XHCI_BASE := 0x1F00300000,
                     PCI_BASE := 0x1000120000\<rparr>
                 else
                   h\<lparr>RPI_BOARD := 3, MMIO_BASE := 0x3F000000, GICD_BASE := 0x3F000000 + 0xB200\<rparr>);
            h = (if RPI_BOARD h \<noteq> 5 then
                   h\<lparr>GPIO_BASE := MMIO_BASE h + 0x200000, MAILBOX_BASE := MMIO_BASE h + 0xB880,
                     UART0_BASE := MMIO_BASE h + 0x201000, SDHCI_BASE := MMIO_BASE h + 0x300000,
                     XHCI_BASE := MMIO_BASE h + 0x9C0000\<rparr>
                 else h);
            h = h\<lparr>DWC2_BASE := MMIO_BASE h + 0x980000, RAM_START := 0x10000000,
                  CRAM_END := (MMIO_BASE h - 0x10000000) AND 0xF0000000,
                  CRAM_START := 0x13600000, MSI_OFFSET := 0\<rparr>
        in (h, RPI_BOARD h \<noteq> 5))"

subsection \<open>RAM for user processes (\<open>calc_ram\<close> and its getters)\<close>

record ram_vars =
  total_ram_size :: u64
  total_ram_start :: u64
  calculated_ram_size :: u64
  calculated_ram_start :: u64
  calculated_ram_end :: u64

definition calc_ram :: "nat \<Rightarrow> mem \<Rightarrow> linker \<Rightarrow> hw \<Rightarrow> ram_vars \<Rightarrow> fault + ram_vars" where
  "calc_ram fuel m ld h v =
     bindE (get_memory_region fuel m) (\<lambda>region.
       let v = (case region of
                  Some (base, sz) \<Rightarrow>
                    v\<lparr>total_ram_start := base, total_ram_size := sz,
                      calculated_ram_end := (base + sz) AND NOT (push_bit 21 1 - 1),
                      calculated_ram_start := (ld_kfull_end ld + 1) AND NOT (push_bit 21 1 - 1)\<rparr>
                | None \<Rightarrow>
                    v\<lparr>total_ram_start := RAM_START h, total_ram_size := RAM_SIZE h,
                      calculated_ram_end := CRAM_END h, calculated_ram_start := CRAM_START h\<rparr>)
       in Inr (v\<lparr>calculated_ram_size := calculated_ram_end v - calculated_ram_start v\<rparr>))"

text \<open>The macro \<open>calcvar\<close>: compute the variables when the one asked for is still 0.\<close>

definition calcvar ::
    "nat \<Rightarrow> mem \<Rightarrow> linker \<Rightarrow> hw \<Rightarrow> (ram_vars \<Rightarrow> u64) \<Rightarrow> ram_vars \<Rightarrow> fault + (u64 \<times> ram_vars)" where
  "calcvar fuel m ld h var v =
     bindE (if var v = 0 then calc_ram fuel m ld h v else Inr v) (\<lambda>v. Inr (var v, v))"

definition get_total_ram where "get_total_ram fuel m ld h = calcvar fuel m ld h total_ram_size"

definition get_total_user_ram where
  "get_total_user_ram fuel m ld h = calcvar fuel m ld h calculated_ram_size"

definition get_user_ram_start where
  "get_user_ram_start fuel m ld h = calcvar fuel m ld h calculated_ram_start"

definition get_user_ram_end where
  "get_user_ram_end fuel m ld h = calcvar fuel m ld h calculated_ram_end"

subsection \<open>Properties\<close>

lemma be64_at_bswap: "be64_at m a = bswap64 (read64 m a)"
proof -
  have "load_bytes m a 8 = load_bytes m a 4 @ load_bytes m (a + 4) 4"
    using load_bytes_append [of m a 4 4] by simp
  then show ?thesis
    by (simp add: be64_at_def bswap_read of_le_append ucast_of_le or.commute)
qed

text \<open>A small device tree with one memory node: 512 MiB at 0x40000000.\<close>

definition be32 :: "u32 \<Rightarrow> u8 list" where "be32 w = rev (le_bytes 4 w)"

definition demo_dtb :: mem where
  "demo_dtb = store_bytes (\<lambda>_. 0) dtb_addr
     (be32 0xD00DFEED @ be32 100 @ be32 16 @ be32 84
      @ be32 1 @ [109, 101, 109, 111, 114, 121, 0, 0]
      @ be32 3 @ be32 16 @ be32 0 @ be32 0 @ be32 0x40000000 @ be32 0 @ be32 0x20000000
      @ be32 3 @ be32 7 @ be32 4 @ [109, 101, 109, 111, 114, 121, 0, 0]
      @ be32 2 @ be32 9
      @ [114, 101, 103, 0, 100, 101, 118, 105, 99, 101, 95, 116, 121, 112, 101, 0])"

lemma demo_dtb_region: "get_memory_region 20 demo_dtb = Inr (Some (0x40000000, 0x20000000))"
  by code_simp

text \<open>The state before \<open>detect_hardware\<close> and \<open>calc_ram\<close> ran: all variables are 0.\<close>

definition no_hw :: hw where
  "no_hw = \<lparr>BOARD_TYPE = 0, RPI_BOARD = 0, PCI_BASE = 0, RAM_START = 0, RAM_SIZE = 0, CRAM_START = 0,
     CRAM_END = 0, UART0_BASE = 0, XHCI_BASE = 0, MMIO_BASE = 0, GICD_BASE = 0, GICC_BASE = 0,
     SDHCI_BASE = 0, MAILBOX_BASE = 0, GPIO_BASE = 0, GPIO_PIN_BASE = 0, DWC2_BASE = 0, MSI_OFFSET = 0\<rparr>"

definition no_ram :: ram_vars where
  "no_ram = \<lparr>total_ram_size = 0, total_ram_start = 0, calculated_ram_size = 0,
     calculated_ram_start = 0, calculated_ram_end = 0\<rparr>"

lemma mask21: "push_bit 21 1 - 1 = (mask 21 :: u64)"
  by (simp add: mask_eq_exp_minus_1)

text \<open>With a memory node in the device tree, the RAM given to user processes starts exactly at the
  (2 MiB aligned) end of the kernel image and ends at the last 2 MiB boundary inside the region, so it
  lies in RAM and overlaps no kernel byte.\<close>

lemma calc_ram_bounds:
  assumes "get_memory_region fuel m = Inr (Some (base, sz))" "unat base + unat sz < 2 ^ 64"
    and "2 ^ 21 dvd unat (ld_kfull_end ld)"
  shows "\<exists>v'. calc_ram fuel m ld h v = Inr v' \<and> calculated_ram_start v' = ld_kfull_end ld
    \<and> unat (calculated_ram_end v') = (unat base + unat sz) div 2 ^ 21 * 2 ^ 21
    \<and> unat (calculated_ram_end v') \<le> unat base + unat sz
    \<and> total_ram_start v' = base \<and> total_ram_size v' = sz
    \<and> calculated_ram_size v' = calculated_ram_end v' - calculated_ram_start v'"
proof -
  let ?k = "ld_kfull_end ld"
  obtain q where q: "unat ?k = 2 ^ 21 * q" using assms(3) by (rule dvdE)
  have "unat ?k + 1 < 2 ^ 64" using unat_lt_2p [of ?k] q by simp
  then have "unat (?k + 1) = 2 ^ 21 * q + 1" using unat_add_1 [of ?k] q by simp
  then have "unat ((?k + 1) AND NOT (mask 21)) = unat ?k"
    unfolding unat_and_not_mask q by simp
  then have start: "(?k + 1) AND NOT (mask 21) = ?k" by (simp only: word_unat_eq_iff)
  have e: "unat ((base + sz) AND NOT (mask 21)) = (unat base + unat sz) div 2 ^ 21 * 2 ^ 21"
    unfolding unat_and_not_mask using assms(2) by (simp add: unat_add_small)
  have le: "(unat base + unat sz) div 2 ^ 21 * 2 ^ 21 \<le> unat base + unat sz" by simp
  show ?thesis
    unfolding calc_ram_def assms(1) mask21 using e le by (simp add: start del: unat_of_nat_lt)
qed

lemma calc_ram_bounds_witness:
  "\<exists>v'. calc_ram 20 demo_dtb demo_linker no_hw no_ram = Inr v' \<and> calculated_ram_start v' = 0x800000
    \<and> unat (calculated_ram_end v') \<le> 0x60000000"
proof -
  have k: "(2 :: nat) ^ 21 dvd unat (ld_kfull_end demo_linker)" by simp
  from calc_ram_bounds [OF demo_dtb_region _ k] show ?thesis by fastforce
qed

end
