(* ===== verification/Page_Allocator.thy ===== *)
theory Page_Allocator
  imports Mmu Platform
begin

section \<open>Page and block allocation (\<open>kernel/memory/page_allocator.c\<close>)\<close>

text \<open>
  \<open>palloc\<close> hands out physical pages tracked by a bitmap of 64-bit words and maps them;
  \<open>kalloc\<close> carves blocks out of a page whose first 32 bytes are a \<open>mem_page\<close> header
  (next page at offset 0, free list at 8, bump pointer at 16, bytes in use at 24).
  Shift counts outside the width act as on AArch64: modulo 32 for an \<open>int\<close>, modulo 64 for a
  \<open>uint64_t\<close>.  The bitmap is a function of the word index; the array has 65536 words.
\<close>

record palloc_state = mmu_state +
  mem_bitmap :: "u64 \<Rightarrow> u64"
  ram :: ram_vars

definition page_allocator_init :: "'a palloc_state_scheme \<Rightarrow> 'a palloc_state_scheme" where
  "page_allocator_init s = s\<lparr>mem_bitmap := fold (\<lambda>i bm. bm(of_nat i := 0)) [0..<65536] (mem_bitmap s)\<rparr>"

definition bit_mask :: "u64 \<Rightarrow> u64" where
  "bit_mask n = push_bit (unat (n mod 64)) 1"

definition pfree :: "'a palloc_state_scheme \<Rightarrow> u64 \<Rightarrow> u64 \<Rightarrow> 'a palloc_state_scheme" where
  "pfree s ptr sz =
     (let addr = ptr div 0x1000; table_index = addr div 64; table_offset = addr mod 64
      in s\<lparr>mem_bitmap := (mem_bitmap s)(table_index := mem_bitmap s table_index AND NOT (bit_mask table_offset))\<rparr>)"

text \<open>\<open>count_pages\<close> returns an \<open>int\<close>; its callers convert it back to \<open>uint64_t\<close>.\<close>

definition count_pages :: "u64 \<Rightarrow> u64 \<Rightarrow> u32" where
  "count_pages i1 i2 = ucast (i1 div i2 + (if i1 mod i2 > 0 then 1 else 0))"

definition page_number :: "u64 \<Rightarrow> u64" where
  "page_number a = scast (count_pages a 0x1000)"

definition ctz :: "u64 \<Rightarrow> u64" where
  "ctz w = of_nat (length (takeWhile (\<lambda>i. \<not> bit w i) [0..<64]))"

text \<open>The inner \<open>for\<close> loop: \<open>!mem_bitmap[i] >> b & 1\<close> is 1 only for an empty word and a shift of 0.\<close>

fun palloc_probe :: "nat \<Rightarrow> u64 \<Rightarrow> u64 \<Rightarrow> u64 \<Rightarrow> u64 \<Rightarrow> bool \<Rightarrow> fault + (u64 \<times> bool)" where
  "palloc_probe 0 bm page_count b bt found =
     (if b < bt + (page_count - 1) then Inl OutOfFuel else Inr (bt, found))"
| "palloc_probe (Suc k) bm page_count b bt found =
     (if b < bt + (page_count - 1) then
        if bm = 0 \<and> b mod 32 = 0 then palloc_probe k bm page_count (b + 1) (bt + page_count) False
        else palloc_probe k bm page_count (b + 1) bt found
      else Inr (bt, found))"

fun palloc_find :: "nat \<Rightarrow> u64 \<Rightarrow> u64 \<Rightarrow> u64 \<Rightarrow> fault + u64" where
  "palloc_find 0 bm page_count bt = Inl OutOfFuel"
| "palloc_find (Suc k) bm page_count bt =
     bindE (palloc_probe (Suc k) bm page_count bt bt True) (\<lambda>(bt', found).
       if found then Inr bt'
       else if bt' < 64 then palloc_find k bm page_count bt'
       else Inr bt')"

definition write_page_header :: "'a kmem_scheme \<Rightarrow> u64 \<Rightarrow> 'a kmem_scheme" where
  "write_page_header s address =
     s\<lparr>mm := write64 (write64 (write64 (write64 (mm s) address 0) (address + 8) 0)
               (address + 16) (address + 32)) (address + 24) 0\<rparr>"

fun palloc_pages ::
    "nat \<Rightarrow> linker \<Rightarrow> u64 \<Rightarrow> u64 \<Rightarrow> bool \<Rightarrow> bool \<Rightarrow> bool \<Rightarrow> nat list \<Rightarrow> u64 \<Rightarrow> 'a palloc_state_scheme
     \<Rightarrow> fault + (u64 \<times> 'a palloc_state_scheme)" where
  "palloc_pages fuel ld i bt kern device full [] first s = Inr (first, s)"
| "palloc_pages fuel ld i bt kern device full (j # js) first s =
     (let s = s\<lparr>mem_bitmap := (mem_bitmap s)(i := mem_bitmap s i OR bit_mask (bt + of_nat j))\<rparr>;
          address = (i * 64 + (bt + of_nat j)) * 0x1000;
          first = (if first = 0 then address else first)
      in bindE (if device \<and> kern then register_device_memory fuel ld s address address
                else register_proc_memory fuel ld s address address (c_bool kern))
           (\<lambda>s. palloc_pages fuel ld i bt kern device full js first
                  (if full then s else write_page_header s address)))"

fun palloc_words ::
    "nat \<Rightarrow> linker \<Rightarrow> u64 \<Rightarrow> bool \<Rightarrow> bool \<Rightarrow> bool \<Rightarrow> nat list \<Rightarrow> 'a palloc_state_scheme
     \<Rightarrow> fault + (u64 \<times> 'a palloc_state_scheme)" where
  "palloc_words fuel ld page_count kern device full [] s = Inr (0, s)"
| "palloc_words fuel ld page_count kern device full (n # ns) s =
     (let i = of_nat n; bm = mem_bitmap s i
      in if bm = - 1 then palloc_words fuel ld page_count kern device full ns s
         else bindE (palloc_find fuel bm page_count (ctz (NOT bm))) (\<lambda>bt.
           if bt = 64 then palloc_words fuel ld page_count kern device full ns s
           else palloc_pages fuel ld i bt kern device full [0..<unat page_count] 0 s))"

definition palloc ::
    "nat \<Rightarrow> linker \<Rightarrow> hw \<Rightarrow> 'a palloc_state_scheme \<Rightarrow> u64 \<Rightarrow> bool \<Rightarrow> bool \<Rightarrow> bool
     \<Rightarrow> fault + (u64 \<times> 'a palloc_state_scheme)" where
  "palloc fuel ld h s sz kern device full =
     bindE (get_user_ram_start fuel (mm s) ld h (ram s)) (\<lambda>(rs, v).
     bindE (get_user_ram_end fuel (mm s) ld h v) (\<lambda>(re, v).
       palloc_words fuel ld (page_number sz) kern device full
         [unat (page_number rs div 64)..<unat (page_number re div 64)] (s\<lparr>ram := v\<rparr>)))"

fun mark_loop :: "u64 \<Rightarrow> nat list \<Rightarrow> (u64 \<Rightarrow> u64) \<Rightarrow> u64 \<Rightarrow> u64" where
  "mark_loop page_index [] bm = bm"
| "mark_loop page_index (j # js) bm =
     (let idx = page_index + of_nat j; i = idx div 64
      in mark_loop page_index js (bm(i := bm i OR bit_mask (idx mod 64))))"

definition mark_used ::
    "nat \<Rightarrow> linker \<Rightarrow> hw \<Rightarrow> 'a palloc_state_scheme \<Rightarrow> u64 \<Rightarrow> u64 \<Rightarrow> fault + 'a palloc_state_scheme" where
  "mark_used fuel ld h s address pages =
     (if address AND 0xFFF \<noteq> 0 \<or> pages = 0 then Inr s
      else bindE (get_user_ram_start fuel (mm s) ld h (ram s)) (\<lambda>(rs, v).
        let page_index = address div (0x1000 * 64) - page_number rs div 64
        in Inr (s\<lparr>ram := v, mem_bitmap := mark_loop page_index [0..<unat pages] (mem_bitmap s)\<rparr>)))"

subsection \<open>Blocks inside pages\<close>

definition align_up :: "u64 \<Rightarrow> u16 \<Rightarrow> u64" where
  "align_up x alignment = (x + ucast alignment - 1) AND NOT (ucast alignment - 1)"

fun kalloc_pages ::
    "nat \<Rightarrow> linker \<Rightarrow> hw \<Rightarrow> u64 \<Rightarrow> bool \<Rightarrow> bool \<Rightarrow> u64 \<Rightarrow> u64 \<Rightarrow> 'a palloc_state_scheme
     \<Rightarrow> fault + (u64 \<times> 'a palloc_state_scheme)" where
  "kalloc_pages 0 ld h sz kern device i first s = (if i < sz then Inl OutOfFuel else Inr (first, s))"
| "kalloc_pages (Suc k) ld h sz kern device i first s =
     (if i < sz then
        bindE (palloc (Suc k) ld h s 0x1000 kern device True) (\<lambda>(ptr, s).
          if ptr = 0 then Inl NullDeref
          else kalloc_pages k ld h sz kern device (i + 0x1000) (if first = 0 then ptr else first)
                 (s\<lparr>mm := memset (mm s) ptr 0 0x1000\<rparr>))
      else Inr (first, s))"

definition add_used :: "'a kmem_scheme \<Rightarrow> u64 \<Rightarrow> u64 \<Rightarrow> 'a kmem_scheme" where
  "add_used s page d = s\<lparr>mm := write64 (mm s) (page + 24) (read64 (mm s) (page + 24) + d)\<rparr>"

text \<open>Taking a block off the free list of a page, zeroed and accounted for.\<close>

definition take_block :: "u64 \<Rightarrow> u64 option \<Rightarrow> u64 \<Rightarrow> u64 \<Rightarrow> 'a kmem_scheme \<Rightarrow> 'a kmem_scheme" where
  "take_block page cell b sz s =
     (let nxt = read64 (mm s) (b + 8);
          at = (case cell of None \<Rightarrow> page + 8 | Some a \<Rightarrow> a);
          s = s\<lparr>mm := memset (write64 (mm s) at nxt) b 0 sz\<rparr>
      in add_used s page sz)"

definition bump_block :: "u64 \<Rightarrow> u64 \<Rightarrow> u64 \<Rightarrow> 'a kmem_scheme \<Rightarrow> 'a kmem_scheme" where
  "bump_block page result sz s =
     add_used (s\<lparr>mm := memset (write64 (mm s) (page + 16) (result + sz)) result 0 sz\<rparr>) page sz"

fun kalloc ::
    "nat \<Rightarrow> linker \<Rightarrow> hw \<Rightarrow> 'a palloc_state_scheme \<Rightarrow> u64 \<Rightarrow> u64 \<Rightarrow> u16 \<Rightarrow> bool \<Rightarrow> bool
     \<Rightarrow> fault + (u64 \<times> 'a palloc_state_scheme)" where
  "kalloc 0 ld h s page sz0 alignment kern device = Inl OutOfFuel"
| "kalloc (Suc k) ld h s page sz0 alignment kern device =
     (let sz = align_up sz0 alignment
      in if sz \<ge> 0x1000 then kalloc_pages (Suc k) ld h sz kern device 0 0 s
         else if page = 0 then Inl NullDeref
         else bindE (free_scan (Suc k) (mm s) sz None (read64 (mm s) (page + 8))) (\<lambda>found.
           case found of
             Some (cell, b) \<Rightarrow> Inr (b, take_block page cell b sz s)
           | None \<Rightarrow>
               let np = align_up (read64 (mm s) (page + 16)) alignment;
                   s = s\<lparr>mm := write64 (mm s) (page + 16) np\<rparr>
               in if np + sz > page + 0x1000 then
                    bindE (if read64 (mm s) page = 0 then
                             bindE (palloc (Suc k) ld h s 0x1000 kern device False) (\<lambda>(nxt, s).
                               Inr (s\<lparr>mm := write64 (mm s) page nxt\<rparr>))
                           else Inr s)
                      (\<lambda>s. kalloc k ld h s (read64 (mm s) page) sz alignment kern device)
                  else Inr (np, bump_block page np sz s)))"

definition kfree :: "'a kmem_scheme \<Rightarrow> u64 \<Rightarrow> u64 \<Rightarrow> 'a kmem_scheme" where
  "kfree s ptr sz =
     (let m = memset (mm s) ptr 0 sz;
          page = ptr AND NOT 0xFFF;
          m = write64 m ptr sz;
          m = write64 m (ptr + 8) (read64 m (page + 8));
          m = write64 m (page + 8) ptr;
          m = write64 m (page + 24) (read64 m (page + 24) - sz)
      in s\<lparr>mm := m\<rparr>)"

definition free_sized :: "'a kmem_scheme \<Rightarrow> u64 \<times> u64 \<Rightarrow> 'a kmem_scheme" where
  "free_sized s p = kfree s (fst p) (snd p)"

subsection \<open>What mapping leaves alone\<close>

definition mmu_upd :: "'a mmu_state_scheme \<Rightarrow> 'a mmu_state_scheme \<Rightarrow> bool" where
  "mmu_upd s s' \<longleftrightarrow> (\<exists>m f n l e. s' = s\<lparr>mm := m, temp_free_list := f, next_free_temp_memory := n,
     page_table_l0 := l, mmu_events := e\<rparr>)"

lemma mmu_updI:
  "s' = s\<lparr>mm := mm s', temp_free_list := temp_free_list s', next_free_temp_memory := next_free_temp_memory s',
     page_table_l0 := page_table_l0 s', mmu_events := mmu_events s'\<rparr> \<Longrightarrow> mmu_upd s s'"
  unfolding mmu_upd_def by blast

lemma mmu_upd_refl [simp]: "mmu_upd s s"
  by (rule mmu_updI) simp

lemma mmu_upd_trans [trans]: "mmu_upd s t \<Longrightarrow> mmu_upd t u \<Longrightarrow> mmu_upd s u"
  unfolding mmu_upd_def by clarsimp blast

lemma mmu_upd_simps [simp]:
  "mmu_upd s (set_entry s t i v)" "mmu_upd s (log_mmu es s)" "mmu_upd s (s\<lparr>page_table_l0 := l\<rparr>)"
  by (rule mmu_updI, simp add: set_entry_def log_mmu_def)+

lemma talloc_upd:
  assumes "talloc fuel ld s sz = Inr (p, s')"
  shows "mmu_upd s s'"
proof -
  note e = talloc_frame [OF assms]
  have "page_table_l0 s' = page_table_l0 s" "mmu_events s' = mmu_events s" by (subst e, simp)+
  with e show ?thesis by (cases s; cases s') (auto intro!: mmu_updI)
qed

lemma ensure_upd:
  "ensure_l1 fuel ld s i = Inr s' \<Longrightarrow> mmu_upd s s'"
  "ensure_table fuel ld s t i = Inr s' \<Longrightarrow> mmu_upd s s'"
  by (auto simp: ensure_l1_def ensure_table_def bindE_eq_Inr split: if_splits
      dest!: talloc_upd intro: mmu_upd_trans mmu_upd_simps)

lemma map_4kb_upd: "mmu_map_4kb fuel ld s va pa ai level = Inr s' \<Longrightarrow> mmu_upd s s'"
  by (auto simp: mmu_map_4kb_def Let_def bindE_eq_Inr split: if_splits dest!: ensure_upd
      intro!: mmu_upd_simps elim!: mmu_upd_trans)

lemma register_upd:
  "register_device_memory fuel ld s va pa = Inr s' \<Longrightarrow> mmu_upd s s'"
  "register_proc_memory fuel ld s va pa k = Inr s' \<Longrightarrow> mmu_upd s s'"
  by (auto simp: register_device_memory_def register_proc_memory_def bindE_eq_Inr
      dest!: map_4kb_upd elim!: mmu_upd_trans)

lemma mmu_upd_bitmap: "mmu_upd s s' \<Longrightarrow> mem_bitmap s' = mem_bitmap s \<and> ram s' = ram s"
  unfolding mmu_upd_def by auto

lemma pt_ok_bitmap [simp]:
  "pt_ok fuel ld (s\<lparr>mem_bitmap := bm\<rparr>) P = pt_ok fuel ld s P"
  "pt_ok fuel ld (s\<lparr>ram := v\<rparr>) P = pt_ok fuel ld s P"
  by (simp_all add: pt_ok_def pt_tree_def heap_inv_def pt_entry_def entry_at_def)

lemma map_4kb_fails:
  assumes "pt_ok fuel ld s P" "level_permission level = Inr perm"
    "mmu_map_4kb fuel ld s va pa ai level = Inl e"
  shows "e = Panic ''Kernel allocator overflow''"
proof (cases "mmu_leaf s va")
  case None
  with map_4kb_ok [OF assms(1) None assms(2), of pa ai] assms(3) show ?thesis by simp
next
  case (Some d)
  with map_4kb_mapped [OF assms(1) Some, of pa ai level] assms(3) show ?thesis by auto
qed

lemma level_permission_bool [simp]:
  "level_permission 0 = Inr 1" "level_permission 1 = Inr 0" "level_permission 2 = Inr 2"
  by (simp_all add: level_permission_def)

lemma register_fails:
  assumes "pt_ok fuel ld s P"
  shows "register_device_memory fuel ld s va pa = Inl e \<Longrightarrow> e = Panic ''Kernel allocator overflow''"
    and "register_proc_memory fuel ld s va pa (c_bool k) = Inl e \<Longrightarrow> e = Panic ''Kernel allocator overflow''"
  using map_4kb_fails [OF assms, of 1 0 va pa 0 e] map_4kb_fails [OF assms, of "ucast (c_bool k)" _ va pa 1 e]
  by (cases k; auto simp: register_device_memory_def register_proc_memory_def bindE_def split: sum.splits)+

subsection \<open>One page\<close>

lemma ctz_first:
  assumes "w \<noteq> 0"
  obtains n where "ctz w = of_nat n" "n < 64" "bit w n" "\<And>j. j < n \<Longrightarrow> \<not> bit w j"
proof -
  let ?t = "takeWhile (\<lambda>i. \<not> bit w i) [0..<64]"
  obtain k where k: "bit w k" "k < 64"
  proof (rule ccontr)
    assume "\<not> thesis"
    then have "w = 0" using that by (intro bit_word_eqI) auto
    with assms show False ..
  qed
  then have len: "length ?t < length [0..<64]"
    by (metis (no_types, lifting) atLeastLessThan_iff le0 length_takeWhile_le nat_less_le
        set_upt takeWhile_eq_all_conv takeWhile_eq_take take_all_iff order_refl)
  show thesis
  proof (rule that [of "length ?t"])
    show "ctz w = of_nat (length ?t)" by (simp add: ctz_def)
    show "length ?t < 64" using len by simp
    show "bit w (length ?t)" using nth_length_takeWhile [OF len] len by simp
    fix j assume j: "j < length ?t"
    then have "?t ! j = j" using takeWhile_nth [of j "\<lambda>i. \<not> bit w i" "[0..<64]"] len by simp
    then show "\<not> bit w j" using set_takeWhileD [OF nth_mem [OF j]] by simp
  qed
qed

lemma bit_mask_nat: "n < 64 \<Longrightarrow> bit_mask (of_nat n) = push_bit n 1"
  by (simp add: bit_mask_def unat_mod)

lemma page_number_1: "page_number 0x1000 = 1"
  by (simp add: page_number_def count_pages_def)

text \<open>With one page to find, the search stops at the first clear bit.\<close>

lemma palloc_find_1: "palloc_find (Suc k) bm 1 bt = Inr bt"
  by simp

definition pages_in :: "nat \<Rightarrow> nat \<Rightarrow> u64" where
  "pages_in i b = of_nat ((i * 64 + b) * 0x1000)"

text \<open>The pages before page \<open>b\<close> of word \<open>i\<close> in the words \<open>ns\<close> are all in use.\<close>

definition used_before :: "(u64 \<Rightarrow> u64) \<Rightarrow> nat list \<Rightarrow> nat \<Rightarrow> nat \<Rightarrow> bool" where
  "used_before bm ns i b \<longleftrightarrow> (\<forall>j<b. bit (bm (of_nat i)) j)
     \<and> (\<forall>n\<in>set (takeWhile (\<lambda>n. n \<noteq> i) ns). bm (of_nat n) = - 1)"

definition one_page_post :: "(u64 \<Rightarrow> u64) \<Rightarrow> nat list \<Rightarrow> u64 \<Rightarrow> (u64 \<Rightarrow> u64) \<Rightarrow> bool" where
  "one_page_post bm ns p bm' \<longleftrightarrow>
     (if \<forall>n\<in>set ns. bm (of_nat n) = - 1 then p = 0 \<and> bm' = bm
      else \<exists>i b. i \<in> set ns \<and> b < 64 \<and> \<not> bit (bm (of_nat i)) b \<and> used_before bm ns i b
        \<and> p = pages_in i b \<and> bm' = bm(of_nat i := bm (of_nat i) OR push_bit b 1))"

lemma one_page_skip:
  assumes "bm (of_nat n) = - 1" "one_page_post bm ns p bm'"
  shows "one_page_post bm (n # ns) p bm'"
proof (cases "\<forall>n\<in>set ns. bm (of_nat n) = - 1")
  case True
  with assms show ?thesis by (simp add: one_page_post_def)
next
  case False
  then obtain i b where ib: "i \<in> set ns" "b < 64" "\<not> bit (bm (of_nat i)) b" "used_before bm ns i b"
      "p = pages_in i b" "bm' = bm(of_nat i := bm (of_nat i) OR push_bit b 1)"
    using assms(2) unfolding one_page_post_def if_not_P [OF False] by blast
  have "n \<noteq> i" using ib(2,3) assms(1) by (auto simp: bit_minus_1_iff)
  then have "used_before bm (n # ns) i b" using ib(4) assms(1) by (simp add: used_before_def)
  moreover have "\<not> (\<forall>n\<in>set (n # ns). bm (of_nat n) = - 1)" using False by simp
  ultimately show ?thesis
    unfolding one_page_post_def using ib by (simp only: if_False) (intro exI [of _ i] exI [of _ b], simp)
qed

lemma one_page_here:
  assumes "b < 64" "\<not> bit (bm (of_nat n)) b" "\<And>j. j < b \<Longrightarrow> bit (bm (of_nat n)) j"
  shows "one_page_post bm (n # ns) (pages_in n b) (bm(of_nat n := bm (of_nat n) OR push_bit b 1))"
proof -
  have "bm (of_nat n) \<noteq> - 1" using assms(1,2) by (auto simp: bit_minus_1_iff)
  then have "\<not> (\<forall>n\<in>set (n # ns). bm (of_nat n) = - 1)" by simp
  moreover have "used_before bm (n # ns) n b" using assms(3) by (simp add: used_before_def)
  ultimately show ?thesis
    unfolding one_page_post_def using assms(1,2)
    by (simp only: if_False) (intro exI [of _ n] exI [of _ b], simp)
qed

lemma palloc_words_1:
  "pt_ok (Suc k) ld s P \<Longrightarrow>
    (palloc_words (Suc k) ld 1 kern device full ns s = Inl e \<longrightarrow> e = Panic ''Kernel allocator overflow'')
    \<and> (palloc_words (Suc k) ld 1 kern device full ns s = Inr (p, s') \<longrightarrow>
      one_page_post (mem_bitmap s) ns p (mem_bitmap s') \<and> ram s' = ram s)"
proof (induction ns arbitrary: s)
  case Nil
  then show ?case by (auto simp: one_page_post_def)
next
  case (Cons n ns)
  let ?bm = "mem_bitmap s (of_nat n)"
  show ?case
  proof (cases "?bm = - 1")
    case True
    then have eq: "palloc_words (Suc k) ld 1 kern device full (n # ns) s
        = palloc_words (Suc k) ld 1 kern device full ns s" by simp
    show ?thesis unfolding eq using Cons.IH [OF Cons.prems] one_page_skip [of "mem_bitmap s" n ns, OF True] by blast
  next
    case False
    have "NOT ?bm \<noteq> 0"
    proof
      assume "NOT ?bm = 0"
      then have "NOT (NOT ?bm) = - 1" by simp
      with False show False by simp
    qed
    then obtain b where b: "ctz (NOT ?bm) = of_nat b" "b < 64" "bit (NOT ?bm) b" "\<And>j. j < b \<Longrightarrow> \<not> bit (NOT ?bm) j"
      by (rule ctz_first) blast
    have clear: "\<not> bit ?bm b" and set: "\<And>j. j < b \<Longrightarrow> bit ?bm j"
      using b(2-4) by (auto simp: bit_not_iff)
    have ne: "(of_nat b :: u64) \<noteq> 64"
      using b(2) of_nat_inj_word [of b 64, where 'a = 64] by auto
    define s1 where "s1 = s\<lparr>mem_bitmap := (mem_bitmap s)(of_nat n := ?bm OR push_bit b 1)\<rparr>"
    define addr where "addr = pages_in n b"
    have addr: "(of_nat n * 64 + (of_nat b + of_nat 0)) * 0x1000 = addr" by (simp add: addr_def pages_in_def)
    define r where "r = (if device \<and> kern then register_device_memory (Suc k) ld s1 addr addr
        else register_proc_memory (Suc k) ld s1 addr addr (c_bool kern))"
    have one: "[0..<unat (1 :: u64)] = [0]" by simp
    have pages: "palloc_pages (Suc k) ld (of_nat n) (of_nat b) kern device full [0..<unat (1 :: u64)] 0 s
        = bindE r (\<lambda>s'. Inr (addr, if full then s' else write_page_header s' addr))"
      unfolding one palloc_pages.simps Let_def addr
      using b(2) by (simp add: bit_mask_nat r_def s1_def)
    have run: "palloc_words (Suc k) ld 1 kern device full (n # ns) s
        = bindE r (\<lambda>s'. Inr (addr, if full then s' else write_page_header s' addr))"
      using False ne pages by (simp only: palloc_words.simps Let_def b(1) palloc_find_1 bindE_simps if_False)
    have "r = Inl e \<Longrightarrow> e = Panic ''Kernel allocator overflow''" for e
      using register_fails [of "Suc k" ld s1 P] Cons.prems by (auto simp: r_def s1_def split: if_splits)
    moreover have "r = Inr t \<Longrightarrow> mem_bitmap t = mem_bitmap s1 \<and> ram t = ram s" for t
      using register_upd [of _ ld s1] mmu_upd_bitmap [of s1 t] by (auto simp: r_def s1_def split: if_splits)
    moreover have "one_page_post (mem_bitmap s) (n # ns) addr (mem_bitmap s1)"
      using one_page_here [of b "mem_bitmap s" n ns, OF b(2) clear set] by (simp add: s1_def addr_def)
    ultimately show ?thesis
      unfolding run by (cases r) (auto simp: write_page_header_def)
  qed
qed

lemma getters_known:
  "calculated_ram_start v \<noteq> 0 \<Longrightarrow> get_user_ram_start fuel m ld h v = Inr (calculated_ram_start v, v)"
  "calculated_ram_end v \<noteq> 0 \<Longrightarrow> get_user_ram_end fuel m ld h v = Inr (calculated_ram_end v, v)"
  by (simp_all add: get_user_ram_start_def get_user_ram_end_def calcvar_def)

lemma palloc_1:
  assumes "pt_ok (Suc k) ld s P" "calculated_ram_start (ram s) \<noteq> 0" "calculated_ram_end (ram s) \<noteq> 0"
  defines "ns \<equiv> [unat (page_number (calculated_ram_start (ram s)) div 64)
               ..<unat (page_number (calculated_ram_end (ram s)) div 64)]"
  shows "palloc (Suc k) ld h s 0x1000 kern device full = Inl e \<Longrightarrow> e = Panic ''Kernel allocator overflow''"
    and "palloc (Suc k) ld h s 0x1000 kern device full = Inr (p, s') \<Longrightarrow>
      one_page_post (mem_bitmap s) ns p (mem_bitmap s') \<and> ram s' = ram s"
proof -
  have eq: "palloc (Suc k) ld h s 0x1000 kern device full
      = palloc_words (Suc k) ld 1 kern device full ns s"
    using assms(2,3) by (simp add: palloc_def getters_known page_number_1 ns_def)
  show "e = Panic ''Kernel allocator overflow''" if "palloc (Suc k) ld h s 0x1000 kern device full = Inl e"
    using palloc_words_1 [OF assms(1)] that unfolding eq by blast
  show "one_page_post (mem_bitmap s) ns p (mem_bitmap s') \<and> ram s' = ram s"
    if "palloc (Suc k) ld h s 0x1000 kern device full = Inr (p, s')"
    using palloc_words_1 [OF assms(1)] that unfolding eq by blast
qed

lemma pages_in_index:
  assumes "i < 2 ^ 16" "b < 64"
  shows "pages_in i b div 0x1000 div 64 = of_nat i" "pages_in i b div 0x1000 mod 64 = of_nat b"
proof -
  have lt: "(i * 64 + b) * 0x1000 < 2 ^ 64" using assms by simp
  then have u: "unat (pages_in i b) = (i * 64 + b) * 0x1000"
    unfolding pages_in_def by (simp del: of_nat_mult of_nat_add)
  have "unat (pages_in i b div 0x1000 div 64) = i" "unat (pages_in i b div 0x1000 mod 64) = b"
    unfolding unat_div unat_mod u using assms(2) by simp_all
  then show "pages_in i b div 0x1000 div 64 = of_nat i" "pages_in i b div 0x1000 mod 64 = of_nat b"
    by (metis unat_of_nat_self)+
qed

lemma clear_set_bit:
  assumes "\<not> bit (w :: u64) b"
  shows "(w OR push_bit b 1) AND NOT (push_bit b 1) = w"
  using assms by (intro bit_word_eqI) (auto simp: bit_simps)

lemmas clear_set_bit' = clear_set_bit [simplified]

subsection \<open>Properties of the page allocator\<close>

text \<open>C7: A request for one page returns the lowest-numbered free page of the user RAM and sets exactly
  its bit, or returns 0 and changes no bit when every page is taken; it never returns a page whose bit
  was set.  The only other outcome is the panic of an exhausted kernel heap while mapping the page.\<close>

theorem palloc_single_page:
  assumes "pt_ok (Suc k) ld s P" "calculated_ram_start (ram s) \<noteq> 0" "calculated_ram_end (ram s) \<noteq> 0"
  shows "case palloc (Suc k) ld h s 0x1000 kern device full of
      Inl e \<Rightarrow> e = Panic ''Kernel allocator overflow''
    | Inr (p, s') \<Rightarrow>
        one_page_post (mem_bitmap s)
          [unat (page_number (calculated_ram_start (ram s)) div 64)
           ..<unat (page_number (calculated_ram_end (ram s)) div 64)] p (mem_bitmap s')"
  using palloc_1 [OF assms, of h kern device full] by (auto split: sum.split)

definition palloc_boot :: palloc_state where
  "palloc_boot = \<lparr>mm = \<lambda>_. 0, temp_free_list = 0, next_free_temp_memory = 0x100000, next_mmio_base = 0,
     page_table_l0 = \<lambda>_. 0, mmu_events = [], mem_bitmap = (\<lambda>_. 0)(32 := 1),
     ram = \<lparr>total_ram_size = 0x40000000, total_ram_start = 0, calculated_ram_size = 0x80000,
             calculated_ram_start = 0x800000, calculated_ram_end = 0x880000\<rparr>\<rparr>"

lemma palloc_boot_simps [simp]:
  "calculated_ram_start (ram palloc_boot) = 0x800000" "calculated_ram_end (ram palloc_boot) = 0x880000"
  "mem_bitmap palloc_boot = (\<lambda>_. 0)(32 := 1)"
  by (simp_all add: palloc_boot_def)

lemma palloc_boot_ok: "pt_ok (Suc k) demo_linker palloc_boot (\<lambda>_. None)"
proof -
  have "heap_inv demo_linker palloc_boot [] []"
    by (simp add: heap_inv_def palloc_boot_def blocks_ok_def page_aligned_def)
  moreover have "pt_tree (\<lambda>_. None) palloc_boot []"
    by (simp add: pt_tree_def at_path_def pt_entry_def points_def palloc_boot_def)
  ultimately show ?thesis unfolding pt_ok_def by (intro conjI exI [of _ "[]"]) simp_all
qed

lemma page_number_demo: "page_number 0x800000 = 0x800" "page_number 0x880000 = 0x880"
  by (simp_all add: page_number_def count_pages_def)

lemma map_4kb_demo:
  fixes s :: "'a mmu_state_scheme"
  assumes s: "mm s = (\<lambda>_. 0)" "temp_free_list s = 0" "next_free_temp_memory s = 0x100000"
    "page_table_l0 s = (\<lambda>_. 0)"
  shows "\<exists>s'. mmu_map_4kb (Suc 0) demo_linker s 0x801000 0x801000 1 1 = Inr s'"
proof -
  have r: "round_page 0x1000 = 0x1000" by (simp add: round_page_def)
  show ?thesis
    by (simp add: s mmu_map_4kb_def ensure_l1_def ensure_table_def talloc_def r Let_def length_memset_0
        entry_at_def l0_index_def l1_index_def l2_index_def l3_index_def table_addr_def table_desc_def
        set_entry_def)
qed

lemma palloc_boot_run: "\<exists>p s'. palloc (Suc 0) demo_linker h palloc_boot 0x1000 True False True = Inr (p, s')"
proof -
  have ns: "[unat (page_number 0x800000 div 64)..<unat (page_number 0x880000 div 64)] = [32, 33]"
    by (simp add: page_number_demo upt_rec)
  have c: "ctz (- 2) = 1" by code_simp
  have one: "[0..<unat (1 :: u64)] = [0]" by simp
  obtain s' where "mmu_map_4kb (Suc 0) demo_linker
      (palloc_boot\<lparr>mem_bitmap := (\<lambda>_. 0)(32 := 3)\<rparr>) 0x801000 0x801000 1 1 = Inr s'"
    using map_4kb_demo [of "palloc_boot\<lparr>mem_bitmap := (\<lambda>_. 0)(32 := 3)\<rparr>"]
    by (auto simp: palloc_boot_def)
  moreover have "palloc_boot\<lparr>ram := ram palloc_boot\<rparr> = palloc_boot" by simp
  ultimately show ?thesis
    by (simp add: palloc_def getters_known page_number_1 ns Let_def c one bit_mask_def
        register_proc_memory_def)
qed

theorem palloc_single_page_witness:
  "\<exists>p s'. palloc (Suc 0) demo_linker no_hw palloc_boot 0x1000 True False True = Inr (p, s')
     \<and> one_page_post ((\<lambda>_. 0)(32 := 1)) [32..<34] p (mem_bitmap s')"
  using palloc_single_page [OF palloc_boot_ok, of 0 no_hw True False True] palloc_boot_run [of no_hw]
  by (auto simp: page_number_demo)

text \<open>Freeing a page that a single-page request returned puts the bitmap back as it was before
  the request (RAM of at most 16 GiB, the size of the bitmap).\<close>

lemma palloc_pfree_roundtrip:
  assumes "pt_ok (Suc k) ld s P" "calculated_ram_start (ram s) \<noteq> 0" "calculated_ram_end (ram s) \<noteq> 0"
    and "unat (page_number (calculated_ram_end (ram s))) \<le> 2 ^ 22"
    and "palloc (Suc k) ld h s 0x1000 kern device full = Inr (p, s')" "p \<noteq> 0"
  shows "mem_bitmap (pfree s' p sz) = mem_bitmap s"
proof -
  let ?ns = "[unat (page_number (calculated_ram_start (ram s)) div 64)
               ..<unat (page_number (calculated_ram_end (ram s)) div 64)]"
  have post: "one_page_post (mem_bitmap s) ?ns p (mem_bitmap s')"
    using palloc_1(2) [OF assms(1-3,5)] by simp
  then have "\<not> (\<forall>n\<in>set ?ns. mem_bitmap s (of_nat n) = - 1)"
    using assms(6) unfolding one_page_post_def by (meson if_P)
  then obtain i b where ib: "i \<in> set ?ns" "b < 64" "\<not> bit (mem_bitmap s (of_nat i)) b" "p = pages_in i b"
      "mem_bitmap s' = (mem_bitmap s)(of_nat i := mem_bitmap s (of_nat i) OR push_bit b 1)"
    using post unfolding one_page_post_def by (simp only: if_False) blast
  have "i < 2 ^ 16" using ib(1) assms(4) by (auto simp: unat_div)
  note idx = pages_in_index [OF this ib(2)]
  show ?thesis
    using ib(2) by (simp add: pfree_def Let_def ib(4) idx bit_mask_nat ib(5) clear_set_bit' [OF ib(3)])
qed

lemma palloc_pfree_roundtrip_witness:
  "\<exists>p s'. palloc (Suc 0) demo_linker no_hw palloc_boot 0x1000 True False True = Inr (p, s')
     \<and> mem_bitmap (pfree s' p 0x1000) = mem_bitmap palloc_boot"
proof -
  obtain p s' where r: "palloc (Suc 0) demo_linker no_hw palloc_boot 0x1000 True False True = Inr (p, s')"
    using palloc_boot_run by blast
  have nz: "pages_in i b \<noteq> 0" if "i \<in> {32, 33}" "b < 64" for i b
  proof -
    have "(i * 64 + b) * 0x1000 < 2 ^ 64" "(i * 64 + b) * 0x1000 \<noteq> 0" using that by auto
    then have "unat (of_nat ((i * 64 + b) * 0x1000) :: u64) \<noteq> 0"
      by (subst unat_of_nat_lt) simp_all
    then show ?thesis unfolding pages_in_def by (metis unat_0)
  qed
  have ns: "[unat (page_number 0x800000 div 64)..<unat (page_number 0x880000 div 64)] = [32, 33]"
    by (simp add: page_number_demo upt_rec)
  have "p \<noteq> 0"
    using palloc_1(2) [OF palloc_boot_ok _ _ r] nz
    by (auto simp: one_page_post_def ns)
  with palloc_pfree_roundtrip [OF palloc_boot_ok _ _ _ r] show ?thesis using r by (auto simp: page_number_demo)
qed

lemma palloc_probe_nonempty:
  assumes "bm \<noteq> 0" "unat b \<le> unat (bt + (page_count - 1))"
    "unat (bt + (page_count - 1)) - unat b \<le> fuel"
  shows "palloc_probe fuel bm page_count b bt True = Inr (bt, True)"
  using assms(2,3)
proof (induction fuel arbitrary: b)
  case 0
  then show ?case by (simp add: word_less_nat_alt)
next
  case (Suc fuel)
  show ?case
  proof (cases "b < bt + (page_count - 1)")
    case True
    then have "unat (b + 1) = Suc (unat b)" by (rule unat_Suc_less)
    with Suc True assms(1) show ?thesis by (simp add: word_less_nat_alt)
  qed simp
qed

text \<open>On a bitmap word with a page in use, the search for several pages stops at the first free
  page without looking at the pages after it: for every request size it returns the same page.  With
  only page 3 of a word in use, a request for four pages is given pages 0 to 3, the used one among
  them.\<close>

lemma palloc_find_ignores_used:
  assumes "bm \<noteq> 0" "0 < page_count" "unat (ctz (NOT bm)) + unat page_count < 2 ^ 64" "unat page_count \<le> fuel"
  shows "palloc_find fuel bm page_count (ctz (NOT bm)) = Inr (ctz (NOT bm))"
proof -
  let ?b = "ctz (NOT bm)"
  obtain k where k: "fuel = Suc k" using assms(2,4) by (cases fuel) (auto simp: word_less_nat_alt)
  have p: "unat (page_count - 1) = unat page_count - 1"
    using assms(2) by (intro unat_minus_one) (simp add: word_neq_0_conv)
  have "unat (?b + (page_count - 1)) = unat ?b + (unat page_count - 1)"
    using assms(3) p by (simp add: unat_add_small)
  then have "palloc_probe fuel bm page_count ?b ?b True = Inr (?b, True)"
    using assms by (intro palloc_probe_nonempty) auto
  then show ?thesis by (simp add: k)
qed

lemma palloc_find_ignores_used_witness:
  "palloc_find 4 8 4 0 = Inr 0 \<and> bit (8 :: u64) 3 \<and> (3 :: nat) < 0 + 4"
proof -
  have "ctz (NOT 8) = 0" by code_simp
  then show ?thesis using palloc_find_ignores_used [of 8 4 4] by (simp add: bit_numeral_rec numeral_3_eq_3)
qed

text \<open>\<open>mark_used\<close> divides the address by the size of a whole bitmap word, so it marks page
  \<open>address / 256 KiB\<close> instead of page \<open>address / 4 KiB\<close>: marking the page at 0x40000 (page 64, bit 0 of
  word 1) sets bit 1 of word 0 and leaves word 1 as it was, so that the marked page can still be
  handed out.\<close>

lemma mark_used_wrong_page:
  assumes "calculated_ram_start (ram s) = 0x1000"
  shows "\<exists>s'. mark_used fuel ld h s 0x40000 1 = Inr s' \<and> mem_bitmap s' 0 = mem_bitmap s 0 OR 2
    \<and> mem_bitmap s' 1 = mem_bitmap s 1"
proof -
  have "page_number 0x1000 = 1" by (rule page_number_1)
  then show ?thesis
    using assms by (simp add: mark_used_def getters_known Let_def bit_mask_def)
qed

lemma mark_used_wrong_page_witness:
  "\<exists>s'. mark_used 1 demo_linker no_hw (palloc_boot\<lparr>ram := (ram palloc_boot)\<lparr>calculated_ram_start := 0x1000\<rparr>\<rparr>)
      0x40000 1 = Inr s' \<and> mem_bitmap s' 0 = 2"
  using mark_used_wrong_page [of "palloc_boot\<lparr>ram := (ram palloc_boot)\<lparr>calculated_ram_start := 0x1000\<rparr>\<rparr>"
      1 demo_linker no_hw] by auto

subsection \<open>Blocks of a page\<close>

text \<open>
  The state of a page as \<open>kalloc\<close> and \<open>kfree\<close> keep it: \<open>free\<close> are the regions on its free list,
  \<open>live\<close> the regions handed out; all lie behind the header and below the bump pointer, pairwise apart.
\<close>

definition kpage_inv :: "mem \<Rightarrow> u64 \<Rightarrow> region list \<Rightarrow> region list \<Rightarrow> bool" where
  "kpage_inv m page free live \<longleftrightarrow>
     page \<noteq> 0 \<and> page_aligned page \<and> unat page + 0x2000 \<le> 2 ^ 64
     \<and> fb_list m (read64 m (page + 8)) free
     \<and> blocks_ok (unat page + 32) (unat (read64 m (page + 16))) (free @ live)
     \<and> unat page + 32 \<le> unat (read64 m (page + 16)) \<and> unat (read64 m (page + 16)) \<le> unat page + 0x1000"

lemma fb_list_header:
  assumes "blocks_ok lo hi bs" "hi \<le> 2 ^ 64" "unat a + 8 \<le> lo"
  shows "fb_list (write64 m a v) p bs = fb_list m p bs"
proof (cases "bs = []")
  case False
  have "rapart (a, length (le_bytes 8 v)) r" if "r \<in> set bs" for r
  proof -
    obtain c l where "r = (c, l)" by (cases r)
    then show ?thesis using that assms blocks_ok_bound [OF assms(1), of c l] by auto
  qed
  moreover have "unat a + 8 \<le> 2 ^ 64"
  proof -
    obtain c l where "(c, l) \<in> set bs" using False by (cases bs) auto
    then show ?thesis using assms blocks_ok_bound [OF assms(1), of c l] by simp
  qed
  ultimately show ?thesis
    unfolding write64_def using assms by (intro fb_list_store [where lo = lo and hi = hi]) auto
qed simp

lemma header_word:
  assumes "unat page + 0x1000 \<le> 2 ^ 64" "k \<le> 24"
  shows "unat (page + of_nat k :: u64) = unat page + k"
proof -
  have k: "unat (of_nat k :: u64) = k" using assms(2) by (intro unat_of_nat_lt) simp
  then have "unat (page + (of_nat k :: u64)) = unat page + unat (of_nat k :: u64)"
    using assms by (intro unat_add_small) simp
  then show ?thesis by (simp only: k)
qed

text \<open>Stores into the block area leave the header words alone, and header words do not overlap.\<close>

lemma header_read_store:
  assumes pg: "unat page + 0x1000 \<le> 2 ^ 64" and k: "k \<le> 24"
    and b: "unat page + 32 \<le> unat b" "unat b + length vs \<le> 2 ^ 64"
  shows "read64 (store_bytes m b vs) (page + of_nat k) = read64 m (page + of_nat k)"
proof (cases "vs = []")
  case False
  have "rapart (page + of_nat k, 8) (b, length vs)" using header_word [OF pg k] k b by simp
  then show ?thesis
    using header_word [OF pg k] k pg b False by (intro read64_store_disj rapart_disj) auto
qed simp

lemma header_read_write:
  assumes pg: "unat page + 0x1000 \<le> 2 ^ 64" and k: "k \<le> 24" "j \<le> 24" and d: "k + 8 \<le> j \<or> j + 8 \<le> k"
  shows "read64 (write64 m (page + of_nat j) v) (page + of_nat k) = read64 m (page + of_nat k)"
  using header_word [OF pg k(1)] header_word [OF pg k(2)] k d pg
  by (intro read64_write64_disj rapart_disj) auto

lemma load_outside_header:
  assumes pg: "unat page + 0x1000 \<le> 2 ^ 64" and k: "k \<le> 24" and x: "unat page + 32 \<le> unat x"
  shows "write64 m (page + of_nat k) v x = m x"
proof -
  have "\<not> in_region (page + of_nat k) 8 x"
    using header_word [OF pg k] k pg x by (auto simp: in_region_range)
  then show ?thesis by (simp add: write64_def store_bytes_outside)
qed

lemma header_words [simp]:
  fixes page :: u64
  assumes "unat page + 0x1000 \<le> 2 ^ 64"
  shows "unat (page + 8) = unat page + 8" "unat (page + 16) = unat page + 16" "unat (page + 24) = unat page + 24"
  using header_word [OF assms, of 8] header_word [OF assms, of 16] header_word [OF assms, of 24] by simp_all

text \<open>The three stores an allocation makes: a link, the zeroes and the counter of used bytes.\<close>

lemma kpage_finish:
  fixes v :: u64
  assumes pg: "unat page + 0x2000 \<le> 2 ^ 64" "page \<noteq> 0" "page_aligned page"
    and l: "fb_list m (read64 m (page + 8)) free"
    and ok: "blocks_ok (unat page + 32) hi (free @ (b, unat sz) # live)"
    and hi: "hi = unat (read64 m (page + 16))" "hi \<le> unat page + 0x1000"
  defines "m' \<equiv> write64 (memset m b 0 sz) (page + 24) v"
  shows "kpage_inv m' page free ((b, unat sz) # live)"
    and "load_bytes m' b (unat sz) = replicate (unat sz) 0"
    and "\<And>c n x. (c, n) \<in> set live \<Longrightarrow> in_region c n x \<Longrightarrow> m' x = m x"
proof -
  let ?m = "memset m b 0 sz"
  have pg': "unat page + 0x1000 \<le> 2 ^ 64" using pg by simp
  have b: "16 \<le> unat sz" "unat page + 32 \<le> unat b" "unat b + unat sz \<le> hi"
    using blocks_ok_bound [OF ok, of b "unat sz"] by auto
  have store: "?m = store_bytes m b (replicate (unat sz) 0)" by (rule length_memset_0)
  have h: "read64 ?m (page + of_nat k) = read64 m (page + of_nat k)" if "k \<le> 24" for k
    unfolding store using b hi(2) pg(1) by (intro header_read_store [OF pg' that]) auto
  have h': "read64 m' (page + of_nat k) = read64 m (page + of_nat k)" if "k \<le> 16" for k
    using header_read_write [OF pg', of k 24 ?m v] h [of k] that by (simp add: m'_def)
  have r: "read64 m' (page + 8) = read64 m (page + 8)" "read64 m' (page + 16) = read64 m (page + 16)"
    using h' [of 8] h' [of 16] by simp_all
  have okf: "blocks_ok (unat page + 32) hi ((b, unat sz) # free)" "blocks_ok (unat page + 32) hi free"
    using ok by (auto simp: blocks_ok_append blocks_ok_Cons intro: rapart_sym)
  have "blocks_ok 0 (2 ^ 64) ((b, unat sz) # free)"
    using okf(1) by (rule blocks_ok_mono) (use hi pg in auto)
  then have "fb_list ?m p free = fb_list m p free" for p
    unfolding store by (subst fb_list_store [where lo = 0 and hi = "2 ^ 64"]) (auto simp: blocks_ok_Cons)
  moreover have "fb_list m' p free = fb_list ?m p free" for p
    unfolding m'_def using okf(2) hi pg by (intro fb_list_header) auto
  ultimately have "fb_list m' (read64 m' (page + 8)) free" using l r by simp
  moreover have "unat page + 32 \<le> hi" using b by simp
  ultimately show "kpage_inv m' page free ((b, unat sz) # live)"
    using pg ok hi r by (simp add: kpage_inv_def)
  have out: "m' x = ?m x" if "unat page + 32 \<le> unat x" for x
    using load_outside_header [OF pg', of 24 x ?m v] that by (simp add: m'_def)
  have "load_bytes m' b (unat sz) = load_bytes ?m b (unat sz)"
  proof (rule load_bytes_cong)
    fix x assume "in_region b (unat sz) x"
    then have "unat b \<le> unat x" using b hi pg by (auto simp: in_region_range)
    then show "m' x = ?m x" using b by (intro out) simp
  qed (rule unat_le_64)
  also have "\<dots> = replicate (unat sz) 0"
    unfolding store by (rule load_store_same) (simp_all only: length_replicate unat_le_64)
  finally show "load_bytes m' b (unat sz) = replicate (unat sz) 0" .
  fix c n x assume cn: "(c, n) \<in> set live" "in_region c n x"
  then have c: "unat page + 32 \<le> unat c" "unat c + n \<le> hi" "rapart (c, n) (b, unat sz)"
    using blocks_ok_bound [OF ok, of c n] ok by (auto simp: blocks_ok_append blocks_ok_Cons intro: rapart_sym)
  have "unat c \<le> unat x" using cn c hi pg by (auto simp: in_region_range)
  then have "m' x = ?m x" using c by (intro out) simp
  moreover have "\<not> in_region b (unat sz) x"
    using c b hi pg cn(2) by (intro rapart_not_in [of c n]) auto
  ultimately show "m' x = m x" by (simp add: store store_bytes_outside)
qed

lemma kpage_inv_blocks:
  assumes "kpage_inv m page free live"
  shows "fb_list m (read64 m (page + 8)) free"
    "blocks_ok (unat page + 32) (unat (read64 m (page + 16))) (free @ live)"
    "blocks_ok 0 (2 ^ 64) (free @ live)"
    "unat page + 0x2000 \<le> 2 ^ 64" "page \<noteq> 0" "page_aligned page"
    "unat (read64 m (page + 16)) \<le> unat page + 0x1000" "unat page + 32 \<le> unat (read64 m (page + 16))"
  using assms by (auto simp: kpage_inv_def elim: blocks_ok_mono)

lemma kpage_unlink:
  assumes inv: "kpage_inv m page (xs @ (b, n) # ys) live"
  defines "m1 \<equiv> write64 m (if xs = [] then page + 8 else fst (last xs) + 8) (read64 m (b + 8))"
  shows "fb_list m1 (read64 m1 (page + 8)) (xs @ ys)" "read64 m1 (page + 16) = read64 m (page + 16)"
    "\<And>c k x. (c, k) \<in> set live \<Longrightarrow> in_region c k x \<Longrightarrow> m1 x = m x"
proof (atomize (full), cases xs rule: rev_cases)
  case Nil
  note k = kpage_inv_blocks [OF inv]
  have pg: "unat page + 0x1000 \<le> 2 ^ 64" using k(4) by simp
  have m1: "m1 = write64 m (page + 8) (read64 m (b + 8))" by (simp add: m1_def Nil)
  have ok: "blocks_ok (unat page + 32) (unat (read64 m (page + 16))) ys"
    using k(2) by (auto simp: Nil blocks_ok_append blocks_ok_Cons)
  have "fb_list m1 p ys = fb_list m p ys" for p
    unfolding m1 using ok k(4,7) pg by (intro fb_list_header) auto
  moreover have "fb_list m (read64 m (b + 8)) ys" using k(1) by (simp add: Nil)
  moreover have "read64 m1 (page + 16) = read64 m (page + 16)"
    using header_read_write [OF pg, of 16 8 m] by (simp add: m1)
  moreover have "m1 x = m x" if "(c, j) \<in> set live" "in_region c j x" for c j x
  proof -
    have "unat page + 32 \<le> unat c" "unat c + j \<le> 2 ^ 64"
      using blocks_ok_bound [OF k(2), of c j] blocks_ok_bound [OF k(3), of c j] that(1) by auto
    then have "unat page + 32 \<le> unat x" using that(2) by (auto simp: in_region_range)
    then show ?thesis using load_outside_header [OF pg, of 8 x m] by (simp add: m1)
  qed
  ultimately show "fb_list m1 (read64 m1 (page + 8)) (xs @ ys) \<and> read64 m1 (page + 16) = read64 m (page + 16) \<and>
      (\<forall>c j x. (c, j) \<in> set live \<longrightarrow> in_region c j x \<longrightarrow> m1 x = m x)"
    by (simp add: Nil m1)
next
  case (snoc zs r)
  obtain c k where r: "r = (c, k)" by (cases r)
  note i = kpage_inv_blocks [OF inv]
  have pg: "unat page + 0x1000 \<le> 2 ^ 64" using i(4) by simp
  have m1: "m1 = write64 m (c + 8) (read64 m (b + 8))" by (simp add: m1_def snoc r)
  have ck: "16 \<le> k" "unat page + 32 \<le> unat c" "unat c + k \<le> unat page + 0x1000"
    using blocks_ok_bound [OF i(2), of c k] i(7) by (auto simp: snoc r)
  have u: "unat (c + 8) = unat c + 8" using ck pg by (intro unat_add_small [THEN trans]) auto
  have "blocks_ok 0 (2 ^ 64) (zs @ (c, k) # (b, n) # ys)"
    using i(3) by (auto simp: snoc r blocks_ok_append blocks_ok_Cons)
  then have "fb_list m1 (read64 m (page + 8)) (zs @ (c, k) # ys)"
    unfolding m1 using i(1) by (intro fb_list_unlink) (auto simp: snoc r)
  moreover have "read64 m1 (page + of_nat h) = read64 m (page + of_nat h)" if "h \<le> 24" for h
    unfolding m1 write64_def using u ck pg by (intro header_read_store [OF pg that]) auto
  then have "read64 m1 (page + 8) = read64 m (page + 8)" "read64 m1 (page + 16) = read64 m (page + 16)"
    using \<open>\<And>h. h \<le> 24 \<Longrightarrow> read64 m1 (page + of_nat h) = read64 m (page + of_nat h)\<close> [of 8]
      \<open>\<And>h. h \<le> 24 \<Longrightarrow> read64 m1 (page + of_nat h) = read64 m (page + of_nat h)\<close> [of 16] by simp_all
  moreover have "m1 x = m x" if "(d, j) \<in> set live" "in_region d j x" for d j x
  proof -
    have "rapart (d, j) (c, k)"
      by (rule rapart_sym, rule blocks_ok_apart2 [OF i(2)]) (use that(1) in \<open>auto simp: snoc r\<close>)
    moreover have "unat d + j \<le> 2 ^ 64" using blocks_ok_bound [OF i(3), of d j] that(1) by auto
    ultimately have "\<not> in_region (c + 8) 8 x"
      using that(2) ck pg u by (intro rapart_not_in [of d j]) auto
    then show ?thesis by (simp add: m1 write64_def store_bytes_outside)
  qed
  ultimately show "fb_list m1 (read64 m1 (page + 8)) (xs @ ys) \<and> read64 m1 (page + 16) = read64 m (page + 16) \<and>
      (\<forall>c j x. (c, j) \<in> set live \<longrightarrow> in_region c j x \<longrightarrow> m1 x = m x)"
    by (simp add: snoc r)
qed

text \<open>What an allocation of the region \<open>(b, n)\<close> of a page promises.\<close>

definition block_given :: "mem \<Rightarrow> mem \<Rightarrow> u64 \<Rightarrow> region list \<Rightarrow> region list \<Rightarrow> u64 \<Rightarrow> nat \<Rightarrow> bool" where
  "block_given m m' page free' live b n \<longleftrightarrow>
     kpage_inv m' page free' ((b, n) # live) \<and> load_bytes m' b n = replicate n 0
     \<and> (\<forall>(c, k)\<in>set live. load_bytes m' c k = load_bytes m c k)"

lemma take_block_given:
  assumes inv: "kpage_inv (mm s) page (xs @ (b, n) # ys) live" and sz: "16 \<le> unat sz" "unat sz \<le> n"
  shows "block_given (mm s) (mm (take_block page (if xs = [] then None else Some (fst (last xs) + 8)) b sz s))
    page (xs @ ys) live b (unat sz)"
proof -
  define m1 where "m1 = write64 (mm s) (if xs = [] then page + 8 else fst (last xs) + 8) (read64 (mm s) (b + 8))"
  define m2 where "m2 = memset m1 b 0 sz"
  define m3 where "m3 = write64 m2 (page + 24) (read64 m2 (page + 24) + sz)"
  have eq: "mm (take_block page (if xs = [] then None else Some (fst (last xs) + 8)) b sz s) = m3"
    by (simp add: take_block_def add_used_def Let_def m3_def m2_def m1_def split: if_splits)
  note i = kpage_inv_blocks [OF inv] and u = kpage_unlink [OF inv, folded m1_def]
  have "blocks_ok (unat page + 32) (unat (read64 (mm s) (page + 16))) ((b, unat sz) # xs @ ys @ live)"
    using blocks_ok_move(1) [of _ _ xs b n "ys @ live" "unat sz"] i(2) sz by simp
  then have ok: "blocks_ok (unat page + 32) (unat (read64 (mm s) (page + 16))) ((xs @ ys) @ (b, unat sz) # live)"
    by (auto simp: blocks_ok_append blocks_ok_Cons intro: rapart_sym)
  note f = kpage_finish [OF i(4-6) u(1) ok u(2) [THEN arg_cong [where f = unat], symmetric] i(7)]
  have "load_bytes m3 c k = load_bytes (mm s) c k" if "(c, k) \<in> set live" for c k
  proof (rule load_bytes_cong)
    fix x assume "in_region c k x"
    with that show "m3 x = mm s x" using f(3) u(3) by (simp add: m3_def m2_def)
  next
    show "k \<le> 2 ^ 64" using blocks_ok_bound [OF i(3), of c k] that by auto
  qed
  then show ?thesis
    using f(1,2) by (auto simp: eq block_given_def m3_def m2_def)
qed

lemma bump_block_given:
  assumes inv: "kpage_inv (mm s) page free live" and sz: "16 \<le> unat sz"
    and np: "unat (read64 (mm s) (page + 16)) \<le> unat np" "unat np + unat sz \<le> unat page + 0x1000"
  shows "block_given (mm s) (mm (bump_block page np sz (s\<lparr>mm := write64 (mm s) (page + 16) np\<rparr>)))
    page free live np (unat sz)"
proof -
  define m1 where "m1 = write64 (write64 (mm s) (page + 16) np) (page + 16) (np + sz)"
  define m2 where "m2 = memset m1 np 0 sz"
  define m3 where "m3 = write64 m2 (page + 24) (read64 m2 (page + 24) + sz)"
  have eq: "mm (bump_block page np sz (s\<lparr>mm := write64 (mm s) (page + 16) np\<rparr>)) = m3"
    by (simp add: bump_block_def add_used_def Let_def m3_def m2_def m1_def)
  note i = kpage_inv_blocks [OF inv]
  have pg: "unat page + 0x1000 \<le> 2 ^ 64" using i(4) by simp
  have sum: "unat (np + sz) = unat np + unat sz" using np i(4) by (intro unat_add_small) simp
  have okf: "blocks_ok (unat page + 32) (unat (read64 (mm s) (page + 16))) free"
    using i(2) by (simp add: blocks_ok_append)
  have l: "fb_list (write64 m (page + 16) v) p free = fb_list m p free" for m v p
    using okf i(4,7) pg by (intro fb_list_header) auto
  have h: "read64 (write64 m (page + 16) v) (page + 8) = read64 m (page + 8)" for m v
    using header_read_write [OF pg, of 8 16 m v] by simp
  have lst: "fb_list m1 (read64 m1 (page + 8)) free" using i(1) by (simp add: m1_def l h)
  have ptr: "read64 m1 (page + 16) = np + sz" by (simp add: m1_def)
  have "blocks_ok (unat page + 32) (unat np + unat sz) ((np, unat sz) # free @ live)"
    using i(2,8) np sz by (intro blocks_ok_fresh) auto
  then have ok: "blocks_ok (unat page + 32) (unat np + unat sz) (free @ (np, unat sz) # live)"
    by (auto simp: blocks_ok_append blocks_ok_Cons intro: rapart_sym)
  have hi: "unat np + unat sz = unat (read64 m1 (page + 16))" by (simp add: ptr sum)
  note f = kpage_finish [OF i(4-6) lst ok hi np(2)]
  have "load_bytes m3 c k = load_bytes (mm s) c k" if "(c, k) \<in> set live" for c k
  proof (rule load_bytes_cong)
    fix x assume x: "in_region c k x"
    have "unat page + 32 \<le> unat c" "unat c + k \<le> 2 ^ 64"
      using blocks_ok_bound [OF i(2), of c k] blocks_ok_bound [OF i(3), of c k] that by auto
    then have "unat page + 32 \<le> unat x" using x by (auto simp: in_region_range)
    then have "m1 x = mm s x" using load_outside_header [OF pg, of 16 x] by (simp add: m1_def)
    with that x show "m3 x = mm s x" using f(3) by (simp add: m3_def m2_def)
  next
    show "k \<le> 2 ^ 64" using blocks_ok_bound [OF i(3), of c k] that by auto
  qed
  then show ?thesis
    using f(1,2) by (auto simp: eq block_given_def m3_def m2_def)
qed

lemma align_up_bounds:
  assumes "alignment = 2 ^ j" "j \<le> 12" "unat x + 0x1000 \<le> 2 ^ 64"
  shows "unat x \<le> unat (align_up x alignment)" "unat (align_up x alignment) < unat x + 2 ^ j"
    "2 ^ j dvd unat (align_up x alignment)"
proof -
  have pow: "(2 :: nat) ^ j \<le> 2 ^ 12" using assms(2) by (intro power_increasing) simp_all
  have a: "alignment = of_nat (2 ^ j)" and b: "(2 ^ j :: u64) = of_nat (2 ^ j)" using assms(1) by simp_all
  have "unat alignment = 2 ^ j" unfolding a using pow by (intro unat_of_nat_lt) simp
  moreover have c: "unat (2 ^ j :: u64) = 2 ^ j" unfolding b using pow by (intro unat_of_nat_lt) simp
  ultimately have "unat (ucast alignment :: u64) = unat (2 ^ j :: u64)"
    using pow by (simp only: unat_ucast_mod) simp
  then have "ucast alignment = (2 ^ j :: u64)" by (simp only: word_unat_eq_iff)
  then have eq: "align_up x alignment = (x + mask j) AND NOT (mask j)"
    by (simp add: align_up_def mask_eq_exp_minus_1 algebra_simps)
  have "(2 ^ j :: u64) \<noteq> 0" using c by (simp only: word_neq_0_unat) simp
  then have m: "unat (mask j :: u64) = 2 ^ j - 1"
    by (simp only: mask_eq_exp_minus_1 unat_minus_one c not_False_eq_True)
  have "unat (x + mask j) = unat x + (2 ^ j - 1)"
    using assms(3) pow m by (simp add: unat_add_small)
  then have u: "unat (align_up x alignment) = (unat x + (2 ^ j - 1)) div 2 ^ j * 2 ^ j"
    by (simp add: eq unat_and_not_mask)
  have d: "(unat x + (2 ^ j - 1)) div 2 ^ j * 2 ^ j + (unat x + (2 ^ j - 1)) mod 2 ^ j = unat x + (2 ^ j - 1)"
    "(unat x + (2 ^ j - 1)) mod 2 ^ j < 2 ^ j" by (rule div_mult_mod_eq, simp)
  show "unat x \<le> unat (align_up x alignment)" "unat (align_up x alignment) < unat x + 2 ^ j"
    using d unfolding u by linarith+
  show "2 ^ j dvd unat (align_up x alignment)" unfolding u by simp
qed

lemma page_of_block:
  assumes "page_aligned page" "unat page \<le> unat b" "unat b < unat page + 0x1000"
  shows "b AND NOT 0xFFF = page"
proof -
  obtain q where q: "unat page = 0x1000 * q" using assms(1) by (auto simp: page_aligned_def)
  then have "unat b div 0x1000 = q" using assms(2,3) by (intro div_nat_eqI) simp_all
  then have "unat (b AND NOT (mask 12)) = unat page" by (simp add: unat_and_not_mask q)
  then show ?thesis unfolding mask_numerals(1) by (simp only: word_unat_eq_iff)
qed

lemma kfree_inv:
  assumes inv: "kpage_inv (mm s) page free ((b, unat sz) # live)"
  shows "kpage_inv (mm (kfree s b sz)) page ((b, unat sz) # free) live"
    and "\<And>c k. (c, k) \<in> set live \<Longrightarrow> load_bytes (mm (kfree s b sz)) c k = load_bytes (mm s) c k"
proof -
  note i = kpage_inv_blocks [OF inv]
  have pg: "unat page + 0x1000 \<le> 2 ^ 64" using i(4) by simp
  have b: "16 \<le> unat sz" "unat page + 32 \<le> unat b" "unat b + unat sz \<le> unat page + 0x1000"
    using blocks_ok_bound [OF i(2), of b "unat sz"] i(7) by auto
  have bne: "b \<noteq> 0" using b(2) by auto
  have page: "b AND NOT 0xFFF = page" using b by (intro page_of_block i(6)) simp_all
  define m1 where "m1 = memset (mm s) b 0 sz"
  define m2 where "m2 = write64 m1 b sz"
  define m3 where "m3 = write64 m2 (b + 8) (read64 m2 (page + 8))"
  define m4 where "m4 = write64 m3 (page + 8) b"
  define m5 where "m5 = write64 m4 (page + 24) (read64 m4 (page + 24) - sz)"
  have eq: "mm (kfree s b sz) = m5"
    unfolding kfree_def Let_def page m1_def m2_def m3_def m4_def m5_def by simp
  have ok: "blocks_ok (unat page + 32) (unat (read64 (mm s) (page + 16))) (((b, unat sz) # free) @ live)"
    using i(2) by (auto simp: blocks_ok_append blocks_ok_Cons intro: rapart_sym)
  then have okb: "blocks_ok (unat page + 32) (unat (read64 (mm s) (page + 16))) ((b, unat sz) # free)"
    by (simp add: blocks_ok_append blocks_ok_Cons)
  then have ok0: "blocks_ok 0 (2 ^ 64) ((b, unat sz) # free)"
    by (rule blocks_ok_mono) (use i(7) pg in auto)
  have u: "unat (b + 8) = unat b + 8" using b pg by (intro unat_add_small [THEN trans]) auto
  have st: "m1 = store_bytes (mm s) b (replicate (unat sz) 0)" by (simp add: m1_def length_memset_0)
  have h1: "read64 m1 (page + of_nat h) = read64 (mm s) (page + of_nat h)" if "h \<le> 24" for h
    unfolding st using b pg by (intro header_read_store [OF pg that]) auto
  have h2: "read64 m2 (page + of_nat h) = read64 m1 (page + of_nat h)" if "h \<le> 24" for h
    unfolding m2_def write64_def using b pg by (intro header_read_store [OF pg that]) auto
  have h3: "read64 m3 (page + of_nat h) = read64 m2 (page + of_nat h)" if "h \<le> 24" for h
    unfolding m3_def write64_def using b u pg by (intro header_read_store [OF pg that]) auto
  have ptr: "read64 m5 (page + 16) = read64 (mm s) (page + 16)"
    using h1 [of 16] h2 [of 16] h3 [of 16] header_read_write [OF pg, of 16 8 m3] header_read_write [OF pg, of 16 24 m4]
    by (simp add: m4_def m5_def)
  have head: "read64 m5 (page + 8) = b"
    using header_read_write [OF pg, of 8 24 m4] by (simp add: m4_def m5_def)
  have "fb_list m1 (read64 (mm s) (page + 8)) free"
    unfolding m1_def using i(1) ok0 by (rule fb_list_memset)
  from fb_list_push [OF this ok0 order_refl bne]
  have "fb_list m3 b ((b, unat sz) # free)"
    using h1 [of 8] h2 [of 8] by (simp add: m3_def m2_def del: fb_list.simps)
  moreover have hdr: "fb_list (write64 m a v) p ((b, unat sz) # free) = fb_list m p ((b, unat sz) # free)"
    if "unat a + 8 \<le> unat page + 32" for m a v p
    using okb i(7) pg that by (intro fb_list_header) auto
  have "fb_list m5 p ((b, unat sz) # free) = fb_list m3 p ((b, unat sz) # free)" for p
    unfolding m5_def m4_def by (subst hdr, use pg in simp)+ simp
  ultimately have "fb_list m5 (read64 m5 (page + 8)) ((b, unat sz) # free)" by (simp add: head del: fb_list.simps)
  then show "kpage_inv (mm (kfree s b sz)) page ((b, unat sz) # free) live"
    using i ok by (simp add: kpage_inv_def eq ptr del: fb_list.simps)
  fix c k assume ck: "(c, k) \<in> set live"
  show "load_bytes (mm (kfree s b sz)) c k = load_bytes (mm s) c k"
  proof (rule load_bytes_cong)
    fix x assume x: "in_region c k x"
    have c: "unat page + 32 \<le> unat c" "unat c + k \<le> 2 ^ 64" "rapart (c, k) (b, unat sz)"
      using blocks_ok_bound [OF i(2), of c k] blocks_ok_bound [OF i(3), of c k] ck
        rapart_sym [OF blocks_ok_apart2 [OF ok, of "(b, unat sz)" "(c, k)"]] by auto
    then have "unat page + 32 \<le> unat x" using x by (auto simp: in_region_range)
    then have "m5 x = m3 x"
      using load_outside_header [OF pg, of 24 x m4] load_outside_header [OF pg, of 8 x m3] by (simp add: m5_def m4_def)
    moreover have out: "\<not> in_region b (unat sz) x" using x c b pg by (intro rapart_not_in [of c k]) auto
    then have "\<not> in_region (b + 8) 8 x" "\<not> in_region b 8 x" using b u pg by (auto simp: in_region_range)
    then have "m3 x = mm s x" using out by (simp add: m3_def m2_def st write64_def store_bytes_outside)
    ultimately show "mm (kfree s b sz) x = mm s x" by (simp add: eq)
  next
    show "k \<le> 2 ^ 64" using blocks_ok_bound [OF i(3), of c k] ck by auto
  qed
qed

text \<open>C8: A request whose size, rounded up to the alignment (a power of two of at most 4096), is at least 16 bytes (the header
  of a free block) and less than a page is served from the page whenever a block of its free list is large enough or the space behind the bump
  pointer is: \<open>kalloc\<close> returns a zeroed block of at least the size asked for, apart from every block
  handed out before, whose bytes it leaves as they were, and keeps the page well formed.\<close>

theorem kalloc_block:
  assumes "kpage_inv (mm s) page free live" "alignment = 2 ^ j" "j \<le> 12" "length free \<le> k"
    "sz = align_up sz0 alignment" "sz0 < 0x1000" "16 \<le> unat sz" "sz < 0x1000"
    "(\<exists>(c, n)\<in>set free. unat sz \<le> n)
      \<or> unat (align_up (read64 (mm s) (page + 16)) alignment) + unat sz \<le> unat page + 0x1000"
  shows "\<exists>b s' free'. kalloc (Suc k) ld h s page sz0 alignment kern device = Inr (b, s')
    \<and> block_given (mm s) (mm s') page free' live b (unat sz) \<and> sz0 \<le> sz"
proof -
  note i = kpage_inv_blocks [OF assms(1)]
  have nle: "\<not> 0x1000 \<le> sz" using assms(8) by simp
  have le: "sz0 \<le> sz"
    using align_up_bounds(1) [OF assms(2,3), of sz0] assms(5,6) by (simp add: word_le_nat_alt word_less_nat_alt)
  show ?thesis
  proof (cases rule: first_fit_cases [of free "unat sz"])
    case (2 xs b n ys)
    have "free_scan (Suc k) (mm s) sz None (read64 (mm s) (page + 8))
        = Inr (Some (if xs = [] then None else Some (fst (last xs) + 8), b))"
      using i(1) 2 assms(4) by (intro free_scan_Some [of _ _ xs b n ys]) auto
    then show ?thesis
      using le take_block_given [of s page xs b n ys live sz] assms(1,7) 2 i(5) nle
      by (auto simp: Let_def simp flip: assms(5) simp del: free_scan.simps)
  next
    case 1
    then have none: "free_scan (Suc k) (mm s) sz None (read64 (mm s) (page + 8)) = Inr None"
      using i(1) assms(4) by (intro free_scan_None) auto
    define np where "np = align_up (read64 (mm s) (page + 16)) alignment"
    have room: "unat np + unat sz \<le> unat page + 0x1000" using assms(9) 1 by (auto simp: np_def)
    have ge: "unat (read64 (mm s) (page + 16)) \<le> unat np"
      unfolding np_def using i(4,7) by (intro align_up_bounds(1) [OF assms(2,3)]) simp
    have "unat (np + sz) = unat np + unat sz" "unat (page + 0x1000) = unat page + 0x1000"
      using room i(4) by (simp_all add: unat_add_small)
    then have "\<not> page + 0x1000 < np + sz" using room by (simp add: word_less_nat_alt)
    then have "kalloc (Suc k) ld h s page sz0 alignment kern device
        = Inr (np, bump_block page np sz (s\<lparr>mm := write64 (mm s) (page + 16) np\<rparr>))"
      using none i(5) nle by (simp add: Let_def np_def flip: assms(5) del: free_scan.simps)
    then show ?thesis using le bump_block_given [OF assms(1,7) ge room] by blast
  qed
qed

definition demo_page :: mem where
  "demo_page = write64 (\<lambda>_. 0) 0x5010 0x5020"

lemma demo_page_reads [simp]: "read64 demo_page 0x5010 = 0x5020" "read64 demo_page 0x5008 = 0"
proof -
  show "read64 demo_page 0x5010 = 0x5020" by (simp add: demo_page_def)
  have "read64 demo_page 0x5008 = read64 (\<lambda>_. 0) 0x5008"
    unfolding demo_page_def by (rule read64_write64_disj) (simp add: disj_regions_def)
  also have "\<dots> = 0" by (simp add: read64_def load_bytes_def map_replicate_const)
  finally show "read64 demo_page 0x5008 = 0" .
qed

lemma demo_page_inv: "kpage_inv demo_page 0x5000 [] []"
  by (simp add: kpage_inv_def page_aligned_def blocks_ok_def)

lemma demo_align: "align_up 100 16 = 112" "align_up 112 16 = 112" "align_up 0x5020 16 = 0x5020"
  by (simp_all add: align_up_def)

theorem kalloc_block_witness:
  "\<exists>b s' free'. kalloc 1 demo_linker no_hw (palloc_boot\<lparr>mm := demo_page\<rparr>) 0x5000 100 16 True False = Inr (b, s')
    \<and> block_given demo_page (mm s') 0x5000 free' [] b 112 \<and> 100 \<le> (112 :: u64)"
proof -
  show ?thesis
    using kalloc_block [of "palloc_boot\<lparr>mm := demo_page\<rparr>" "0x5000" "[]" "[]" 16 4 0 112 100 demo_linker no_hw True False]
      demo_page_inv by (simp add: demo_align del: kalloc.simps)
qed

text \<open>\<open>kfree\<close> of a block that \<open>kalloc\<close> handed out, with its size, puts it at the front of the free list
  of its page (found by masking the address) and keeps the page well formed and the bytes of all
  other blocks; the next request it satisfies gets that very block back.\<close>

lemma kfree_kalloc_reuse:
  assumes "kpage_inv (mm s) page free ((b, unat sz) # live)" "sz = align_up sz alignment" "sz < 0x1000"
  shows "kpage_inv (mm (kfree s b sz)) page ((b, unat sz) # free) live
    \<and> (\<forall>(c, k)\<in>set live. load_bytes (mm (kfree s b sz)) c k = load_bytes (mm s) c k)
    \<and> (\<exists>s'. kalloc (Suc n) ld h (kfree s b sz) page sz alignment kern device = Inr (b, s'))"
proof -
  note f = kfree_inv [OF assms(1)]
  note i = kpage_inv_blocks [OF f(1)]
  have nle: "\<not> 0x1000 \<le> sz" using assms(3) by simp
  have "free_scan (Suc n) (mm (kfree s b sz)) sz None (read64 (mm (kfree s b sz)) (page + 8))
      = Inr (Some (None, b))"
    using free_scan_Some [of "mm (kfree s b sz)" _ "[]" b "unat sz" free sz "Suc n" None] i(1) by simp
  then have "\<exists>s'. kalloc (Suc n) ld h (kfree s b sz) page sz alignment kern device = Inr (b, s')"
    using i(5) nle by (auto simp: Let_def simp flip: assms(2) simp del: free_scan.simps)
  then show ?thesis using f by auto
qed

lemma kfree_kalloc_reuse_witness:
  "\<exists>(s :: palloc_state) b s'. kalloc (Suc 0) demo_linker no_hw (kfree s b 112) 0x5000 112 16 True False = Inr (b, s')"
proof -
  let ?s = "palloc_boot\<lparr>mm := demo_page\<rparr>"
  have "block_given (mm ?s) (mm (bump_block 0x5000 0x5020 112 (?s\<lparr>mm := write64 (mm ?s) (0x5000 + 16) 0x5020\<rparr>)))
      0x5000 [] [] 0x5020 (unat (112 :: u64))"
    using demo_page_inv by (intro bump_block_given) simp_all
  then obtain m where "kpage_inv m 0x5000 [] [(0x5020, unat (112 :: u64))]" by (auto simp: block_given_def)
  then show ?thesis
    using kfree_kalloc_reuse [of "?s\<lparr>mm := m\<rparr>" "0x5000" "[]" "0x5020" 112 "[]" 16 0 demo_linker no_hw True False]
    by (auto simp: demo_align simp del: kalloc.simps)
qed

end
