(* ===== verification/Timer.thy ===== *)
theory Timer
  imports Page_Allocator
begin

section \<open>The generic timers (\<open>kernel/exceptions/timer.c\<close>)\<close>

text \<open>
  The system registers the code writes are fields of the state.  What the code reads from the
  hardware is a parameter: \<open>cntfrq\<close> is constant, the counter \<open>cntvct_el0\<close> and the remaining ticks
  \<open>cntv_tval_el0\<close> answer each reading from a list of answers, indexed by \<open>clock_reads\<close>.  A division
  by a frequency of 0 yields 0 on AArch64, as \<open>div\<close> does.
\<close>

record clock =
  cntfrq :: u64
  cntvct :: "nat \<Rightarrow> u64"
  cntv_left :: "nat \<Rightarrow> u64"

record timer_state = palloc_state +
  t_msecs :: u64
  cntp_tval :: u64
  cntp_ctl :: u64
  cntkctl :: u64
  cntv_tval :: u64
  cntv_ctl :: u64
  clock_reads :: nat

definition timer_reset :: "clock \<Rightarrow> 'a timer_state_scheme \<Rightarrow> 'a timer_state_scheme" where
  "timer_reset ck s = s\<lparr>cntp_tval := cntfrq ck * t_msecs s div 1000\<rparr>"

definition timer_enable :: "'a timer_state_scheme \<Rightarrow> 'a timer_state_scheme" where
  "timer_enable s = s\<lparr>cntp_ctl := 1, cntkctl := 1\<rparr>"

definition permanent_disable_timer :: "'a timer_state_scheme \<Rightarrow> 'a timer_state_scheme" where
  "permanent_disable_timer s = s\<lparr>cntp_ctl := 0\<rparr>"

definition timer_init :: "clock \<Rightarrow> u64 \<Rightarrow> 'a timer_state_scheme \<Rightarrow> 'a timer_state_scheme" where
  "timer_init ck msecs s = timer_enable (timer_reset ck (s\<lparr>t_msecs := msecs\<rparr>))"

definition virtual_timer_reset :: "clock \<Rightarrow> u64 \<Rightarrow> 'a timer_state_scheme \<Rightarrow> 'a timer_state_scheme" where
  "virtual_timer_reset ck smsecs s = s\<lparr>cntv_tval := cntfrq ck * smsecs div 1000\<rparr>"

definition virtual_timer_enable :: "'a timer_state_scheme \<Rightarrow> 'a timer_state_scheme" where
  "virtual_timer_enable s = s\<lparr>cntv_ctl := 1\<rparr>"

definition virtual_timer_remaining_msec :: "clock \<Rightarrow> 'a timer_state_scheme \<Rightarrow> u64 \<times> 'a timer_state_scheme" where
  "virtual_timer_remaining_msec ck s =
     (cntv_left ck (clock_reads s) * 1000 div cntfrq ck, s\<lparr>clock_reads := clock_reads s + 1\<rparr>)"

definition timer_now :: "clock \<Rightarrow> 'a timer_state_scheme \<Rightarrow> u64 \<times> 'a timer_state_scheme" where
  "timer_now ck s = (cntvct ck (clock_reads s), s\<lparr>clock_reads := clock_reads s + 1\<rparr>)"

definition timer_now_msec :: "clock \<Rightarrow> 'a timer_state_scheme \<Rightarrow> u64 \<times> 'a timer_state_scheme" where
  "timer_now_msec ck s =
     (cntvct ck (clock_reads s) * 1000 div cntfrq ck, s\<lparr>clock_reads := clock_reads s + 1\<rparr>)"

end
