(* ===== verification/Scheduler.thy ===== *)
theory Scheduler
  imports Timer
begin

section \<open>Processes and the scheduler (\<open>kernel/process/scheduler.c\<close>)\<close>

text \<open>
  The process table is a list of 16 records; a \<open>process_t*\<close> is an index into it (or None for NULL).
  The registers of the processor are part of the state.  \<open>restore_context\<close> ends with \<open>eret\<close>: a
  function that reaches it does not return to its caller, which \<open>Resumed\<close> records; \<open>Returned\<close> is a
  normal return.  Loops that search for a READY process take fuel, since they spin for ever when
  there is none.
\<close>

subsection \<open>Types (\<open>process.h\<close>, \<open>keypress.h\<close>)\<close>

record keypress =
  kp_modifier :: u8
  kp_rsvd :: u8
  kp_keys :: "u8 list"

record input_buffer =
  ib_write :: u32
  ib_read :: u32
  ib_entries :: "keypress list"

record packet_buffer =
  pb_write :: u32
  pb_read :: u32
  pb_entries :: "(u64 \<times> u64) list"

datatype process_state = STOPPED | READY | RUNNING | BLOCKED

record process =
  p_regs :: "u64 list"
  p_sp :: u64
  p_pc :: u64
  p_spsr :: u64
  p_id :: u16
  p_stack :: u64
  p_stack_size :: u64
  p_heap :: u64
  p_focused :: bool
  p_state :: process_state
  p_input :: input_buffer
  p_packets :: packet_buffer
  p_name :: "u8 list"

record sleep_tracker =
  st_pid :: u16
  st_timestamp :: u64
  st_sleep_time :: u64
  st_valid :: bool

datatype switch_reason = INTERRUPT | YIELD | HALT

text \<open>The processor: \<open>x0\<close> to \<open>x30\<close>, the stack pointers and the exception registers.\<close>

record cpu =
  xr :: "nat \<Rightarrow> u64"
  sp_now :: u64
  sp_el0 :: u64
  elr_el1 :: u64
  spsr_el1 :: u64
  esr_el1 :: u64
  far_el1 :: u64

record sched_state = timer_state +
  processes :: "process list"
  current_proc :: u16
  proc_count :: u16
  next_proc_index :: u16
  sleeping :: "sleep_tracker list"
  sleep_count :: u16
  ksp :: u64
  focused_proc :: "nat option"
  irq_masked :: bool
  cpu_regs :: cpu

datatype ('a, 's) flow = Returned 'a 's | Resumed 's

text \<open>Static storage starts out as zero.\<close>

definition no_key :: keypress where
  "no_key = \<lparr>kp_modifier = 0, kp_rsvd = 0, kp_keys = replicate 6 0\<rparr>"

definition zero_process :: process where
  "zero_process = \<lparr>p_regs = replicate 31 0, p_sp = 0, p_pc = 0, p_spsr = 0, p_id = 0, p_stack = 0,
     p_stack_size = 0, p_heap = 0, p_focused = False, p_state = STOPPED,
     p_input = \<lparr>ib_write = 0, ib_read = 0, ib_entries = replicate 64 no_key\<rparr>,
     p_packets = \<lparr>pb_write = 0, pb_read = 0, pb_entries = replicate 128 (0, 0)\<rparr>,
     p_name = replicate 256 0\<rparr>"

definition zero_tracker :: sleep_tracker where
  "zero_tracker = \<lparr>st_pid = 0, st_timestamp = 0, st_sleep_time = 0, st_valid = False\<rparr>"

definition proc :: "'a sched_state_scheme \<Rightarrow> nat \<Rightarrow> process" where
  "proc s i = processes s ! i"

definition upd_proc :: "nat \<Rightarrow> (process \<Rightarrow> process) \<Rightarrow> 'a sched_state_scheme \<Rightarrow> 'a sched_state_scheme" where
  "upd_proc i f s = s\<lparr>processes := (processes s)[i := f (proc s i)]\<rparr>"

subsection \<open>Saving and restoring registers (\<open>context_switch.S\<close>)\<close>

definition save_context :: "cpu \<Rightarrow> process \<Rightarrow> process" where
  "save_context c p =
     p\<lparr>p_regs := map (\<lambda>i. xr c (i + 1)) [0..<30] @ drop 30 (p_regs p),
       p_sp := xr c 11, p_spsr := xr c 10 AND 0xFFF\<rparr>"

definition save_pc_interrupt :: "cpu \<Rightarrow> process \<Rightarrow> process" where
  "save_pc_interrupt c p = p\<lparr>p_pc := elr_el1 c\<rparr>"

definition restore_context :: "process \<Rightarrow> cpu \<Rightarrow> cpu" where
  "restore_context p c =
     (let r = (\<lambda>i. p_regs p ! (i - 1));
          x = (\<lambda>i. if 1 \<le> i \<and> i \<le> 30 then r i else xr c i);
          x = x(11 := p_sp p); x = x(29 := x 11); x = x(10 := p_spsr p); x = x(11 := p_pc p);
          x = x(0 := x 15); x = x(1 := x 14); x = x(30 := x 12); x = x(2 := x 9); x = x(3 := x 16)
      in c\<lparr>xr := x, sp_now := p_sp p, sp_el0 := p_sp p, spsr_el1 := p_spsr p, elr_el1 := p_pc p\<rparr>)"

definition disable_interrupt :: "'a sched_state_scheme \<Rightarrow> 'a sched_state_scheme" where
  "disable_interrupt s = s\<lparr>irq_masked := True\<rparr>"

definition enable_interrupt :: "'a sched_state_scheme \<Rightarrow> 'a sched_state_scheme" where
  "enable_interrupt s = s\<lparr>irq_masked := False\<rparr>"

definition cur :: "'a sched_state_scheme \<Rightarrow> nat" where
  "cur s = unat (current_proc s)"

definition save_context_registers :: "'a sched_state_scheme \<Rightarrow> 'a sched_state_scheme" where
  "save_context_registers s = upd_proc (cur s) (save_context (cpu_regs s)) s"

definition save_return_address_interrupt :: "'a sched_state_scheme \<Rightarrow> 'a sched_state_scheme" where
  "save_return_address_interrupt s = upd_proc (cur s) (save_pc_interrupt (cpu_regs s)) s"

definition save_syscall_return :: "u64 \<Rightarrow> 'a sched_state_scheme \<Rightarrow> 'a sched_state_scheme" where
  "save_syscall_return v s = upd_proc (cur s) (\<lambda>p. p\<lparr>p_regs := (p_regs p)[14 := v]\<rparr>) s"

text \<open>The state in which the current process goes on.\<close>

definition process_restore :: "'a sched_state_scheme \<Rightarrow> 'a sched_state_scheme" where
  "process_restore s = s\<lparr>cpu_regs := restore_context (proc s (cur s)) (cpu_regs s)\<rparr>"

subsection \<open>Switching\<close>

fun next_ready :: "nat \<Rightarrow> process list \<Rightarrow> nat \<Rightarrow> fault + nat" where
  "next_ready 0 ps i = (if p_state (ps ! i) = READY then Inr i else Inl OutOfFuel)"
| "next_ready (Suc k) ps i =
     (if p_state (ps ! i) = READY then Inr i else next_ready k ps ((i + 1) mod 16))"

definition switch_proc :: "nat \<Rightarrow> clock \<Rightarrow> switch_reason \<Rightarrow> 'a sched_state_scheme \<Rightarrow> fault + 'a sched_state_scheme" where
  "switch_proc fuel ck reason s =
     (if proc_count s = 0 then Inl (Panic ''No processes active'')
      else bindE (next_ready fuel (processes s) ((cur s + 1) mod 16)) (\<lambda>i.
        Inr (process_restore (timer_reset ck (s\<lparr>current_proc := of_nat i\<rparr>)))))"

definition start_scheduler :: "nat \<Rightarrow> clock \<Rightarrow> 'a sched_state_scheme \<Rightarrow> fault + 'a sched_state_scheme" where
  "start_scheduler fuel ck s = switch_proc fuel ck YIELD (timer_init ck 1 (disable_interrupt s))"

definition get_current_heap :: "'a sched_state_scheme \<Rightarrow> u64" where
  "get_current_heap s = p_heap (proc s (cur s))"

definition get_current_privilege :: "'a sched_state_scheme \<Rightarrow> bool" where
  "get_current_privilege s \<longleftrightarrow> p_spsr (proc s (cur s)) AND 15 \<noteq> 0"

definition get_current_proc :: "'a sched_state_scheme \<Rightarrow> nat" where
  "get_current_proc s = cur s"

definition get_proc_by_pid :: "'a sched_state_scheme \<Rightarrow> u16 \<Rightarrow> nat option" where
  "get_proc_by_pid s pid = find (\<lambda>i. p_id (proc s i) = pid) [0..<16]"

definition get_current_proc_pid :: "'a sched_state_scheme \<Rightarrow> u16" where
  "get_current_proc_pid s = p_id (proc s (cur s))"

subsection \<open>Creating processes\<close>

definition reset_process :: "nat \<Rightarrow> 'a sched_state_scheme \<Rightarrow> 'a sched_state_scheme" where
  "reset_process i s =
     (let s = upd_proc i (\<lambda>p. p\<lparr>p_sp := 0\<rparr>) s;
          s = pfree s (p_stack (proc s i) - p_stack_size (proc s i)) (p_stack_size (proc s i));
          s = upd_proc i (\<lambda>p. p\<lparr>p_pc := 0, p_spsr := 0, p_regs := replicate 31 0, p_name := replicate 256 0,
                p_input := \<lparr>ib_write = 0, ib_read = 0, ib_entries = replicate 64 no_key\<rparr>,
                p_packets := (p_packets p)\<lparr>pb_write := 0, pb_read := 0\<rparr>\<rparr>) s;
          s = fold (\<lambda>k s. if fst k \<noteq> 0 then free_sized s k else s) (pb_entries (p_packets (proc s i))) s
      in upd_proc i (\<lambda>p. p\<lparr>p_packets := (p_packets p)\<lparr>pb_entries := replicate 128 (0, 0)\<rparr>\<rparr>) s)"

definition name_process :: "nat \<Rightarrow> u8 list \<Rightarrow> 'a sched_state_scheme \<Rightarrow> 'a sched_state_scheme" where
  "name_process i name s =
     (let n = takeWhile (\<lambda>c. c \<noteq> 0) (take 256 name)
      in upd_proc i (\<lambda>p. p\<lparr>p_name := n @ drop (length n) (p_name p)\<rparr>) s)"

definition init_main_process ::
    "nat \<Rightarrow> linker \<Rightarrow> hw \<Rightarrow> 'a sched_state_scheme \<Rightarrow> fault + 'a sched_state_scheme" where
  "init_main_process fuel ld h s =
     (let s = reset_process 0 s;
          s = upd_proc 0 (\<lambda>p. p\<lparr>p_id := next_proc_index s, p_state := BLOCKED\<rparr>)
                (s\<lparr>next_proc_index := next_proc_index s + 1\<rparr>)
      in bindE (palloc fuel ld h s 0x1000 True False False) (\<lambda>(heap, s).
         let s = upd_proc 0 (\<lambda>p. p\<lparr>p_heap := heap, p_stack_size := 0x1000\<rparr>) s
         in bindE (palloc fuel ld h s 0x1000 True False True) (\<lambda>(stack, s).
            let s = s\<lparr>ksp := stack + 0x1000\<rparr>;
                s = upd_proc 0 (\<lambda>p. p\<lparr>p_stack := stack, p_sp := ksp s\<rparr>) s;
                s = name_process 0 (map of_char ''kernel'') s
            in Inr (s\<lparr>proc_count := proc_count s + 1\<rparr>))))"

text \<open>The common end of both branches of \<open>init_process\<close>.\<close>

definition claim_slot :: "nat \<Rightarrow> 'a sched_state_scheme \<Rightarrow> 'a sched_state_scheme" where
  "claim_slot i s =
     (let s = reset_process i s
      in upd_proc i (\<lambda>p. p\<lparr>p_id := next_proc_index s, p_state := READY\<rparr>)
           (s\<lparr>next_proc_index := next_proc_index s + 1, proc_count := proc_count s + 1\<rparr>))"

definition init_process :: "'a sched_state_scheme \<Rightarrow> fault + (nat \<times> 'a sched_state_scheme)" where
  "init_process s =
     (if next_proc_index s \<ge> 16 then
        (case find (\<lambda>i. p_state (proc s i) = STOPPED) [0..<16] of
           None \<Rightarrow> Inl (Panic ''Out of process memory'')
         | Some i \<Rightarrow> Inr (i, claim_slot i s))
      else let i = unat (next_proc_index s) in Inr (i, claim_slot i s))"

subsection \<open>Stopping, sleeping and waking\<close>

definition sys_unset_focus :: "'a sched_state_scheme \<Rightarrow> fault + 'a sched_state_scheme" where
  "sys_unset_focus s =
     (case focused_proc s of
        None \<Rightarrow> Inl NullDeref
      | Some i \<Rightarrow> Inr (upd_proc i (\<lambda>p. p\<lparr>p_focused := False\<rparr>) (s\<lparr>focused_proc := None\<rparr>)))"

definition stop_process ::
    "nat \<Rightarrow> clock \<Rightarrow> u16 \<Rightarrow> 'a sched_state_scheme \<Rightarrow> fault + (unit, 'a sched_state_scheme) flow" where
  "stop_process fuel ck pid s =
     (let s = disable_interrupt s
      in case get_proc_by_pid s pid of
           None \<Rightarrow> Inl NullDeref
         | Some i \<Rightarrow>
             if p_state (proc s i) \<noteq> READY then Inr (Returned () s)
             else
               let s = upd_proc i (\<lambda>p. p\<lparr>p_state := STOPPED\<rparr>) s
               in bindE (if p_focused (proc s i) then sys_unset_focus s else Inr s) (\<lambda>s.
                  bindE (switch_proc fuel ck HALT (s\<lparr>proc_count := proc_count s - 1\<rparr>)) (\<lambda>s. Inr (Resumed s))))"

definition stop_current_process ::
    "nat \<Rightarrow> clock \<Rightarrow> 'a sched_state_scheme \<Rightarrow> fault + (unit, 'a sched_state_scheme) flow" where
  "stop_current_process fuel ck s = stop_process fuel ck (get_current_proc_pid s) (disable_interrupt s)"

definition process_count :: "'a sched_state_scheme \<Rightarrow> u16" where
  "process_count s = proc_count s"

definition get_all_processes :: "'a sched_state_scheme \<Rightarrow> process list" where
  "get_all_processes s = processes s"

definition sleep_process ::
    "nat \<Rightarrow> clock \<Rightarrow> u64 \<Rightarrow> 'a sched_state_scheme \<Rightarrow> fault + 'a sched_state_scheme" where
  "sleep_process fuel ck msec s =
     (let s = (if sleep_count s < 16 then
                 (let s = upd_proc (cur s) (\<lambda>p. p\<lparr>p_state := BLOCKED\<rparr>) s;
                      now = fst (timer_now_msec ck s); s = snd (timer_now_msec ck s)
                  in s\<lparr>sleeping := (sleeping s)[unat (sleep_count s) :=
                           \<lparr>st_pid = get_current_proc_pid s, st_timestamp = now, st_sleep_time = msec, st_valid = True\<rparr>],
                       sleep_count := sleep_count s + 1\<rparr>)
               else s);
          left = fst (virtual_timer_remaining_msec ck s); s = snd (virtual_timer_remaining_msec ck s);
          left2 = fst (virtual_timer_remaining_msec ck s);
          s' = (if left > msec then s else snd (virtual_timer_remaining_msec ck s));
          s' = (if left > msec \<or> left2 = 0 then virtual_timer_enable (virtual_timer_reset ck msec s') else s')
      in switch_proc fuel ck YIELD s')"

fun wake_loop ::
    "clock \<Rightarrow> nat list \<Rightarrow> u16 \<Rightarrow> u64 \<Rightarrow> 'a sched_state_scheme \<Rightarrow> fault + (u16 \<times> u64 \<times> 'a sched_state_scheme)" where
  "wake_loop ck [] removed new_wake_time s = Inr (removed, new_wake_time, s)"
| "wake_loop ck (i # is) removed new_wake_time s =
     (let t = sleeping s ! i; wake_time = st_timestamp t + st_sleep_time t;
          now = fst (timer_now_msec ck s); s = snd (timer_now_msec ck s)
      in if wake_time \<le> now then
           (case get_proc_by_pid s (st_pid t) of
              None \<Rightarrow> Inl NullDeref
            | Some j \<Rightarrow>
                wake_loop ck is (removed + 1) new_wake_time
                  (upd_proc j (\<lambda>p. p\<lparr>p_state := READY\<rparr>) (s\<lparr>sleeping := (sleeping s)[i := t\<lparr>st_valid := False\<rparr>]\<rparr>)))
         else wake_loop ck is removed
                (if new_wake_time = 0 \<or> wake_time < new_wake_time then wake_time else new_wake_time) s)"

definition wake_processes :: "clock \<Rightarrow> 'a sched_state_scheme \<Rightarrow> fault + 'a sched_state_scheme" where
  "wake_processes ck s =
     bindE (wake_loop ck [0..<unat (sleep_count s)] 0 0 s) (\<lambda>(removed, new_wake_time, s).
       let s = s\<lparr>sleep_count := sleep_count s - removed\<rparr>;
           now = fst (timer_now_msec ck s); s = snd (timer_now_msec ck s)
       in Inr (virtual_timer_enable (virtual_timer_reset ck (now - new_wake_time) s)))"

subsection \<open>The process table\<close>

lemma proc_upd [simp]:
  "proc (upd_proc i f s) j = (if i = j \<and> i < length (processes s) then f (proc s i) else proc s j)"
  by (cases "i < length (processes s)") (auto simp: proc_def upd_proc_def list_update_beyond nth_list_update)

lemma upd_proc_simps [simp]:
  "length (processes (upd_proc i f s)) = length (processes s)"
  "current_proc (upd_proc i f s) = current_proc s" "proc_count (upd_proc i f s) = proc_count s"
  "next_proc_index (upd_proc i f s) = next_proc_index s" "focused_proc (upd_proc i f s) = focused_proc s"
  "sleep_count (upd_proc i f s) = sleep_count s" "sleeping (upd_proc i f s) = sleeping s"
  "cur (upd_proc i f s) = cur s" "clock_reads (upd_proc i f s) = clock_reads s"
  by (simp_all add: upd_proc_def cur_def)

lemma proc_frame [simp]:
  "proc (s\<lparr>proc_count := c\<rparr>) i = proc s i" "proc (s\<lparr>next_proc_index := n\<rparr>) i = proc s i"
  "proc (s\<lparr>current_proc := k\<rparr>) i = proc s i" "proc (s\<lparr>focused_proc := f\<rparr>) i = proc s i"
  "proc (s\<lparr>irq_masked := b\<rparr>) i = proc s i" "proc (s\<lparr>mm := m\<rparr>) i = proc s i"
  "proc (s\<lparr>sleeping := t\<rparr>) i = proc s i" "proc (s\<lparr>sleep_count := w\<rparr>) i = proc s i"
  "proc (s\<lparr>clock_reads := n'\<rparr>) i = proc s i" "proc (s\<lparr>cpu_regs := cp\<rparr>) i = proc s i"
  "proc (disable_interrupt s) i = proc s i" "proc (process_restore s) i = proc s i"
  "proc (timer_reset ck s) i = proc s i" "proc (snd (timer_now_msec ck s)) i = proc s i"
  "proc (virtual_timer_reset ck v s) i = proc s i" "proc (virtual_timer_enable s) i = proc s i"
  by (simp_all add: proc_def disable_interrupt_def process_restore_def timer_reset_def timer_now_msec_def
      virtual_timer_reset_def virtual_timer_enable_def)

definition live :: "'a sched_state_scheme \<Rightarrow> nat set" where
  "live s = {i. i < 16 \<and> p_state (proc s i) \<noteq> STOPPED}"

definition procs_ok :: "'a sched_state_scheme \<Rightarrow> bool" where
  "procs_ok s \<longleftrightarrow> length (processes s) = 16 \<and> cur s < 16 \<and> unat (proc_count s) = card (live s)
     \<and> (\<forall>i<16. p_id (proc s i) < next_proc_index s)
     \<and> (\<forall>i<16. \<forall>j<16. i \<noteq> j \<longrightarrow> p_id (proc s i) = p_id (proc s j) \<longrightarrow> p_id (proc s i) = 0)
     \<and> (\<forall>i\<in>live s. p_id (proc s i) \<noteq> 0 \<and> of_nat i < next_proc_index s)"

lemma live_finite [simp]: "finite (live s)"
  by (simp add: live_def)

lemma live_card: "card (live s) \<le> 16"
proof -
  have "live s \<subseteq> {0..<16}" by (auto simp: live_def)
  then show ?thesis using card_mono [of "{0..<16}" "live s"] by simp
qed

text \<open>Looking a process up by its id finds its slot.\<close>

lemma get_proc_by_pid_eq:
  assumes "procs_ok s" "i < 16" "p_id (proc s i) \<noteq> 0"
  shows "get_proc_by_pid s (p_id (proc s i)) = Some i"
proof -
  have "p_id (proc s j) \<noteq> p_id (proc s i)" if "j < i" for j
    using assms that unfolding procs_ok_def by (metis less_trans nat_neq_iff)
  then show ?thesis using assms(2)
    unfolding get_proc_by_pid_def find_Some_iff by (intro exI [of _ i]) simp
qed

text \<open>\<open>reset_process\<close> changes one slot, memory and the page bitmap.\<close>

lemma free_packets_frame:
  fixes s :: "'a sched_state_scheme"
  shows "\<exists>m. fold (\<lambda>k s. if fst k \<noteq> 0 then free_sized s k else s) ps s = s\<lparr>mm := m\<rparr>"
proof (induction ps arbitrary: s)
  case Nil
  show ?case by (rule exI [of _ "mm s"]) simp
next
  case (Cons k ps)
  obtain m where m: "(if fst k \<noteq> 0 then free_sized s k else s) = s\<lparr>mm := m\<rparr>"
  proof (cases "fst k = 0")
    case True
    then show thesis by (intro that [of "mm s"]) simp
  next
    case False
    then show thesis by (intro that) (simp add: free_sized_def kfree_def Let_def)
  qed
  show ?case using Cons.IH [of "s\<lparr>mm := m\<rparr>"] by (simp add: m del: fst_conv)
qed

lemma reset_process_frame:
  assumes "i < length (processes s)"
  obtains m b where "reset_process i s = upd_proc i (\<lambda>p. p\<lparr>p_sp := 0, p_pc := 0, p_spsr := 0,
      p_regs := replicate 31 0, p_name := replicate 256 0,
      p_input := \<lparr>ib_write = 0, ib_read = 0, ib_entries = replicate 64 no_key\<rparr>,
      p_packets := (p_packets p)\<lparr>pb_write := 0, pb_read := 0, pb_entries := replicate 128 (0, 0)\<rparr>\<rparr>)
    (s\<lparr>mem_bitmap := b, mm := m\<rparr>)"
proof -
  define s1 where "s1 = pfree (upd_proc i (\<lambda>p. p\<lparr>p_sp := 0\<rparr>) s)
      (p_stack (proc (upd_proc i (\<lambda>p. p\<lparr>p_sp := 0\<rparr>) s) i) - p_stack_size (proc (upd_proc i (\<lambda>p. p\<lparr>p_sp := 0\<rparr>) s) i))
      (p_stack_size (proc (upd_proc i (\<lambda>p. p\<lparr>p_sp := 0\<rparr>) s) i))"
  define s2 where "s2 = upd_proc i (\<lambda>p. p\<lparr>p_pc := 0, p_spsr := 0, p_regs := replicate 31 0, p_name := replicate 256 0,
                p_input := \<lparr>ib_write = 0, ib_read = 0, ib_entries = replicate 64 no_key\<rparr>,
                p_packets := (p_packets p)\<lparr>pb_write := 0, pb_read := 0\<rparr>\<rparr>) s1"
  obtain m where m: "fold (\<lambda>k s. if fst k \<noteq> 0 then free_sized s k else s) (pb_entries (p_packets (proc s2 i))) s2
      = s2\<lparr>mm := m\<rparr>" using free_packets_frame [of "pb_entries (p_packets (proc s2 i))" s2] by blast
  obtain b where b: "s1 = (upd_proc i (\<lambda>p. p\<lparr>p_sp := 0\<rparr>) s)\<lparr>mem_bitmap := b\<rparr>"
    by (simp add: s1_def pfree_def Let_def)
  have "reset_process i s = upd_proc i (\<lambda>p. p\<lparr>p_packets := (p_packets p)\<lparr>pb_entries := replicate 128 (0, 0)\<rparr>\<rparr>) (s2\<lparr>mm := m\<rparr>)"
    unfolding reset_process_def Let_def by (simp only: m flip: s1_def s2_def)
  then show thesis using assms
    by (intro that [of m b]) (simp add: s2_def b upd_proc_def proc_def)
qed

text \<open>Claiming a slot that is not in use.\<close>

lemma claim_slot_proc:
  assumes "i < length (processes s)"
  shows "proc (claim_slot i s) j = (if j = i then (proc s i)\<lparr>p_sp := 0, p_pc := 0, p_spsr := 0,
      p_regs := replicate 31 0, p_name := replicate 256 0,
      p_input := \<lparr>ib_write = 0, ib_read = 0, ib_entries = replicate 64 no_key\<rparr>,
      p_packets := (p_packets (proc s i))\<lparr>pb_write := 0, pb_read := 0, pb_entries := replicate 128 (0, 0)\<rparr>,
      p_id := next_proc_index s, p_state := READY\<rparr> else proc s j)"
    and "length (processes (claim_slot i s)) = length (processes s)"
    and "cur (claim_slot i s) = cur s" "proc_count (claim_slot i s) = proc_count s + 1"
      "next_proc_index (claim_slot i s) = next_proc_index s + 1" "focused_proc (claim_slot i s) = focused_proc s"
      "irq_masked (claim_slot i s) = irq_masked s" "ram (claim_slot i s) = ram s"
proof -
  obtain m b where r: "reset_process i s = upd_proc i (\<lambda>p. p\<lparr>p_sp := 0, p_pc := 0, p_spsr := 0,
      p_regs := replicate 31 0, p_name := replicate 256 0,
      p_input := \<lparr>ib_write = 0, ib_read = 0, ib_entries = replicate 64 no_key\<rparr>,
      p_packets := (p_packets p)\<lparr>pb_write := 0, pb_read := 0, pb_entries := replicate 128 (0, 0)\<rparr>\<rparr>)
    (s\<lparr>mem_bitmap := b, mm := m\<rparr>)" by (rule reset_process_frame [OF assms])
  show "proc (claim_slot i s) j = (if j = i then (proc s i)\<lparr>p_sp := 0, p_pc := 0, p_spsr := 0,
      p_regs := replicate 31 0, p_name := replicate 256 0,
      p_input := \<lparr>ib_write = 0, ib_read = 0, ib_entries = replicate 64 no_key\<rparr>,
      p_packets := (p_packets (proc s i))\<lparr>pb_write := 0, pb_read := 0, pb_entries := replicate 128 (0, 0)\<rparr>,
      p_id := next_proc_index s, p_state := READY\<rparr> else proc s j)"
    using assms unfolding claim_slot_def Let_def r by (cases "j = i") (simp_all add: proc_def upd_proc_def)
  show "length (processes (claim_slot i s)) = length (processes s)"
    "cur (claim_slot i s) = cur s" "proc_count (claim_slot i s) = proc_count s + 1"
    "next_proc_index (claim_slot i s) = next_proc_index s + 1" "focused_proc (claim_slot i s) = focused_proc s"
    "irq_masked (claim_slot i s) = irq_masked s" "ram (claim_slot i s) = ram s"
    unfolding claim_slot_def Let_def r by (simp_all add: cur_def upd_proc_def)
qed

lemma claim_slot_ok:
  assumes "procs_ok s" "i < 16" "i \<notin> live s" "next_proc_index s < 0xFFFF" "of_nat i \<le> next_proc_index s"
  shows "procs_ok (claim_slot i s)" "live (claim_slot i s) = insert i (live s)"
proof -
  have i: "i < length (processes s)" using assms(1,2) by (simp add: procs_ok_def)
  note c = claim_slot_proc [OF i]
  have up: "next_proc_index s < next_proc_index s + 1" using assms(4) by (simp add: word_less_nat_alt unat_word_ariths)
  show l: "live (claim_slot i s) = insert i (live s)" using assms(2) by (auto simp: live_def c)
  have "card (live s) < 2 ^ 16 - 1" using live_card [of s] by simp
  then have "unat (proc_count s + 1) = card (live s) + 1"
    using assms(1) by (simp add: procs_ok_def unat_word_ariths)
  then have n: "unat (proc_count (claim_slot i s)) = card (live (claim_slot i s))"
    using assms(3) by (simp add: c l)
  have ids: "p_id (proc s j) < next_proc_index s" if "j < 16" for j using assms(1) that by (simp add: procs_ok_def)
  have "p_id (proc (claim_slot i s) j) < next_proc_index s + 1" if "j < 16" for j
    using ids [OF that] up by (simp add: c) (metis order.strict_trans)
  moreover have "p_id (proc (claim_slot i s) j) = 0"
    if "j < 16" "k < 16" "j \<noteq> k" "p_id (proc (claim_slot i s) j) = p_id (proc (claim_slot i s) k)" for j k
    using that ids [of j] ids [of k] assms(1) by (auto simp: c procs_ok_def split: if_splits)
  moreover have "p_id (proc (claim_slot i s) j) \<noteq> 0 \<and> of_nat j < next_proc_index s + 1"
    if "j \<in> insert i (live s)" for j
  proof (cases "j = i")
    case True
    have "0 < next_proc_index s" using ids [of 0] by (metis word_coorder.not_eq_extremum not_less_zero word_le_0_iff zero_less_numeral leD word_zero_le)
    then show ?thesis using True assms(5) up by (auto simp: c)
  next
    case False
    then show ?thesis using that assms(1) up by (auto simp: c procs_ok_def)
  qed
  ultimately show "procs_ok (claim_slot i s)"
    using assms(1) n l by (simp add: procs_ok_def c)
qed

subsection \<open>Round robin\<close>

lemma next_ready_find:
  "i < 16 \<Longrightarrow> next_ready k ps i = (case find (\<lambda>j. p_state (ps ! j) = READY) (map (\<lambda>m. (i + m) mod 16) [0..<Suc k]) of
     None \<Rightarrow> Inl OutOfFuel | Some j \<Rightarrow> Inr j)"
proof (induction k arbitrary: i)
  case (Suc k)
  have "map (\<lambda>m. (i + m) mod 16) [0..<Suc (Suc k)] = i # map (\<lambda>m. (i + Suc m) mod 16) [0..<Suc k]"
    using Suc.prems by (simp only: upt_conv_Cons [of 0 "Suc (Suc k)"] list.map flip: map_Suc_upt) (simp add: comp_def)
  moreover have "(i + Suc m) mod 16 = ((i + 1) mod 16 + m) mod 16" for m by (simp add: mod_simps)
  ultimately have "map (\<lambda>m. (i + m) mod 16) [0..<Suc (Suc k)] = i # map (\<lambda>m. ((i + 1) mod 16 + m) mod 16) [0..<Suc k]"
    by presburger
  then show ?case using Suc.IH [of "(i + 1) mod 16"] by (simp only: next_ready.simps find.simps) simp
qed simp

lemma next_ready_Inr:
  assumes "i < 16" "15 \<le> k" "j < 16" "p_state (ps ! j) = READY"
  obtains m where "m < 16" "next_ready k ps i = Inr ((i + m) mod 16)" "p_state (ps ! ((i + m) mod 16)) = READY"
    "\<And>n. n < m \<Longrightarrow> p_state (ps ! ((i + n) mod 16)) \<noteq> READY" "(i + m) mod 16 = j \<or> m < (j + 16 - i) mod 16"
proof -
  let ?P = "\<lambda>m. p_state (ps ! ((i + m) mod 16)) = READY" and ?d = "(j + 16 - i) mod 16"
  have d: "?d < 16" "(i + ?d) mod 16 = j" using assms(1,3) by (simp_all add: mod_add_right_eq)
  define m where "m = (LEAST m. ?P m)"
  have "?P ?d" using d(2) assms(4) by simp
  then have m: "?P m" "m \<le> ?d" unfolding m_def by (rule LeastI, rule Least_le)
  have before: "\<not> ?P n" if "n < m" for n using not_less_Least that unfolding m_def by blast
  have "find (\<lambda>j. p_state (ps ! j) = READY) (map (\<lambda>m. (i + m) mod 16) [0..<Suc k]) = Some ((i + m) mod 16)"
    unfolding find_Some_iff using m before d(1) assms(2) by (intro exI [of _ m]) (auto simp del: upt_Suc)
  then have "next_ready k ps i = Inr ((i + m) mod 16)" by (simp only: next_ready_find [OF assms(1)] option.case)
  moreover have "(i + m) mod 16 = j \<or> m < ?d" using m(2) d(2) by (metis le_neq_implies_less)
  ultimately show thesis using m before d(1) by (intro that [of m]) simp_all
qed

lemma next_ready_none:
  assumes "\<forall>j<16. p_state (ps ! j) \<noteq> READY" "i < 16"
  shows "next_ready k ps i = Inl OutOfFuel"
proof -
  have "find (\<lambda>j. p_state (ps ! j) = READY) (map (\<lambda>m. (i + m) mod 16) [0..<Suc k]) = None"
    unfolding find_None_iff using assms(1) by (auto simp del: upt_Suc)
  then show ?thesis by (simp only: next_ready_find [OF assms(2)] option.case)
qed

lemma switch_proc_Inr:
  assumes "procs_ok s" "15 \<le> fuel" "j < 16" "p_state (proc s j) = READY"
  obtains m s' where "m < 16" "switch_proc fuel ck r s = Inr s'" "cur s' = (cur s + 1 + m) mod 16"
    "p_state (proc s (cur s')) = READY" "\<And>n. n < m \<Longrightarrow> p_state (proc s ((cur s + 1 + n) mod 16)) \<noteq> READY"
    "cur s' = j \<or> m < (j + 15 - cur s) mod 16"
    "s' = process_restore (timer_reset ck (s\<lparr>current_proc := of_nat (cur s')\<rparr>))"
proof -
  have c: "cur s < 16" and n: "unat (proc_count s) = card (live s)" using assms(1) by (simp_all add: procs_ok_def)
  have "j \<in> live s" using assms(3,4) by (simp add: live_def)
  then have "proc_count s \<noteq> 0" using n by (metis card_gt_0_iff empty_iff less_irrefl live_finite unat_0)
  moreover obtain m where m: "m < 16" "next_ready fuel (processes s) ((cur s + 1) mod 16) = Inr (((cur s + 1) mod 16 + m) mod 16)"
    "p_state (processes s ! (((cur s + 1) mod 16 + m) mod 16)) = READY"
    "\<And>n. n < m \<Longrightarrow> p_state (processes s ! (((cur s + 1) mod 16 + n) mod 16)) \<noteq> READY"
    "((cur s + 1) mod 16 + m) mod 16 = j \<or> m < (j + 16 - (cur s + 1) mod 16) mod 16"
    using next_ready_Inr [of "(cur s + 1) mod 16" fuel j "processes s"] assms by (auto simp: proc_def)
  let ?i = "(cur s + 1 + m) mod 16"
  have e: "((cur s + 1) mod 16 + n) mod 16 = (cur s + 1 + n) mod 16" for n by (simp add: mod_simps)
  have "(j + 16 - (cur s + 1) mod 16) mod 16 = (j + 15 - cur s) mod 16"
    using c assms(3) by (cases "cur s = 15") (auto simp: add.commute)
  moreover have u: "unat (of_nat ?i :: u16) = ?i" by simp
  ultimately show thesis using m unfolding e
    by (intro that [of m "process_restore (timer_reset ck (s\<lparr>current_proc := of_nat ?i\<rparr>))"])
      (simp_all add: switch_proc_def cur_def proc_def process_restore_def timer_reset_def)
qed

text \<open>Repeated switches, as the timer interrupts make them.\<close>

fun run_turns :: "nat \<Rightarrow> clock \<Rightarrow> switch_reason \<Rightarrow> nat \<Rightarrow> 'a sched_state_scheme \<Rightarrow> fault + 'a sched_state_scheme" where
  "run_turns fuel ck r 0 s = Inr s"
| "run_turns fuel ck r (Suc n) s = bindE (switch_proc fuel ck r s) (run_turns fuel ck r n)"

lemma switched_simps:
  "processes (process_restore (timer_reset ck (s\<lparr>current_proc := c\<rparr>))) = processes s"
  "proc_count (process_restore (timer_reset ck (s\<lparr>current_proc := c\<rparr>))) = proc_count s"
  "next_proc_index (process_restore (timer_reset ck (s\<lparr>current_proc := c\<rparr>))) = next_proc_index s"
  "cur (process_restore (timer_reset ck (s\<lparr>current_proc := c\<rparr>))) = unat c"
  "focused_proc (process_restore (timer_reset ck (s\<lparr>current_proc := c\<rparr>))) = focused_proc s"
  by (simp_all add: process_restore_def timer_reset_def cur_def)

lemma procs_ok_cong:
  assumes "processes s' = processes s" "proc_count s' = proc_count s" "next_proc_index s' = next_proc_index s" "cur s' < 16"
  shows "procs_ok s \<Longrightarrow> procs_ok s'" "live s' = live s"
proof -
  have "proc s' i = proc s i" for i by (simp add: proc_def assms(1))
  then show "live s' = live s" "procs_ok s \<Longrightarrow> procs_ok s'"
    using assms by (simp_all add: live_def procs_ok_def)
qed

lemma turn_distance:
  assumes "m < (j + 15 - c) mod 16" "c < 16" "j < (16 :: nat)"
  shows "(j + 15 - (c + 1 + m) mod 16) mod 16 < (j + 15 - c) mod 16"
proof -
  have w: "x mod 16 = (if x < 16 then x else x - 16)" if "x < 32" for x :: nat using that by (simp add: mod_if)
  have "m < 16" using assms(1) mod_less_divisor [of 16 "j + 15 - c"] by linarith
  then have "c + 1 + m < 32" "j + 15 - c < 32" "j + 15 - (c + 1 + m) mod 16 < 32" using assms by linarith+
  then show ?thesis using assms by (simp add: w split: if_splits) arith+
qed

lemma switch_proc_keeps:
  assumes "procs_ok s" "15 \<le> fuel" "j < 16" "p_state (proc s j) = READY"
  obtains s' where "switch_proc fuel ck r s = Inr s'" "processes s' = processes s" "procs_ok s'" "live s' = live s"
    "p_state (proc s (cur s')) = READY" "cur s' = j \<or> (j + 15 - cur s') mod 16 < (j + 15 - cur s) mod 16"
proof -
  obtain m s' where m: "m < 16" "switch_proc fuel ck r s = Inr s'" "cur s' = (cur s + 1 + m) mod 16"
    "p_state (proc s (cur s')) = READY" "cur s' = j \<or> m < (j + 15 - cur s) mod 16"
    "s' = process_restore (timer_reset ck (s\<lparr>current_proc := of_nat (cur s')\<rparr>))"
    by (rule switch_proc_Inr [OF assms]) blast
  have c: "cur s < 16" "cur s' < 16" using assms(1) m(3) by (simp_all add: procs_ok_def)
  have keep: "processes s' = processes s" "proc_count s' = proc_count s" "next_proc_index s' = next_proc_index s"
    by (subst m(6), simp only: switched_simps)+
  have "(j + 15 - cur s') mod 16 < (j + 15 - cur s) mod 16" if "m < (j + 15 - cur s) mod 16"
    unfolding m(3) by (rule turn_distance [OF that c(1) assms(3)])
  then show thesis
    using procs_ok_cong [OF keep c(2)] assms(1) m(2,4,5) keep(1) by (intro that [of s']) blast+
qed

subsection \<open>Waking\<close>

definition due :: "clock \<Rightarrow> sleep_tracker \<Rightarrow> nat \<Rightarrow> bool" where
  "due ck t r \<longleftrightarrow> st_timestamp t + st_sleep_time t \<le> cntvct ck r * 1000 div cntfrq ck"

lemma pid_state [simp]:
  "get_proc_by_pid (upd_proc i (\<lambda>p. p\<lparr>p_state := v\<rparr>) s) pid = get_proc_by_pid s pid"
  "get_proc_by_pid (s\<lparr>clock_reads := r\<rparr>) pid = get_proc_by_pid s pid"
  "get_proc_by_pid (s\<lparr>sleeping := t\<rparr>) pid = get_proc_by_pid s pid"
  "get_proc_by_pid (s\<lparr>sleep_count := w\<rparr>) pid = get_proc_by_pid s pid"
  "get_proc_by_pid (disable_interrupt s) pid = get_proc_by_pid s pid"
proof -
  have "p_id (proc (upd_proc i (\<lambda>p. p\<lparr>p_state := v\<rparr>) s) j) = p_id (proc s j)" for j by simp
  then show "get_proc_by_pid (upd_proc i (\<lambda>p. p\<lparr>p_state := v\<rparr>) s) pid = get_proc_by_pid s pid"
    by (simp only: get_proc_by_pid_def)
qed (simp_all add: get_proc_by_pid_def)

lemma get_proc_by_pid_lt: "get_proc_by_pid s pid = Some i \<Longrightarrow> i < 16 \<and> p_id (proc s i) = pid"
  by (auto simp: get_proc_by_pid_def find_Some_iff)

text \<open>The slots a scan of the trackers \<open>a..<n\<close> wakes, starting at reading \<open>r\<close> of the clock.\<close>

definition woken :: "clock \<Rightarrow> nat \<Rightarrow> nat \<Rightarrow> nat \<Rightarrow> 'a sched_state_scheme \<Rightarrow> nat set" where
  "woken ck r a n s = {j. \<exists>k\<in>{a..<n}. due ck (sleeping s ! k) (r + (k - a))
     \<and> get_proc_by_pid s (st_pid (sleeping s ! k)) = Some j}"

lemma woken_step:
  assumes "a < n"
  shows "woken ck r a n s = (if due ck (sleeping s ! a) r then set_option (get_proc_by_pid s (st_pid (sleeping s ! a))) else {})
     \<union> woken ck (Suc r) (Suc a) n s"
proof -
  have "{a..<n} = insert a {Suc a..<n}" using assms by auto
  moreover have "r + (k - a) = Suc r + (k - Suc a)" if "k \<in> {Suc a..<n}" for k using that by auto
  ultimately show ?thesis by (auto simp: woken_def)
qed

lemma wake_loop_spec:
  assumes "length (processes s) = 16" "a \<le> n" "n \<le> length (sleeping s)"
    "\<forall>k\<in>{a..<n}. get_proc_by_pid s (st_pid (sleeping s ! k)) \<noteq> None"
  shows "\<exists>rm nw' s'. wake_loop ck [a..<n] rm0 nw s = Inr (rm, nw', s')
    \<and> rm = rm0 + of_nat (length (filter (\<lambda>k. due ck (sleeping s ! k) (clock_reads s + (k - a))) [a..<n]))
    \<and> (\<forall>j. proc s' j = (if j \<in> woken ck (clock_reads s) a n s then (proc s j)\<lparr>p_state := READY\<rparr> else proc s j))
    \<and> map st_pid (sleeping s') = map st_pid (sleeping s) \<and> sleep_count s' = sleep_count s"
  using assms
proof (induction "n - a" arbitrary: a s rm0 nw)
  case 0
  then show ?case by (simp add: woken_def)
next
  case (Suc d)
  let ?t = "sleeping s ! a" and ?s1 = "snd (timer_now_msec ck s)"
  have a: "a < n" using Suc.hyps(2) by simp
  then have l: "[a..<n] = a # [Suc a..<n]" by (rule upt_conv_Cons)
  have f: "filter (\<lambda>k. due ck (sleeping s ! k) (clock_reads s + (k - a))) [Suc a..<n]
      = filter (\<lambda>k. due ck (sleeping s ! k) (Suc (clock_reads s) + (k - Suc a))) [Suc a..<n]"
    by (rule filter_cong) (auto simp: Suc_diff_Suc)
  obtain j where j: "get_proc_by_pid s (st_pid ?t) = Some j" using Suc.prems(4) a by fastforce
  have s1: "?s1 = s\<lparr>clock_reads := Suc (clock_reads s)\<rparr>" by (simp add: timer_now_msec_def)
  show ?case
  proof (cases "due ck ?t (clock_reads s)")
    case True
    define s2 where "s2 = upd_proc j (\<lambda>p. p\<lparr>p_state := READY\<rparr>)
        (s\<lparr>clock_reads := Suc (clock_reads s), sleeping := (sleeping s)[a := ?t\<lparr>st_valid := False\<rparr>]\<rparr>)"
    have run: "wake_loop ck [a..<n] rm0 nw s = wake_loop ck [Suc a..<n] (rm0 + 1) nw s2"
      using True j by (simp add: l s1 Let_def timer_now_msec_def s2_def due_def)
    have t: "sleeping s2 ! k = sleeping s ! k" if "k \<noteq> a" for k using that by (simp add: s2_def)
    have g: "get_proc_by_pid s2 pid = get_proc_by_pid s pid" for pid by (simp add: s2_def)
    have w: "woken ck r (Suc a) n s2 = woken ck r (Suc a) n s" for r unfolding woken_def g using t by force
    have pids: "map st_pid (sleeping s2) = map st_pid (sleeping s)"
      using list_update_id [of "map st_pid (sleeping s)" a] a Suc.prems(3) by (simp add: s2_def map_update)
    have pre: "d = n - Suc a" "length (processes s2) = 16" "Suc a \<le> n" "n \<le> length (sleeping s2)"
      "\<forall>k\<in>{Suc a..<n}. get_proc_by_pid s2 (st_pid (sleeping s2 ! k)) \<noteq> None"
      using Suc.hyps(2) Suc.prems a by (simp_all add: g t) (simp_all add: s2_def)
    obtain rm nw' s' where ih: "wake_loop ck [Suc a..<n] (rm0 + 1) nw s2 = Inr (rm, nw', s')"
      "rm = rm0 + 1 + of_nat (length (filter (\<lambda>k. due ck (sleeping s2 ! k) (clock_reads s2 + (k - Suc a))) [Suc a..<n]))"
      "\<forall>i. proc s' i = (if i \<in> woken ck (clock_reads s2) (Suc a) n s2 then (proc s2 i)\<lparr>p_state := READY\<rparr> else proc s2 i)"
      "map st_pid (sleeping s') = map st_pid (sleeping s2)" "sleep_count s' = sleep_count s2"
      using Suc.hyps(1) [OF pre, of "rm0 + 1" nw] by blast
    have c: "clock_reads s2 = Suc (clock_reads s)" "sleep_count s2 = sleep_count s" by (simp_all add: s2_def)
    have "filter (\<lambda>k. due ck (sleeping s2 ! k) (clock_reads s2 + (k - Suc a))) [Suc a..<n]
        = filter (\<lambda>k. due ck (sleeping s ! k) (clock_reads s + (k - a))) [Suc a..<n]"
      unfolding f c by (rule filter_cong) (auto simp: t)
    moreover have "proc s2 i = (if i = j then (proc s j)\<lparr>p_state := READY\<rparr> else proc s i)" for i
      using get_proc_by_pid_lt [OF j] Suc.prems(1) by (simp add: s2_def)
    then have "proc s' i = (if i \<in> woken ck (clock_reads s) a n s then (proc s i)\<lparr>p_state := READY\<rparr> else proc s i)" for i
      using ih(3) True j by (simp add: woken_step [OF a] w c)
    ultimately show ?thesis unfolding run using ih True pids c by (simp add: l add.assoc)
  next
    case False
    define nw2 where "nw2 = (if nw = 0 \<or> st_timestamp ?t + st_sleep_time ?t < nw then st_timestamp ?t + st_sleep_time ?t else nw)"
    have run: "wake_loop ck [a..<n] rm0 nw s = wake_loop ck [Suc a..<n] rm0 nw2 ?s1"
      using False by (simp add: l s1 Let_def timer_now_msec_def due_def nw2_def)
    have pre: "d = n - Suc a" "length (processes ?s1) = 16" "Suc a \<le> n" "n \<le> length (sleeping ?s1)"
      "\<forall>k\<in>{Suc a..<n}. get_proc_by_pid ?s1 (st_pid (sleeping ?s1 ! k)) \<noteq> None"
      using Suc.hyps(2) Suc.prems a by (simp_all add: s1)
    obtain rm nw' s' where ih: "wake_loop ck [Suc a..<n] rm0 nw2 ?s1 = Inr (rm, nw', s')"
      "rm = rm0 + of_nat (length (filter (\<lambda>k. due ck (sleeping ?s1 ! k) (clock_reads ?s1 + (k - Suc a))) [Suc a..<n]))"
      "\<forall>i. proc s' i = (if i \<in> woken ck (clock_reads ?s1) (Suc a) n ?s1 then (proc ?s1 i)\<lparr>p_state := READY\<rparr> else proc ?s1 i)"
      "map st_pid (sleeping s') = map st_pid (sleeping ?s1)" "sleep_count s' = sleep_count ?s1"
      using Suc.hyps(1) [OF pre, of rm0 nw2] by blast
    have w: "woken ck r (Suc a) n (s\<lparr>clock_reads := Suc (clock_reads s)\<rparr>) = woken ck r (Suc a) n s" for r
      by (simp add: woken_def)
    show ?thesis unfolding run using ih False f by (simp add: l w woken_step [OF a] s1)
  qed
qed

subsection \<open>Properties\<close>

text \<open>The kernel in slot 0 and two processes in slots 2 and 3, the first of which is running.\<close>

definition demo_sched :: sched_state where
  "demo_sched = \<lparr>mm = \<lambda>_. 0, temp_free_list = 0, next_free_temp_memory = 0x100000, next_mmio_base = 0,
     page_table_l0 = \<lambda>_. 0, mmu_events = [], mem_bitmap = \<lambda>_. 0, ram = ram palloc_boot,
     t_msecs = 1, cntp_tval = 0, cntp_ctl = 1, cntkctl = 1, cntv_tval = 0, cntv_ctl = 0, clock_reads = 0,
     processes = [zero_process\<lparr>p_id := 1, p_state := BLOCKED\<rparr>, zero_process,
                  zero_process\<lparr>p_id := 2, p_state := READY\<rparr>, zero_process\<lparr>p_id := 3, p_state := READY\<rparr>]
                 @ replicate 12 zero_process,
     current_proc = 2, proc_count = 3, next_proc_index = 4, sleeping = replicate 16 zero_tracker, sleep_count = 0,
     ksp = 0, focused_proc = None, irq_masked = False,
     cpu_regs = \<lparr>xr = \<lambda>_. 0, sp_now = 0, sp_el0 = 0, elr_el1 = 0, spsr_el1 = 0, esr_el1 = 0, far_el1 = 0\<rparr>\<rparr>"

definition demo_clock :: clock where
  "demo_clock = \<lparr>cntfrq = 1000, cntvct = \<lambda>n. of_nat n, cntv_left = \<lambda>_. 0\<rparr>"

lemma nat_lt_16: "i < 16 \<longleftrightarrow> i \<in> {0, 1, 2, 3, 4, 5, 6, 7, 8, 9, 10, 11, 12, 13, 14, 15 :: nat}"
  by auto arith

lemma demo_proc:
  "proc demo_sched 0 = zero_process\<lparr>p_id := 1, p_state := BLOCKED\<rparr>"
  "proc demo_sched 2 = zero_process\<lparr>p_id := 2, p_state := READY\<rparr>"
  "proc demo_sched 3 = zero_process\<lparr>p_id := 3, p_state := READY\<rparr>"
  "i < 16 \<Longrightarrow> i \<notin> {0, 2, 3} \<Longrightarrow> proc demo_sched i = zero_process"
  by (auto simp: proc_def demo_sched_def nat_lt_16 nth_append)

lemma demo_live: "live demo_sched = {0, 2, 3}"
proof -
  have "p_state (proc demo_sched i) = STOPPED" if "i < 16" "i \<notin> {0, 2, 3}" for i
    using demo_proc(4) [OF that] by (simp add: zero_process_def)
  then have "i \<in> live demo_sched \<longleftrightarrow> i \<in> {0, 2, 3}" for i
    by (cases "i \<in> {0, 2, 3}") (auto simp: live_def demo_proc)
  then show ?thesis by blast
qed

lemma demo_ids: "i < 16 \<Longrightarrow> p_id (proc demo_sched i) = (if i = 0 then 1 else if i = 2 then 2 else if i = 3 then 3 else 0)"
  using demo_proc(4) [of i] by (auto simp: demo_proc zero_process_def)

lemma demo_procs_ok: "procs_ok demo_sched"
proof -
  have "length (processes demo_sched) = 16" "cur demo_sched = 2" "proc_count demo_sched = 3" "next_proc_index demo_sched = 4"
    by (simp_all add: demo_sched_def cur_def)
  then show ?thesis by (auto simp: procs_ok_def demo_live demo_ids)
qed

lemma init_process_full:
  "init_process s = Inl e \<Longrightarrow> e = Panic ''Out of process memory'' \<and> live s = {0..<16}"
  by (auto simp: init_process_def Let_def find_None_iff live_def split: if_splits option.splits)

lemma init_process_slot:
  assumes "procs_ok s" "init_process s = Inr (i, s')"
  shows "s' = claim_slot i s" "i < 16" "i \<notin> live s" "of_nat i \<le> next_proc_index s"
proof -
  have "s' = claim_slot i s \<and> i < 16 \<and> i \<notin> live s \<and> of_nat i \<le> next_proc_index s"
  proof (cases "next_proc_index s < 16")
    case True
    then have "\<not> 16 \<le> next_proc_index s" by simp
    then have i: "i = unat (next_proc_index s)" "s' = claim_slot i s"
      using assms(2) by (auto simp: init_process_def Let_def)
    have "unat (next_proc_index s) < 16" using True by (simp add: word_less_nat_alt)
    moreover have "unat (next_proc_index s) \<notin> live s" using assms(1) by (auto simp: procs_ok_def)
    ultimately show ?thesis using i by simp
  next
    case False
    then have ge: "16 \<le> next_proc_index s" by (simp add: not_less)
    then have i: "find (\<lambda>i. p_state (proc s i) = STOPPED) [0..<16] = Some i" "s' = claim_slot i s"
      using assms(2) by (auto simp: init_process_def split: option.splits)
    then have lt: "i < 16" "i \<notin> live s" by (auto simp: find_Some_iff live_def)
    have "(of_nat i :: u16) \<le> 15" using lt(1) by (simp add: word_le_nat_alt)
    then have "of_nat i \<le> next_proc_index s" by (rule order_trans [OF _ order_trans [OF _ ge]]) simp
    then show ?thesis using i lt by simp
  qed
  then show "s' = claim_slot i s" "i < 16" "i \<notin> live s" "of_nat i \<le> next_proc_index s" by blast+
qed

text \<open>C12: \<open>init_process\<close> takes a slot that is not in use, gives it a new id under which it is found, makes it
  READY, leaves every other process as it was and keeps the table well formed (the count is the
  number of live processes, ids are unique); it panics exactly when all 16 slots are live.  This holds until the 16-bit
  counter of the ids (\<open>next_proc_index\<close>) has reached its last value; behind that an id can be given twice.\<close>

theorem init_process_claims:
  assumes "procs_ok s" "next_proc_index s < 0xFFFF"
  shows "case init_process s of
      Inl e \<Rightarrow> e = Panic ''Out of process memory'' \<and> live s = {0..<16}
    | Inr (i, s') \<Rightarrow> i < 16 \<and> i \<notin> live s \<and> procs_ok s' \<and> live s' = insert i (live s)
        \<and> p_state (proc s' i) = READY \<and> get_proc_by_pid s' (next_proc_index s) = Some i
        \<and> (\<forall>j. j \<noteq> i \<longrightarrow> proc s' j = proc s j)"
proof (cases "init_process s")
  case (Inl e)
  then show ?thesis by (auto dest: init_process_full)
next
  case (Inr r)
  obtain i s' where r: "r = (i, s')" by (cases r)
  have i: "s' = claim_slot i s" "i < 16" "i \<notin> live s" "of_nat i \<le> next_proc_index s"
    using init_process_slot [OF assms(1)] Inr r by auto
  have len: "i < length (processes s)" using assms(1) i(2) by (simp add: procs_ok_def)
  note ok = claim_slot_ok [OF assms(1) i(2,3) assms(2) i(4)] and p = claim_slot_proc(1) [OF len]
  have "i \<in> live (claim_slot i s)" by (simp add: ok(2))
  then have "p_id (proc (claim_slot i s) i) \<noteq> 0" using ok(1) by (simp add: procs_ok_def)
  from get_proc_by_pid_eq [OF ok(1) i(2) this] show ?thesis using ok i by (simp add: Inr r p)
qed

theorem init_process_claims_witness:
  "case init_process demo_sched of
      Inl e \<Rightarrow> False
    | Inr (i, s') \<Rightarrow> procs_ok s' \<and> live s' = insert i {0, 2, 3} \<and> get_proc_by_pid s' 4 = Some i"
proof -
  have n: "next_proc_index demo_sched = 4" by (simp add: demo_sched_def)
  have "(1 :: nat) \<notin> {0, 2, 3}" by simp
  then have "{0, 2, 3} \<noteq> {0..<16 :: nat}" by auto
  then show ?thesis using init_process_claims [OF demo_procs_ok]
    by (auto simp: n demo_live split: sum.splits)
qed

lemma switch_proc_cases:
  assumes "procs_ok s" "15 \<le> fuel"
  shows "if \<exists>i<16. p_state (proc s i) = READY then
      (\<exists>m<16. \<exists>s'. switch_proc fuel ck r s = Inr s' \<and> cur s' = (cur s + 1 + m) mod 16
         \<and> p_state (proc s (cur s')) = READY
         \<and> (\<forall>n<m. p_state (proc s ((cur s + 1 + n) mod 16)) \<noteq> READY)
         \<and> processes s' = processes s \<and> procs_ok s' \<and> cpu_regs s' = restore_context (proc s (cur s')) (cpu_regs s))
    else switch_proc fuel ck r s = Inl (if live s = {} then Panic ''No processes active'' else OutOfFuel)"
proof (cases "\<exists>i<16. p_state (proc s i) = READY")
  case True
  then obtain j where "j < 16" "p_state (proc s j) = READY" by blast
  then obtain m s' where m: "m < 16" "switch_proc fuel ck r s = Inr s'" "cur s' = (cur s + 1 + m) mod 16"
    "p_state (proc s (cur s')) = READY" "\<And>n. n < m \<Longrightarrow> p_state (proc s ((cur s + 1 + n) mod 16)) \<noteq> READY"
    "s' = process_restore (timer_reset ck (s\<lparr>current_proc := of_nat (cur s')\<rparr>))"
    using switch_proc_Inr [OF assms] by metis
  have c: "cur s' < 16" unfolding m(3) by simp
  have keep: "processes s' = processes s" "proc_count s' = proc_count s" "next_proc_index s' = next_proc_index s"
    by (subst m(6), simp only: switched_simps)+
  have "unat (of_nat (cur s') :: u16) = cur s'" using c by simp
  then have "cpu_regs s' = restore_context (proc s (cur s')) (cpu_regs s)"
    by (subst m(6)) (simp add: process_restore_def timer_reset_def proc_def cur_def)
  with True m keep procs_ok_cong(1) [OF keep c assms(1)] show ?thesis by auto
next
  case False
  then have "next_ready fuel (processes s) ((cur s + 1) mod 16) = Inl OutOfFuel"
    by (intro next_ready_none) (auto simp: proc_def)
  moreover have "proc_count s = 0 \<longleftrightarrow> live s = {}"
    using assms(1) card_0_eq [of "live s"] by (simp add: procs_ok_def unat_eq_0 [symmetric])
  ultimately show ?thesis using False by (auto simp: switch_proc_def)
qed

text \<open>C13: \<open>switch_proc\<close> goes on with the next READY process in the order of the slots after the current one,
  loads its registers and changes no process; the table stays well formed.  It panics when no process
  is live, and when the live ones are all blocked its search never ends.\<close>

theorem switch_proc_next:
  assumes "procs_ok s" "15 \<le> fuel"
  shows "if \<exists>i<16. p_state (proc s i) = READY then
      (\<exists>m<16. \<exists>s'. switch_proc fuel ck r s = Inr s' \<and> cur s' = (cur s + 1 + m) mod 16
         \<and> p_state (proc s (cur s')) = READY
         \<and> (\<forall>n<m. p_state (proc s ((cur s + 1 + n) mod 16)) \<noteq> READY)
         \<and> processes s' = processes s \<and> procs_ok s' \<and> cpu_regs s' = restore_context (proc s (cur s')) (cpu_regs s))
    else switch_proc fuel ck r s = Inl (if live s = {} then Panic ''No processes active'' else OutOfFuel)"
  by (rule switch_proc_cases [OF assms])

theorem switch_proc_next_witness:
  "\<exists>s'. switch_proc 15 demo_clock INTERRUPT demo_sched = Inr s' \<and> procs_ok s'
     \<and> p_state (proc demo_sched (cur s')) = READY"
proof -
  have "\<exists>i<16. p_state (proc demo_sched i) = READY" by (rule exI [of _ 2]) (simp add: demo_proc)
  then show ?thesis using switch_proc_next [OF demo_procs_ok order_refl, of demo_clock INTERRUPT] by auto
qed

text \<open>C14: A process that stays READY gets the processor after at most 16 timer interrupts.\<close>

theorem scheduling_is_fair:
  assumes "procs_ok s" "15 \<le> fuel" "j < 16" "p_state (proc s j) = READY"
  shows "\<exists>n s'. 0 < n \<and> n \<le> 16 \<and> run_turns fuel ck r n s = Inr s' \<and> cur s' = j \<and> processes s' = processes s"
proof -
  have "\<exists>n s'. 0 < n \<and> n \<le> Suc d \<and> run_turns fuel ck r n s = Inr s' \<and> cur s' = j \<and> processes s' = processes s"
    if "(j + 15 - cur s) mod 16 \<le> d" for d
    using assms that
  proof (induction d arbitrary: s)
    case 0
    then obtain s' where "switch_proc fuel ck r s = Inr s'" "processes s' = processes s" "cur s' = j"
      using switch_proc_keeps [of s fuel j ck r] by (metis less_nat_zero_code le_zero_eq)
    then show ?case by (intro exI [of _ 1]) simp
  next
    case (Suc d)
    obtain s1 where s1: "switch_proc fuel ck r s = Inr s1" "processes s1 = processes s" "procs_ok s1"
      "cur s1 = j \<or> (j + 15 - cur s1) mod 16 < (j + 15 - cur s) mod 16"
      using switch_proc_keeps [OF Suc.prems(1-4), of ck r] by metis
    show ?case
    proof (cases "cur s1 = j")
      case True
      with s1 show ?thesis by (intro exI [of _ 1]) simp
    next
      case False
      then have "(j + 15 - cur s1) mod 16 \<le> d" using s1(4) Suc.prems(5) by linarith
      then obtain n s' where "0 < n" "n \<le> Suc d" "run_turns fuel ck r n s1 = Inr s'" "cur s' = j" "processes s' = processes s1"
        using Suc.IH [of s1] s1 Suc.prems by (auto simp: proc_def)
      with s1 show ?thesis by (intro exI [of _ "Suc n"]) simp
    qed
  qed
  from this [of 15] show ?thesis using mod_less_divisor [of 16 "j + 15 - cur s"] by simp
qed

theorem scheduling_is_fair_witness:
  "\<exists>n s'. n \<le> 16 \<and> run_turns 15 demo_clock INTERRUPT n demo_sched = Inr s' \<and> cur s' = 3"
  using scheduling_is_fair [OF demo_procs_ok order_refl, of 3 demo_clock INTERRUPT] by (auto simp: demo_proc)

lemma procs_ok_stop:
  assumes "procs_ok s" "i \<in> live s" "length (processes s1) = 16" "cur s1 = cur s"
    "next_proc_index s1 = next_proc_index s" "proc_count s1 = proc_count s - 1"
    "\<And>j. j < 16 \<Longrightarrow> p_id (proc s1 j) = p_id (proc s j)"
    "\<And>j. j < 16 \<Longrightarrow> p_state (proc s1 j) = (if j = i then STOPPED else p_state (proc s j))"
  shows "procs_ok s1" "live s1 = live s - {i}"
proof -
  show l: "live s1 = live s - {i}" by (auto simp: live_def assms(8) split: if_splits)
  have "unat (proc_count s) = card (live s)" using assms(1) by (simp add: procs_ok_def)
  moreover have "0 < card (live s)" using assms(2) card_gt_0_iff [of "live s"] by auto
  ultimately have "unat (proc_count s - 1) = card (live s) - 1"
    using unat_sub [of 1 "proc_count s"] by (simp add: word_le_nat_alt)
  then have "unat (proc_count s1) = card (live s1)" using assms(2,6) l by simp
  moreover have "j < 16" if "j \<in> live s" for j using that by (simp add: live_def)
  ultimately show "procs_ok s1" using assms(1,3,4,5,7) l by (auto simp: procs_ok_def)
qed

text \<open>C15: Stopping a READY process takes exactly it out of the table and goes on with the next READY process.  Its
  other outcomes: the panic when it was the last live process, an endless search when all others are
  blocked, and a write through NULL when the process still carries the focus flag although the input
  dispatcher has no focused process (\<open>sys_set_focus\<close> never clears the flag of the process before).\<close>

theorem stop_process_outcomes:
  assumes "procs_ok s" "i < 16" "p_state (proc s i) = READY" "15 \<le> fuel"
  shows "if p_focused (proc s i) \<and> focused_proc s = None
      then stop_process fuel ck (p_id (proc s i)) s = Inl NullDeref
    else if \<exists>j<16. j \<noteq> i \<and> p_state (proc s j) = READY then
      (\<exists>s'. stop_process fuel ck (p_id (proc s i)) s = Inr (Resumed s') \<and> procs_ok s' \<and> live s' = live s - {i}
         \<and> cur s' \<noteq> i \<and> p_state (proc s (cur s')) = READY)
    else stop_process fuel ck (p_id (proc s i)) s
      = Inl (if live s = {i} then Panic ''No processes active'' else OutOfFuel)"
proof -
  have live: "i \<in> live s" using assms(2,3) by (simp add: live_def)
  then have "p_id (proc s i) \<noteq> 0" using assms(1) by (simp add: procs_ok_def)
  then have pid: "get_proc_by_pid s (p_id (proc s i)) = Some i" by (rule get_proc_by_pid_eq [OF assms(1,2)])
  have len: "length (processes s) = 16" using assms(1) by (simp add: procs_ok_def)
  define s1 where "s1 = upd_proc i (\<lambda>p. p\<lparr>p_state := STOPPED\<rparr>) (disable_interrupt s)"
  have s1: "proc s1 j = (if j = i then (proc s i)\<lparr>p_state := STOPPED\<rparr> else proc s j)" for j
    using assms(2) len by (simp add: s1_def disable_interrupt_def)
  define r where "r = (if p_focused (proc s i) then sys_unset_focus s1 else Inr s1)"
  have run: "stop_process fuel ck (p_id (proc s i)) s = bindE r (\<lambda>s.
      bindE (switch_proc fuel ck HALT (s\<lparr>proc_count := proc_count s - 1\<rparr>)) (\<lambda>s. Inr (Resumed s)))"
    using assms(3) pid by (simp add: stop_process_def Let_def r_def s1 flip: s1_def)
  have f1: "focused_proc s1 = focused_proc s" by (simp add: s1_def disable_interrupt_def)
  show ?thesis
  proof (cases "p_focused (proc s i) \<and> focused_proc s = None")
    case True
    then show ?thesis by (simp add: run r_def sys_unset_focus_def f1)
  next
    case False
    obtain s2 where s2: "r = Inr s2" "length (processes s2) = 16" "cur s2 = cur s"
      "next_proc_index s2 = next_proc_index s" "proc_count s2 = proc_count s"
      "\<And>j. p_id (proc s2 j) = p_id (proc s1 j)" "\<And>j. p_state (proc s2 j) = p_state (proc s1 j)"
    proof (cases "focused_proc s")
      case None
      with False show thesis using len by (intro that [of s1]) (simp_all add: r_def s1_def disable_interrupt_def cur_def)
    next
      case (Some f)
      let ?u = "upd_proc f (\<lambda>p. p\<lparr>p_focused := False\<rparr>) (s1\<lparr>focused_proc := None\<rparr>)"
      have eq: "cur s1 = cur s" "length (processes s1) = 16" "next_proc_index s1 = next_proc_index s" "proc_count s1 = proc_count s"
        using len by (simp_all add: s1_def disable_interrupt_def cur_def)
      show thesis
      proof (cases "p_focused (proc s i)")
        case True
        then have "r = Inr ?u" by (simp add: r_def sys_unset_focus_def f1 Some)
        then show thesis using eq by (intro that [of ?u]) (simp_all add: cur_def)
      next
        case False
        then have "r = Inr s1" by (simp add: r_def)
        then show thesis using eq by (intro that [of s1]) simp_all
      qed
    qed
    let ?s3 = "s2\<lparr>proc_count := proc_count s2 - 1\<rparr>"
    have "procs_ok ?s3" and l3: "live ?s3 = live s - {i}"
      by (rule procs_ok_stop [OF assms(1) live], use s2 s1 in \<open>simp_all add: cur_def\<close>)+
    note sw = switch_proc_cases [OF this(1) assms(4), of ck HALT]
    have st: "p_state (proc ?s3 j) = READY \<longleftrightarrow> j \<noteq> i \<and> p_state (proc s j) = READY" for j
      by (simp add: s2(7) s1)
    have run': "stop_process fuel ck (p_id (proc s i)) s = bindE (switch_proc fuel ck HALT ?s3) (\<lambda>s. Inr (Resumed s))"
      by (simp add: run s2(1))
    show ?thesis
    proof (cases "\<exists>j<16. j \<noteq> i \<and> p_state (proc s j) = READY")
      case True
      with sw obtain s' where s': "switch_proc fuel ck HALT ?s3 = Inr s'" "p_state (proc ?s3 (cur s')) = READY"
        "processes s' = processes ?s3" "procs_ok s'" unfolding st by auto
      have "live s' = live ?s3" by (simp add: live_def proc_def s'(3))
      then show ?thesis using False True s' l3 unfolding st run' by auto
    next
      case none: False
      have "live s - {i} = {} \<longleftrightarrow> live s = {i}" using live by blast
      then show ?thesis using False none sw l3 unfolding st run' by auto
    qed
  qed
qed

theorem stop_process_outcomes_witness:
  "\<exists>s'. stop_process 15 demo_clock 2 demo_sched = Inr (Resumed s') \<and> live s' = {0, 3} \<and> cur s' \<noteq> 2"
proof -
  have "p_id (proc demo_sched 2) = 2" "\<not> p_focused (proc demo_sched 2)" "p_state (proc demo_sched 2) = READY"
    by (simp_all add: demo_proc zero_process_def)
  moreover have "\<exists>j<16. j \<noteq> 2 \<and> p_state (proc demo_sched j) = READY" by (rule exI [of _ 3]) (simp add: demo_proc)
  ultimately show ?thesis
    using stop_process_outcomes [OF demo_procs_ok, of 2 15 demo_clock] by (auto simp: demo_live)
qed

text \<open>\<open>wake_processes\<close> makes exactly the processes whose time has come READY, and changes no other.  The
  count shrinks by the number of due trackers while every tracker stays at its place: the last ones in
  the list are forgotten, due or not.\<close>

lemma wake_processes_effect:
  assumes "length (processes s) = 16" "unat (sleep_count s) \<le> length (sleeping s)"
    and "\<forall>k<unat (sleep_count s). get_proc_by_pid s (st_pid (sleeping s ! k)) \<noteq> None"
  shows "\<exists>s'. wake_processes ck s = Inr s'
    \<and> (\<forall>j. proc s' j = (if j \<in> woken ck (clock_reads s) 0 (unat (sleep_count s)) s
          then (proc s j)\<lparr>p_state := READY\<rparr> else proc s j))
    \<and> sleep_count s' = sleep_count s
          - of_nat (length (filter (\<lambda>k. due ck (sleeping s ! k) (clock_reads s + k)) [0..<unat (sleep_count s)]))
    \<and> map st_pid (sleeping s') = map st_pid (sleeping s)"
proof -
  obtain rm nw s1 where w: "wake_loop ck [0..<unat (sleep_count s)] 0 0 s = Inr (rm, nw, s1)"
    "rm = of_nat (length (filter (\<lambda>k. due ck (sleeping s ! k) (clock_reads s + k)) [0..<unat (sleep_count s)]))"
    "\<forall>j. proc s1 j = (if j \<in> woken ck (clock_reads s) 0 (unat (sleep_count s)) s
        then (proc s j)\<lparr>p_state := READY\<rparr> else proc s j)"
    "map st_pid (sleeping s1) = map st_pid (sleeping s)" "sleep_count s1 = sleep_count s"
    using wake_loop_spec [of s 0 "unat (sleep_count s)" ck 0 0] assms by auto
  let ?s2 = "s1\<lparr>sleep_count := sleep_count s1 - rm\<rparr>"
  let ?s3 = "virtual_timer_enable (virtual_timer_reset ck (fst (timer_now_msec ck ?s2) - nw) (snd (timer_now_msec ck ?s2)))"
  have "wake_processes ck s = Inr ?s3" by (simp add: wake_processes_def w(1) Let_def)
  moreover have "sleep_count ?s3 = sleep_count s1 - rm" "sleeping ?s3 = sleeping s1"
    by (simp_all add: virtual_timer_enable_def virtual_timer_reset_def timer_now_msec_def)
  moreover have "proc ?s3 j = proc s1 j" for j by simp
  ultimately show ?thesis using w(2-5) by (intro exI [of _ ?s3] conjI) simp_all
qed

text \<open>Processes 2 and 3 asleep, the first one due at once and the second one in 1000 ms: process 3 is forgotten.\<close>

lemma wake_processes_effect_witness:
  "\<exists>s'. wake_processes demo_clock (demo_sched\<lparr>sleep_count := 2, sleeping :=
       zero_tracker\<lparr>st_pid := 2\<rparr> # zero_tracker\<lparr>st_pid := 3, st_sleep_time := 1000\<rparr> # replicate 14 zero_tracker\<rparr>) = Inr s'
     \<and> sleep_count s' = 1 \<and> st_pid (sleeping s' ! 0) = 2"
proof -
  let ?s = "demo_sched\<lparr>sleep_count := 2, sleeping :=
       zero_tracker\<lparr>st_pid := 2\<rparr> # zero_tracker\<lparr>st_pid := 3, st_sleep_time := 1000\<rparr> # replicate 14 zero_tracker\<rparr>"
  have g: "get_proc_by_pid ?s 2 \<noteq> None" "get_proc_by_pid ?s 3 \<noteq> None"
    using get_proc_by_pid_eq [OF demo_procs_ok, of 2] get_proc_by_pid_eq [OF demo_procs_ok, of 3]
    by (simp_all add: demo_proc zero_process_def)
  have l: "length (processes ?s) = 16" by (simp add: demo_sched_def)
  have "\<forall>k<unat (sleep_count ?s). get_proc_by_pid ?s (st_pid (sleeping ?s ! k)) \<noteq> None"
  proof (intro allI impI)
    fix k assume "k < unat (sleep_count ?s)"
    then have "k = 0 \<or> k = 1" by auto
    then show "get_proc_by_pid ?s (st_pid (sleeping ?s ! k)) \<noteq> None" using g by auto
  qed
  from wake_processes_effect [OF l _ this, of demo_clock] obtain s' where s': "wake_processes demo_clock ?s = Inr s'"
    "sleep_count s' = sleep_count ?s
          - of_nat (length (filter (\<lambda>k. due demo_clock (sleeping ?s ! k) (clock_reads ?s + k)) [0..<unat (sleep_count ?s)]))"
    "map st_pid (sleeping s') = map st_pid (sleeping ?s)" by auto
  have "clock_reads demo_sched = 0" by (simp add: demo_sched_def)
  moreover have "[0..<unat (sleep_count ?s)] = [0, 1]" by (simp add: upt_rec)
  moreover have "\<not> (1000 :: u64) \<le> 1" by code_simp
  then have "due demo_clock (zero_tracker\<lparr>st_pid := 2\<rparr>) 0"
    "\<not> due demo_clock (zero_tracker\<lparr>st_pid := 3, st_sleep_time := 1000\<rparr>) 1"
    by (simp_all add: due_def demo_clock_def zero_tracker_def)
  ultimately have "sleep_count s' = 1" using s'(2) by simp
  moreover have "map st_pid (sleeping s') ! 0 = 2" "length (map st_pid (sleeping s')) = 16" unfolding s'(3) by simp_all
  then have "st_pid (sleeping s' ! 0) = 2" by simp
  ultimately show ?thesis using s'(1) by blast
qed

subsection \<open>Interrupting a process\<close>

text \<open>What \<open>irq_el1_asm_handler\<close> (\<open>exception_vectors_as.S\<close>) does to the registers before it calls the handler.\<close>

definition irq_el1_asm_handler :: "cpu \<Rightarrow> cpu" where
  "irq_el1_asm_handler c =
     (let x = xr c; x = x(15 := x 0); x = x(14 := x 1); x = x(13 := x 29); x = x(12 := x 30);
          x = x(11 := sp_now c); x = x(9 := x 2); x = x(16 := x 3); x = x(10 := spsr_el1 c)
      in c\<lparr>xr := x\<rparr>)"

lemma save_context_regs: "i < 30 \<Longrightarrow> p_regs (save_context c p) ! i = xr c (i + 1)"
  by (simp add: save_context_def nth_append)

lemma upt_registers:
  "[0..<9] = [0, 1, 2, 3, 4, 5, 6, 7, 8 :: nat]" "[9..<17] = [9, 10, 11, 12, 13, 14, 15, 16 :: nat]"
  "[17..<29] = [17, 18, 19, 20, 21, 22, 23, 24, 25, 26, 27, 28 :: nat]"
  by (simp_all add: upt_rec)

text \<open>C16: What an interrupted process finds when it is resumed, provided the handler's own code changes nothing
  in between: its pc, its stack pointer and the registers x0 to x8, x17 to x28 and x30 are as they were;
  x9 to x16 hold copies of other registers, the frame pointer x29 holds the stack pointer, and of the
  processor status only the low 12 bits survive, so the condition flags are lost.\<close>

theorem interrupt_context:
  defines "p' c p \<equiv> save_pc_interrupt (irq_el1_asm_handler c) (save_context (irq_el1_asm_handler c) p)"
  shows "(let c' = restore_context (p' c p) c0 in
      map (xr c') ([0..<9] @ [17..<29] @ [30]) = map (xr c) ([0..<9] @ [17..<29] @ [30])
    \<and> elr_el1 c' = elr_el1 c \<and> sp_now c' = sp_now c \<and> spsr_el1 c' = spsr_el1 c AND 0xFFF
    \<and> map (xr c') [9..<17] = [xr c 2, spsr_el1 c AND 0xFFF, elr_el1 c, xr c 30, xr c 29, xr c 1, xr c 0, xr c 3]
    \<and> xr c' 29 = sp_now c)"
  unfolding p'_def upt_registers
  by (simp add: restore_context_def Let_def save_pc_interrupt_def save_context_regs irq_el1_asm_handler_def)
    (simp add: save_context_def)

text \<open>The value given to \<open>save_syscall_return\<close> is in x0 when the process goes on.\<close>

lemma syscall_result_in_x0:
  assumes "procs_ok s" "length (p_regs (proc s (cur s))) = 31"
  shows "xr (cpu_regs (process_restore (save_syscall_return v s))) 0 = v"
  using assms by (simp add: process_restore_def save_syscall_return_def restore_context_def procs_ok_def Let_def)

lemma syscall_result_in_x0_witness:
  "xr (cpu_regs (process_restore (save_syscall_return 77 demo_sched))) 0 = 77"
proof -
  have "cur demo_sched = 2" by (simp add: demo_sched_def cur_def)
  then show ?thesis
    using syscall_result_in_x0 [OF demo_procs_ok, of 77] by (simp add: demo_proc zero_process_def)
qed

end
