(* ===== verification/Loader.thy ===== *)
theory Loader
  imports Scheduler
begin

section \<open>Loading processes\<close>

text \<open>
  \<open>create_kernel_process\<close> (\<open>kernel_processes/kprocess_loader.c\<close>), \<open>create_process\<close>
  (\<open>process/loading/process_loader.c\<close>) and \<open>load_elf_file\<close> (\<open>process/loading/elf_file.c\<close>).  A result
  of None is the NULL they return on failure.  Console output is left out.
\<close>

definition create_kernel_process ::
    "nat \<Rightarrow> linker \<Rightarrow> hw \<Rightarrow> u8 list \<Rightarrow> u64 \<Rightarrow> 'a sched_state_scheme \<Rightarrow> fault + (nat option \<times> 'a sched_state_scheme)" where
  "create_kernel_process fuel ld h name func s =
     (let s = disable_interrupt s
      in bindE (init_process s) (\<lambda>(i, s).
         let s = name_process i name s
         in bindE (palloc fuel ld h s 0x1000 True False False) (\<lambda>(stack, s).
            if stack = 0 then Inr (None, s)
            else bindE (palloc fuel ld h s 0x1000 True False False) (\<lambda>(heap, s).
              if heap = 0 then Inr (None, s)
              else
                let s = upd_proc i (\<lambda>p. p\<lparr>p_stack := stack + 0x1000, p_stack_size := 0x1000, p_heap := heap,
                          p_sp := stack + 0x1000, p_pc := func, p_spsr := 0x205, p_state := READY\<rparr>) s
                in Inr (Some i, enable_interrupt s)))))"

text \<open>The copying loop of \<open>create_process\<close>, one byte at a time.\<close>

definition copy_content :: "mem \<Rightarrow> u64 \<Rightarrow> u64 \<Rightarrow> u64 \<Rightarrow> mem" where
  "copy_content m dest content n = fold (\<lambda>i m. m(dest + of_nat i := m (content + of_nat i))) [0..<unat n] m"

definition create_process ::
    "nat \<Rightarrow> linker \<Rightarrow> hw \<Rightarrow> u8 list \<Rightarrow> u64 \<Rightarrow> u64 \<Rightarrow> u64 \<Rightarrow> 'a sched_state_scheme
     \<Rightarrow> fault + (nat option \<times> 'a sched_state_scheme)" where
  "create_process fuel ld h name content content_size entry s =
     (let s = disable_interrupt s
      in bindE (init_process s) (\<lambda>(i, s).
         let s = name_process i name s
         in bindE (palloc fuel ld h s content_size False False True) (\<lambda>(dest, s).
            if dest = 0 then Inr (None, s)
            else
              let s = s\<lparr>mm := copy_content (mm s) dest content content_size\<rparr>
              in bindE (palloc fuel ld h s 0x1000 False False False) (\<lambda>(stack, s).
                 if stack = 0 then Inr (None, s)
                 else bindE (palloc fuel ld h s 0x1000 False False False) (\<lambda>(heap, s).
                   if heap = 0 then Inr (None, s)
                   else
                     let s = upd_proc i (\<lambda>p. p\<lparr>p_stack := stack + 0x1000, p_stack_size := 0x1000, p_heap := heap,
                               p_sp := stack + 0x1000, p_pc := dest + entry, p_spsr := 0, p_state := READY\<rparr>) s
                     in Inr (Some i, enable_interrupt s))))))"

subsection \<open>ELF files\<close>

record elf_header =
  e_magic0 :: u8
  e_type :: u16
  e_instruction_set :: u16
  e_program_entry_offset :: u64
  e_program_header_offset :: u64
  e_section_header_offset :: u64

record elf_program_header =
  ph_segment_type :: u32
  ph_flags :: u32
  ph_offset :: u64
  ph_vaddr :: u64
  ph_paddr :: u64
  ph_filez :: u64
  ph_memsz :: u64
  ph_alignment :: u64

text \<open>The fields at their offsets in the structures, which the compiler lays out with natural alignment.\<close>

definition elf_header_at :: "mem \<Rightarrow> u64 \<Rightarrow> elf_header" where
  "elf_header_at m f = \<lparr>e_magic0 = m f, e_type = read16 m (f + 16), e_instruction_set = read16 m (f + 18),
     e_program_entry_offset = read64 m (f + 24), e_program_header_offset = read64 m (f + 32),
     e_section_header_offset = read64 m (f + 40)\<rparr>"

definition elf_program_header_at :: "mem \<Rightarrow> u64 \<Rightarrow> elf_program_header" where
  "elf_program_header_at m a = \<lparr>ph_segment_type = read32 m a, ph_flags = read32 m (a + 4), ph_offset = read64 m (a + 8),
     ph_vaddr = read64 m (a + 16), ph_paddr = read64 m (a + 24), ph_filez = read64 m (a + 32),
     ph_memsz = read64 m (a + 40), ph_alignment = read64 m (a + 48)\<rparr>"

definition load_elf_file ::
    "nat \<Rightarrow> linker \<Rightarrow> hw \<Rightarrow> u8 list \<Rightarrow> u64 \<Rightarrow> 'a sched_state_scheme \<Rightarrow> fault + (nat option \<times> 'a sched_state_scheme)" where
  "load_elf_file fuel ld h name file s =
     (let header = elf_header_at (mm s) file
      in if e_magic0 header \<noteq> 0x7F then Inr (None, s)
         else
           let first = elf_program_header_at (mm s) (file + e_program_header_offset header)
           in create_process fuel ld h name (file + ph_offset first) (ph_filez first)
                (e_program_entry_offset header) s)"

subsection \<open>What page allocation leaves alone\<close>

definition palloc_upd :: "'a palloc_state_scheme \<Rightarrow> 'a palloc_state_scheme \<Rightarrow> bool" where
  "palloc_upd s s' \<longleftrightarrow> palloc_state.more s' = palloc_state.more s"

lemma mmu_palloc_upd: "mmu_upd s s' \<Longrightarrow> palloc_upd s s'"
  unfolding mmu_upd_def palloc_upd_def by auto

lemma palloc_pages_upd:
  "palloc_pages fuel ld i bt kern device full js first s = Inr (p, s') \<Longrightarrow> palloc_upd s s'"
proof (induction js arbitrary: first s)
  case Nil
  then show ?case by (simp add: palloc_upd_def)
next
  case (Cons j js)
  let ?s1 = "s\<lparr>mem_bitmap := (mem_bitmap s)(i := mem_bitmap s i OR bit_mask (bt + of_nat j))\<rparr>"
  obtain s2 a b where s2: "mmu_upd ?s1 s2" "palloc_pages fuel ld i bt kern device full js a (if full then s2 else write_page_header s2 b) = Inr (p, s')"
    using Cons.prems by (auto simp: Let_def dest: register_upd split: if_splits)
  have "palloc_upd ?s1 s2" by (rule mmu_palloc_upd [OF s2(1)])
  with Cons.IH [OF s2(2)] show ?case by (auto simp: palloc_upd_def write_page_header_def split: if_splits)
qed

lemma palloc_words_upd:
  "palloc_words fuel ld n kern device full ns s = Inr (p, s') \<Longrightarrow> palloc_upd s s'"
proof (induction ns arbitrary: s)
  case Nil
  then show ?case by (simp add: palloc_upd_def)
next
  case (Cons k ns)
  then show ?case by (auto simp: Let_def split: if_splits dest: palloc_pages_upd)
qed

lemma palloc_keeps: "palloc fuel ld h s sz kern device full = Inr (p, s') \<Longrightarrow> palloc_upd s s'"
  unfolding palloc_def by (auto dest!: palloc_words_upd simp: palloc_upd_def)

lemma palloc_upd_sched:
  fixes s s' :: "'a sched_state_scheme"
  assumes "palloc_upd s s'"
  shows "processes s' = processes s" "cur s' = cur s" "proc_count s' = proc_count s"
    "next_proc_index s' = next_proc_index s" "irq_masked s' = irq_masked s"
  using assms by (cases s; cases s'; simp add: palloc_upd_def cur_def)+

lemma procs_ok_live_cong:
  assumes "procs_ok s" "length (processes s') = 16" "cur s' = cur s" "proc_count s' = proc_count s"
    "next_proc_index s' = next_proc_index s" "\<And>j. j < 16 \<Longrightarrow> p_id (proc s' j) = p_id (proc s j)"
    "\<And>j. j < 16 \<Longrightarrow> p_state (proc s' j) = p_state (proc s j)"
  shows "procs_ok s'" "live s' = live s"
proof -
  show l: "live s' = live s" using assms(7) by (auto simp: live_def)
  have "j < 16" if "j \<in> live s" for j using that by (simp add: live_def)
  then show "procs_ok s'" using assms l by (auto simp: procs_ok_def)
qed

lemma name_process_simps [simp]:
  "length (processes (name_process i n s)) = length (processes s)" "cur (name_process i n s) = cur s"
  "proc_count (name_process i n s) = proc_count s" "next_proc_index (name_process i n s) = next_proc_index s"
  "p_id (proc (name_process i n s) j) = p_id (proc s j)" "p_state (proc (name_process i n s) j) = p_state (proc s j)"
  "p_pc (proc (name_process i n s) j) = p_pc (proc s j)" "irq_masked (name_process i n s) = irq_masked s"
  by (simp_all add: name_process_def Let_def) (simp add: upd_proc_def)

text \<open>A process being created in slot \<open>i\<close>.\<close>

definition created :: "nat \<Rightarrow> 'a sched_state_scheme \<Rightarrow> 'b sched_state_scheme \<Rightarrow> bool" where
  "created i s t \<longleftrightarrow> i < 16 \<and> i \<notin> live s \<and> procs_ok t \<and> live t = insert i (live s) \<and> p_state (proc t i) = READY
     \<and> p_pc (proc t i) = 0 \<and> irq_masked t"

lemma created_init:
  assumes "procs_ok s" "next_proc_index s < 0xFFFF" "init_process (disable_interrupt s) = Inr (i, t)"
  shows "created i s (name_process i n t)"
proof -
  let ?s = "disable_interrupt s"
  have "processes ?s = processes s" "proc_count ?s = proc_count s" "next_proc_index ?s = next_proc_index s" "cur ?s < 16"
    using assms(1) by (simp_all add: disable_interrupt_def procs_ok_def cur_def)
  note ok = procs_ok_cong(1) [OF this assms(1)] procs_ok_cong(2) [OF this]
  have nx: "next_proc_index ?s < 0xFFFF" using assms(2) by (simp add: disable_interrupt_def)
  note i = init_process_slot [OF ok(1) assms(3)]
  have len: "i < length (processes ?s)" using ok(1) i(2) by (simp add: procs_ok_def)
  note c = claim_slot_ok [OF ok(1) i(2,3) nx i(4)]
  have len': "length (processes t) = 16" using c(1) i(1) by (simp add: procs_ok_def)
  have n: "procs_ok (name_process i n t)"
    by (rule procs_ok_live_cong(1) [of t]) (use c(1) i(1) len' in simp_all)
  have l: "live (name_process i n t) = live t" by (simp add: live_def)
  have "p_state (proc t i) = READY" "p_pc (proc t i) = 0" using claim_slot_proc(1) [OF len, of i] i(1) by simp_all
  moreover have "irq_masked t" using claim_slot_proc(7) [OF len] i(1) by (simp add: disable_interrupt_def)
  ultimately show ?thesis using i c(2) ok(2) n l by (simp add: created_def)
qed

lemma created_palloc:
  assumes "created i s t" "palloc fuel ld h t sz kern device full = Inr (p, t')"
  shows "created i s t'"
proof -
  note u = palloc_upd_sched [OF palloc_keeps [OF assms(2)]]
  have "procs_ok t" "cur t < 16" using assms(1) by (auto simp: created_def procs_ok_def)
  then have "procs_ok t'" "live t' = live t" using procs_ok_cong [OF u(1,3,4)] u(2) by simp_all
  then show ?thesis using assms(1) u by (simp add: created_def proc_def)
qed

lemma created_finish:
  assumes "created i s t" "t' = enable_interrupt (upd_proc i f t)"
    "\<And>p. p_id (f p) = p_id p" "\<And>p. p_state (f p) = READY"
  shows "procs_ok t'" "live t' = insert i (live s)" "proc t' i = f (proc t i)" "\<not> irq_masked t'"
proof -
  have t: "procs_ok t" "i < 16" "p_state (proc t i) = READY" using assms(1) by (simp_all add: created_def)
  then have len: "length (processes t) = 16" by (simp add: procs_ok_def)
  have p: "proc t' j = (if j = i then f (proc t i) else proc t j)" for j
    using len t(2) by (simp add: assms(2) enable_interrupt_def proc_def upd_proc_def)
  show "proc t' i = f (proc t i)" by (simp add: p)
  show "\<not> irq_masked t'" by (simp add: assms(2) enable_interrupt_def)
  have k: "length (processes t') = 16" "cur t' = cur t" "proc_count t' = proc_count t" "next_proc_index t' = next_proc_index t"
    using len by (simp_all add: assms(2) enable_interrupt_def cur_def upd_proc_def)
  have "p_id (proc t' j) = p_id (proc t j)" "p_state (proc t' j) = p_state (proc t j)" for j
    using t(3) by (simp_all add: p assms(3,4))
  then have "procs_ok t'" "live t' = live t" using procs_ok_live_cong [OF t(1) k] by blast+
  then show "procs_ok t'" "live t' = insert i (live s)" using assms(1) by (simp_all add: created_def)
qed

text \<open>C17: A kernel process is created READY in a slot that was free; on success it starts at the given function
  with its stack pointer at the top of its stack and interrupts are enabled again.  When a page for its
  stack or heap cannot be had, NULL is returned, but the process is left READY with a pc of 0 and
  interrupts stay masked.\<close>

theorem create_kernel_process_outcomes:
  assumes "procs_ok s" "next_proc_index s < 0xFFFF"
    and "create_kernel_process fuel ld h name func s = Inr (r, s')"
  shows "\<exists>i<16. i \<notin> live s \<and> procs_ok s' \<and> live s' = insert i (live s) \<and> p_state (proc s' i) = READY
    \<and> (case r of None \<Rightarrow> irq_masked s' \<and> p_pc (proc s' i) = 0
        | Some j \<Rightarrow> j = i \<and> \<not> irq_masked s' \<and> p_pc (proc s' i) = func \<and> p_spsr (proc s' i) = 0x205
            \<and> p_sp (proc s' i) = p_stack (proc s' i))"
proof -
  obtain i t stack t1 where t: "init_process (disable_interrupt s) = Inr (i, t)"
    "palloc fuel ld h (name_process i name t) 0x1000 True False False = Inr (stack, t1)"
    using assms(3) by (auto simp: create_kernel_process_def Let_def)
  have c1: "created i s t1" by (rule created_palloc [OF created_init [OF assms(1,2) t(1)] t(2)])
  show ?thesis
  proof (cases "stack = 0")
    case True
    then have "r = None" "s' = t1" using assms(3) t by (simp_all add: create_kernel_process_def Let_def)
    then show ?thesis using c1 by (auto simp: created_def)
  next
    case False
    obtain heap t2 where t2: "palloc fuel ld h t1 0x1000 True False False = Inr (heap, t2)"
      using assms(3) t False by (auto simp: create_kernel_process_def Let_def)
    have c2: "created i s t2" by (rule created_palloc [OF c1 t2])
    let ?f = "\<lambda>p. p\<lparr>p_stack := stack + 0x1000, p_stack_size := 0x1000, p_heap := heap,
                          p_sp := stack + 0x1000, p_pc := func, p_spsr := 0x205, p_state := READY\<rparr>"
    show ?thesis
    proof (cases "heap = 0")
      case True
      then have "r = None" "s' = t2" using assms(3) t t2 False by (simp_all add: create_kernel_process_def Let_def)
      then show ?thesis using c2 by (auto simp: created_def)
    next
      case h: False
      have r: "r = Some i" "s' = enable_interrupt (upd_proc i ?f t2)"
        using assms(3) t t2 False h by (auto simp: create_kernel_process_def Let_def)
      show ?thesis using created_finish [OF c2 r(2)] r(1) c2 by (auto simp: created_def)
    qed
  qed
qed

text \<open>A system without a free page.\<close>

theorem create_kernel_process_outcomes_witness:
  "\<exists>i s'. create_kernel_process 1 demo_linker no_hw [] 0x80000
       (demo_sched\<lparr>ram := (ram palloc_boot)\<lparr>calculated_ram_end := 0x800000\<rparr>\<rparr>) = Inr (None, s')
     \<and> live s' = insert i {0, 2, 3} \<and> p_state (proc s' i) = READY \<and> irq_masked s'"
proof -
  let ?s = "demo_sched\<lparr>ram := (ram palloc_boot)\<lparr>calculated_ram_end := 0x800000\<rparr>\<rparr>"
  have "processes ?s = processes demo_sched" "proc_count ?s = proc_count demo_sched"
    "next_proc_index ?s = next_proc_index demo_sched" "cur ?s < 16" by (simp_all add: cur_def demo_sched_def)
  note ok = procs_ok_cong(1) [OF this demo_procs_ok] procs_ok_cong(2) [OF this]
  have nx: "next_proc_index ?s = 4" by (simp add: demo_sched_def)
  then have ini: "init_process (disable_interrupt ?s) = Inr (4, claim_slot 4 (disable_interrupt ?s))"
    by (simp add: init_process_def disable_interrupt_def)
  have len: "4 < length (processes (disable_interrupt ?s))" by (simp add: disable_interrupt_def demo_sched_def)
  let ?t = "name_process 4 [] (claim_slot 4 (disable_interrupt ?s))"
  have "ram ?t = ram ?s" by (simp add: name_process_def upd_proc_def claim_slot_proc [OF len])
    (simp add: disable_interrupt_def)
  then have "palloc 1 demo_linker no_hw ?t 0x1000 True False False = Inr (0, ?t\<lparr>ram := ram ?s\<rparr>)"
    by (simp add: palloc_def getters_known page_number_demo)
  then have run: "create_kernel_process 1 demo_linker no_hw [] 0x80000 ?s = Inr (None, ?t\<lparr>ram := ram ?s\<rparr>)"
    by (simp add: create_kernel_process_def ini)
  show ?thesis using create_kernel_process_outcomes [OF ok(1) _ run] run ok(2) nx by (auto simp: demo_live)
qed

end
