(* ===== verification/Drop_Ring.thy ===== *)
theory Drop_Ring
  imports Prelude
begin

section \<open>Rings that drop their oldest element\<close>

text \<open>
  Both buffers of a process (\<open>input_buffer\<close>, \<open>packet_buffer\<close> of \<open>process.h\<close>) are rings of \<open>N\<close> entries
  between a read index \<open>r\<close> and a write index \<open>w\<close>; equal indices mean that the ring is empty, so it
  holds \<open>N - 1\<close> elements, and a full ring gives up its oldest element for a new one.
\<close>

subsection \<open>Ring arithmetic\<close>

definition ring_len :: "nat \<Rightarrow> nat \<Rightarrow> nat \<Rightarrow> nat" where
  "ring_len N r w = (if r \<le> w then w - r else w + N - r)"

definition ring_contents :: "nat \<Rightarrow> 'a list \<Rightarrow> nat \<Rightarrow> nat \<Rightarrow> 'a list" where
  "ring_contents N es r w = map (\<lambda>k. es ! ((r + k) mod N)) [0..<ring_len N r w]"

lemma mod_wrap: "x < 2 * N \<Longrightarrow> x mod N = (if x < N then x else x - N)" for x N :: nat
  by (simp add: mod_if)

lemma ring_len_lt: "r < N \<Longrightarrow> w < N \<Longrightarrow> ring_len N r w < N"
  by (auto simp: ring_len_def)

lemma ring_len_0: "r < N \<Longrightarrow> w < N \<Longrightarrow> ring_len N r w = 0 \<longleftrightarrow> r = w"
  by (auto simp: ring_len_def)

lemma ring_index_w: "r < N \<Longrightarrow> w < N \<Longrightarrow> (r + ring_len N r w) mod N = w"
  by (simp add: ring_len_def mod_wrap)

lemma ring_index_ne: "r < N \<Longrightarrow> w < N \<Longrightarrow> k < ring_len N r w \<Longrightarrow> (r + k) mod N \<noteq> w"
  by (auto simp: ring_len_def mod_wrap split: if_splits)

lemma ring_len_put:
  "r < N \<Longrightarrow> w < N \<Longrightarrow> (w + 1) mod N \<noteq> r \<Longrightarrow> ring_len N r ((w + 1) mod N) = Suc (ring_len N r w)"
  by (auto simp: ring_len_def mod_wrap split: if_splits)

lemma ring_len_full:
  "r < N \<Longrightarrow> w < N \<Longrightarrow> (w + 1) mod N = r \<Longrightarrow> ring_len N r w = N - 1 \<and> ring_len N ((r + 1) mod N) ((w + 1) mod N) = N - 1"
  by (auto simp: ring_len_def mod_wrap split: if_splits)

lemma ring_len_get:
  "r < N \<Longrightarrow> w < N \<Longrightarrow> r \<noteq> w \<Longrightarrow> ring_len N r w = Suc (ring_len N ((r + 1) mod N) w)"
  by (auto simp: ring_len_def mod_wrap split: if_splits)

lemma ring_contents_length [simp]: "length (ring_contents N es r w) = ring_len N r w"
  by (simp add: ring_contents_def)

lemma ring_contents_get:
  assumes "r < N" "w < N" "r \<noteq> w"
  shows "ring_contents N es r w = es ! r # ring_contents N es ((r + 1) mod N) w"
proof -
  have "map (\<lambda>k. es ! ((r + k) mod N)) [0..<Suc n] = es ! (r mod N) # map (\<lambda>k. es ! (((r + 1) mod N + k) mod N)) [0..<n]" for n
    by (simp add: upt_conv_Cons map_Suc_upt [symmetric] mod_simps del: upt_Suc)
  then show ?thesis using assms by (simp add: ring_contents_def ring_len_get del: upt_Suc)
qed

lemma ring_contents_put:
  assumes "r < N" "w < N" "length es = N"
  shows "ring_contents N (es[w := x]) r w @ [x]
      = map (\<lambda>k. es[w := x] ! ((r + k) mod N)) [0..<Suc (ring_len N r w)]"
    and "ring_contents N (es[w := x]) r w = ring_contents N es r w"
proof -
  show "ring_contents N (es[w := x]) r w @ [x]
      = map (\<lambda>k. es[w := x] ! ((r + k) mod N)) [0..<Suc (ring_len N r w)]"
    using assms by (simp add: ring_contents_def ring_index_w)
  show "ring_contents N (es[w := x]) r w = ring_contents N es r w"
    unfolding ring_contents_def using ring_index_ne [OF assms(1,2)]
    by (intro map_cong refl nth_list_update_neq) (metis atLeastLessThan_iff set_upt)
qed

text \<open>Storing \<open>x\<close> at the write index and moving on, with and without losing the oldest element.\<close>

lemma ring_put_room:
  assumes "r < N" "w < N" "length es = N" "(w + 1) mod N \<noteq> r"
  shows "ring_contents N (es[w := x]) r ((w + 1) mod N) = ring_contents N es r w @ [x]"
proof -
  have "ring_contents N es r w @ [x] = map (\<lambda>k. es[w := x] ! ((r + k) mod N)) [0..<Suc (ring_len N r w)]"
    using ring_contents_put [OF assms(1-3), of x] by simp
  then show ?thesis using ring_len_put [OF assms(1,2,4)] by (simp add: ring_contents_def del: upt_Suc)
qed

lemma ring_put_full:
  assumes "r < N" "w < N" "length es = N" "(w + 1) mod N = r" "1 < N"
  shows "ring_contents N (es[w := x]) ((r + 1) mod N) ((w + 1) mod N) = tl (ring_contents N es r w @ [x])"
proof -
  note len = ring_len_full [OF assms(1,2,4)]
  have "tl (ring_contents N es r w @ [x]) = tl (map (\<lambda>k. es[w := x] ! ((r + k) mod N)) [0..<Suc (N - 1)])"
    using ring_contents_put [OF assms(1-3), of x] len by simp
  also have "\<dots> = map (\<lambda>k. es[w := x] ! (((r + 1) mod N + k) mod N)) [0..<N - 1]"
    by (simp add: upt_conv_Cons map_Suc_upt [symmetric] mod_simps del: upt_Suc)
  finally show ?thesis using len by (simp add: ring_contents_def)
qed

subsection \<open>The interface\<close>

definition last_n :: "nat \<Rightarrow> 'a list \<Rightarrow> 'a list" where
  "last_n n xs = drop (length xs - n) xs"

lemma last_n_snoc: "last_n n (last_n n xs @ [x]) = last_n n (xs @ [x])"
  by (cases "length xs \<le> n") (auto simp: last_n_def Suc_diff_le)

lemma last_n_short: "length xs \<le> n \<Longrightarrow> last_n n xs = xs"
  by (simp add: last_n_def)

text \<open>The same for the 32-bit indices of the code.\<close>

lemma unat_next:
  fixes w :: u32
  assumes "unat w < n" "n \<le> 2 ^ 16" "m = of_nat n"
  shows "unat ((w + 1) mod m) = (unat w + 1) mod n"
proof -
  have "n < 2 ^ 32" using assms(2) by simp
  then have "unat m = n" unfolding assms(3) by (intro unat_of_nat_lt) simp
  moreover have "unat (w + 1) = unat w + 1" using assms(1,2) by (simp add: unat_word_ariths)
  ultimately show ?thesis by (simp add: unat_mod)
qed

lemma ring_push_word:
  fixes r w :: u32
  assumes "unat r < N" "unat w < N" "length es = N" "m = of_nat N" "1 < N" "N \<le> 2 ^ 16"
  shows "unat ((w + 1) mod m) < N" "unat (if (w + 1) mod m = r then (r + 1) mod m else r) < N"
    "ring_contents N (es[unat w := x]) (unat (if (w + 1) mod m = r then (r + 1) mod m else r)) (unat ((w + 1) mod m))
      = last_n (N - 1) (ring_contents N es (unat r) (unat w) @ [x])"
proof -
  let ?r = "unat r" and ?w = "unat w"
  have next_w: "unat ((w + 1) mod m) = (?w + 1) mod N" and next_r: "unat ((r + 1) mod m) = (?r + 1) mod N"
    using unat_next [OF assms(2,6,4)] unat_next [OF assms(1,6,4)] by simp_all
  have full: "(w + 1) mod m = r \<longleftrightarrow> (?w + 1) mod N = ?r" unfolding word_unat_eq_iff [of _ r] next_w by (rule refl)
  show "unat ((w + 1) mod m) < N" "unat (if (w + 1) mod m = r then (r + 1) mod m else r) < N"
    using next_w next_r assms(1,5) by auto
  show "ring_contents N (es[unat w := x]) (unat (if (w + 1) mod m = r then (r + 1) mod m else r)) (unat ((w + 1) mod m))
      = last_n (N - 1) (ring_contents N es (unat r) (unat w) @ [x])"
  proof (cases "(?w + 1) mod N = ?r")
    case True
    have "length (ring_contents N es ?r ?w) = N - 1" using ring_len_full [OF assms(1,2) True] by simp
    then have "last_n (N - 1) (ring_contents N es ?r ?w @ [x]) = tl (ring_contents N es ?r ?w @ [x])"
      using assms(5) by (cases "ring_contents N es ?r ?w") (simp_all add: last_n_def)
    then show ?thesis using ring_put_full [OF assms(1-3) True assms(5), of x] True full next_w next_r by simp
  next
    case False
    have "length (ring_contents N es ?r ?w) < N - 1"
      using ring_len_put [OF assms(1,2) False] ring_len_lt [of ?r N "(?w + 1) mod N"] assms(1) by simp
    then have "last_n (N - 1) (ring_contents N es ?r ?w @ [x]) = ring_contents N es ?r ?w @ [x]" by (simp add: last_n_short)
    then show ?thesis using ring_put_room [OF assms(1-3) False, of x] False full next_w by simp
  qed
qed

lemma ring_pop_word:
  fixes r w :: u32
  assumes "unat r < N" "unat w < N" "m = of_nat N" "N \<le> 2 ^ 16"
  shows "unat ((r + 1) mod m) < N" "r = w \<Longrightarrow> ring_contents N es (unat r) (unat w) = []"
    "r \<noteq> w \<Longrightarrow> ring_contents N es (unat r) (unat w) = es ! unat r # ring_contents N es (unat ((r + 1) mod m)) (unat w)"
proof -
  have n: "unat ((r + 1) mod m) = (unat r + 1) mod N" using unat_next [OF assms(1,4,3)] by simp
  then show "unat ((r + 1) mod m) < N" using assms(1) by simp
  show "r = w \<Longrightarrow> ring_contents N es (unat r) (unat w) = []" by (simp add: ring_contents_def ring_len_def)
  show "r \<noteq> w \<Longrightarrow> ring_contents N es (unat r) (unat w) = es ! unat r # ring_contents N es (unat ((r + 1) mod m)) (unat w)"
    unfolding n by (rule ring_contents_get [OF assms(1,2)]) (simp add: word_unat_eq_iff)
qed

fun get_all :: "('b \<Rightarrow> ('d \<times> 'b) option) \<Rightarrow> nat \<Rightarrow> 'b \<Rightarrow> 'd list" where
  "get_all get 0 b = []"
| "get_all get (Suc n) b = (case get b of None \<Rightarrow> [] | Some (d, b) \<Rightarrow> d # get_all get n b)"

locale dropping_buffer =
  fixes cap :: nat
    and ok :: "'b \<Rightarrow> bool"
    and cont :: "'b \<Rightarrow> 'd list"
    and put :: "'d \<Rightarrow> 'b \<Rightarrow> 'b"
    and get :: "'b \<Rightarrow> ('d \<times> 'b) option"
  assumes put_law: "ok b \<Longrightarrow> ok (put d b) \<and> cont (put d b) = last_n cap (cont b @ [d])"
    and get_law: "ok b \<Longrightarrow> (case get b of None \<Rightarrow> cont b = [] | Some (d, b') \<Rightarrow> ok b' \<and> cont b = d # cont b')"
    and cap_law: "ok b \<Longrightarrow> length (cont b) \<le> cap"
begin

lemma put_all: "ok b \<Longrightarrow> ok (fold put ds b) \<and> cont (fold put ds b) = last_n cap (cont b @ ds)"
proof (induction ds rule: rev_induct)
  case Nil
  then show ?case using cap_law by (simp add: last_n_short)
next
  case (snoc d ds)
  then have "ok (fold put ds b)" "cont (fold put ds b) = last_n cap (cont b @ ds)" by blast+
  then show ?case using put_law [of "fold put ds b" d] last_n_snoc [of cap "cont b @ ds" d] by simp
qed

lemma get_all_cont: "ok b \<Longrightarrow> length (cont b) \<le> n \<Longrightarrow> get_all get n b = cont b"
proof (induction n arbitrary: b)
  case (Suc n)
  then show ?case using get_law [OF Suc.prems(1)] by (auto split: option.splits prod.splits)
qed simp

lemma put_then_get:
  assumes "ok b" "cont b = []"
  shows "get_all get cap (fold put ds b) = last_n cap ds"
proof -
  have "ok (fold put ds b)" "cont (fold put ds b) = last_n cap ds" using put_all [OF assms(1), of ds] assms(2) by simp_all
  then show ?thesis using get_all_cont [OF _ cap_law] by fastforce
qed

end

end
