(* ===== verification/Input_Dispatch.thy ===== *)
theory Input_Dispatch
  imports Loader Drop_Ring
begin

section \<open>Keyboard input (\<open>kernel/input/input_dispatch.cpp\<close>)\<close>

text \<open>
  Key presses go to the shortcut that a process subscribed to, or into the ring of the focused
  process.  The USB drivers are a parameter: what the dispatcher uses of them are the two flags of
  \<open>usb_driver\<close> and the method \<open>handle_interrupt\<close>.
\<close>

record shortcut =
  sc_kp :: keypress
  sc_pid :: int
  sc_triggered :: bool

record usb_driver =
  use_interrupts :: bool
  quirk_simulate_interrupts :: bool

record input_state = sched_state +
  shortcuts :: "shortcut list"
  shortcut_count :: u16
  secure_mode :: bool
  input_driver :: "usb_driver option"

subsection \<open>Operations\<close>

definition is_new_keypress :: "keypress \<Rightarrow> keypress \<Rightarrow> bool" where
  "is_new_keypress current previous \<longleftrightarrow>
     kp_modifier current \<noteq> kp_modifier previous \<or> (\<exists>i\<in>set [0..<6]. kp_keys current ! i \<noteq> kp_keys previous ! i)"

text \<open>The search for a shortcut; an index past the array is a fault.\<close>

fun match_shortcut :: "nat list \<Rightarrow> shortcut list \<Rightarrow> keypress \<Rightarrow> fault + nat option" where
  "match_shortcut [] scs kp = Inr None"
| "match_shortcut (i # is) scs kp =
     (if length scs \<le> i then Inl WildDeref
      else if sc_pid (scs ! i) \<noteq> - 1 \<and> \<not> is_new_keypress (sc_kp (scs ! i)) kp then Inr (Some i)
      else match_shortcut is scs kp)"

definition push_key :: "keypress \<Rightarrow> input_buffer \<Rightarrow> input_buffer" where
  "push_key kp b =
     (let next_index = (ib_write b + 1) mod 64;
          b = b\<lparr>ib_entries := (ib_entries b)[unat (ib_write b) := kp], ib_write := next_index\<rparr>
      in if ib_write b = ib_read b then b\<lparr>ib_read := (ib_read b + 1) mod 64\<rparr> else b)"

definition register_keypress :: "keypress \<Rightarrow> 'a input_state_scheme \<Rightarrow> fault + 'a input_state_scheme" where
  "register_keypress kp s =
     bindE (if secure_mode s then Inr None
            else match_shortcut [0..<unat (shortcut_count s)] (shortcuts s) kp) (\<lambda>hit.
       case hit of
         Some i \<Rightarrow> Inr (s\<lparr>shortcuts := (shortcuts s)[i := (shortcuts s ! i)\<lparr>sc_triggered := True\<rparr>]\<rparr>)
       | None \<Rightarrow>
           (case focused_proc s of
              None \<Rightarrow> Inr s
            | Some j \<Rightarrow> Inr (upd_proc j (\<lambda>p. p\<lparr>p_input := push_key kp (p_input p)\<rparr>) s)))"

definition sys_subscribe_shortcut :: "u16 \<Rightarrow> keypress \<Rightarrow> 'a input_state_scheme \<Rightarrow> fault + (u16 \<times> 'a input_state_scheme)" where
  "sys_subscribe_shortcut pid kp s =
     (let i = unat (shortcut_count s)
      in if length (shortcuts s) \<le> i then Inl WildDeref
         else Inr (shortcut_count s,
                s\<lparr>shortcuts := (shortcuts s)[i := \<lparr>sc_kp = kp, sc_pid = uint pid, sc_triggered = False\<rparr>],
                  shortcut_count := shortcut_count s + 1\<rparr>))"

definition sys_subscribe_shortcut_current :: "keypress \<Rightarrow> 'a input_state_scheme \<Rightarrow> fault + (u16 \<times> 'a input_state_scheme)" where
  "sys_subscribe_shortcut_current kp s = sys_subscribe_shortcut (get_current_proc_pid s) kp s"

definition sys_set_focus :: "u32 \<Rightarrow> 'a input_state_scheme \<Rightarrow> fault + 'a input_state_scheme" where
  "sys_set_focus pid s =
     (case get_proc_by_pid s (ucast pid) of
        None \<Rightarrow> Inl NullDeref
      | Some i \<Rightarrow> Inr (upd_proc i (\<lambda>p. p\<lparr>p_focused := True\<rparr>) (s\<lparr>focused_proc := Some i\<rparr>)))"

definition sys_focus_current :: "'a input_state_scheme \<Rightarrow> fault + 'a input_state_scheme" where
  "sys_focus_current s = sys_set_focus (ucast (get_current_proc_pid s)) s"

definition sys_set_secure :: "bool \<Rightarrow> 'a input_state_scheme \<Rightarrow> 'a input_state_scheme" where
  "sys_set_secure b s = s\<lparr>secure_mode := b\<rparr>"

definition pop_key :: "input_buffer \<Rightarrow> (keypress \<times> input_buffer) option" where
  "pop_key b =
     (if ib_read b = ib_write b then None
      else Some (ib_entries b ! unat (ib_read b), b\<lparr>ib_read := (ib_read b + 1) mod 64\<rparr>))"

text \<open>The result is the key press written to \<open>*out\<close> (the function returns true) or None (false).\<close>

definition sys_read_input :: "u32 \<Rightarrow> 'a input_state_scheme \<Rightarrow> fault + (keypress option \<times> 'a input_state_scheme)" where
  "sys_read_input pid s =
     (case get_proc_by_pid s (ucast pid) of
        None \<Rightarrow> Inl NullDeref
      | Some i \<Rightarrow>
          (case pop_key (p_input (proc s i)) of
             None \<Rightarrow> Inr (None, s)
           | Some (kp, b) \<Rightarrow> Inr (Some kp, upd_proc i (\<lambda>p. p\<lparr>p_input := b\<rparr>) s)))"

definition sys_read_input_current :: "'a input_state_scheme \<Rightarrow> fault + (keypress option \<times> 'a input_state_scheme)" where
  "sys_read_input_current s = sys_read_input (ucast (get_current_proc_pid s)) s"

definition sys_shortcut_triggered :: "u16 \<Rightarrow> u16 \<Rightarrow> 'a input_state_scheme \<Rightarrow> fault + (bool \<times> 'a input_state_scheme)" where
  "sys_shortcut_triggered pid sid s =
     (let i = unat sid
      in if length (shortcuts s) \<le> i then Inl WildDeref
         else if sc_pid (shortcuts s ! i) = uint pid \<and> sc_triggered (shortcuts s ! i) then
           Inr (True, s\<lparr>shortcuts := (shortcuts s)[i := (shortcuts s ! i)\<lparr>sc_triggered := False\<rparr>]\<rparr>)
         else Inr (False, s))"

definition sys_shortcut_triggered_current :: "u16 \<Rightarrow> 'a input_state_scheme \<Rightarrow> fault + (bool \<times> 'a input_state_scheme)" where
  "sys_shortcut_triggered_current sid s = sys_shortcut_triggered (get_current_proc_pid s) sid s"

text \<open>\<open>dwc2\<close> and \<open>xhci\<close> are the two drivers with the result of their \<open>init\<close>.\<close>

definition input_init ::
    "hw \<Rightarrow> usb_driver \<times> bool \<Rightarrow> usb_driver \<times> bool \<Rightarrow> 'a input_state_scheme \<Rightarrow> bool \<times> 'a input_state_scheme" where
  "input_init h dwc2 xhci s =
     (let s = s\<lparr>shortcuts := replicate 16 \<lparr>sc_kp = no_key, sc_pid = 0, sc_triggered = False\<rparr>\<rparr>;
          d = (if BOARD_TYPE h = 2 \<and> RPI_BOARD h \<noteq> 5 then dwc2 else xhci)
      in (snd d, s\<lparr>input_driver := Some (fst d)\<rparr>))"

text \<open>\<open>poll\<close> and \<open>fake\<close> are the addresses of \<open>input_process_poll\<close> and \<open>input_process_fake_interrupts\<close>.\<close>

definition init_input_process ::
    "nat \<Rightarrow> linker \<Rightarrow> hw \<Rightarrow> u64 \<Rightarrow> u64 \<Rightarrow> 'a input_state_scheme \<Rightarrow> fault + 'a input_state_scheme" where
  "init_input_process fuel ld h poll fake s =
     (case input_driver s of
        None \<Rightarrow> Inl NullDeref
      | Some d \<Rightarrow>
          bindE (if \<not> use_interrupts d then
                   bindE (create_kernel_process fuel ld h (map of_char ''input_poll'') poll s) (\<lambda>(r, s). Inr s)
                 else Inr s) (\<lambda>s.
          if quirk_simulate_interrupts d then
            bindE (create_kernel_process fuel ld h (map of_char ''input_int_mock'') fake s) (\<lambda>(r, s). Inr s)
          else Inr s))"

definition handle_input_interrupt ::
    "('a input_state_scheme \<Rightarrow> fault + 'a input_state_scheme) \<Rightarrow> 'a input_state_scheme \<Rightarrow> fault + 'a input_state_scheme" where
  "handle_input_interrupt handle_interrupt s =
     (case input_driver s of
        None \<Rightarrow> Inl NullDeref
      | Some d \<Rightarrow> if use_interrupts d then handle_interrupt s else Inr s)"

subsection \<open>The key ring\<close>

definition keys_ok :: "input_buffer \<Rightarrow> bool" where
  "keys_ok b \<longleftrightarrow> length (ib_entries b) = 64 \<and> unat (ib_write b) < 64 \<and> unat (ib_read b) < 64"

definition keys_in :: "input_buffer \<Rightarrow> keypress list" where
  "keys_in b = ring_contents 64 (ib_entries b) (unat (ib_read b)) (unat (ib_write b))"

lemma push_key_law:
  assumes "keys_ok b"
  shows "keys_ok (push_key kp b) \<and> keys_in (push_key kp b) = last_n 63 (keys_in b @ [kp])"
  using assms ring_push_word(1,2) [of "ib_read b" 64 "ib_write b" "ib_entries b" 64]
    ring_push_word(3) [of "ib_read b" 64 "ib_write b" "ib_entries b" 64 kp]
  by (simp add: keys_ok_def keys_in_def push_key_def Let_def split: if_splits)

lemma pop_key_law:
  assumes "keys_ok b"
  shows "case pop_key b of None \<Rightarrow> keys_in b = [] | Some (kp, b') \<Rightarrow> keys_ok b' \<and> keys_in b = kp # keys_in b'"
  using assms ring_pop_word(1) [of "ib_read b" 64 "ib_write b" 64]
    ring_pop_word(2,3) [of "ib_read b" 64 "ib_write b" 64 "ib_entries b"]
  by (simp add: keys_ok_def keys_in_def pop_key_def)

interpretation keys: dropping_buffer 63 keys_ok keys_in push_key pop_key
proof
  show "length (keys_in b) \<le> 63" if "keys_ok b" for b
    using that ring_len_lt [of "unat (ib_read b)" 64 "unat (ib_write b)"] by (simp add: keys_ok_def keys_in_def)
qed (rule push_key_law pop_key_law; assumption)+

subsection \<open>Properties\<close>

fun press_all :: "keypress list \<Rightarrow> 'a input_state_scheme \<Rightarrow> fault + 'a input_state_scheme" where
  "press_all [] s = Inr s"
| "press_all (kp # kps) s = bindE (register_keypress kp s) (press_all kps)"

lemma press_all_focused:
  assumes "focused_proc s = Some i" "i < length (processes s)"
    "secure_mode s \<or> (\<forall>kp\<in>set kps. match_shortcut [0..<unat (shortcut_count s)] (shortcuts s) kp = Inr None)"
  shows "\<exists>s'. press_all kps s = Inr s' \<and> p_input (proc s' i) = fold push_key kps (p_input (proc s i))
    \<and> (\<forall>j. j \<noteq> i \<longrightarrow> proc s' j = proc s j)"
  using assms
proof (induction kps arbitrary: s)
  case (Cons kp kps)
  let ?s1 = "upd_proc i (\<lambda>p. p\<lparr>p_input := push_key kp (p_input p)\<rparr>) s"
  have run: "register_keypress kp s = Inr ?s1"
    using Cons.prems by (auto simp: register_keypress_def)
  have same: "secure_mode ?s1 = secure_mode s" "shortcuts ?s1 = shortcuts s" "shortcut_count ?s1 = shortcut_count s"
    by (simp_all add: upd_proc_def)
  obtain s' where "press_all kps ?s1 = Inr s'" "p_input (proc s' i) = fold push_key kps (p_input (proc ?s1 i))"
    "\<forall>j. j \<noteq> i \<longrightarrow> proc s' j = proc ?s1 j"
    using Cons.IH [of ?s1] Cons.prems same by auto
  then show ?case using run Cons.prems(2) by auto
qed simp

text \<open>C18: Keys pressed while a process has the focus (and no shortcut takes them) reach exactly that process:
  from an empty ring it reads them in the order in which they were pressed, and when there are more
  than 63 the oldest ones are lost.\<close>

theorem keys_reach_focused_process:
  assumes "focused_proc s = Some i" "i < length (processes s)"
    "secure_mode s \<or> (\<forall>kp\<in>set kps. match_shortcut [0..<unat (shortcut_count s)] (shortcuts s) kp = Inr None)"
    "keys_ok (p_input (proc s i))" "keys_in (p_input (proc s i)) = []"
  shows "\<exists>s'. press_all kps s = Inr s' \<and> get_all pop_key 63 (p_input (proc s' i)) = last_n 63 kps
    \<and> (\<forall>j. j \<noteq> i \<longrightarrow> proc s' j = proc s j)"
  using press_all_focused [OF assms(1-3)] keys.put_then_get [OF assms(4,5), of kps] by auto

definition demo_input :: input_state where
  "demo_input = sched_state.extend demo_sched \<lparr>shortcuts = replicate 16 \<lparr>sc_kp = no_key, sc_pid = 0, sc_triggered = False\<rparr>,
     shortcut_count = 0, secure_mode = False, input_driver = None\<rparr>"

lemma demo_input_simps [simp]:
  "processes demo_input = processes demo_sched" "proc demo_input = proc demo_sched" "shortcut_count demo_input = 0"
  "shortcuts demo_input = replicate 16 \<lparr>sc_kp = no_key, sc_pid = 0, sc_triggered = False\<rparr>" "\<not> secure_mode demo_input"
  by (simp_all add: demo_input_def demo_sched_def sched_state.defs proc_def fun_eq_iff)

theorem keys_reach_focused_process_witness:
  "\<exists>s'. press_all [no_key, no_key\<lparr>kp_modifier := 2\<rparr>] (demo_input\<lparr>focused_proc := Some 2\<rparr>) = Inr s'
    \<and> get_all pop_key 63 (p_input (proc s' 2)) = [no_key, no_key\<lparr>kp_modifier := 2\<rparr>]"
proof -
  let ?s = "demo_input\<lparr>focused_proc := Some 2\<rparr>"
  have l: "2 < length (processes ?s)" by (simp add: demo_sched_def)
  have k: "keys_ok (p_input (proc ?s 2))" "keys_in (p_input (proc ?s 2)) = []"
    by (simp_all add: keys_ok_def keys_in_def demo_proc zero_process_def ring_contents_def ring_len_def)
  have "\<forall>kp\<in>set kps. match_shortcut [0..<unat (shortcut_count ?s)] (shortcuts ?s) kp = Inr None" for kps by simp
  from keys_reach_focused_process [OF _ l disjI2 [OF this] k, of "[no_key, no_key\<lparr>kp_modifier := 2\<rparr>]"]
  obtain s' where "press_all [no_key, no_key\<lparr>kp_modifier := 2\<rparr>] ?s = Inr s'"
    "get_all pop_key 63 (p_input (proc s' 2)) = last_n 63 [no_key, no_key\<lparr>kp_modifier := 2\<rparr>]" by auto
  moreover have "last_n 63 [no_key, no_key\<lparr>kp_modifier := 2\<rparr>] = [no_key, no_key\<lparr>kp_modifier := 2\<rparr>]"
    by (simp add: last_n_def)
  ultimately show ?thesis by metis
qed

lemma match_shortcut_at:
  assumes "n < length scs" "\<forall>i<n. sc_pid (scs ! i) = - 1 \<or> is_new_keypress (sc_kp (scs ! i)) kp"
    "sc_pid (scs ! n) \<noteq> - 1" "\<not> is_new_keypress (sc_kp (scs ! n)) kp"
  shows "match_shortcut [a..<Suc n] scs kp = (if a \<le> n then Inr (Some n) else Inr None)"
proof (induction "Suc n - a" arbitrary: a)
  case 0
  then show ?case by simp
next
  case (Suc d)
  then have "a \<le> n" by simp
  then have "[a..<Suc n] = a # [Suc a..<Suc n]" by (simp add: upt_conv_Cons)
  then show ?case using Suc.hyps(1) [of "Suc a"] Suc.hyps(2) assms \<open>a \<le> n\<close> by (cases "a = n") auto
qed

lemma not_new_keypress [simp]: "\<not> is_new_keypress kp kp"
  by (simp add: is_new_keypress_def)

text \<open>A shortcut fires once for its key: after a subscription (with no earlier subscription to the same key)
  a press of the key reaches no process, the subscriber sees the shortcut triggered, and asking again
  it does not, until the next press.\<close>

lemma shortcut_fires_once:
  assumes "sys_subscribe_shortcut pid kp s = Inr (sid, s1)" "\<not> secure_mode s" "length (shortcuts s) < 2 ^ 16"
    "\<forall>i<unat (shortcut_count s). sc_pid (shortcuts s ! i) = - 1 \<or> is_new_keypress (sc_kp (shortcuts s ! i)) kp"
  shows "\<exists>s2 s3. register_keypress kp s1 = Inr s2 \<and> processes s2 = processes s
    \<and> sys_shortcut_triggered pid sid s2 = Inr (True, s3) \<and> sys_shortcut_triggered pid sid s3 = Inr (False, s3)"
proof -
  let ?n = "unat (shortcut_count s)"
  have n: "?n < length (shortcuts s)" and sid: "sid = shortcut_count s"
    and s1: "s1 = s\<lparr>shortcuts := (shortcuts s)[?n := \<lparr>sc_kp = kp, sc_pid = uint pid, sc_triggered = False\<rparr>],
                  shortcut_count := shortcut_count s + 1\<rparr>"
    using assms(1) by (auto simp: sys_subscribe_shortcut_def Let_def split: if_splits)
  have u: "unat (shortcut_count s + 1) = Suc ?n" using n assms(3) by (simp add: unat_word_ariths)
  have "uint pid \<noteq> - 1" using uint_ge_0 [of pid] by linarith
  then have "match_shortcut [0..<Suc ?n] (shortcuts s1) kp = Inr (Some ?n)"
    using match_shortcut_at [of ?n "shortcuts s1" kp 0] assms(4) n by (simp add: s1 del: upt_Suc)
  then have run: "register_keypress kp s1 = Inr (s1\<lparr>shortcuts := (shortcuts s1)[?n := (shortcuts s1 ! ?n)\<lparr>sc_triggered := True\<rparr>]\<rparr>)"
    using assms(2) u by (simp add: register_keypress_def s1 del: upt_Suc)
  then show ?thesis using n by (auto simp: sys_shortcut_triggered_def Let_def s1 sid)
qed

lemma shortcut_fires_once_witness:
  "\<exists>s1 s2 s3. sys_subscribe_shortcut 2 no_key demo_input = Inr (0, s1) \<and> register_keypress no_key s1 = Inr s2
    \<and> sys_shortcut_triggered 2 0 s2 = Inr (True, s3)"
proof -
  obtain s1 where s1: "sys_subscribe_shortcut 2 no_key demo_input = Inr (0, s1)"
    by (simp add: sys_subscribe_shortcut_def)
  from shortcut_fires_once [OF s1] s1 show ?thesis by auto
qed

end
