(* ===== verification/Checksums.thy ===== *)
theory Checksums
  imports Mem_Functions "HOL-Library.While_Combinator"
begin

section \<open>Internet checksums (\<open>shared/net/checksums.c\<close>)\<close>

text \<open>
  Both routines add up 16-bit words in a 32-bit sum, fold the carries back in and return the
  complement.  The folding loop ends because the sum shrinks.
\<close>

lemma unat_high: "unat (drop_bit 16 (s :: u32)) = unat s div 65536"
  by (simp add: drop_bit_eq_div unat_div)

lemma unat_low: "unat ((s :: u32) AND 0xFFFF) = unat s mod 65536"
proof -
  have "s AND 0xFFFF = s mod 65536" using take_bit_eq_mask [of 16 s] by (simp add: take_bit_eq_mod mask_eq_exp_minus_1)
  then show ?thesis by (simp add: unat_mod)
qed

lemma unat_ucast_wide: "unat (ucast (w :: u16) :: u32) = unat w"
  using unat_lt_2p [of w] by (simp add: unat_ucast_mod)

lemma unat_not_u32: "unat (NOT (w :: u32)) = 2 ^ 32 - 1 - unat w"
proof -
  have "NOT w = (- 1) - w" by (simp add: not_eq_complement)
  moreover have "w \<le> - 1" by simp
  ultimately have "unat (NOT w) = unat (- 1 :: u32) - unat w" by (simp only: unat_sub)
  moreover have "unat (- 1 :: u32) = 2 ^ 32 - 1" by (simp add: unsigned_minus_1_eq_mask mask_eq_exp_minus_1)
  ultimately show ?thesis by simp
qed

lemma fold_step:
  fixes s :: u32
  shows "unat ((s AND 0xFFFF) + drop_bit 16 s) = unat s mod 65536 + unat s div 65536"
proof -
  have "unat s < 4294967296" using unat_lt_2p [of s] by simp
  then have "unat s div 65536 < 65536" by (simp add: less_mult_imp_div_less)
  moreover have "unat s mod 65536 < 65536" by simp
  ultimately have "unat (s AND 0xFFFF) + unat (drop_bit 16 s) < 2 ^ LENGTH(32)" unfolding unat_low unat_high by simp
  then show ?thesis unfolding unat_low [symmetric] unat_high [symmetric] by (rule unat_add_lem [THEN iffD1])
qed

function fold16 :: "u32 \<Rightarrow> u32" where
  "fold16 s = (if drop_bit 16 s \<noteq> 0 then fold16 ((s AND 0xFFFF) + drop_bit 16 s) else s)"
  by auto

termination
proof (relation "measure unat")
  fix s :: u32 assume "drop_bit 16 s \<noteq> 0"
  then have "unat (drop_bit 16 s) \<noteq> 0" by (simp only: unat_eq_0 simp_thms)
  then have "unat s div 65536 \<noteq> 0" unfolding unat_high .
  then have "unat s mod 65536 + unat s div 65536 < unat s"
    using div_mult_mod_eq [of "unat s" 65536] by linarith
  then show "((s AND 0xFFFF) + drop_bit 16 s, s) \<in> measure unat" by (simp only: in_measure fold_step)
qed simp

declare fold16.simps [simp del]

definition checksum16 :: "mem \<Rightarrow> u64 \<Rightarrow> u64 \<Rightarrow> u16" where
  "checksum16 m data len =
     ucast (NOT (fold16 (fold (\<lambda>i sum. sum + ucast (read16 m (data + 2 * of_nat i))) [0..<unat len] 0)))"

definition checksum16_pipv4 :: "mem \<Rightarrow> u32 \<Rightarrow> u32 \<Rightarrow> u8 \<Rightarrow> u64 \<Rightarrow> u16 \<Rightarrow> u16" where
  "checksum16_pipv4 m src_ip dst_ip protocol payload len =
     (let sum = 0;
          sum = sum + (drop_bit 16 src_ip AND 0xFFFF);
          sum = sum + (src_ip AND 0xFFFF);
          sum = sum + (drop_bit 16 dst_ip AND 0xFFFF);
          sum = sum + (dst_ip AND 0xFFFF);
          sum = sum + ucast protocol;
          sum = sum + ucast len;
          sum = fold (\<lambda>k sum. sum + (push_bit 8 (ucast (m (payload + 2 * of_nat k))) OR ucast (m (payload + 2 * of_nat k + 1))))
                  [0..<unat len div 2] sum;
          sum = (if len AND 1 \<noteq> 0 then sum + push_bit 8 (ucast (m (payload + ucast len - 1))) else sum)
      in ucast (NOT (fold16 sum)))"

subsection \<open>Folding keeps the sum modulo 65535\<close>

lemma fold16_spec:
  "unat (fold16 s) mod 65535 = unat s mod 65535 \<and> unat (fold16 s) < 65536 \<and> (fold16 s = 0 \<longleftrightarrow> s = 0)
     \<and> unat (fold16 s) \<le> unat s"
proof (induction s rule: fold16.induct)
  case (1 s)
  show ?case
  proof (cases "drop_bit 16 s = 0")
    case True
    then have "unat s div 65536 = 0" unfolding unat_high [symmetric] by (simp only: unat_0)
    then have "unat s < 65536" by (simp add: div_eq_0_iff)
    moreover have "fold16 s = s" unfolding fold16.simps [of s] using True by (simp only: if_False simp_thms)
    ultimately show ?thesis by simp
  next
    case False
    define t where "t = (s AND 0xFFFF) + drop_bit 16 s"
    have f: "fold16 s = fold16 t" unfolding fold16.simps [of s] t_def using False by (simp only: if_True simp_thms)
    have t: "unat t = unat s mod 65536 + unat s div 65536" unfolding t_def by (rule fold_step)
    have ih: "unat (fold16 t) mod 65535 = unat t mod 65535" "unat (fold16 t) < 65536" "fold16 t = 0 \<longleftrightarrow> t = 0"
      "unat (fold16 t) \<le> unat t" using 1 [OF False] unfolding t_def by blast+
    have "unat s = unat t + 65535 * (unat s div 65536)" unfolding t using div_mult_mod_eq [of "unat s" 65536] by linarith
    then have m: "unat t mod 65535 = unat s mod 65535" "unat t \<le> unat s" by (metis mod_mult_self2, linarith)
    have "unat (drop_bit 16 s) \<noteq> 0" using False by (simp only: unat_eq_0 simp_thms)
    then have nz: "unat t \<noteq> 0" unfolding t unat_high by linarith
    then have "t \<noteq> 0" "s \<noteq> 0" using m(2) by auto
    then show ?thesis unfolding f using ih m by simp
  qed
qed

text \<open>A sum of 16-bit words does not overflow 32 bits.\<close>

lemma unat_sum_words:
  "length ws \<le> 65536 \<Longrightarrow> \<forall>w\<in>set ws. unat (w :: u32) < 65536 \<Longrightarrow>
    unat (sum_list ws) = sum_list (map unat ws) \<and> sum_list (map unat ws) \<le> length ws * 65535"
proof (induction ws)
  case (Cons w ws)
  have w: "unat w \<le> 65535" using Cons.prems(2) by simp
  have ih: "unat (sum_list ws) = sum_list (map unat ws)" "sum_list (map unat ws) \<le> length ws * 65535"
    using Cons by simp_all
  then have "unat w + unat (sum_list ws) < 2 ^ LENGTH(32)" using w Cons.prems(1) by simp
  then have "unat (w + sum_list ws) = unat w + unat (sum_list ws)" by (rule unat_add_lem [THEN iffD1])
  then show ?case using ih w by simp
qed simp

lemma sum_words_replace:
  fixes ws :: "u32 list"
  shows "k < length ws \<Longrightarrow> ws ! k = 0 \<Longrightarrow> sum_list (ws[k := c]) = sum_list ws + c"
  by (induction ws arbitrary: k) (auto simp: nth_Cons split: nat.splits)

lemma fold_add: "fold (\<lambda>i s. s + f i) xs a = a + (sum_list (map f xs) :: u32)"
  by (induction xs arbitrary: a) (simp_all add: add.assoc)

text \<open>Adding the complement of a folded sum to the sum makes it fold to all ones.\<close>

lemma unat_ucast_not: "unat (w :: u32) < 65536 \<Longrightarrow> unat (ucast (NOT w) :: u16) = 65535 - unat w"
proof -
  assume w: "unat w < 65536"
  have "unat (ucast (NOT w) :: u16) = (4294967295 - unat w) mod 65536"
    by (simp add: unat_ucast_mod unat_not_u32)
  also have "4294967295 - unat w = (65535 - unat w) + 65535 * 65536" using w by simp
  also have "((65535 - unat w) + 65535 * 65536) mod 65536 = (65535 - unat w) mod 65536" by (rule mod_mult_self1)
  also have "\<dots> = 65535 - unat w" by (rule mod_less) simp
  finally show ?thesis .
qed

lemma checksum_completes:
  assumes "unat s < 4294901760"
  shows "ucast (NOT (fold16 (s + ucast (ucast (NOT (fold16 s)) :: u16)))) = (0 :: u16)"
proof -
  define f where "f = fold16 s"
  define t where "t = s + ucast (ucast (NOT f) :: u16)"
  have f: "unat f mod 65535 = unat s mod 65535" "unat f < 65536" "unat f \<le> unat s"
    using fold16_spec [of s] unfolding f_def by blast+
  have c: "unat (ucast (ucast (NOT f) :: u16) :: u32) = 65535 - unat f"
    unfolding unat_ucast_wide by (rule unat_ucast_not [OF f(2)])
  have "unat s + unat (ucast (ucast (NOT f) :: u16) :: u32) < 2 ^ LENGTH(32)" unfolding c using assms by simp
  then have "unat t = unat s + unat (ucast (ucast (NOT f) :: u16) :: u32)" unfolding t_def by (rule unat_add_lem [THEN iffD1])
  then have t: "unat t = (unat s - unat f) + 65535" unfolding c using f by linarith
  have "65535 dvd unat s - unat f" using f(1,3) by (metis mod_eq_dvd_iff_nat)
  then have z: "65535 dvd unat t" unfolding t by (rule dvd_add) simp
  have "t \<noteq> 0" using t by (metis add_is_0 unat_0 zero_neq_numeral)
  then have g: "unat (fold16 t) mod 65535 = unat t mod 65535" "unat (fold16 t) < 65536" "fold16 t \<noteq> 0"
    using fold16_spec [of t] by blast+
  have "unat t mod 65535 = 0" using z by (simp only: dvd_eq_mod_eq_0)
  then have "unat (fold16 t) mod 65535 = 0" using g(1) by simp
  moreover have "unat (fold16 t) \<noteq> 0" using g(3) by (simp only: unat_eq_0 simp_thms)
  ultimately obtain q where "unat (fold16 t) = 65535 * q" "q \<noteq> 0" by (metis dvd_eq_mod_eq_0 dvdE mult_is_0)
  then have "unat (fold16 t) = 65535" using g(2) by (cases q) auto
  then have "unat (ucast (NOT (fold16 t)) :: u16) = 0" by (simp add: unat_ucast_not)
  then show ?thesis unfolding t_def f_def by (simp only: unat_eq_0)
qed

subsection \<open>A receiver's check\<close>

text \<open>Filling a word that was zero with the complement of the sum makes the whole complement zero.\<close>

lemma sum_verifies:
  assumes "length ws \<le> 65535" "\<forall>w\<in>set ws. unat w < 65536" "k < length ws" "ws ! k = 0"
  shows "(ucast (NOT (fold16 (sum_list (ws[k := ucast (ucast (NOT (fold16 (sum_list ws))) :: u16)])))) :: u16) = 0"
proof -
  have "unat (sum_list ws) \<le> length ws * 65535" using unat_sum_words [of ws] assms(1,2) by simp
  also have "\<dots> < 4294901760" using assms(1) by linarith
  finally show ?thesis unfolding sum_words_replace [OF assms(3,4)] by (rule checksum_completes)
qed

lemma checksum16_sum:
  "checksum16 m a len = ucast (NOT (fold16 (sum_list (map (\<lambda>i. ucast (read16 m (a + 2 * of_nat i))) [0..<unat len]))))"
  by (simp add: checksum16_def fold_add)

lemma checksum16_verifies:
  assumes "k < unat len" "unat len \<le> 65535" "read16 m (a + 2 * of_nat k) = 0"
    "read16 m' (a + 2 * of_nat k) = checksum16 m a len"
    "\<And>i. i < unat len \<Longrightarrow> i \<noteq> k \<Longrightarrow> read16 m' (a + 2 * of_nat i) = read16 m (a + 2 * of_nat i)"
  shows "checksum16 m' a len = 0"
proof -
  let ?f = "\<lambda>m i. ucast (read16 m (a + 2 * of_nat i)) :: u32"
  have l: "map (?f m') [0..<unat len] = (map (?f m) [0..<unat len])[k := ucast (checksum16 m a len)]"
  proof (rule nth_equalityI)
    fix i assume "i < length (map (?f m') [0..<unat len])"
    then show "map (?f m') [0..<unat len] ! i = (map (?f m) [0..<unat len])[k := ucast (checksum16 m a len)] ! i"
      using assms(4,5) by (cases "i = k") simp_all
  qed simp
  show ?thesis unfolding checksum16_sum [of m'] l unfolding checksum16_sum
    by (rule sum_verifies) (use assms(1-3) unat_lt_2p [where 'a = 16] in \<open>auto simp: unat_ucast_wide\<close>)
qed

text \<open>The words of the pseudo header and of the segment, big endian and padded with a zero byte.\<close>

definition be_pair :: "u8 \<Rightarrow> u8 \<Rightarrow> u32" where
  "be_pair hi lo = push_bit 8 (ucast hi) OR ucast lo"

definition segment_words :: "mem \<Rightarrow> u64 \<Rightarrow> nat \<Rightarrow> u32 list" where
  "segment_words m p n = map (\<lambda>k. be_pair (m (p + 2 * of_nat k)) (m (p + 2 * of_nat k + 1))) [0..<n div 2]
     @ (if odd n then [be_pair (m (p + of_nat n - 1)) 0] else [])"

definition pseudo_words :: "u32 \<Rightarrow> u32 \<Rightarrow> u8 \<Rightarrow> u16 \<Rightarrow> u32 list" where
  "pseudo_words src dst protocol n =
     [drop_bit 16 src AND 0xFFFF, src AND 0xFFFF, drop_bit 16 dst AND 0xFFFF, dst AND 0xFFFF, ucast protocol, ucast n]"

lemma unat_be_pair: "unat (be_pair hi lo) = 256 * unat hi + unat lo"
proof -
  have eq: "push_bit 8 (ucast hi) + ucast lo = (push_bit 8 (ucast hi) OR ucast lo :: u32)"
  proof (rule disjunctive_add_eq_or)
    show "push_bit 8 (ucast hi) AND ucast lo = (0 :: u32)"
      by (rule bit_word_eqI) (auto simp: bit_simps dest: bit_imp_le_length)
  qed
  have u: "unat (ucast hi :: u32) = unat hi" "unat (ucast lo :: u32) = unat lo"
    using unat_lt_2p [of hi] unat_lt_2p [of lo] by (simp_all add: unat_ucast_mod)
  have hi: "unat (push_bit 8 (ucast hi) :: u32) = 256 * unat hi"
    using unat_lt_2p [of hi] u by (simp add: push_bit_eq_mult unat_word_ariths)
  have "unat (push_bit 8 (ucast hi) + ucast lo :: u32) = 256 * unat hi + unat lo"
    unfolding unat_word_ariths hi u using unat_lt_2p [of hi] unat_lt_2p [of lo] by simp
  then show ?thesis unfolding be_pair_def eq .
qed

lemma be_pair_small: "unat (be_pair hi lo) < 65536"
  using unat_lt_2p [of hi] unat_lt_2p [of lo] by (simp add: unat_be_pair)

lemma pipv4_sum:
  "checksum16_pipv4 m src dst protocol p n
     = ucast (NOT (fold16 (sum_list (pseudo_words src dst protocol n @ segment_words m p (unat n)))))"
proof -
  have "unat (n AND 1) = unat n mod 2" by (simp add: and_one_eq unat_mod)
  then have odd: "n AND 1 \<noteq> 0 \<longleftrightarrow> odd (unat n)" by (simp add: odd_iff_mod_2_eq_one flip: unat_eq_0)
  have "(ucast n :: u64) = of_nat (unat n)" by simp
  then show ?thesis
    unfolding checksum16_pipv4_def Let_def odd fold_add
    by (simp add: pseudo_words_def segment_words_def be_pair_def ac_simps)
qed

lemma pipv4_verifies:
  assumes "k < unat n div 2" "unat n \<le> 65535" "m (p + 2 * of_nat k) = 0" "m (p + 2 * of_nat k + 1) = 0"
    "be_pair (m' (p + 2 * of_nat k)) (m' (p + 2 * of_nat k + 1)) = ucast (checksum16_pipv4 m src dst protocol p n)"
    "\<And>i. i < unat n \<Longrightarrow> i \<noteq> 2 * k \<Longrightarrow> i \<noteq> 2 * k + 1 \<Longrightarrow> m' (p + of_nat i) = m (p + of_nat i)"
  shows "checksum16_pipv4 m' src dst protocol p n = 0"
proof -
  let ?ws = "pseudo_words src dst protocol n @ segment_words m p (unat n)"
  have i: "m' (p + 2 * of_nat j) = m (p + 2 * of_nat j)" "m' (p + 2 * of_nat j + 1) = m (p + 2 * of_nat j + 1)"
    if "j < unat n div 2" "j \<noteq> k" for j
    using assms(6) [of "2 * j"] assms(6) [of "2 * j + 1"] that by (simp_all add: add.assoc [symmetric] add.commute)
  have last: "m' (p + of_nat (unat n) - 1) = m (p + of_nat (unat n) - 1)" if "odd (unat n)"
  proof -
    have "unat n - 1 \<noteq> 2 * k" "unat n - 1 \<noteq> 2 * k + 1" "unat n - 1 < unat n" using assms(1) that by (auto elim!: oddE)
    moreover have "p + of_nat (unat n - 1) = p + of_nat (unat n) - 1" using that by (cases "unat n") auto
    ultimately show ?thesis using assms(6) [of "unat n - 1"] by metis
  qed
  have l: "pseudo_words src dst protocol n @ segment_words m' p (unat n)
      = ?ws[6 + k := ucast (checksum16_pipv4 m src dst protocol p n)]"
  proof -
    let ?f = "\<lambda>m k. be_pair (m (p + 2 * of_nat k)) (m (p + 2 * of_nat k + 1))"
    have "map (?f m') [0..<unat n div 2] = (map (?f m) [0..<unat n div 2])[k := ucast (checksum16_pipv4 m src dst protocol p n)]"
    proof (rule nth_equalityI)
      show "map (?f m') [0..<unat n div 2] ! j = (map (?f m) [0..<unat n div 2])[k := ucast (checksum16_pipv4 m src dst protocol p n)] ! j"
        if "j < length (map (?f m') [0..<unat n div 2])" for j
        using that assms(5) i by (cases "j = k") simp_all
    qed simp
    then have "segment_words m' p (unat n) = (segment_words m p (unat n))[k := ucast (checksum16_pipv4 m src dst protocol p n)]"
      using assms(1) last by (simp add: segment_words_def list_update_append)
    then show ?thesis by (simp add: list_update_append pseudo_words_def)
  qed
  have len: "length ?ws \<le> 65535" "6 + k < length ?ws" using assms(1,2) by (auto simp: pseudo_words_def segment_words_def)
  have small: "\<forall>w\<in>set ?ws. unat w < 65536"
    using unat_lt_2p [of n] unat_lt_2p [of protocol]
    by (auto simp: pseudo_words_def segment_words_def be_pair_small unat_low unat_ucast_wide unat_ucast_mod)
  have z: "?ws ! (6 + k) = 0" using assms(1,3,4) by (simp add: pseudo_words_def segment_words_def nth_append be_pair_def)
  show ?thesis unfolding pipv4_sum [of m'] l unfolding pipv4_sum by (rule sum_verifies [OF len(1) small len(2) z])
qed

definition fold_round :: "u32 \<Rightarrow> u32" where
  "fold_round s = (s AND 0xFFFF) + drop_bit 16 s"

lemma unat_fold_round: "unat (fold_round s) = unat s mod 65536 + unat s div 65536"
  unfolding fold_round_def by (rule fold_step)

lemma no_carry: "drop_bit 16 (s :: u32) = 0 \<longleftrightarrow> unat s < 65536"
proof -
  have "drop_bit 16 s = 0 \<longleftrightarrow> unat s div 65536 = 0" unfolding unat_high [symmetric] by (simp only: unat_eq_0)
  then show ?thesis by (simp add: div_eq_0_iff)
qed

lemma two_rounds: "drop_bit 16 (fold_round (fold_round s)) = 0"
proof -
  have "unat s < 4294967296" using unat_lt_2p [of s] by simp
  then have "unat s div 65536 < 65536" by (simp add: less_mult_imp_div_less)
  then have t: "unat (fold_round s) < 131071" unfolding unat_fold_round using mod_less_divisor [of 65536 "unat s"] by linarith
  show ?thesis
  proof (cases "unat (fold_round s) < 65536")
    case True
    then show ?thesis unfolding no_carry unat_fold_round [of "fold_round s"] by simp
  next
    case False
    then have "unat (fold_round s) = (unat (fold_round s) - 65536) + 1 * 65536" by simp
    then have "unat (fold_round s) mod 65536 = unat (fold_round s) - 65536" "unat (fold_round s) div 65536 = 1"
      using t False by (simp_all add: mod_if div_if)
    then show ?thesis unfolding no_carry unat_fold_round [of "fold_round s"] using t by linarith
  qed
qed

text \<open>The carry loop of both checksum routines ends for every 32-bit sum, after at most two rounds, and what
  it leaves is the value \<open>fold16\<close>: a 16-bit number congruent to the sum modulo 65535.\<close>

lemma fold16_terminates:
  "while_option (\<lambda>s. drop_bit 16 s \<noteq> 0) fold_round s = Some (fold16 s)
     \<and> (\<exists>k\<le>2. fold16 s = (fold_round ^^ k) s \<and> drop_bit 16 (fold16 s) = 0)
     \<and> unat (fold16 s) mod 65535 = unat s mod 65535"
proof -
  let ?b = "\<lambda>s :: u32. drop_bit 16 s \<noteq> 0"
  have f: "fold16 s = (if ?b s then fold16 (fold_round s) else s)" for s
    unfolding fold16.simps [of s] fold_round_def by (rule refl)
  have w: "while_option ?b fold_round s = (if ?b s then while_option ?b fold_round (fold_round s) else Some s)" for s
    by (rule while_option_unfold)
  have z: "while_option ?b fold_round (fold_round (fold_round s)) = Some (fold_round (fold_round s))"
    "fold16 (fold_round (fold_round s)) = fold_round (fold_round s)"
    using two_rounds [of s] by (simp_all only: w [of "fold_round (fold_round s)"] f [of "fold_round (fold_round s)"] simp_thms if_False)
  have "while_option ?b fold_round s = Some (fold16 s)"
    unfolding w [of s] f [of s] w [of "fold_round s"] f [of "fold_round s"] z
    by (cases "drop_bit 16 s = 0"; cases "drop_bit 16 (fold_round s) = 0"; simp only: if_True if_False simp_thms)
  moreover have "\<exists>k\<le>2. fold16 s = (fold_round ^^ k) s"
  proof -
    have k: "(fold_round ^^ 0) s = s" "(fold_round ^^ 1) s = fold_round s" "(fold_round ^^ 2) s = fold_round (fold_round s)"
      by (simp_all add: numeral_2_eq_2)
    have "fold16 s = s \<or> fold16 s = fold_round s \<or> fold16 s = fold_round (fold_round s)"
      unfolding f [of s] f [of "fold_round s"] z by (cases "drop_bit 16 s = 0"; cases "drop_bit 16 (fold_round s) = 0"; simp only: if_True if_False simp_thms)
    then show ?thesis
    proof (elim disjE)
      assume "fold16 s = s"
      then show ?thesis by (intro exI [of _ 0]) (simp only: k zero_le simp_thms)
    next
      assume "fold16 s = fold_round s"
      then show ?thesis by (intro exI [of _ 1]) (simp only: k one_le_numeral)
    next
      assume "fold16 s = fold_round (fold_round s)"
      then show ?thesis by (intro exI [of _ 2]) (simp only: k order_refl)
    qed
  qed
  ultimately show ?thesis unfolding no_carry using fold16_spec [of s] by blast
qed

end
