(* ===== verification/Rng.thy ===== *)
theory Rng
  imports Mem_Functions
begin

section \<open>The pseudo random generator (\<open>shared/math/rng.c\<close>, \<open>kernel/dev/random/random.c\<close>)\<close>

text \<open>
  xoroshiro128+: two 64-bit words of state, seeded by two rounds of a mixing function.  The filling
  routines count with a 32-bit variable against a 64-bit bound, so they take fuel: above \<open>2 ^ 32\<close>
  elements the counter wraps around and the loop never ends.
\<close>

record rng_t =
  s0 :: u64
  s1 :: u64

definition rotl :: "u64 \<Rightarrow> nat \<Rightarrow> u64" where
  "rotl x k = (push_bit k x OR drop_bit (64 - k) x)"

definition mix :: "u64 \<Rightarrow> u64" where
  "mix z = (let z = (z XOR drop_bit 30 z) * 0xBF58476D1CE4E5B9;
                z = (z XOR drop_bit 27 z) * 0x94D049BB133111EB
            in z XOR drop_bit 31 z)"

definition rng_seed :: "rng_t \<Rightarrow> u64 \<Rightarrow> rng_t" where
  "rng_seed rng seed = rng\<lparr>s0 := mix (seed + 0x9E3779B97F4A7C15), s1 := mix (seed + 0x9E3779B97F4A7C15 + 1)\<rparr>"

text \<open>\<open>cntvct\<close> is the value read from the virtual counter.\<close>

definition rng_init_random :: "u64 \<Rightarrow> rng_t \<Rightarrow> rng_t" where
  "rng_init_random cntvct rng = rng_seed rng cntvct"

definition rng_next64 :: "rng_t \<Rightarrow> u64 \<times> rng_t" where
  "rng_next64 rng =
     (let a = s0 rng; b = s1 rng; result = a + b; b = b XOR a
      in (result, rng\<lparr>s0 := rotl a 55 XOR b XOR push_bit 14 b, s1 := rotl b 36\<rparr>))"

definition rng_next32 :: "rng_t \<Rightarrow> u32 \<times> rng_t" where
  "rng_next32 rng = (let (x, rng) = rng_next64 rng in (ucast (drop_bit 32 x), rng))"

definition rng_next16 :: "rng_t \<Rightarrow> u16 \<times> rng_t" where
  "rng_next16 rng = (let (x, rng) = rng_next64 rng in (ucast (drop_bit 48 x), rng))"

definition rng_next8 :: "rng_t \<Rightarrow> u8 \<times> rng_t" where
  "rng_next8 rng = (let (x, rng) = rng_next64 rng in (ucast (drop_bit 56 x), rng))"

definition rng_between64 :: "rng_t \<Rightarrow> u64 \<Rightarrow> u64 \<Rightarrow> u64 \<times> rng_t" where
  "rng_between64 rng lo hi =
     (if hi \<le> lo then (lo, rng) else let (x, rng) = rng_next64 rng in (x mod (hi - lo) + lo, rng))"

text \<open>The difference of two 16-bit or 8-bit bounds is an \<open>int\<close>, widened to the 64 bits of the number drawn.\<close>

definition rng_between32 :: "rng_t \<Rightarrow> u32 \<Rightarrow> u32 \<Rightarrow> u32 \<times> rng_t" where
  "rng_between32 rng lo hi =
     (if hi \<le> lo then (lo, rng) else let (x, rng) = rng_next64 rng in (ucast (x mod ucast (hi - lo) + ucast lo), rng))"

definition rng_between16 :: "rng_t \<Rightarrow> u16 \<Rightarrow> u16 \<Rightarrow> u16 \<times> rng_t" where
  "rng_between16 rng lo hi =
     (if hi \<le> lo then (lo, rng) else let (x, rng) = rng_next64 rng in (ucast (x mod ucast (hi - lo)) + lo, rng))"

definition rng_between8 :: "rng_t \<Rightarrow> u8 \<Rightarrow> u8 \<Rightarrow> u8 \<times> rng_t" where
  "rng_between8 rng lo hi =
     (if hi \<le> lo then (lo, rng) else let (x, rng) = rng_next64 rng in (ucast (x mod ucast (hi - lo)) + lo, rng))"

subsection \<open>Filling memory\<close>

text \<open>The loop of the four filling routines: \<open>wr\<close> stores one element, \<open>sz\<close> is its size.\<close>

fun fill_loop :: "nat \<Rightarrow> (rng_t \<Rightarrow> 'w \<times> rng_t) \<Rightarrow> (mem \<Rightarrow> u64 \<Rightarrow> 'w \<Rightarrow> mem) \<Rightarrow> u64 \<Rightarrow> u64 \<Rightarrow> u64 \<Rightarrow> u32 \<Rightarrow>
    rng_t \<times> mem \<Rightarrow> fault + (rng_t \<times> mem)" where
  "fill_loop fuel nxt wr sz dst count i (rng, m) =
     (if ucast i < count then
        case fuel of
          0 \<Rightarrow> Inl OutOfFuel
        | Suc fuel \<Rightarrow> let (x, rng) = nxt rng in fill_loop fuel nxt wr sz dst count (i + 1) (rng, wr m (dst + ucast i * sz) x)
      else Inr (rng, m))"

definition rng_fill64 :: "nat \<Rightarrow> rng_t \<Rightarrow> mem \<Rightarrow> u64 \<Rightarrow> u64 \<Rightarrow> fault + (rng_t \<times> mem)" where
  "rng_fill64 fuel rng m dst count = fill_loop fuel rng_next64 write64 8 dst count 0 (rng, m)"

definition rng_fill32 :: "nat \<Rightarrow> rng_t \<Rightarrow> mem \<Rightarrow> u64 \<Rightarrow> u64 \<Rightarrow> fault + (rng_t \<times> mem)" where
  "rng_fill32 fuel rng m dst count = fill_loop fuel rng_next32 write32 4 dst count 0 (rng, m)"

definition rng_fill16 :: "nat \<Rightarrow> rng_t \<Rightarrow> mem \<Rightarrow> u64 \<Rightarrow> u64 \<Rightarrow> fault + (rng_t \<times> mem)" where
  "rng_fill16 fuel rng m dst count = fill_loop fuel rng_next16 write16 2 dst count 0 (rng, m)"

definition rng_fill8 :: "nat \<Rightarrow> rng_t \<Rightarrow> mem \<Rightarrow> u64 \<Rightarrow> u64 \<Rightarrow> fault + (rng_t \<times> mem)" where
  "rng_fill8 fuel rng m dst count = fill_loop fuel rng_next8 write8 1 dst count 0 (rng, m)"

definition rng_fill_buf :: "nat \<Rightarrow> rng_t \<Rightarrow> mem \<Rightarrow> u64 \<Rightarrow> u64 \<Rightarrow> fault + (rng_t \<times> mem)" where
  "rng_fill_buf fuel rng m dest count =
     bindE (rng_fill64 fuel rng m dest (count div 32)) (\<lambda>(rng, m).
       let remaining = count mod 32 div 8;
           (rng, m) = fold (\<lambda>i (rng, m). let (x, rng) = rng_next64 rng in (rng, write64 m (dest + of_nat i * 8) x))
                        [0..<unat remaining] (rng, m);
           d8 = dest + remaining * 8
       in Inr (fold (\<lambda>i (rng, m). let (x, rng) = rng_next8 rng in (rng, write8 m (d8 + of_nat i) x))
                [0..<unat (count mod 8)] (rng, m)))"

subsection \<open>The random device\<close>

record file_t =
  f_id :: u64
  f_size :: u64

record rng_device =
  global_rng :: rng_t
  rng_fid :: u64

definition rng_open :: "file_t \<Rightarrow> rng_device \<Rightarrow> file_t \<times> rng_device" where
  "rng_open fd d = (fd\<lparr>f_id := rng_fid d, f_size := 0\<rparr>, d\<lparr>rng_fid := rng_fid d + 1\<rparr>)"

definition rng_read :: "nat \<Rightarrow> mem \<Rightarrow> u64 \<Rightarrow> u64 \<Rightarrow> rng_device \<Rightarrow> fault + (u64 \<times> rng_device \<times> mem)" where
  "rng_read fuel m buf count d =
     bindE (rng_fill_buf fuel (global_rng d) m buf count) (\<lambda>(rng, m). Inr (count, d\<lparr>global_rng := rng\<rparr>, m))"

definition rng_init_global :: "u64 \<Rightarrow> rng_device \<Rightarrow> bool \<times> rng_device" where
  "rng_init_global cntvct d = (True, d\<lparr>global_rng := rng_seed (global_rng d) cntvct\<rparr>)"

subsection \<open>The state never becomes zero\<close>

lemma xor_shift_inj:
  assumes "0 < k" "x XOR drop_bit k x = y XOR drop_bit k (y :: 'a::len word)"
  shows "x = y"
proof (rule bit_word_eqI)
  have b: "bit x i \<longleftrightarrow> bit y i" if "i + d = LENGTH('a)" for i d
    using that
  proof (induction d arbitrary: i rule: less_induct)
    case (less d)
    have e: "(bit x i \<noteq> bit x (i + k)) = (bit y i \<noteq> bit y (i + k))"
      using arg_cong [OF assms(2), of "\<lambda>w. bit w i"] by (simp add: bit_simps add.commute)
    show ?case
    proof (cases "k \<le> d")
      case True
      then have "bit x (i + k) \<longleftrightarrow> bit y (i + k)"
        using less.IH [of "d - k" "i + k"] less.prems assms(1) by simp
      then show ?thesis using e by blast
    next
      case False
      then have "\<not> bit x (i + k)" "\<not> bit y (i + k)"
        using less.prems by (auto dest: bit_imp_le_length)
      then show ?thesis using e by blast
    qed
  qed
  fix i assume "i < LENGTH('a)"
  then show "bit x i \<longleftrightarrow> bit y i" using b [of i "LENGTH('a) - i"] by simp
qed

lemma mult_inj:
  assumes "c * d = 1" "a * c = b * (c :: 'a::len word)"
  shows "a = b"
proof -
  have "a * c * d = b * c * d" using assms(2) by simp
  then show ?thesis using assms(1) by (simp add: mult.assoc)
qed

lemma mix_consts:
  "(0xBF58476D1CE4E5B9 :: u64) * 0x96DE1B173F119089 = 1" "(0x94D049BB133111EB :: u64) * 0x319642B2D24D8EC3 = 1"
  by simp_all

lemma mix_inj:
  assumes "mix x = mix y"
  shows "x = y"
proof -
  define f where "f z = (z XOR drop_bit 30 z) * 0xBF58476D1CE4E5B9" for z :: u64
  define g where "g z = (z XOR drop_bit 27 z) * 0x94D049BB133111EB" for z :: u64
  have "mix z = g (f z) XOR drop_bit 31 (g (f z))" for z unfolding mix_def Let_def f_def g_def by (rule refl)
  then have "g (f x) XOR drop_bit 31 (g (f x)) = g (f y) XOR drop_bit 31 (g (f y))" using assms by (simp only:)
  then have "g (f x) = g (f y)" by (rule xor_shift_inj [rotated]) simp
  then have "f x XOR drop_bit 27 (f x) = f y XOR drop_bit 27 (f y)" unfolding g_def by (rule mult_inj [OF mix_consts(2)])
  then have "f x = f y" by (rule xor_shift_inj [rotated]) simp
  then have "x XOR drop_bit 30 x = y XOR drop_bit 30 y" unfolding f_def by (rule mult_inj [OF mix_consts(1)])
  then show ?thesis by (rule xor_shift_inj [rotated]) simp
qed

lemma rotl_eq_0:
  assumes "k \<le> 64"
  shows "rotl x k = 0 \<longleftrightarrow> x = 0"
proof
  assume z: "rotl x k = 0"
  show "x = 0"
  proof (rule bit_word_eqI)
    fix i assume i: "i < LENGTH(64)"
    have r: "\<not> bit (rotl x k) j" for j using z by simp
    show "bit x i \<longleftrightarrow> bit (0 :: u64) i"
    proof (cases "i + k < 64")
      case True
      then show ?thesis using r [of "i + k"] i by (auto simp: rotl_def bit_simps)
    next
      case False
      then show ?thesis using r [of "i + k - 64"] i assms by (auto simp: rotl_def bit_simps)
    qed
  qed
qed (simp add: rotl_def)

definition rng_ok :: "rng_t \<Rightarrow> bool" where
  "rng_ok rng \<longleftrightarrow> \<not> (s0 rng = 0 \<and> s1 rng = 0)"

lemma xor_eq_0: "x XOR y = 0 \<longleftrightarrow> x = (y :: 'a::len word)"
  by (metis xor_self_eq xor.assoc xor.right_neutral xor.left_neutral)

lemma rng_seed_ok: "rng_ok (rng_seed rng seed)"
proof -
  have "mix (seed + 0x9E3779B97F4A7C15) \<noteq> mix (seed + 0x9E3779B97F4A7C15 + 1)"
    using mix_inj [of "seed + 0x9E3779B97F4A7C15" "seed + 0x9E3779B97F4A7C15 + 1"] by auto
  then show ?thesis by (auto simp: rng_ok_def rng_seed_def)
qed

lemma rng_next64_ok:
  assumes "rng_ok rng"
  shows "rng_ok (snd (rng_next64 rng))"
proof (rule ccontr)
  assume "\<not> rng_ok (snd (rng_next64 rng))"
  then have z: "rotl (s0 rng) 55 XOR (s1 rng XOR s0 rng) XOR push_bit 14 (s1 rng XOR s0 rng) = 0"
    "rotl (s1 rng XOR s0 rng) 36 = 0" by (simp_all add: rng_ok_def rng_next64_def Let_def)
  then have d: "s1 rng XOR s0 rng = 0" using rotl_eq_0 [of 36] by simp
  then have "rotl (s0 rng) 55 = 0" using z(1) by simp
  then have "s0 rng = 0" using rotl_eq_0 [of 55] by simp
  with d have "s1 rng = 0" by simp
  with \<open>s0 rng = 0\<close> show False using assms by (simp add: rng_ok_def)
qed

text \<open>The \<open>n\<close>th state after seeding.\<close>

definition draws :: "u64 \<Rightarrow> nat \<Rightarrow> rng_t" where
  "draws seed n = ((\<lambda>rng. snd (rng_next64 rng)) ^^ n) (rng_seed \<lparr>s0 = 0, s1 = 0\<rparr> seed)"

text \<open>C19: No seed and no number of draws brings the generator into the state where both words are zero, the only one
  from which it would return zero for ever.\<close>

theorem rng_never_stuck:
  "rng_ok (draws seed n) \<and> rng_next64 \<lparr>s0 = 0, s1 = 0\<rparr> = (0, \<lparr>s0 = 0, s1 = 0\<rparr>)"
proof -
  have "rng_ok (draws seed n)"
    by (induction n) (simp_all add: draws_def rng_seed_ok rng_next64_ok)
  then show ?thesis by (simp add: rng_next64_def rotl_def Let_def)
qed

lemma mod_range:
  assumes "(lo :: 'a::len word) < hi" "LENGTH('a) \<le> 64"
  shows "unat (x mod ucast (hi - lo) :: u64) + unat lo < unat hi"
proof -
  have d: "unat (hi - lo) = unat hi - unat lo" "unat lo < unat hi"
    using assms(1) by (simp_all add: unat_sub word_less_nat_alt order_less_imp_le)
  have "unat (hi - lo) < 2 ^ 64" using unat_lt_2p [of "hi - lo"] assms(2)
    by (meson less_le_trans one_le_numeral power_increasing)
  then have "unat (ucast (hi - lo) :: u64) = unat hi - unat lo" using d(1) by (simp add: unat_ucast_mod)
  moreover have "unat x mod (unat hi - unat lo) < unat hi - unat lo" using d(2) by simp
  ultimately show ?thesis by (simp add: unat_mod)
qed

lemma in_range:
  assumes "unat (r :: 'a::len word) = n + unat lo" "n + unat lo < unat hi"
  shows "lo \<le> r \<and> r < hi"
  using assms by (simp add: word_le_nat_alt word_less_nat_alt)

text \<open>A draw from a range that is not empty gives a number of the range for all four widths, and the lower bound
  otherwise; only a draw from a non-empty range steps the generator.\<close>

lemma rng_between_bounds:
  "(if lo < hi then lo \<le> fst (rng_between64 rng lo hi) \<and> fst (rng_between64 rng lo hi) < hi else rng_between64 rng lo hi = (lo, rng))
   \<and> (if lo32 < hi32 then lo32 \<le> fst (rng_between32 rng lo32 hi32) \<and> fst (rng_between32 rng lo32 hi32) < hi32
      else rng_between32 rng lo32 hi32 = (lo32, rng))
   \<and> (if lo16 < hi16 then lo16 \<le> fst (rng_between16 rng lo16 hi16) \<and> fst (rng_between16 rng lo16 hi16) < hi16
      else rng_between16 rng lo16 hi16 = (lo16, rng))
   \<and> (if lo8 < hi8 then lo8 \<le> fst (rng_between8 rng lo8 hi8) \<and> fst (rng_between8 rng lo8 hi8) < hi8
      else rng_between8 rng lo8 hi8 = (lo8, rng))"
proof -
  obtain x rng' where x: "rng_next64 rng = (x, rng')" by fastforce
  have "lo \<le> x mod (hi - lo) + lo \<and> x mod (hi - lo) + lo < hi" if "lo < hi"
  proof (rule in_range)
    note b = mod_range [OF that, of x]
    then show "unat (x mod (hi - lo)) + unat lo < unat hi" by simp
    then show "unat (x mod (hi - lo) + lo) = unat (x mod (hi - lo)) + unat lo"
      using unat_lt_2p [of hi] by (intro unat_add_small) linarith
  qed
  moreover have "lo32 \<le> ucast (x mod ucast (hi32 - lo32) + ucast lo32) \<and> ucast (x mod ucast (hi32 - lo32) + ucast lo32) < hi32"
    if "lo32 < hi32"
  proof (rule in_range)
    show b: "unat (x mod ucast (hi32 - lo32)) + unat lo32 < unat hi32" by (rule mod_range [OF that]) simp
    have l: "unat (ucast lo32 :: u64) = unat lo32" using unat_lt_2p [of lo32] by (simp add: unat_ucast_mod)
    have h: "unat hi32 < 2 ^ 32" using unat_lt_2p [of hi32] by simp
    have s: "unat (x mod ucast (hi32 - lo32) + ucast lo32) = unat (x mod ucast (hi32 - lo32)) + unat lo32"
      unfolding l [symmetric] by (rule unat_add_small) (use b h l in simp)
    show "unat (ucast (x mod ucast (hi32 - lo32) + ucast lo32) :: u32) = unat (x mod ucast (hi32 - lo32)) + unat lo32"
      unfolding unat_ucast_mod s using b h by simp
  qed
  moreover have "lo16 \<le> ucast (x mod ucast (hi16 - lo16)) + lo16 \<and> ucast (x mod ucast (hi16 - lo16)) + lo16 < hi16"
    if "lo16 < hi16"
  proof (rule in_range)
    show b: "unat (x mod ucast (hi16 - lo16)) + unat lo16 < unat hi16" by (rule mod_range [OF that]) simp
    have h: "unat hi16 < 2 ^ 16" using unat_lt_2p [of hi16] by simp
    have u: "unat (ucast (x mod ucast (hi16 - lo16)) :: u16) = unat (x mod ucast (hi16 - lo16))"
      unfolding unat_ucast_mod using b h by simp
    show "unat (ucast (x mod ucast (hi16 - lo16)) + lo16) = unat (x mod ucast (hi16 - lo16)) + unat lo16"
      unfolding u [symmetric] by (rule unat_add_small) (use b h u in simp)
  qed
  moreover have "lo8 \<le> ucast (x mod ucast (hi8 - lo8)) + lo8 \<and> ucast (x mod ucast (hi8 - lo8)) + lo8 < hi8"
    if "lo8 < hi8"
  proof (rule in_range)
    show b: "unat (x mod ucast (hi8 - lo8)) + unat lo8 < unat hi8" by (rule mod_range [OF that]) simp
    have h: "unat hi8 < 2 ^ 8" using unat_lt_2p [of hi8] by simp
    have u: "unat (ucast (x mod ucast (hi8 - lo8)) :: u8) = unat (x mod ucast (hi8 - lo8))"
      unfolding unat_ucast_mod using b h by simp
    show "unat (ucast (x mod ucast (hi8 - lo8)) + lo8) = unat (x mod ucast (hi8 - lo8)) + unat lo8"
      unfolding u [symmetric] by (rule unat_add_small) (use b h u in simp)
  qed
  ultimately show ?thesis
    by (auto simp: rng_between64_def rng_between32_def rng_between16_def rng_between8_def x Let_def)
qed

subsection \<open>What a fill writes\<close>

declare fill_loop.simps [simp del]

lemma fill_loop_writes:
  assumes "\<And>m a x y. \<not> in_region a n y \<Longrightarrow> wr m a x y = m y" "0 < n" "unat count * n < 2 ^ 64" "unat count < 2 ^ 32"
    "unat count - unat i \<le> fuel"
  shows "\<exists>rng' m'. fill_loop fuel nxt wr (of_nat n) dst count i (rng, m) = Inr (rng', m')
    \<and> (\<forall>y. \<not> in_region dst (unat count * n) y \<longrightarrow> m' y = m y)"
  using assms(5)
proof (induction fuel arbitrary: i rng m)
  case 0
  have "unat (ucast i :: u64) = unat i" using unat_lt_2p [of i] by (simp add: unat_ucast_mod)
  then have "\<not> ucast i < count" using 0 by (simp add: word_less_nat_alt)
  then show ?case by (subst fill_loop.simps) simp
next
  case (Suc fuel)
  have u: "unat (ucast i :: u64) = unat i" using unat_lt_2p [of i] by (simp add: unat_ucast_mod)
  show ?case
  proof (cases "ucast i < count")
    case True
    obtain x rng2 where x: "nxt rng = (x, rng2)" by fastforce
    have lt: "unat i < unat count" using True u by (simp add: word_less_nat_alt)
    then have "unat (i + 1) = unat i + 1" using assms(4) by (intro unat_add_1) simp
    then obtain rng' m' where r: "fill_loop fuel nxt wr (of_nat n) dst count (i + 1) (rng2, wr m (dst + ucast i * of_nat n) x) = Inr (rng', m')"
      "\<And>y. \<not> in_region dst (unat count * n) y \<Longrightarrow> m' y = wr m (dst + ucast i * of_nat n) x y"
      using Suc.IH [of "i + 1" rng2 "wr m (dst + ucast i * of_nat n) x"] Suc.prems by fastforce
    have le: "unat i * n + n \<le> unat count * n" using lt mult_le_mono1 [of "Suc (unat i)" "unat count" n] by simp
    have "wr m (dst + ucast i * of_nat n) x y = m y" if "\<not> in_region dst (unat count * n) y" for y
    proof (rule assms(1), rule notI)
      assume y: "in_region (dst + ucast i * of_nat n) n y"
      have "(ucast i * of_nat n :: u64) = of_nat (unat i * n)" using u by (metis of_nat_mult unat_of_nat_self)
      moreover have "unat i * n < 2 ^ LENGTH(64)" using le assms(2,3) by simp
      ultimately have "unat (dst + ucast i * of_nat n - dst) = unat i * n" by (metis add_diff_cancel_left' unat_of_nat_lt)
      then have "in_region dst (unat count * n) y" using in_region_sub [OF y, of dst "unat count * n"] le by simp
      then show False using that by simp
    qed
    then show ?thesis using True x r by (subst fill_loop.simps) (auto simp: Let_def)
  qed (subst fill_loop.simps, simp)
qed

lemma fold_draws_frame:
  assumes "\<And>m i x y. i < k \<Longrightarrow> \<not> in_region a n y \<Longrightarrow> wr m i x y = m y"
  shows "\<not> in_region a n y \<Longrightarrow> snd (fold (\<lambda>i (rng, m). let (x, rng) = nxt rng in (rng, wr m i x)) [0..<k] (rng, m)) y = m y"
  using assms by (induction k) (auto simp: Let_def split: prod.splits)

lemma draw_words_frame:
  fixes dst :: u64
  assumes "\<not> in_region dst (k * n) y" "k * n < 2 ^ 64" "0 < n"
    "\<And>m a x y. \<not> in_region a n y \<Longrightarrow> wr m a x y = m y"
  shows "snd (fold (\<lambda>i (rng, m). let (x, rng) = nxt rng in (rng, wr m (dst + of_nat i * of_nat n) x)) [0..<k] (rng, m)) y = m y"
proof (rule fold_draws_frame [OF _ assms(1)])
  fix m i x y assume i: "i < k" and y: "\<not> in_region dst (k * n) y"
  have le: "i * n + n \<le> k * n" using i mult_le_mono1 [of "Suc i" k n] by simp
  have "unat (dst + of_nat i * of_nat n - dst) = i * n" using le assms(2) by (simp flip: of_nat_mult)
  then have "\<not> in_region (dst + of_nat i * of_nat n) n y" using y in_region_sub [of _ n y dst "k * n"] le by force
  then show "wr m (dst + of_nat i * of_nat n) x y = m y" by (rule assms(4))
qed

lemma write_frames:
  "\<not> in_region a 8 y \<Longrightarrow> write64 m a x y = m y" "\<not> in_region a 1 y \<Longrightarrow> write8 m a z y = m y"
  by (simp_all add: write64_def write8_store store_bytes_outside)

text \<open>Filling a buffer of fewer than \<open>2 ^ 35\<close> bytes ends, given fuel for one round per 32 bytes, and stays inside the
  buffer; but it reaches at most an area of \<open>8 * (count div 32)\<close> or \<open>count mod 32\<close> bytes at its start, because it
  writes one word for each block of 32 bytes: of 4096 bytes asked of the random device the last 3072 stay as they were.\<close>

lemma rng_fill_buf_reach:
  assumes "unat count < 2 ^ 35" "unat count div 32 \<le> fuel"
  shows "\<exists>rng' m'. rng_fill_buf fuel rng m dest count = Inr (rng', m')
    \<and> max (8 * (unat count div 32)) (unat count mod 32) \<le> unat count
    \<and> (\<forall>y. in_region dest (max (8 * (unat count div 32)) (unat count mod 32)) y \<or> m' y = m y)"
proof -
  let ?b = "unat count div 32" and ?r = "unat count mod 32"
  have w: "unat (count div 32) = ?b" "unat (count mod 32 div 8) = ?r div 8" "unat (count mod 8) = unat count mod 8"
    by (simp_all add: unat_div unat_mod)
  have b: "?b < 2 ^ 30" using assms(1) by simp
  obtain rng1 m1 where s1: "rng_fill64 fuel rng m dest (count div 32) = Inr (rng1, m1)"
    "\<And>y. \<not> in_region dest (?b * 8) y \<Longrightarrow> m1 y = m y"
    using fill_loop_writes [where n = 8 and wr = write64 and count = "count div 32" and i = 0 and fuel = fuel
        and nxt = rng_next64 and dst = dest and rng = rng and m = m] b assms(2) write_frames(1)
    unfolding w rng_fill64_def by fastforce
  obtain rng2 m2 where s2: "fold (\<lambda>i (rng, m). let (x, rng) = rng_next64 rng in (rng, write64 m (dest + of_nat i * 8) x))
      [0..<?r div 8] (rng1, m1) = (rng2, m2)" by fastforce
  define d8 where "d8 = dest + count mod 32 div 8 * 8"
  obtain rng3 m3 where s3: "fold (\<lambda>i (rng, m). let (x, rng) = rng_next8 rng in (rng, write8 m (d8 + of_nat i) x))
      [0..<unat count mod 8] (rng2, m2) = (rng3, m3)" by fastforce
  have r: "?r = 8 * (?r div 8) + unat count mod 8"
    using mod_mod_cancel [of 8 32 "unat count"] mult_div_mod_eq [of 8 "?r"] by simp
  have "m3 y = m y" if y: "\<not> in_region dest (max (8 * ?b) ?r) y" for y
  proof -
    have "\<not> in_region dest (?b * 8) y" "\<not> in_region dest (?r div 8 * 8) y" using y r by (auto simp: in_region_def)
    then have "m2 y = m y"
      using s1(2) draw_words_frame [where dst = dest and k = "?r div 8" and n = 8 and y = y and wr = write64
          and nxt = rng_next64 and rng = rng1 and m = m1, OF _ _ _ write_frames(1)] s2 by simp
    moreover have "\<not> in_region d8 (unat count mod 8 * 1) y"
    proof
      assume d: "in_region d8 (unat count mod 8 * 1) y"
      have "count mod 32 div 8 * 8 = (of_nat (?r div 8 * 8) :: u64)"
        unfolding w(2) [symmetric] by simp
      moreover have "?r div 8 * 8 < 2 ^ LENGTH(64)" by simp
      ultimately have "unat (d8 - dest) = ?r div 8 * 8" unfolding d8_def by (metis add_diff_cancel_left' unat_of_nat_lt)
      moreover have "?r div 8 * 8 + unat count mod 8 * 1 \<le> max (8 * ?b) ?r" using r by linarith
      ultimately show False using in_region_sub [OF d, of dest "max (8 * ?b) ?r"] y by simp
    qed
    ultimately show ?thesis
      using draw_words_frame [where dst = d8 and k = "unat count mod 8" and n = 1 and y = y and wr = write8
          and nxt = rng_next8 and rng = rng2 and m = m2, OF _ _ _ write_frames(2)] s3 by simp
  qed
  moreover have "rng_fill_buf fuel rng m dest count = Inr (rng3, m3)"
    unfolding rng_fill_buf_def s1(1) using s2 s3 by (simp add: Let_def w d8_def)
  ultimately show ?thesis by auto
qed

lemma rng_fill_buf_reach_witness:
  "\<exists>rng' m'. rng_fill_buf 128 \<lparr>s0 = 1, s1 = 2\<rparr> (\<lambda>_. 0) 0x1000 0x1000 = Inr (rng', m')
    \<and> (\<forall>y. in_region 0x1000 0x400 y \<or> m' y = 0)"
  using rng_fill_buf_reach [of "0x1000" 128 "\<lparr>s0 = 1, s1 = 2\<rparr>" "\<lambda>_. 0" "0x1000"] by auto

end
