(* ===== verification/Packets.thy ===== *)
theory Packets
  imports Checksums Rng Strings
begin

section \<open>Packets (\<open>shared/net\<close>)\<close>

text \<open>
  Construction and parsing of Ethernet, ARP, IPv4, UDP, ICMP and DHCP packets in byte memory.  The
  packed header structs are the offsets of their fields; a \<open>_hdr_at\<close> definition reads all fields of a
  header as a record.  Arrays that a caller passes (hardware addresses) are lists of bytes.
\<close>

record network_connection_ctx =
  port :: u16
  ip :: u32
  mac :: "u8 list"

record sizedptr =
  ptr :: u64
  sz :: u64

subsection \<open>Ethernet (\<open>eth.c\<close>)\<close>

record eth_hdr =
  e_dst_mac :: "u8 list"
  e_src_mac :: "u8 list"
  e_type :: u16

definition eth_hdr_at :: "mem \<Rightarrow> u64 \<Rightarrow> eth_hdr" where
  "eth_hdr_at m p = \<lparr>e_dst_mac = load_bytes m p 6, e_src_mac = load_bytes m (p + 6) 6, e_type = read16 m (p + 12)\<rparr>"

definition create_eth_packet :: "mem \<Rightarrow> u64 \<Rightarrow> u8 list \<Rightarrow> u8 list \<Rightarrow> u16 \<Rightarrow> u64 \<times> mem" where
  "create_eth_packet m p src_mac dst_mac ty =
     (let m = store_bytes m (p + 6) (take 6 src_mac);
          m = store_bytes m p (take 6 dst_mac);
          m = write16 m (p + 12) (bswap16 ty)
      in (p + 14, m))"

definition eth_parse_packet_type :: "mem \<Rightarrow> u64 \<Rightarrow> u16" where
  "eth_parse_packet_type m p = bswap16 (e_type (eth_hdr_at m p))"

definition eth_get_source :: "u64 \<Rightarrow> u64" where
  "eth_get_source p = p + 6"

subsection \<open>ARP (\<open>arp.c\<close>)\<close>

record arp_hdr =
  a_htype :: u16
  a_ptype :: u16
  a_hlen :: u8
  a_plen :: u8
  a_opcode :: u16
  a_sender_mac :: "u8 list"
  a_sender_ip :: u32
  a_target_mac :: "u8 list"
  a_target_ip :: u32

definition arp_hdr_at :: "mem \<Rightarrow> u64 \<Rightarrow> arp_hdr" where
  "arp_hdr_at m p =
     \<lparr>a_htype = read16 m p, a_ptype = read16 m (p + 2), a_hlen = m (p + 4), a_plen = m (p + 5), a_opcode = read16 m (p + 6),
      a_sender_mac = load_bytes m (p + 8) 6, a_sender_ip = read32 m (p + 14),
      a_target_mac = load_bytes m (p + 18) 6, a_target_ip = read32 m (p + 24)\<rparr>"

definition create_arp_packet :: "mem \<Rightarrow> u64 \<Rightarrow> u8 list \<Rightarrow> u32 \<Rightarrow> u8 list \<Rightarrow> u32 \<Rightarrow> bool \<Rightarrow> mem" where
  "create_arp_packet m p src_mac src_ip dst_mac dst_ip is_request =
     (let (p, m) = create_eth_packet m p src_mac (if is_request then replicate 6 0xFF else dst_mac) 0x806;
          m = write16 m p (bswap16 1);
          m = write16 m (p + 2) (bswap16 0x0800);
          m = write8 m (p + 4) 6;
          m = write8 m (p + 5) 4;
          m = write16 m (p + 6) (bswap16 (if is_request then 1 else 2));
          m = store_bytes m (p + 8) (take 6 src_mac);
          m = write32 m (p + 14) (bswap32 src_ip);
          m = store_bytes m (p + 18) (take 6 dst_mac)
      in write32 m (p + 24) (bswap32 dst_ip))"

definition arp_populate_response :: "mem \<Rightarrow> network_connection_ctx \<Rightarrow> u64 \<Rightarrow> network_connection_ctx" where
  "arp_populate_response m ctx arp = ctx\<lparr>mac := a_sender_mac (arp_hdr_at m arp), ip := a_sender_ip (arp_hdr_at m arp)\<rparr>"

definition arp_should_handle :: "mem \<Rightarrow> u64 \<Rightarrow> u32 \<Rightarrow> bool" where
  "arp_should_handle m arp own \<longleftrightarrow> bswap32 (a_target_ip (arp_hdr_at m arp)) = own"

subsection \<open>IPv4 (\<open>ipv4.c\<close>)\<close>

record ipv4_hdr =
  i_version_ihl :: u8
  i_dscp_ecn :: u8
  i_total_length :: u16
  i_identification :: u16
  i_flags_frag_offset :: u16
  i_ttl :: u8
  i_protocol :: u8
  i_header_checksum :: u16
  i_src_ip :: u32
  i_dst_ip :: u32

definition ipv4_hdr_at :: "mem \<Rightarrow> u64 \<Rightarrow> ipv4_hdr" where
  "ipv4_hdr_at m p =
     \<lparr>i_version_ihl = m p, i_dscp_ecn = m (p + 1), i_total_length = read16 m (p + 2), i_identification = read16 m (p + 4),
      i_flags_frag_offset = read16 m (p + 6), i_ttl = m (p + 8), i_protocol = m (p + 9), i_header_checksum = read16 m (p + 10),
      i_src_ip = read32 m (p + 12), i_dst_ip = read32 m (p + 16)\<rparr>"

text \<open>The header up to the checksum, which is computed over whatever the checksum field held before.\<close>

definition ipv4_fields :: "mem \<Rightarrow> u64 \<Rightarrow> u32 \<Rightarrow> u8 \<Rightarrow> u32 \<Rightarrow> u32 \<Rightarrow> mem" where
  "ipv4_fields m p payload_len protocol source_ip destination_ip =
     (let m = write8 m p 0x45;
          m = write8 m (p + 1) 0;
          m = write16 m (p + 2) (bswap16 (ucast (20 + payload_len)));
          m = write16 m (p + 4) 0;
          m = write16 m (p + 6) (bswap16 0x4000);
          m = write8 m (p + 8) 64;
          m = write8 m (p + 9) protocol;
          m = write32 m (p + 12) (bswap32 source_ip)
      in write32 m (p + 16) (bswap32 destination_ip))"

definition create_ipv4_packet :: "mem \<Rightarrow> u64 \<Rightarrow> u32 \<Rightarrow> u8 \<Rightarrow> u32 \<Rightarrow> u32 \<Rightarrow> u64 \<times> mem" where
  "create_ipv4_packet m p payload_len protocol source_ip destination_ip =
     (let m = ipv4_fields m p payload_len protocol source_ip destination_ip
      in (p + 20, write16 m (p + 10) (checksum16 m p 10)))"

definition ipv4_get_protocol :: "mem \<Rightarrow> u64 \<Rightarrow> u8" where
  "ipv4_get_protocol m p = i_protocol (ipv4_hdr_at m p)"

definition ipv4_populate_response :: "mem \<Rightarrow> network_connection_ctx \<Rightarrow> u64 \<Rightarrow> u64 \<Rightarrow> network_connection_ctx" where
  "ipv4_populate_response m ctx eth ipv4 =
     ctx\<lparr>ip := bswap32 (i_src_ip (ipv4_hdr_at m ipv4)), mac := e_src_mac (eth_hdr_at m eth)\<rparr>"

definition ipv4_to_string :: "(u32 \<Rightarrow> bool) \<Rightarrow> ('d \<Rightarrow> bool \<times> u64 \<times> u8 list) \<Rightarrow> u32 \<Rightarrow> fault + str" where
  "ipv4_to_string ok fd a =
     string_format ok fd (Some [37, 105, 46, 37, 105, 46, 37, 105, 46, 37, 105])
       (map (\<lambda>k. ArgInt (ucast (drop_bit k a AND 0xFF))) [24, 16, 8, 0])"

definition ipv4_get_source :: "mem \<Rightarrow> u64 \<Rightarrow> u32" where
  "ipv4_get_source m p = bswap32 (i_src_ip (ipv4_hdr_at m p))"

subsection \<open>UDP (\<open>udp.c\<close>)\<close>

record udp_hdr =
  u_src_port :: u16
  u_dst_port :: u16
  u_length :: u16
  u_checksum :: u16

definition udp_hdr_at :: "mem \<Rightarrow> u64 \<Rightarrow> udp_hdr" where
  "udp_hdr_at m p = \<lparr>u_src_port = read16 m p, u_dst_port = read16 m (p + 2), u_length = read16 m (p + 4), u_checksum = read16 m (p + 6)\<rparr>"

definition create_udp_packet :: "mem \<Rightarrow> u64 \<Rightarrow> network_connection_ctx \<Rightarrow> network_connection_ctx \<Rightarrow> sizedptr \<Rightarrow> mem" where
  "create_udp_packet m p source destination payload =
     (let (p, m) = create_eth_packet m p (mac source) (mac destination) 0x800;
          (udp, m) = create_ipv4_packet m p (ucast (8 + sz payload)) 0x11 (ip source) (ip destination);
          m = write16 m udp (bswap16 (port source));
          m = write16 m (udp + 2) (bswap16 (port destination));
          m = write16 m (udp + 4) (bswap16 (ucast (8 + sz payload)));
          p = udp + 8;
          m = fold (\<lambda>i m. write8 m (p + of_nat i) (m (ptr payload + of_nat i))) [0..<unat (sz payload)] m
      in write16 m (udp + 6) (bswap16 (checksum16_pipv4 m (ip source) (ip destination) 0x11 udp (ucast (8 + sz payload)))))"

definition udp_parse_packet :: "mem \<Rightarrow> u64 \<Rightarrow> u16" where
  "udp_parse_packet m p = bswap16 (u_dst_port (udp_hdr_at m p))"

text \<open>The length is 16 bits wide: a length field below 8 wraps around.\<close>

definition udp_parse_packet_payload :: "mem \<Rightarrow> u64 \<Rightarrow> sizedptr" where
  "udp_parse_packet_payload m p =
     (let eth = p; p = p + 14 in
      if bswap16 (e_type (eth_hdr_at m eth)) = 0x800 then
        let ip4 = p; p = p + 20 in
        if i_protocol (ipv4_hdr_at m ip4) = 0x11 then
          let udp = p; p = p + 8; payload_len = bswap16 (u_length (udp_hdr_at m udp)) - 8
          in \<lparr>ptr = p, sz = ucast payload_len\<rparr>
        else \<lparr>ptr = 0, sz = 0\<rparr>
      else \<lparr>ptr = 0, sz = 0\<rparr>)"

subsection \<open>ICMP (\<open>icmp.c\<close>)\<close>

record icmp_packet =
  c_type :: u8
  c_code :: u8
  c_checksum :: u16
  c_id :: u16
  c_seq :: u16
  c_payload :: "u8 list"

definition icmp_packet_at :: "mem \<Rightarrow> u64 \<Rightarrow> icmp_packet" where
  "icmp_packet_at m p =
     \<lparr>c_type = m p, c_code = m (p + 1), c_checksum = read16 m (p + 2), c_id = read16 m (p + 4), c_seq = read16 m (p + 6),
      c_payload = load_bytes m (p + 8) 56\<rparr>"

record icmp_data =
  response :: u8
  seq :: u16
  icmp_id :: u16
  payload :: "u8 list"

text \<open>The type is swapped as a 16-bit number and cut to its low byte; the checksum is asked over 64 words.\<close>

definition create_icmp_packet :: "mem \<Rightarrow> u64 \<Rightarrow> network_connection_ctx \<Rightarrow> network_connection_ctx \<Rightarrow> icmp_data \<Rightarrow> mem" where
  "create_icmp_packet m p source destination data =
     (let (p, m) = create_eth_packet m p (mac source) (mac destination) 0x800;
          (p, m) = create_ipv4_packet m p 64 0x01 (ip source) (ip destination);
          m = write8 m p (ucast (bswap16 (if response data \<noteq> 0 then 0 else 8)));
          m = write16 m (p + 6) (bswap16 (seq data));
          m = write16 m (p + 4) (bswap16 (icmp_id data));
          m = store_bytes m (p + 8) (take 56 (payload data))
      in write16 m (p + 2) (checksum16 m p 64))"

definition icmp_get_sequence :: "mem \<Rightarrow> u64 \<Rightarrow> u16" where
  "icmp_get_sequence m p = bswap16 (c_seq (icmp_packet_at m p))"

definition icmp_get_id :: "mem \<Rightarrow> u64 \<Rightarrow> u16" where
  "icmp_get_id m p = bswap16 (c_id (icmp_packet_at m p))"

definition icmp_copy_payload :: "mem \<Rightarrow> u64 \<Rightarrow> u64 \<Rightarrow> mem" where
  "icmp_copy_payload m dest p = memcpy m dest (p + 8) 56"

subsection \<open>DHCP (\<open>dhcp.c\<close>)\<close>

record dhcp_packet =
  d_op :: u8
  d_htype :: u8
  d_hlen :: u8
  d_hops :: u8
  d_xid :: u32
  d_secs :: u16
  d_flags :: u16
  d_ciaddr :: u32
  d_yiaddr :: u32
  d_siaddr :: u32
  d_giaddr :: u32
  d_chaddr :: "u8 list"
  d_sname :: "u8 list"
  d_file :: "u8 list"
  d_options :: "u8 list"

record dhcp_request =
  r_mac :: "u8 list"
  server_ip :: u32
  offered_ip :: u32

text \<open>The bytes of the packed struct, 548 of them.\<close>

definition dhcp_bytes :: "dhcp_packet \<Rightarrow> u8 list" where
  "dhcp_bytes d =
     [d_op d, d_htype d, d_hlen d, d_hops d] @ le_bytes 4 (d_xid d) @ le_bytes 2 (d_secs d) @ le_bytes 2 (d_flags d)
     @ le_bytes 4 (d_ciaddr d) @ le_bytes 4 (d_yiaddr d) @ le_bytes 4 (d_siaddr d) @ le_bytes 4 (d_giaddr d)
     @ d_chaddr d @ d_sname d @ d_file d @ d_options d"

text \<open>\<open>memcpy\<close> into an array that is a list.\<close>

definition copy_at :: "nat \<Rightarrow> u8 list \<Rightarrow> u8 list \<Rightarrow> u8 list" where
  "copy_at i bs xs = take i xs @ bs @ drop (i + length bs) xs"

definition dhcp_options :: "dhcp_request \<Rightarrow> u8 list" where
  "dhcp_options req =
     (let os = (replicate 312 0)[0 := 0x63, 1 := 0x82, 2 := 0x53, 3 := 0x63, 4 := 53, 5 := 1] in
      if server_ip req \<noteq> 0 \<and> offered_ip req \<noteq> 0 then
        let os = os[6 := 3, 7 := 50, 8 := 4];
            os = copy_at 9 (le_bytes 4 (offered_ip req)) os;
            os = os[13 := 54, 14 := 4];
            os = copy_at 15 (le_bytes 4 (server_ip req)) os
        in os[19 := 255]
      else os[6 := 1, 7 := 255])"

text \<open>\<open>stack\<close> is the address of the local packet, \<open>cntvct\<close> the counter that seeds the generator.\<close>

definition create_dhcp_packet :: "u64 \<Rightarrow> u64 \<Rightarrow> mem \<Rightarrow> u64 \<Rightarrow> dhcp_request \<Rightarrow> mem" where
  "create_dhcp_packet cntvct stack m p req =
     (let source = \<lparr>port = 68, ip = 0, mac = take 6 (r_mac req)\<rparr>;
          destination = \<lparr>port = 67, ip = push_bit 24 255 OR push_bit 16 255 OR push_bit 8 255 OR 255, mac = replicate 6 0xFF\<rparr>;
          rng = rng_init_random cntvct \<lparr>s0 = 0, s1 = 0\<rparr>;
          packet = \<lparr>d_op = 1, d_htype = 1, d_hlen = 6, d_hops = 0, d_xid = fst (rng_next32 rng), d_secs = 0,
            d_flags = bswap16 0x8000, d_ciaddr = 0, d_yiaddr = 0, d_siaddr = 0, d_giaddr = 0,
            d_chaddr = copy_at 0 (take 6 (r_mac req)) (replicate 16 0), d_sname = replicate 64 0, d_file = replicate 128 0,
            d_options = dhcp_options req\<rparr>;
          m = store_bytes m stack (dhcp_bytes packet)
      in create_udp_packet m p source destination \<lparr>ptr = stack, sz = 548\<rparr>)"

definition dhcp_parse_packet_payload :: "mem \<Rightarrow> u64 \<Rightarrow> u64" where
  "dhcp_parse_packet_payload m p = ptr (udp_parse_packet_payload m p)"

text \<open>The options start at offset 236.\<close>

definition dhcp_parse_option :: "mem \<Rightarrow> u64 \<Rightarrow> u16 \<Rightarrow> u16" where
  "dhcp_parse_option m pack option =
     (case List.find (\<lambda>i. ucast (m (pack + 236 + of_nat i)) = option) [0..<312] of Some i \<Rightarrow> of_nat i | None \<Rightarrow> 0)"

subsection \<open>Fields of a packet\<close>

text \<open>A load from one field does not see a store to another.\<close>

lemma load_store_field:
  assumes "unat a + n \<le> unat b \<or> unat b + length bs \<le> unat a" "unat a + n \<le> 2 ^ 64" "unat b + length bs \<le> 2 ^ 64"
  shows "load_bytes (store_bytes m (p + b) bs) (p + a) n = load_bytes m (p + a) n"
proof (cases "n = 0 \<or> bs = []")
  case False
  then have ne: "a \<noteq> b" using assms(1) by auto
  have eq: "p + a - (p + b) = a - b" "p + b - (p + a) = b - a" by simp_all
  have s: "unat (a - b) + unat (b - a) = 2 ^ 64" using unat_diff_swap [OF ne] by simp
  have d: "unat a + n \<le> unat b \<and> unat (b - a) = unat b - unat a
      \<or> unat b + length bs \<le> unat a \<and> unat (a - b) = unat a - unat b"
    using assms(1) by (auto simp: unat_sub word_le_nat_alt)
  have "n \<le> unat (b - a)" "length bs \<le> unat (a - b)" using d s assms(2,3) by linarith+
  then have "disj_regions (p + a) n (p + b) (length bs)" unfolding disj_regions_def eq by blast
  then show ?thesis using assms(2) by (intro load_store_disj) auto
qed auto

lemmas load_store_field_0 = load_store_field [where b = 0, simplified] load_store_field [where a = 0, simplified]

lemma byte_load: "m x = hd (load_bytes m x 1)"
  by simp

lemma store_field_byte:
  assumes "unat a < unat b \<or> unat b + length bs \<le> unat a" "unat b + length bs \<le> 2 ^ 64"
  shows "store_bytes m (p + b) bs (p + a) = m (p + a)"
proof -
  have a: "unat a + 1 \<le> 2 ^ 64" using unat_lt_2p [of a] by simp
  have "unat a + 1 \<le> unat b \<or> unat b + length bs \<le> unat a" using assms(1) by linarith
  from load_store_field [OF this a assms(2), of m p] show ?thesis by simp
qed

lemmas store_field_byte_0 = store_field_byte [where b = 0, simplified] store_field_byte [where a = 0, simplified]

lemma store_byte_same: "store_bytes m a [v] a = v"
  by (simp add: store_bytes_def)

lemmas packet_simps = write8_store write16_def write32_def read16_def read32_def load_store_field load_store_field_0
  store_field_byte store_field_byte_0 store_byte_same add.assoc

lemma le_bytes_sums [simp]: "of_le (rev (le_bytes 2 a)) = bswap16 a" "of_le (rev (le_bytes 4 b)) = bswap32 b"
  by (simp_all add: bswap16_def bswap32_def)

text \<open>Two bytes written big endian are the word the checksum adds.\<close>

lemma be_pair_written:
  "be_pair (store_bytes m a (le_bytes 2 (bswap16 v)) a) (store_bytes m a (le_bytes 2 (bswap16 v)) (a + 1)) = ucast v"
proof -
  have n: "rev (le_bytes 2 v) ! 0 = ucast (drop_bit 8 v)" "rev (le_bytes 2 v) ! 1 = ucast v"
    by (simp_all add: rev_nth)
  have "store_bytes m a (le_bytes 2 (bswap16 v)) a = ucast (drop_bit 8 v)"
    "store_bytes m a (le_bytes 2 (bswap16 v)) (a + 1) = ucast v"
    using n by (simp_all add: store_bytes_def)
  moreover have "push_bit 8 (ucast (ucast (drop_bit 8 v) :: u8)) OR ucast (ucast v :: u8) = (ucast v :: u32)"
  proof (rule bit_word_eqI)
    fix n assume "n < LENGTH(32)"
    moreover have "n < 16" if "bit v n" using bit_imp_le_length [OF that] by simp
    ultimately show "bit (push_bit 8 (ucast (ucast (drop_bit 8 v) :: u8)) OR ucast (ucast v :: u8) :: u32) n \<longleftrightarrow> bit (ucast v :: u32) n"
      by (auto simp: bit_simps)
  qed
  ultimately show ?thesis by (simp only: be_pair_def)
qed

lemma create_eth_packet_parses:
  assumes "length src = 6" "length dst = 6"
  shows "eth_hdr_at (snd (create_eth_packet m p src dst ty)) p = \<lparr>e_dst_mac = dst, e_src_mac = src, e_type = bswap16 ty\<rparr>"
  using assms by (simp add: eth_hdr_at_def create_eth_packet_def packet_simps del: le_bytes_bswap)

text \<open>An ARP packet built for a target is read back field by field in network order: a request goes to the
  broadcast address, the receiver handles it exactly when the target address is its own; but the address it learns from
  it is left in network order.\<close>

lemma arp_roundtrip:
  assumes "length src_mac = 6" "length dst_mac = 6" and m'_def: "m' = create_arp_packet m p src_mac src_ip dst_mac dst_ip req"
  shows "eth_parse_packet_type m' p = 0x806
     \<and> e_dst_mac (eth_hdr_at m' p) = (if req then replicate 6 0xFF else dst_mac)
     \<and> arp_hdr_at m' (p + 14) = \<lparr>a_htype = bswap16 1, a_ptype = bswap16 0x800, a_hlen = 6, a_plen = 4,
         a_opcode = bswap16 (if req then 1 else 2), a_sender_mac = src_mac, a_sender_ip = bswap32 src_ip,
         a_target_mac = dst_mac, a_target_ip = bswap32 dst_ip\<rparr>
     \<and> (arp_should_handle m' (p + 14) own \<longleftrightarrow> own = dst_ip)
     \<and> arp_populate_response m' ctx (p + 14) = ctx\<lparr>mac := src_mac, ip := bswap32 src_ip\<rparr>"
proof -
  have h: "arp_hdr_at m' (p + 14) = \<lparr>a_htype = bswap16 1, a_ptype = bswap16 0x800, a_hlen = 6, a_plen = 4,
         a_opcode = bswap16 (if req then 1 else 2), a_sender_mac = src_mac, a_sender_ip = bswap32 src_ip,
         a_target_mac = dst_mac, a_target_ip = bswap32 dst_ip\<rparr>"
    using assms(1,2) unfolding m'_def create_arp_packet_def create_eth_packet_def arp_hdr_at_def Let_def
    by (simp add: packet_simps del: le_bytes_bswap)
  have "e_type (eth_hdr_at m' p) = bswap16 0x806" "e_dst_mac (eth_hdr_at m' p) = (if req then replicate 6 0xFF else dst_mac)"
    using assms(1,2) unfolding m'_def create_arp_packet_def create_eth_packet_def eth_hdr_at_def Let_def
    by (simp_all add: packet_simps del: le_bytes_bswap)
  then show ?thesis
    using h by (auto simp: eth_parse_packet_type_def arp_should_handle_def arp_populate_response_def)
qed

lemma arp_roundtrip_witness:
  "arp_should_handle (create_arp_packet (\<lambda>_. 0) 0x1000 [2, 0, 0, 0, 0, 1] 0x0A000001 [2, 0, 0, 0, 0, 2] 0x0A000002 True) 0x100E 0x0A000002"
  using arp_roundtrip [of "[2, 0, 0, 0, 0, 1]" "[2, 0, 0, 0, 0, 2]" _ "\<lambda>_. 0" "0x1000" "0x0A000001" "0x0A000002" True "0x0A000002", OF _ _ refl]
  by simp

subsection \<open>The checksum of the IPv4 header\<close>

lemma nat_lt_10: "i < 10 \<longleftrightarrow> i \<in> {0, 1, 2, 3, 4, 5, 6, 7, 8, 9 :: nat}"
  by auto

lemma create_ipv4_packet_parses:
  "ipv4_hdr_at (snd (create_ipv4_packet m p n pr src dst)) p =
     \<lparr>i_version_ihl = 0x45, i_dscp_ecn = 0, i_total_length = bswap16 (ucast (20 + n)), i_identification = 0,
      i_flags_frag_offset = bswap16 0x4000, i_ttl = 64, i_protocol = pr,
      i_header_checksum = checksum16 (ipv4_fields m p n pr src dst) p 10, i_src_ip = bswap32 src, i_dst_ip = bswap32 dst\<rparr>"
  unfolding ipv4_hdr_at_def create_ipv4_packet_def Let_def snd_conv ipv4_fields_def
  by (simp add: packet_simps del: le_bytes_bswap)

lemma ipv4_checksum_verifies:
  assumes "read16 m (p + 10) = 0"
    "\<And>i. i < 10 \<Longrightarrow> read16 m' (p + 2 * of_nat i) = read16 (snd (create_ipv4_packet m p n pr src dst)) (p + 2 * of_nat i)"
  shows "checksum16 m' p 10 = 0"
proof (rule checksum16_verifies [where k = 5 and m = "ipv4_fields m p n pr src dst"])
  show "read16 (ipv4_fields m p n pr src dst) (p + 2 * of_nat 5) = 0"
    using assms(1) unfolding ipv4_fields_def Let_def by (simp add: packet_simps)
  show "read16 m' (p + 2 * of_nat 5) = checksum16 (ipv4_fields m p n pr src dst) p 10"
    using assms(2) [of 5] by (simp add: create_ipv4_packet_def Let_def)
  fix i assume "i < unat (10 :: u64)" "i \<noteq> 5"
  then have i: "i < 10" "i \<noteq> 5" by simp_all
  have "(2 * of_nat i :: u64) = of_nat (2 * i)" by simp
  moreover have "unat (of_nat (2 * i) :: u64) = 2 * i" using i by (intro unat_of_nat_lt) simp
  ultimately have "unat (2 * of_nat i :: u64) = 2 * i" by (simp only:)
  moreover have "2 * i + 2 \<le> 10 \<or> 12 \<le> 2 * i" using i by linarith
  ultimately have "load_bytes (store_bytes (ipv4_fields m p n pr src dst) (p + 10) (le_bytes 2 c)) (p + 2 * of_nat i) 2
      = load_bytes (ipv4_fields m p n pr src dst) (p + 2 * of_nat i) 2" for c :: u16
    using i by (intro load_store_field) simp_all
  then show "read16 m' (p + 2 * of_nat i) = read16 (ipv4_fields m p n pr src dst) (p + 2 * of_nat i)"
    unfolding assms(2) [OF i(1)] by (simp add: create_ipv4_packet_def Let_def write16_def read16_def)
qed simp_all

subsection \<open>A UDP packet arrives as it was sent\<close>

lemma store_field_frame:
  assumes "\<not> in_region p n x" "unat a + length bs \<le> n"
  shows "store_bytes m (p + a) bs x = m x"
proof (rule store_bytes_outside, rule notI)
  assume "in_region (p + a) (length bs) x"
  from in_region_sub [OF this, of p n] assms show False by simp
qed

lemmas store_field_frame_0 = store_field_frame [where a = 0, simplified]

text \<open>The packet before the UDP checksum is stored.\<close>

definition udp_headers :: "mem \<Rightarrow> u64 \<Rightarrow> network_connection_ctx \<Rightarrow> network_connection_ctx \<Rightarrow> u64 \<Rightarrow> mem" where
  "udp_headers m p s d n =
     (let m = snd (create_eth_packet m p (mac s) (mac d) 0x800);
          m = snd (create_ipv4_packet m (p + 14) (ucast (8 + n)) 0x11 (ip s) (ip d));
          m = write16 m (p + 34) (bswap16 (port s));
          m = write16 m (p + 36) (bswap16 (port d))
      in write16 m (p + 38) (bswap16 (ucast (8 + n))))"

lemma udp_headers_frame:
  assumes "length (mac s) = 6" "length (mac d) = 6" "\<not> in_region p 42 x"
  shows "udp_headers m p s d n x = m x"
  unfolding udp_headers_def create_eth_packet_def create_ipv4_packet_def ipv4_fields_def Let_def snd_conv
  using assms(1,2) by (simp add: store_field_frame [OF assms(3)] store_field_frame_0 [OF assms(3)] packet_simps)

lemma create_udp_packet_eq:
  assumes "unat n \<le> 65527" "length (mac s) = 6" "length (mac d) = 6" "disj_regions p (42 + unat n) src (unat n)"
  shows "create_udp_packet m p s d \<lparr>ptr = src, sz = n\<rparr> =
    (let b = store_bytes (udp_headers m p s d n) (p + 42) (load_bytes m src (unat n))
     in write16 b (p + 40) (bswap16 (checksum16_pipv4 b (ip s) (ip d) 0x11 (p + 34) (ucast (8 + n)))))"
proof -
  let ?h = "udp_headers m p s d n"
  have d: "disj_regions (p + 42) (unat n) src (unat n)"
  proof (cases "unat n = 0")
    case False
    then show ?thesis by (intro disj_regions_sub [OF assms(4)]) simp_all
  qed (simp add: disj_regions_def)
  have "load_bytes ?h src (unat n) = load_bytes m src (unat n)"
  proof (rule load_bytes_cong)
    fix x assume x: "in_region src (unat n) x"
    then have "\<not> in_region p (42 + unat n) x" using assms(4) disj_regionsD disj_regions_commute by blast
    then have "\<not> in_region p 42 x" by (simp add: in_region_def)
    then show "?h x = m x" by (rule udp_headers_frame [OF assms(2,3)])
  qed (rule unat_le_64)
  then have "fold (\<lambda>i m. write8 m (p + 42 + of_nat i) (m (src + of_nat i))) [0..<unat n] ?h
      = store_bytes ?h (p + 42) (load_bytes m src (unat n))"
    using fold_copy_bytes [OF d unat_le_64, of ?h] by simp
  then show ?thesis
    unfolding create_udp_packet_def udp_headers_def create_eth_packet_def create_ipv4_packet_def Let_def
    by (simp add: add.assoc)
qed

lemma load_bytes_2: "load_bytes m a 2 = [m a, m (a + 1)]"
  by (simp add: load_bytes_def numeral_2_eq_2)

lemma udp_length:
  "unat n \<le> 65527 \<Longrightarrow> unat (ucast (8 + n :: u64) :: u16) = 8 + unat n"
  "unat n \<le> 65527 \<Longrightarrow> ucast (ucast (8 + n :: u64) - 8 :: u16) = n"
proof -
  assume n: "unat n \<le> 65527"
  have "unat (8 + n) = 8 + unat n" using n by (subst unat_add_small) simp_all
  then show l: "unat (ucast (8 + n :: u64) :: u16) = 8 + unat n" using n by (simp add: unat_ucast_mod)
  then have "(8 :: u16) \<le> ucast (8 + n)" by (simp add: word_le_nat_alt)
  then have "unat (ucast (8 + n) - 8 :: u16) = unat n" by (simp add: unat_sub l)
  then show "ucast (ucast (8 + n :: u64) - 8 :: u16) = n"
    using n by (simp add: word_unat_eq_iff unat_ucast_mod)
qed

lemma udp_packet_fields:
  assumes "unat n \<le> 65527" "length (mac s) = 6" "length (mac d) = 6" "length bs = unat n"
    "r = store_bytes (store_bytes (udp_headers m p s d n) (p + 42) bs) (p + 40) [x, y]"
  shows "eth_hdr_at r p = \<lparr>e_dst_mac = mac d, e_src_mac = mac s, e_type = bswap16 0x800\<rparr>"
    "i_protocol (ipv4_hdr_at r (p + 14)) = 0x11" "i_src_ip (ipv4_hdr_at r (p + 14)) = bswap32 (ip s)"
    "u_dst_port (udp_hdr_at r (p + 34)) = bswap16 (port d)" "u_length (udp_hdr_at r (p + 34)) = bswap16 (ucast (8 + n))"
    "load_bytes r (p + 42) (unat n) = bs"
  unfolding assms(5) eth_hdr_at_def ipv4_hdr_at_def udp_hdr_at_def udp_headers_def create_eth_packet_def
    create_ipv4_packet_def ipv4_fields_def Let_def snd_conv
  using assms(1-4) by (simp_all add: packet_simps del: le_bytes_bswap)

lemma udp_packet_ip_checksum:
  assumes "unat n \<le> 65527" "length (mac s) = 6" "length (mac d) = 6" "length bs = unat n" "m (p + 24) = 0" "m (p + 25) = 0"
    "r = store_bytes (store_bytes (udp_headers m p s d n) (p + 42) bs) (p + 40) [x, y]"
  shows "checksum16 r (p + 14) 10 = 0"
proof (rule ipv4_checksum_verifies)
  let ?m = "snd (create_eth_packet m p (mac s) (mac d) 0x800)"
  show "read16 ?m (p + 14 + 10) = 0"
    unfolding create_eth_packet_def Let_def snd_conv using assms(2,3,5,6) by (simp add: packet_simps load_bytes_2)
  fix i :: nat assume i: "i < 10"
  define h where "h = snd (create_ipv4_packet ?m (p + 14) (ucast (8 + n)) 0x11 (ip s) (ip d))"
  have "read16 r (p + 14 + 2 * of_nat i) = read16 h (p + 14 + 2 * of_nat i)"
    unfolding assms(7) udp_headers_def Let_def h_def [symmetric]
    using i assms(1,4) unfolding nat_lt_10 by (elim insertE emptyE; hypsubst; simp add: packet_simps)
  then show "read16 r (p + 14 + 2 * of_nat i)
      = read16 (snd (create_ipv4_packet ?m (p + 14) (ucast (8 + n)) 0x11 (ip s) (ip d))) (p + 14 + 2 * of_nat i)"
    unfolding h_def .
qed

lemma udp_packet_checksum:
  assumes "unat n \<le> 65527" "length (mac s) = 6" "length (mac d) = 6" "length bs = unat n" "m (p + 40) = 0" "m (p + 41) = 0"
    "b = store_bytes (udp_headers m p s d n) (p + 42) bs"
    "r = write16 b (p + 40) (bswap16 (checksum16_pipv4 b (ip s) (ip d) 0x11 (p + 34) (ucast (8 + n))))"
  shows "checksum16_pipv4 r (ip s) (ip d) 0x11 (p + 34) (ucast (8 + n)) = 0"
proof (rule pipv4_verifies [where k = 3 and m = b])
  have z: "b (p + 40) = 0" "b (p + 41) = 0"
    unfolding assms(7) udp_headers_def create_eth_packet_def create_ipv4_packet_def ipv4_fields_def Let_def snd_conv
    using assms(1-6) by (simp_all add: packet_simps)
  then show "b (p + 34 + 2 * of_nat 3) = 0" "b (p + 34 + 2 * of_nat 3 + 1) = 0" by (simp_all add: add.assoc)
  show "3 < unat (ucast (8 + n) :: u16) div 2" "unat (ucast (8 + n) :: u16) \<le> 65535"
    using assms(1) by (simp_all add: udp_length)
  show "be_pair (r (p + 34 + 2 * of_nat 3)) (r (p + 34 + 2 * of_nat 3 + 1))
      = ucast (checksum16_pipv4 b (ip s) (ip d) 0x11 (p + 34) (ucast (8 + n)))"
    unfolding assms(8) write16_def using be_pair_written [of b "p + 40"] by (simp add: add.assoc del: le_bytes_bswap)
  fix i assume i: "i < unat (ucast (8 + n) :: u16)" "i \<noteq> 2 * 3" "i \<noteq> 2 * 3 + 1"
  then have l: "i < 65536" using assms(1) by (simp add: udp_length)
  have "unat (p + 34 + of_nat i - (p + 40)) \<ge> 2"
  proof (cases "i < 6")
    case True
    then have "i \<in> {0, 1, 2, 3, 4, 5}" by auto
    then show ?thesis by (auto simp: unsigned_minus_1_eq_mask mask_eq_exp_minus_1)
  next
    case False
    then have "p + 34 + of_nat i - (p + 40) = of_nat (i - 6)" by (simp add: of_nat_diff)
    moreover have "unat (of_nat (i - 6) :: u64) = i - 6" using l by (intro unat_of_nat_lt) simp
    ultimately show ?thesis using False i by simp
  qed
  then show "r (p + 34 + of_nat i) = b (p + 34 + of_nat i)"
    unfolding assms(8) write16_def by (intro store_bytes_outside) (simp add: in_region_def)
qed

lemma udp_packet_arrives:
  assumes "unat n \<le> 65527" "length (mac s) = 6" "length (mac d) = 6" "disj_regions p (42 + unat n) src (unat n)"
    "m (p + 24) = 0" "m (p + 25) = 0" "m (p + 40) = 0" "m (p + 41) = 0"
    "r = create_udp_packet m p s d \<lparr>ptr = src, sz = n\<rparr>"
  shows "eth_parse_packet_type r p = 0x800 \<and> e_src_mac (eth_hdr_at r p) = mac s \<and> e_dst_mac (eth_hdr_at r p) = mac d
    \<and> ipv4_get_protocol r (p + 14) = 0x11 \<and> ipv4_get_source r (p + 14) = ip s
    \<and> udp_parse_packet r (p + 34) = port d
    \<and> udp_parse_packet_payload r p = \<lparr>ptr = p + 42, sz = n\<rparr>
    \<and> load_bytes r (p + 42) (unat n) = load_bytes m src (unat n)
    \<and> checksum16 r (p + 14) 10 = 0 \<and> checksum16_pipv4 r (ip s) (ip d) 0x11 (p + 34) (ucast (8 + n)) = 0"
proof -
  define b where "b = store_bytes (udp_headers m p s d n) (p + 42) (load_bytes m src (unat n))"
  define c where "c = bswap16 (checksum16_pipv4 b (ip s) (ip d) 0x11 (p + 34) (ucast (8 + n)))"
  have r: "r = write16 b (p + 40) c"
    unfolding assms(9) create_udp_packet_eq [OF assms(1-4)] Let_def b_def c_def by (rule refl)
  have c: "le_bytes 2 c = [ucast c, ucast (drop_bit 8 c)]" by (simp add: le_bytes_def numeral_2_eq_2)
  have l: "length (load_bytes m src (unat n)) = unat n" by simp
  have r': "r = store_bytes (store_bytes (udp_headers m p s d n) (p + 42) (load_bytes m src (unat n))) (p + 40)
      [ucast c, ucast (drop_bit 8 c)]"
    unfolding r write16_def c b_def by (rule refl)
  note fields = udp_packet_fields [OF assms(1-3) l r']
  have "checksum16 r (p + 14) 10 = 0" by (rule udp_packet_ip_checksum [OF assms(1-3) l assms(5,6) r'])
  moreover have "checksum16_pipv4 r (ip s) (ip d) 0x11 (p + 34) (ucast (8 + n)) = 0"
    by (rule udp_packet_checksum [OF assms(1-3) l assms(7,8) b_def]) (simp only: r c_def)
  moreover have "udp_parse_packet_payload r p = \<lparr>ptr = p + 42, sz = n\<rparr>"
    unfolding udp_parse_packet_payload_def Let_def using fields udp_length(2) [OF assms(1)] by (simp add: add.assoc)
  ultimately show ?thesis
    using fields by (simp add: eth_parse_packet_type_def ipv4_get_protocol_def ipv4_get_source_def udp_parse_packet_def)
qed

text \<open>C20: A UDP packet that the code builds from a payload of up to 65527 bytes is taken apart by the code into the same
  type, protocol, source address, destination port and payload, and, when the two checksum fields of the buffer were zero
  before, a receiver finds both its checksums right.\<close>

theorem udp_roundtrip:
  assumes "unat n \<le> 65527" "length (mac s) = 6" "length (mac d) = 6" "disj_regions p (42 + unat n) src (unat n)"
    "m (p + 24) = 0" "m (p + 25) = 0" "m (p + 40) = 0" "m (p + 41) = 0"
    "r = create_udp_packet m p s d \<lparr>ptr = src, sz = n\<rparr>"
  shows "eth_parse_packet_type r p = 0x800 \<and> e_src_mac (eth_hdr_at r p) = mac s \<and> e_dst_mac (eth_hdr_at r p) = mac d
    \<and> ipv4_get_protocol r (p + 14) = 0x11 \<and> ipv4_get_source r (p + 14) = ip s
    \<and> udp_parse_packet r (p + 34) = port d
    \<and> udp_parse_packet_payload r p = \<lparr>ptr = p + 42, sz = n\<rparr>
    \<and> load_bytes r (p + 42) (unat n) = load_bytes m src (unat n)
    \<and> checksum16 r (p + 14) 10 = 0 \<and> checksum16_pipv4 r (ip s) (ip d) 0x11 (p + 34) (ucast (8 + n)) = 0"
  by (rule udp_packet_arrives [OF assms])

theorem udp_roundtrip_witness:
  "udp_parse_packet_payload (create_udp_packet (\<lambda>_. 0) 0x1000 \<lparr>port = 68, ip = 0x0A000001, mac = [2, 0, 0, 0, 0, 1]\<rparr>
     \<lparr>port = 67, ip = 0x0A000002, mac = [2, 0, 0, 0, 0, 2]\<rparr> \<lparr>ptr = 0x2000, sz = 9\<rparr>) 0x1000 = \<lparr>ptr = 0x102A, sz = 9\<rparr>"
  using udp_roundtrip [of 9 "\<lparr>port = 68, ip = 0x0A000001, mac = [2, 0, 0, 0, 0, 1]\<rparr>"
      "\<lparr>port = 67, ip = 0x0A000002, mac = [2, 0, 0, 0, 0, 2]\<rparr>" "0x1000" "0x2000" "\<lambda>_. 0", OF _ _ _ _ _ _ _ _ refl]
  by (simp add: disj_regions_def)

subsection \<open>ICMP and DHCP\<close>

lemma ucast_bswap16: "(ucast (bswap16 v) :: u8) = ucast (drop_bit 8 v)"
  unfolding bswap16_def
  by (rule bit_word_eqI) (auto simp: bit_simps bit_of_le rev_nth simp del: le_bytes_sums)

lemma create_icmp_packet_stores:
  "\<exists>c1 c2. create_icmp_packet m p s d data =
     write16 (store_bytes (write16 (write16 (write8
       (write16 (ipv4_fields (snd (create_eth_packet m p (mac s) (mac d) 0x800)) (p + 14) 64 1 (ip s) (ip d)) (p + 24) c1)
       (p + 34) 0) (p + 40) (bswap16 (seq data))) (p + 38) (bswap16 (icmp_id data))) (p + 42) (take 56 (payload data))) (p + 36) c2"
proof -
  have swap: "(ucast (bswap16 (if c then 0 else 8)) :: u8) = 0" for c
    by (simp add: ucast_bswap16)
  have at: "p + 14 + 20 = p + 34" "p + 14 + 10 = p + 24" "p + 34 + 6 = p + 40" "p + 34 + 4 = p + 38" "p + 34 + 8 = p + 42"
    "p + 34 + 2 = p + 36" by (simp_all add: add.assoc)
  show ?thesis
    unfolding create_icmp_packet_def create_eth_packet_def create_ipv4_packet_def Let_def snd_conv prod.case swap at
    by (intro exI) (rule refl)
qed

lemma create_icmp_packet_fields:
  assumes "length (mac s) = 6" "length (mac d) = 6" "length (payload data) = 56"
    "r = create_icmp_packet m p s d data"
  shows "eth_parse_packet_type r p = 0x800" "i_protocol (ipv4_hdr_at r (p + 14)) = 1"
    "c_type (icmp_packet_at r (p + 34)) = 0" "c_seq (icmp_packet_at r (p + 34)) = bswap16 (seq data)"
    "c_id (icmp_packet_at r (p + 34)) = bswap16 (icmp_id data)" "c_payload (icmp_packet_at r (p + 34)) = payload data"
proof -
  obtain c1 c2 where r: "r =
     write16 (store_bytes (write16 (write16 (write8
       (write16 (ipv4_fields (snd (create_eth_packet m p (mac s) (mac d) 0x800)) (p + 14) 64 1 (ip s) (ip d)) (p + 24) c1)
       (p + 34) 0) (p + 40) (bswap16 (seq data))) (p + 38) (bswap16 (icmp_id data))) (p + 42) (take 56 (payload data))) (p + 36) c2"
    using create_icmp_packet_stores [of m p s d data] unfolding assms(4) by blast
  note defs = eth_parse_packet_type_def eth_hdr_at_def ipv4_hdr_at_def icmp_packet_at_def ipv4_fields_def Let_def create_eth_packet_def snd_conv
  show "eth_parse_packet_type r p = 0x800" "i_protocol (ipv4_hdr_at r (p + 14)) = 1"
    "c_type (icmp_packet_at r (p + 34)) = 0" "c_seq (icmp_packet_at r (p + 34)) = bswap16 (seq data)"
    "c_id (icmp_packet_at r (p + 34)) = bswap16 (icmp_id data)" "c_payload (icmp_packet_at r (p + 34)) = payload data"
    unfolding r defs using assms(1-3) by (simp_all add: packet_simps del: le_bytes_bswap)
qed

text \<open>An ICMP packet is read back with its identifier, sequence number and payload, but its type is 0, an echo reply, also
  when the caller asks for an echo request: the type is byte-swapped as a 16-bit number before it is stored in 8 bits.\<close>

lemma icmp_request_is_reply:
  assumes "length (mac s) = 6" "length (mac d) = 6" "length (payload data) = 56"
  shows "ipv4_get_protocol (create_icmp_packet m p s d data) (p + 14) = 1
    \<and> icmp_get_sequence (create_icmp_packet m p s d data) (p + 34) = seq data
    \<and> icmp_get_id (create_icmp_packet m p s d data) (p + 34) = icmp_id data
    \<and> c_payload (icmp_packet_at (create_icmp_packet m p s d data) (p + 34)) = payload data
    \<and> c_type (icmp_packet_at (create_icmp_packet m p s d data) (p + 34)) = 0"
  using create_icmp_packet_fields [OF assms refl, of m p]
  by (simp add: ipv4_get_protocol_def icmp_get_sequence_def icmp_get_id_def)

lemma icmp_request_is_reply_witness:
  "c_type (icmp_packet_at (create_icmp_packet (\<lambda>_. 0) 0x1000 \<lparr>port = 0, ip = 1, mac = replicate 6 1\<rparr>
     \<lparr>port = 0, ip = 2, mac = replicate 6 2\<rparr> \<lparr>response = 0, seq = 1, icmp_id = 7, payload = replicate 56 65\<rparr>) 0x1022) = 0"
  using icmp_request_is_reply [of "\<lparr>port = 0, ip = 1, mac = replicate 6 1\<rparr>" "\<lparr>port = 0, ip = 2, mac = replicate 6 2\<rparr>"
      "\<lparr>response = 0, seq = 1, icmp_id = 7, payload = replicate 56 65\<rparr>" "\<lambda>_. 0" "0x1000"]
  by simp

lemma le_bytes_4: "le_bytes 4 w = [ucast w, ucast (drop_bit 8 w), ucast (drop_bit 16 w), ucast (drop_bit 24 w)]"
  by (simp add: le_bytes_def upt_rec)

lemma dhcp_options_request:
  assumes "server_ip req \<noteq> 0" "offered_ip req \<noteq> 0"
  shows "dhcp_options req = [0x63, 0x82, 0x53, 0x63, 53, 1, 3, 50, 4] @ le_bytes 4 (offered_ip req) @ [54, 4]
     @ le_bytes 4 (server_ip req) @ [255] @ replicate 292 0"
proof -
  have r: "replicate 312 (0 :: u8) = [0,0,0,0,0, 0,0,0,0,0, 0,0,0,0,0, 0,0,0,0,0] @ replicate 292 0"
  proof -
    have "replicate 312 (0 :: u8) = replicate 20 0 @ replicate 292 0" by (simp flip: replicate_add)
    moreover have "replicate 20 (0 :: u8) = [0,0,0,0,0, 0,0,0,0,0, 0,0,0,0,0, 0,0,0,0,0]" by (simp add: eval_nat_numeral)
    ultimately show ?thesis by (simp only:)
  qed
  obtain a b c d where o: "le_bytes 4 (offered_ip req) = [a, b, c, d]" using le_bytes_4 by blast
  obtain a' b' c' d' where s: "le_bytes 4 (server_ip req) = [a', b', c', d']" using le_bytes_4 by blast
  show ?thesis using assms unfolding dhcp_options_def Let_def r o s
    by (simp add: copy_at_def eval_nat_numeral del: replicate_Suc)
qed

lemma dhcp_parse_option_first:
  assumes "load_bytes m (pack + 236) 312 = os" "i < 312" "ucast (os ! i) = opt" "\<forall>j<i. ucast (os ! j) \<noteq> opt"
  shows "dhcp_parse_option m pack opt = of_nat i"
proof -
  have b: "m (pack + 236 + of_nat j) = os ! j" if "j < 312" for j
    unfolding assms(1) [symmetric] using that by simp
  have "List.find (\<lambda>i. ucast (m (pack + 236 + of_nat i)) = opt) [0..<312] = Some i"
    unfolding find_Some_iff using assms(2-4) by (intro exI [of _ i]) (auto simp: b)
  then show ?thesis by (simp add: dhcp_parse_option_def)
qed

lemma dhcp_parse_option_split:
  assumes "load_bytes m (pack + 236) 312 = xs @ y # ys" "length xs < 312" "ucast y = opt" "\<forall>x\<in>set xs. ucast x \<noteq> opt"
  shows "dhcp_parse_option m pack opt = of_nat (length xs)"
  using assms(2-4) by (intro dhcp_parse_option_first [OF assms(1)]) (auto simp: nth_append)

lemma load_bytes_part:
  assumes "load_bytes m a n = bs" "k + j \<le> n"
  shows "load_bytes m (a + of_nat k) j = take j (drop k bs)"
  unfolding assms(1) [symmetric] using assms(2) by (intro nth_equalityI) (simp_all add: add.assoc)

lemma create_dhcp_packet_arrives:
  assumes "length (r_mac req) = 6" "server_ip req \<noteq> 0" "offered_ip req \<noteq> 0" "disj_regions p 590 stack 548"
    "m (p + 24) = 0" "m (p + 25) = 0" "m (p + 40) = 0" "m (p + 41) = 0"
    "r = create_dhcp_packet cntvct stack m p req"
  shows "udp_parse_packet r (p + 34) = 67" "dhcp_parse_packet_payload r p = p + 42"
    "load_bytes r (p + 42 + 236) 312 = dhcp_options req"
proof -
  define d where "d = \<lparr>d_op = 1, d_htype = 1, d_hlen = 6, d_hops = 0,
    d_xid = fst (rng_next32 (rng_init_random cntvct \<lparr>s0 = 0, s1 = 0\<rparr>)), d_secs = 0,
    d_flags = bswap16 0x8000, d_ciaddr = 0, d_yiaddr = 0, d_siaddr = 0, d_giaddr = 0,
    d_chaddr = copy_at 0 (take 6 (r_mac req)) (replicate 16 0), d_sname = replicate 64 0, d_file = replicate 128 0,
    d_options = dhcp_options req\<rparr>"
  have opt: "length (dhcp_options req) = 312" using assms(2,3) by (simp add: dhcp_options_request)
  have len: "length (dhcp_bytes d) = 548" using assms(1) opt by (simp add: dhcp_bytes_def d_def copy_at_def)
  have drop: "drop 236 (dhcp_bytes d) = dhcp_options req" using assms(1) by (simp add: dhcp_bytes_def d_def copy_at_def)
  define m2 where "m2 = store_bytes m stack (dhcp_bytes d)"
  have out: "m2 (p + a) = m (p + a)" if "unat a < 590" for a
  proof -
    have "in_region p 590 (p + a)" using that by (simp add: in_region_def)
    then have "\<not> in_region stack 548 (p + a)" using disj_regionsD [OF assms(4)] by blast
    then show ?thesis unfolding m2_def by (simp add: store_bytes_outside len)
  qed
  let ?s = "\<lparr>port = 68, ip = 0, mac = take 6 (r_mac req)\<rparr>"
  let ?d = "\<lparr>port = 67, ip = push_bit 24 255 OR push_bit 16 255 OR push_bit 8 255 OR 255, mac = replicate 6 0xFF\<rparr>"
  have r: "r = create_udp_packet m2 p ?s ?d \<lparr>ptr = stack, sz = 548\<rparr>"
    unfolding assms(9) create_dhcp_packet_def Let_def m2_def d_def by (rule refl)
  have z: "m2 (p + 24) = 0" "m2 (p + 25) = 0" "m2 (p + 40) = 0" "m2 (p + 41) = 0" using assms(5-8) by (simp_all add: out)
  have ul: "unat (548 :: u64) = 548" by simp
  have pre: "unat (548 :: u64) \<le> 65527" "length (mac ?s) = 6" "length (mac ?d) = 6"
    "disj_regions p (42 + unat (548 :: u64)) stack (unat (548 :: u64))"
    using assms(1,4) by simp_all
  note a = udp_packet_arrives [OF pre z r]
  show "udp_parse_packet r (p + 34) = 67" using a by simp
  show "dhcp_parse_packet_payload r p = p + 42" using a by (simp add: dhcp_parse_packet_payload_def)
  have "load_bytes r (p + 42) 548 = dhcp_bytes d"
    using a len unfolding ul m2_def by simp
  from load_bytes_part [OF this, of 236 312] show "load_bytes r (p + 42 + 236) 312 = dhcp_options req"
    unfolding drop using opt by simp
qed

text \<open>A DHCP request the code builds is parsed back by the code: port 67, payload and options in place, the message
  type found at index 4 and the requested address at 7; the server identifier is found at index 13 only if no byte
  of the offered address is 54, because the parser compares option codes with every byte, values included.\<close>

lemma dhcp_request_parsed:
  assumes "length (r_mac req) = 6" "server_ip req \<noteq> 0" "offered_ip req \<noteq> 0" "disj_regions p 590 stack 548"
    "m (p + 24) = 0" "m (p + 25) = 0" "m (p + 40) = 0" "m (p + 41) = 0"
    "r = create_dhcp_packet cntvct stack m p req"
  shows "udp_parse_packet r (p + 34) = 67 \<and> dhcp_parse_packet_payload r p = p + 42
    \<and> dhcp_parse_option r (p + 42) 53 = 4 \<and> dhcp_parse_option r (p + 42) 50 = 7
    \<and> (dhcp_parse_option r (p + 42) 54 = 13 \<longleftrightarrow> 54 \<notin> set (le_bytes 4 (offered_ip req)))"
proof -
  note a = create_dhcp_packet_arrives [OF assms]
  obtain b0 b1 b2 b3 where o: "le_bytes 4 (offered_ip req) = [b0, b1, b2, b3]" using le_bytes_4 by blast
  define rest where "rest = le_bytes 4 (server_ip req) @ [255] @ replicate 292 0"
  have os: "load_bytes r (p + 42 + 236) 312 = [0x63, 0x82, 0x53, 0x63, 53, 1, 3, 50, 4, b0, b1, b2, b3] @ 54 # 4 # rest"
    unfolding a(3) dhcp_options_request [OF assms(2,3)] o rest_def by simp
  have u: "(ucast b :: u16) = 54 \<longleftrightarrow> b = 54" for b :: u8
    using unat_lt_2p [of b] by (auto simp: word_unat_eq_iff unat_ucast_mod)
  note split = dhcp_parse_option_split [where m = r and pack = "p + 42"]
  have "dhcp_parse_option r (p + 42) 53 = 4"
    using split [of "[0x63, 0x82, 0x53, 0x63]" 53] os by simp
  moreover have "dhcp_parse_option r (p + 42) 50 = 7"
    using split [of "[0x63, 0x82, 0x53, 0x63, 53, 1, 3]" 50] os by simp
  moreover have "dhcp_parse_option r (p + 42) 54 =
      (if b0 = 54 then 9 else if b1 = 54 then 10 else if b2 = 54 then 11 else if b3 = 54 then 12 else 13)"
    using split [of "[0x63, 0x82, 0x53, 0x63, 53, 1, 3, 50, 4]" b0 _ 54]
      split [of "[0x63, 0x82, 0x53, 0x63, 53, 1, 3, 50, 4, b0]" b1 _ 54]
      split [of "[0x63, 0x82, 0x53, 0x63, 53, 1, 3, 50, 4, b0, b1]" b2 _ 54]
      split [of "[0x63, 0x82, 0x53, 0x63, 53, 1, 3, 50, 4, b0, b1, b2]" b3 _ 54]
      split [of "[0x63, 0x82, 0x53, 0x63, 53, 1, 3, 50, 4, b0, b1, b2, b3]" 54 _ 54] os by (simp add: u)
  ultimately show ?thesis using a(1,2) unfolding o by simp
qed

lemma dhcp_request_parsed_witness:
  "dhcp_parse_option (create_dhcp_packet 12345 0x2000 (\<lambda>_. 0) 0x1000
     \<lparr>r_mac = [2, 0, 0, 0, 0, 1], server_ip = 0x0101A8C0, offered_ip = 0x3601A8C0\<rparr>) 0x102A 54 \<noteq> 13"
  using dhcp_request_parsed [of "\<lparr>r_mac = [2, 0, 0, 0, 0, 1], server_ip = 0x0101A8C0, offered_ip = 0x3601A8C0\<rparr>" "0x1000" "0x2000"
      "\<lambda>_. 0", OF _ _ _ _ _ _ _ _ refl, of 12345]
  by (simp add: disj_regions_def le_bytes_4)

end
