(* ===== verification/Tcp.thy ===== *)
theory Tcp
  imports Packets
begin

section \<open>The TCP and HTTP client (\<open>shared/net/tcp.c\<close>, \<open>shared/net/http.c\<close>)\<close>

text \<open>
  A process talks to the network through three system calls.  The environment \<open>net_env\<close> is what
  the process sees of them: \<open>sent\<close> logs what \<open>send_packet\<close> was given, \<open>polls\<close> lists what the coming calls of
  \<open>read_packet\<close> find (None: nothing has arrived; otherwise the address and bytes of the copy the kernel
  makes), after which nothing arrives any more, and \<open>slept\<close> counts the milliseconds slept.  Console output is left out.
\<close>

record tcp_hdr =
  h_src_port :: u16
  h_dst_port :: u16
  h_sequence :: u32
  h_ack :: u32
  h_data_offset_reserved :: u8
  h_flags :: u8
  h_window :: u16
  h_checksum :: u16
  h_urgent_ptr :: u16

definition tcp_hdr_at :: "mem \<Rightarrow> u64 \<Rightarrow> tcp_hdr" where
  "tcp_hdr_at m p =
     \<lparr>h_src_port = read16 m p, h_dst_port = read16 m (p + 2), h_sequence = read32 m (p + 4), h_ack = read32 m (p + 8),
      h_data_offset_reserved = m (p + 12), h_flags = m (p + 13), h_window = read16 m (p + 14),
      h_checksum = read16 m (p + 16), h_urgent_ptr = read16 m (p + 18)\<rparr>"

record tcp_data =
  t_sequence :: u32
  t_ack :: u32
  t_padding :: u8
  t_flags :: u8
  t_window :: u16
  t_options :: sizedptr
  t_payload :: sizedptr
  expected_ack :: u32

text \<open>The first 12 bytes of a \<open>tcp_data\<close>, which are copied over the header from its sequence number on.\<close>

definition tcp_data_head :: "tcp_data \<Rightarrow> u8 list" where
  "tcp_data_head d = le_bytes 4 (t_sequence d) @ le_bytes 4 (t_ack d) @ [t_padding d, t_flags d] @ le_bytes 2 (t_window d)"

definition create_tcp_packet :: "mem \<Rightarrow> u64 \<Rightarrow> network_connection_ctx \<Rightarrow> network_connection_ctx \<Rightarrow> tcp_data \<Rightarrow> mem" where
  "create_tcp_packet m p source destination data =
     (let (p, m) = create_eth_packet m p (mac source) (mac destination) 0x800;
          full_size = 20 + sz (t_options data) + sz (t_payload data);
          (tcp, m) = create_ipv4_packet m p (ucast full_size) 0x06 (ip source) (ip destination);
          m = write16 m tcp (bswap16 (port source));
          m = write16 m (tcp + 2) (bswap16 (port destination));
          m = store_bytes m (tcp + 4) (tcp_data_head data);
          p = tcp + 20;
          m = memcpy m p (ptr (t_options data)) (sz (t_options data));
          p = p + sz (t_options data);
          m = write8 m (tcp + 12) (ucast (push_bit 4 ((20 + sz (t_options data) + 3) div 4)));
          m = memcpy m p (ptr (t_payload data)) (sz (t_payload data))
      in write16 m (tcp + 16) (bswap16 (checksum16_pipv4 m (ip source) (ip destination) 0x06 tcp (ucast full_size))))"

definition tcp_parse_packet_payload :: "mem \<Rightarrow> u64 \<Rightarrow> sizedptr" where
  "tcp_parse_packet_payload m p =
     (let eth = p; p = p + 14 in
      if bswap16 (e_type (eth_hdr_at m eth)) = 0x800 then
        let ip4 = p; p = p + 20 in
        if i_protocol (ipv4_hdr_at m ip4) = 0x06 then
          \<lparr>ptr = p, sz = ucast (bswap16 (i_total_length (ipv4_hdr_at m ip4))) - 20\<rparr>
        else \<lparr>ptr = 0, sz = 0\<rparr>
      else \<lparr>ptr = 0, sz = 0\<rparr>)"

subsection \<open>The environment\<close>

record net_env =
  sent :: "(u16 \<times> network_connection_ctx \<times> tcp_data) list"
  polls :: "(u64 \<times> u8 list) option list"
  env_mem :: mem
  slept :: nat

definition env_send :: "u16 \<Rightarrow> network_connection_ctx \<Rightarrow> tcp_data \<Rightarrow> net_env \<Rightarrow> net_env" where
  "env_send prt dest d e = e\<lparr>sent := sent e @ [(prt, dest, d)]\<rparr>"

definition env_read :: "net_env \<Rightarrow> sizedptr option \<times> net_env" where
  "env_read e =
     (case polls e of
        [] \<Rightarrow> (None, e)
      | None # ps \<Rightarrow> (None, e\<lparr>polls := ps\<rparr>)
      | Some (p, bs) # ps \<Rightarrow> (Some \<lparr>ptr = p, sz = of_nat (length bs)\<rparr>, e\<lparr>polls := ps, env_mem := store_bytes (env_mem e) p bs\<rparr>))"

definition env_sleep :: "nat \<Rightarrow> net_env \<Rightarrow> net_env" where
  "env_sleep ms e = e\<lparr>slept := slept e + ms\<rparr>"

subsection \<open>TCP\<close>

datatype tcp_result = TCP_OK | TCP_RETRY | TCP_RESET

text \<open>The \<open>max\<close> of \<open>math/math.h\<close>, on values of type \<open>int\<close>.\<close>

definition max_int :: "u32 \<Rightarrow> u32 \<Rightarrow> u32" where
  "max_int a b = (if sint a > sint b then a else b)"

definition FIN_B :: u8 where "FIN_B = 1"
definition SYN_B :: u8 where "SYN_B = 2"
definition RST_B :: u8 where "RST_B = 4"
definition PSH_B :: u8 where "PSH_B = 8"
definition ACK_B :: u8 where "ACK_B = 16"

lemmas flag_defs = FIN_B_def SYN_B_def RST_B_def PSH_B_def ACK_B_def

definition tcp_send :: "u16 \<Rightarrow> network_connection_ctx \<Rightarrow> tcp_data \<Rightarrow> net_env \<Rightarrow> tcp_data \<times> net_env" where
  "tcp_send prt dest data e =
     (let e = env_send prt dest data e;
          data = (if t_flags data AND NOT ACK_B \<noteq> 0 \<or> sz (t_payload data) > 0
                  then data\<lparr>t_sequence := t_sequence data + bswap32 (max_int 1 (ucast (sz (t_payload data))))\<rparr> else data)
      in (data\<lparr>expected_ack := bswap32 (t_sequence data)\<rparr>, e))"

definition tcp_reset :: "u16 \<Rightarrow> network_connection_ctx \<Rightarrow> tcp_data \<Rightarrow> net_env \<Rightarrow> tcp_data \<times> net_env" where
  "tcp_reset prt dest data e = tcp_send prt dest (data\<lparr>t_flags := RST_B OR ACK_B\<rparr>) e"

fun expect_loop :: "nat \<Rightarrow> net_env \<Rightarrow> sizedptr option \<times> net_env" where
  "expect_loop timeout e =
     (case env_read e of
        (Some pack, e) \<Rightarrow> (Some pack, e)
      | (None, e) \<Rightarrow>
          let e = env_sleep 1000 e
          in case timeout of 0 \<Rightarrow> (None, e) | Suc t \<Rightarrow> expect_loop t e)"

definition tcp_expect_response :: "net_env \<Rightarrow> sizedptr option \<times> net_env" where
  "tcp_expect_response e = expect_loop 10 e"

text \<open>The second component is what is stored through \<open>out\<close>.\<close>

definition tcp_check_response :: "tcp_data \<Rightarrow> net_env \<Rightarrow> tcp_result \<times> sizedptr option \<times> tcp_data \<times> net_env" where
  "tcp_check_response data e =
     (case tcp_expect_response e of
        (None, e) \<Rightarrow> (TCP_RETRY, None, data, e)
      | (Some pack, e) \<Rightarrow>
          if ptr pack = 0 then (TCP_RETRY, None, data, e)
          else
            let pay = tcp_parse_packet_payload (env_mem e) (ptr pack) in
            if ptr pay = 0 then (TCP_RETRY, None, data, e)
            else
              let resp = tcp_hdr_at (env_mem e) (ptr pay);
                  ack = bswap32 (h_ack resp);
                  seqno = bswap32 (h_sequence resp);
                  hdr_size = ucast (drop_bit 4 (h_data_offset_reserved resp)) * 4;
                  payload_size = sz pay - hdr_size;
                  data = data\<lparr>t_ack := bswap32 (seqno + max_int 1 (ucast payload_size))\<rparr>
              in if ack \<noteq> expected_ack data then (TCP_RESET, None, data, e)
                 else if h_flags resp \<noteq> (t_flags data OR ACK_B) then (TCP_RESET, None, data, e)
                 else (TCP_OK, Some \<lparr>ptr = ptr pay + hdr_size, sz = payload_size\<rparr>, data, e))"

lemma retry_measure: "retry \<noteq> 5 \<Longrightarrow> unat (4 - retry) < unat (5 - (retry :: u8))"
proof -
  assume "retry \<noteq> 5"
  then have nz: "unat (5 - retry) \<noteq> 0" by (simp add: unat_eq_0)
  then have "1 \<le> 5 - retry" by (simp add: word_le_nat_alt Suc_le_eq)
  then have "unat (5 - retry - 1) = unat (5 - retry) - 1" by (simp only: unat_sub unat_1)
  moreover have "5 - retry - 1 = 4 - retry" by simp
  ultimately show ?thesis using nz by simp
qed

function tcp_handskake :: "network_connection_ctx \<Rightarrow> u16 \<Rightarrow> tcp_data \<Rightarrow> u8 \<Rightarrow> net_env \<Rightarrow> bool \<times> tcp_data \<times> net_env" where
  "tcp_handskake dest prt data retry e =
     (if retry = 5 then (False, data, e)
      else
        let data = data\<lparr>t_sequence := 0, t_ack := 0, t_flags := SYN_B\<rparr>;
            (data, e) = tcp_send prt dest data e;
            (resp, _, data, e) = tcp_check_response data e
        in case resp of
             TCP_RETRY \<Rightarrow> tcp_handskake dest prt data (retry + 1) (env_sleep 1000 e)
           | TCP_RESET \<Rightarrow> let (data, e) = tcp_reset prt dest data e in (False, data, e)
           | TCP_OK \<Rightarrow> let (data, e) = tcp_send prt dest (data\<lparr>t_flags := ACK_B\<rparr>) e in (True, data, e))"
  by pat_completeness auto

termination by (relation "measure (\<lambda>(_, _, _, retry, _). unat (5 - retry))") (simp_all add: retry_measure)

declare tcp_handskake.simps [simp del]

definition tcp_close ::
    "network_connection_ctx \<Rightarrow> u16 \<Rightarrow> tcp_data \<Rightarrow> u8 \<Rightarrow> u32 \<Rightarrow> u32 \<Rightarrow> net_env \<Rightarrow> bool \<times> tcp_data \<times> net_env" where
  "tcp_close dest prt data retry orig_seq orig_ack e =
     (if retry = 5 then (False, data, e)
      else
        let data = data\<lparr>t_sequence := orig_seq, t_ack := orig_ack, t_flags := FIN_B OR ACK_B\<rparr>;
            (data, e) = tcp_send prt dest data e;
            data = data\<lparr>t_flags := ACK_B\<rparr>;
            (resp, _, data, e) = tcp_check_response data e
        in case resp of
             TCP_RETRY \<Rightarrow> tcp_handskake dest prt data (retry + 1) (env_sleep 1000 e)
           | TCP_RESET \<Rightarrow> let (data, e) = tcp_reset prt dest data e in (False, data, e)
           | TCP_OK \<Rightarrow>
               let data = data\<lparr>t_flags := FIN_B\<rparr>;
                   (resp, _, data, e) = tcp_check_response data e
               in case resp of
                    TCP_RETRY \<Rightarrow> tcp_handskake dest prt data (retry + 1) (env_sleep 1000 e)
                  | TCP_RESET \<Rightarrow> let (data, e) = tcp_reset prt dest data e in (True, data, e)
                  | TCP_OK \<Rightarrow> let (data, e) = tcp_send prt dest (data\<lparr>t_flags := ACK_B\<rparr>) e in (True, data, e))"

subsection \<open>HTTP (\<open>http.c\<close>)\<close>

declare expect_loop.simps [simp del]

lemma expect_loop_polls:
  "expect_loop t e = (r, e') \<Longrightarrow> length (polls e') \<le> length (polls e) \<and> (r \<noteq> None \<longrightarrow> length (polls e') < length (polls e))"
proof (induction t arbitrary: e)
  case 0
  then show ?case
    by (subst (asm) expect_loop.simps) (auto simp: env_read_def env_sleep_def Let_def split: list.splits option.splits prod.splits)
next
  case (Suc t)
  show ?case
  proof (cases "env_read e")
    case (Pair q e1)
    have le: "length (polls e1) \<le> length (polls e)" "q \<noteq> None \<Longrightarrow> length (polls e1) < length (polls e)"
      using Pair by (auto simp: env_read_def split: list.splits option.splits prod.splits)
    show ?thesis
    proof (cases q)
      case None
      then have "expect_loop t (env_sleep 1000 e1) = (r, e')"
        using Suc.prems Pair by (subst (asm) expect_loop.simps) (simp add: Let_def)
      from Suc.IH [OF this] show ?thesis using le(1) by (auto simp: env_sleep_def)
    next
      case (Some a)
      then show ?thesis using Suc.prems Pair le by (subst (asm) expect_loop.simps) auto
    qed
  qed
qed

lemma check_response_polls:
  "tcp_check_response data e = (TCP_RESET, out, data', e') \<Longrightarrow> length (polls e') < length (polls e)"
  unfolding tcp_check_response_def tcp_expect_response_def
  by (auto simp: Let_def dest: expect_loop_polls split: prod.splits option.splits if_splits)

text \<open>The loop that waits for the acknowledgement ignores packets that do not match; the result says whether one did.\<close>

function await_ack :: "tcp_data \<Rightarrow> net_env \<Rightarrow> bool \<times> tcp_data \<times> net_env" where
  "await_ack data e =
     (case tcp_check_response data e of
        (TCP_OK, _, data, e) \<Rightarrow> (True, data, e)
      | (TCP_RESET, _, data, e) \<Rightarrow> await_ack data e
      | (TCP_RETRY, _, data, e) \<Rightarrow> (False, data, e))"
  by pat_completeness auto

termination by (relation "measure (\<lambda>(_, e). length (polls e))") (auto dest: check_response_polls sym)

declare await_ack.simps [simp del]

function http_data_transfer ::
    "network_connection_ctx \<Rightarrow> sizedptr \<Rightarrow> u16 \<Rightarrow> tcp_data \<Rightarrow> u8 \<Rightarrow> u32 \<Rightarrow> u32 \<Rightarrow> net_env \<Rightarrow> sizedptr \<times> tcp_data \<times> net_env" where
  "http_data_transfer dest pay prt data retry orig_seq orig_ack e =
     (if retry = 5 then (\<lparr>ptr = 0, sz = 0\<rparr>, data, e)
      else
        let data = data\<lparr>t_sequence := orig_seq, t_ack := orig_ack, t_flags := PSH_B OR ACK_B, t_payload := pay\<rparr>;
            (data, e) = tcp_send prt dest data e;
            data = data\<lparr>t_flags := ACK_B\<rparr>;
            (acked, data, e) = await_ack data e
        in if \<not> acked then http_data_transfer dest pay prt data (retry + 1) orig_seq orig_ack e
           else
             let data = data\<lparr>t_flags := PSH_B OR ACK_B\<rparr>;
                 (resp, content, data, e) = tcp_check_response data e
             in case resp of
                  TCP_RETRY \<Rightarrow> http_data_transfer dest pay prt data (retry + 1) orig_seq orig_ack (env_sleep 1000 e)
                | TCP_RESET \<Rightarrow> let (data, e) = tcp_reset prt dest data e in (\<lparr>ptr = 0, sz = 0\<rparr>, data, e)
                | TCP_OK \<Rightarrow>
                    let data = data\<lparr>t_payload := \<lparr>ptr = 0, sz = 0\<rparr>, t_flags := ACK_B\<rparr>;
                        (data, e) = tcp_send prt dest data e
                    in (case content of Some c \<Rightarrow> c | None \<Rightarrow> \<lparr>ptr = 0, sz = 0\<rparr>, data, e))"
  by pat_completeness auto

termination by (relation "measure (\<lambda>(_, _, _, _, retry, _, _, _). unat (5 - retry))") (simp_all add: retry_measure)

declare http_data_transfer.simps [simp del]

datatype http_request = GET | POST | PUT | DELETE

text \<open>The format is "GET / HTTP/1.1", "Host: %s", "User-Agent: %s" and "Accept: */*", each ended by CR LF, and an empty
  line; the kind of request is not looked at.\<close>

definition http_format :: "u8 list" where
  "http_format =
     [71,69,84,32,47,32,72,84,84,80,47,49,46,49,13,10, 72,111,115,116,58,32,37,115,13,10,
      85,115,101,114,45,65,103,101,110,116,58,32,37,115,13,10, 65,99,99,101,112,116,58,32,42,47,42,13,10,13,10]"

definition make_http_request :: "(u32 \<Rightarrow> bool) \<Rightarrow> ('d \<Rightarrow> bool \<times> u64 \<times> u8 list) \<Rightarrow> http_request \<Rightarrow> cstr \<Rightarrow> cstr \<Rightarrow> fault + str" where
  "make_http_request ok fd request domain agent = string_format ok fd (Some http_format) [ArgStr domain, ArgStr agent]"

definition agent_name :: "u8 list" where
  "agent_name = [114,101,100,97,99,116,101,100,111,115,47,48,46,48,46,49]"

text \<open>\<open>req_ptr\<close> is the address of the buffer that holds the request.\<close>

definition request_http_data ::
    "(u32 \<Rightarrow> bool) \<Rightarrow> ('d \<Rightarrow> bool \<times> u64 \<times> u8 list) \<Rightarrow> u64 \<Rightarrow> http_request \<Rightarrow> network_connection_ctx \<Rightarrow> u16 \<Rightarrow> net_env
     \<Rightarrow> fault + (sizedptr \<times> net_env)" where
  "request_http_data ok fd req_ptr request dest prt e =
     (let data = \<lparr>t_sequence = 0, t_ack = 0, t_padding = 0, t_flags = 0, t_window = 0xFFFF,
                  t_options = \<lparr>ptr = 0, sz = 0\<rparr>, t_payload = \<lparr>ptr = 0, sz = 0\<rparr>, expected_ack = 0\<rparr>;
          (connected, data, e) = tcp_handskake dest 8888 data 0 e
      in if \<not> connected then Inr (\<lparr>ptr = 0, sz = 0\<rparr>, e)
         else
           bindE (ipv4_to_string ok fd (ip dest)) (\<lambda>serverstr.
           bindE (make_http_request ok fd request (case s_data serverstr of Some s \<Rightarrow> s | None \<Rightarrow> []) agent_name) (\<lambda>req.
             let e = e\<lparr>env_mem := store_bytes (env_mem e) req_ptr (case s_data req of Some s \<Rightarrow> s | None \<Rightarrow> [])\<rparr>;
                 (http_response, data, e) =
                   http_data_transfer dest \<lparr>ptr = req_ptr, sz = ucast (s_length req)\<rparr> prt data 0 (t_sequence data) (t_ack data) e;
                 (closed, data, e) = tcp_close dest 8888 data 0 (t_sequence data) (t_ack data) e
             in Inr (if closed then http_response else \<lparr>ptr = 0, sz = 0\<rparr>, e))))"

text \<open>The header text as a C string: from the address to the first zero byte, \<open>fuel\<close> bytes at most.  The index is an
  \<open>int\<close> that is compared as an unsigned 64-bit number.\<close>

fun text_at :: "nat \<Rightarrow> mem \<Rightarrow> u64 \<Rightarrow> cstr" where
  "text_at 0 m a = []"
| "text_at (Suc fuel) m a = (if m a = 0 then [] else m a # text_at fuel m (a + 1))"

definition http_get_payload :: "nat \<Rightarrow> mem \<Rightarrow> sizedptr \<Rightarrow> sizedptr" where
  "http_get_payload fuel m header =
     (if ptr header \<noteq> 0 \<and> sz header > 0 then
        let start = (of_int (strindex (text_at fuel m (ptr header)) [13, 10, 13, 10]) :: u64)
        in if start < sz header then \<lparr>ptr = ptr header + start + 4, sz = sz header - start - 4\<rparr> else \<lparr>ptr = 0, sz = 0\<rparr>
      else \<lparr>ptr = 0, sz = 0\<rparr>)"

definition http_get_chunked_payload :: "nat \<Rightarrow> (u32 \<Rightarrow> bool) \<Rightarrow> mem \<Rightarrow> sizedptr \<Rightarrow> str" where
  "http_get_chunked_payload fuel ok m chunk =
     (if ptr chunk \<noteq> 0 \<and> sz chunk > 0 then
        let sizetrm = (of_int (strindex (text_at fuel m (ptr chunk)) [13, 10]) :: u64);
            chunk_size = parse_hex_u64 (text_at fuel m (ptr chunk)) sizetrm
        in string_ca_max ok (Some (text_at fuel m (ptr chunk + sizetrm + 2))) (ucast chunk_size)
      else null_str)"

subsection \<open>Sequence numbers\<close>

lemma bswap32_bytes:
  "bswap32 w = of_le [ucast (drop_bit 24 w), ucast (drop_bit 16 w), ucast (drop_bit 8 w), ucast w]"
proof -
  have "bswap32 w = of_le (rev (le_bytes 4 w))" by (rule le_bytes_sums(2) [symmetric])
  then show ?thesis unfolding le_bytes_4 by (simp only: rev.simps append.simps)
qed

lemma of_le_top: "(of_le (xs @ [b]) :: u32) = of_le xs + push_bit 24 (ucast b)" if "length xs = 3"
proof -
  have "(of_le xs :: u32) AND push_bit 24 (ucast b) = 0"
    by (rule bit_word_eqI) (use that in \<open>auto simp: bit_simps bit_of_le\<close>)
  then show ?thesis using that by (simp add: of_le_append disjunctive_add_eq_or)
qed

lemma push_top_byte: "push_bit 24 (ucast (a :: u8)) + push_bit 24 (ucast b) = (push_bit 24 (ucast (a + b)) :: u32)"
proof -
  have "push_bit 24 w = (push_bit 24 (ucast (ucast w :: u8)) :: u32)" for w :: u32
    by (rule bit_word_eqI) (auto simp: bit_simps)
  from this [of "ucast a + ucast b"] have "push_bit 24 (ucast a + ucast b) = (push_bit 24 (ucast (ucast (ucast a + ucast b :: u32) :: u8)) :: u32)" .
  moreover have "(ucast (ucast a + ucast b :: u32) :: u8) = a + b"
    using unat_lt_2p [of a] unat_lt_2p [of b] by (simp add: word_unat_eq_iff unat_ucast_mod unat_word_ariths)
  ultimately show ?thesis by (simp only: push_bit_add [symmetric])
qed

lemma of_le_snoc_0: "of_le (xs @ [0]) = of_le xs"
  by (simp add: of_le_append)

lemma bswap_add_byte:
  assumes "k < 256"
  shows "bswap32 (bswap32 h + bswap32 k) = (h AND NOT 0xFF) OR ((h + k) AND 0xFF)"
proof -
  let ?k = "ucast k :: u8"
  have kz: "drop_bit 24 k = 0" "drop_bit 16 k = 0" "drop_bit 8 k = 0"
  proof -
    have "unat k < 256" using assms by (simp add: word_less_nat_alt)
    then show "drop_bit 24 k = 0" "drop_bit 16 k = 0" "drop_bit 8 k = 0"
      by (simp_all add: word_unat_eq_iff drop_bit_eq_div unat_div del: unat_eq_0)
  qed
  have "bswap32 k = of_le [0, 0, 0, ?k]" unfolding bswap32_bytes kz by simp
  also have "\<dots> = push_bit 24 (ucast ?k)" by (simp add: push_bit_push_bit)
  finally have k: "bswap32 k = push_bit 24 (ucast ?k)" .
  let ?xs = "[ucast (drop_bit 24 h), ucast (drop_bit 16 h), ucast (drop_bit 8 h)] :: u8 list"
  have h: "bswap32 h = of_le ?xs + push_bit 24 (ucast (ucast h :: u8))"
    unfolding bswap32_bytes using of_le_top [of ?xs "ucast h"] by simp
  have "bswap32 h + bswap32 k = of_le ?xs + push_bit 24 (ucast (ucast h + ?k))"
    unfolding h k by (simp only: add.assoc push_top_byte)
  also have "\<dots> = of_le (?xs @ [ucast h + ?k])" by (simp only: of_le_top length_Cons list.size One_nat_def numeral_3_eq_3 add_0)
  finally have s: "bswap32 h + bswap32 k = of_le (?xs @ [ucast h + ?k])" .
  have "bswap32 (of_le (?xs @ [ucast h + ?k])) = of_le ((ucast h + ?k) # rev ?xs)"
    unfolding bswap32_def by (subst le_bytes_of_le) simp_all
  moreover have "(of_le ((ucast h + ?k) # rev ?xs) :: u32) = (h AND NOT 0xFF) OR ((h + k) AND 0xFF)"
  proof (rule bit_word_eqI)
    have low: "ucast h + ?k = ucast (h + k)"
      by (simp add: word_unat_eq_iff unat_ucast_mod unat_word_ariths mod_simps mod_mod_cancel)
    fix n assume n: "n < LENGTH(32)"
    have n: "(8 :: nat) + 8 = 16" "(16 :: nat) + 8 = 24" "(24 :: nat) + 8 = 32" by simp_all
    have d32: "drop_bit 32 h = 0" by (rule bit_word_eqI) (auto simp: bit_simps dest: bit_imp_le_length)
    have z: "le_bytes 4 (drop_bit 8 h) = rev ?xs @ [0]"
      unfolding le_bytes_4 drop_bit_drop_bit n d32 rev.simps append.simps unsigned_0 by (rule refl)
    have "(of_le (le_bytes 4 (drop_bit 8 h)) :: u32) = drop_bit 8 h" by (rule of_le_le_bytes) simp
    then have hi: "(of_le (rev ?xs) :: u32) = drop_bit 8 h" unfolding z of_le_snoc_0 .
    have "(of_le ((ucast h + ?k) # rev ?xs) :: u32) = ucast (ucast (h + k) :: u8) OR push_bit 8 (drop_bit 8 h)"
      by (simp only: of_le.simps(2) hi low)
    then show "bit (of_le ((ucast h + ?k) # rev ?xs) :: u32) n \<longleftrightarrow> bit ((h AND NOT 0xFF) OR ((h + k) AND 0xFF)) n"
      using n unfolding mask_numerals(4) by (auto simp: bit_simps)
  qed
  ultimately show ?thesis unfolding s by simp
qed

lemma max_int_small:
  assumes "n < (256 :: u64)"
  shows "max_int 1 (ucast n) = (if n = 0 then 1 else ucast n)" "(if n = 0 then 1 else ucast n) < (256 :: u32)"
proof -
  have n: "unat n < 256" using assms by (simp add: word_less_nat_alt)
  have u: "unat (ucast n :: u32) = unat n" using n by (simp add: unat_ucast_mod)
  then show "(if n = 0 then 1 else ucast n) < (256 :: u32)" using n by (simp add: word_less_nat_alt)
  have u1: "uint (ucast n :: u32) = int (unat n)" unfolding uint_nat u ..
  have lt: "int (unat n) < 256" "0 \<le> int (unat n)" using n by linarith+
  have st: "signed_take_bit (LENGTH(32) - Suc 0) i = i" if "0 \<le> i" "i < 256" for i :: int
    using that by (simp add: signed_take_bit_int_eq_self)
  have s: "sint (ucast n :: u32) = int (unat n)" unfolding sint_uint u1 by (rule st [OF lt(2,1)])
  show "max_int 1 (ucast n) = (if n = 0 then 1 else ucast n)"
  proof (cases "n = 0")
    case False
    then have "unat n \<noteq> 0" by (simp only: unat_eq_0 simp_thms)
    then have "\<not> int (unat n) < 1" by linarith
    moreover have "sint (1 :: u32) = 1" by simp
    ultimately have "\<not> int (unat n) < sint (1 :: u32)" by (simp only: simp_thms)
    then show ?thesis unfolding max_int_def s using False by (simp only: if_False if_True simp_thms)
  qed (simp add: max_int_def)
qed

text \<open>Sending a packet advances the sequence number, kept in network order, by one or by the size of the payload only in
  its low byte: for payloads below 256 bytes the carry out of the low byte is lost, because the addition is done on
  swapped numbers; the acknowledgement expected is the number so computed.\<close>

lemma tcp_send_advances:
  assumes "t_flags d AND NOT ACK_B \<noteq> 0 \<or> 0 < sz (t_payload d)" "sz (t_payload d) < 256"
    "h = bswap32 (t_sequence d)" "k = (if sz (t_payload d) = 0 then 1 else ucast (sz (t_payload d)))"
    "x = (h AND NOT 0xFF) OR ((h + k) AND 0xFF)"
  shows "tcp_send prt dest d e = (d\<lparr>t_sequence := bswap32 x, expected_ack := x\<rparr>, e\<lparr>sent := sent e @ [(prt, dest, d)]\<rparr>)"
proof -
  have e: "bswap32 (t_sequence d + bswap32 k) = x"
    using bswap_add_byte [OF max_int_small(2) [OF assms(2)], of h] unfolding assms(3-5) bswap_bswap .
  then have "bswap32 x = t_sequence d + bswap32 k" by (metis bswap_bswap(2))
  with e show ?thesis
    using assms(1) unfolding tcp_send_def Let_def max_int_small(1) [OF assms(2)] assms(4) [symmetric] env_send_def
    by (auto simp del: bswap_eq_iff)
qed

lemma tcp_send_advances_witness:
  "expected_ack (fst (tcp_send 80 \<lparr>port = 80, ip = 1, mac = []\<rparr>
     \<lparr>t_sequence = bswap32 0xFE, t_ack = 0, t_padding = 0, t_flags = PSH_B OR ACK_B, t_window = 0, t_options = \<lparr>ptr = 0, sz = 0\<rparr>,
      t_payload = \<lparr>ptr = 0x1000, sz = 4\<rparr>, expected_ack = 0\<rparr> \<lparr>sent = [], polls = [], env_mem = (\<lambda>_. 0), slept = 0\<rparr>)) = 2"
  by (subst tcp_send_advances [OF _ _ refl refl refl]) (simp_all add: flag_defs)

subsection \<open>Retries\<close>

text \<open>What of a packet goes on the wire: sequence number, acknowledgement and flags.\<close>

definition wire :: "u16 \<times> network_connection_ctx \<times> tcp_data \<Rightarrow> u32 \<times> u32 \<times> u8" where
  "wire x = (let d = snd (snd x) in (t_sequence d, t_ack d, t_flags d))"

definition silent :: "net_env \<Rightarrow> bool" where
  "silent e \<longleftrightarrow> set (polls e) \<subseteq> {None}"

lemma silent_read: "silent e \<Longrightarrow> \<exists>e'. env_read e = (None, e') \<and> silent e' \<and> sent e' = sent e"
  by (cases "polls e") (auto simp: silent_def env_read_def)

lemma silent_expect: "silent e \<Longrightarrow> \<exists>e'. expect_loop t e = (None, e') \<and> silent e' \<and> sent e' = sent e"
proof (induction t arbitrary: e)
  case 0
  then obtain e' where "env_read e = (None, e')" "silent e'" "sent e' = sent e" using silent_read by blast
  then show ?case by (subst expect_loop.simps) (simp add: env_sleep_def silent_def)
next
  case (Suc t)
  then obtain e1 where e1: "env_read e = (None, e1)" "silent e1" "sent e1 = sent e" using silent_read by blast
  then have "silent (env_sleep 1000 e1)" by (simp add: env_sleep_def silent_def)
  from Suc.IH [OF this] show ?case using e1 by (subst expect_loop.simps) (simp add: env_sleep_def Let_def)
qed

lemma silent_check: "silent e \<Longrightarrow> \<exists>e'. tcp_check_response d e = (TCP_RETRY, None, d, e') \<and> silent e' \<and> sent e' = sent e"
  using silent_expect [of e 10] by (auto simp: tcp_check_response_def tcp_expect_response_def)

lemma tcp_send_simps [simp]:
  "sent (snd (tcp_send prt dest d e)) = sent e @ [(prt, dest, d)]" "polls (snd (tcp_send prt dest d e)) = polls e"
  "silent (snd (tcp_send prt dest d e)) = silent e" "env_mem (snd (tcp_send prt dest d e)) = env_mem e"
  by (simp_all add: tcp_send_def env_send_def silent_def Let_def)

lemma sleep_simps [simp]: "sent (env_sleep n e) = sent e" "silent (env_sleep n e) = silent e"
  by (simp_all add: env_sleep_def silent_def)

lemma silent_handshake:
  "silent e \<Longrightarrow> \<exists>d' e'. tcp_handskake dest prt d retry e = (False, d', e')
     \<and> map wire (sent e') = map wire (sent e) @ replicate (unat (5 - retry)) (0, 0, SYN_B)"
proof (induction "unat (5 - retry)" arbitrary: retry d e)
  case 0
  then have "retry = 5" by (metis eq_iff_diff_eq_0 unat_eq_0)
  then show ?case by (simp add: tcp_handskake.simps)
next
  case (Suc n)
  then have r: "retry \<noteq> 5" by auto
  let ?d = "d\<lparr>t_sequence := 0, t_ack := 0, t_flags := SYN_B\<rparr>"
  obtain d1 e1 where s: "tcp_send prt dest ?d e = (d1, e1)" by fastforce
  have e1: "silent e1" "sent e1 = sent e @ [(prt, dest, ?d)]"
    using s tcp_send_simps [of prt dest ?d e] Suc.prems by simp_all
  obtain e2 where c: "tcp_check_response d1 e1 = (TCP_RETRY, None, d1, e2)" "silent e2" "sent e2 = sent e1"
    using silent_check [OF e1(1)] by blast
  have "unat (4 - retry) = n"
  proof -
    have "1 \<le> 5 - retry" using Suc.hyps(2) by (simp add: word_le_nat_alt)
    then have "unat (5 - retry - 1) = n" using Suc.hyps(2) by (simp only: unat_sub unat_1)
    moreover have "5 - retry - 1 = 4 - retry" by simp
    ultimately show ?thesis by simp
  qed
  then have "n = unat (5 - (retry + 1))" by simp
  from Suc.hyps(1) [OF this, of "env_sleep 1000 e2" d1]
  obtain d' e' where h: "tcp_handskake dest prt d1 (retry + 1) (env_sleep 1000 e2) = (False, d', e')"
    "map wire (sent e') = map wire (sent e2) @ replicate (unat (5 - (retry + 1))) (0, 0, SYN_B)"
    using c(2) by auto
  have "tcp_handskake dest prt d retry e = (False, d', e')"
    using r h(1) s c(1) by (subst tcp_handskake.simps) (simp add: Let_def)
  moreover have "map wire (sent e') = map wire (sent e) @ replicate (unat (5 - retry)) (0, 0, SYN_B)"
    unfolding h(2) c(3) e1(2) \<open>n = unat (5 - (retry + 1))\<close> [symmetric] Suc.hyps(2) [symmetric] by (simp add: wire_def)
  ultimately show ?case by blast
qed

text \<open>C21: When no packet arrives, a handshake ends without a connection after exactly five SYN packets; closing a connection
  ends without success too, but after one FIN it does not repeat the FIN: it retries by opening the connection again, with
  four SYN packets of sequence number 0.\<close>

theorem tcp_close_reopens:
  assumes "silent e"
  shows "(\<exists>d' e'. tcp_handskake dest prt d 0 e = (False, d', e') \<and> map wire (sent e') = map wire (sent e) @ replicate 5 (0, 0, SYN_B))
    \<and> (\<exists>d' e'. tcp_close dest prt d 0 s a e = (False, d', e')
        \<and> map wire (sent e') = map wire (sent e) @ (s, a, FIN_B OR ACK_B) # replicate 4 (0, 0, SYN_B))"
proof
  show "\<exists>d' e'. tcp_handskake dest prt d 0 e = (False, d', e') \<and> map wire (sent e') = map wire (sent e) @ replicate 5 (0, 0, SYN_B)"
    using silent_handshake [OF assms, of dest prt d 0] by simp
  let ?d = "d\<lparr>t_sequence := s, t_ack := a, t_flags := FIN_B OR ACK_B\<rparr>"
  obtain d1 e1 where s: "tcp_send prt dest ?d e = (d1, e1)" by fastforce
  have e1: "silent e1" "sent e1 = sent e @ [(prt, dest, ?d)]"
    using s tcp_send_simps [of prt dest ?d e] assms by simp_all
  let ?d1 = "d1\<lparr>t_flags := ACK_B\<rparr>"
  obtain e2 where c: "tcp_check_response ?d1 e1 = (TCP_RETRY, None, ?d1, e2)" "silent e2" "sent e2 = sent e1"
    using silent_check [OF e1(1), of ?d1] by blast
  obtain d' e' where h: "tcp_handskake dest prt ?d1 1 (env_sleep 1000 e2) = (False, d', e')"
    "map wire (sent e') = map wire (sent e2) @ replicate (unat (5 - 1 :: u8)) (0, 0, SYN_B)"
    using silent_handshake [of "env_sleep 1000 e2" dest prt ?d1 1] c(2) by auto
  have "tcp_close dest prt d 0 s a e = (False, d', e')"
    using h(1) s c(1) unfolding tcp_close_def by (simp add: Let_def)
  moreover have "map wire (sent e') = map wire (sent e) @ (s, a, FIN_B OR ACK_B) # replicate 4 (0, 0, SYN_B)"
    unfolding h(2) c(3) e1(2) by (simp add: wire_def)
  ultimately show "\<exists>d' e'. tcp_close dest prt d 0 s a e = (False, d', e')
        \<and> map wire (sent e') = map wire (sent e) @ (s, a, FIN_B OR ACK_B) # replicate 4 (0, 0, SYN_B)" by blast
qed

subsection \<open>The handshake\<close>

lemma expect_first:
  assumes "polls e = Some (p, bs) # ps"
  shows "tcp_expect_response e =
    (Some \<lparr>ptr = p, sz = of_nat (length bs)\<rparr>, e\<lparr>polls := ps, env_mem := store_bytes (env_mem e) p bs\<rparr>)"
  unfolding tcp_expect_response_def by (subst expect_loop.simps) (simp add: env_read_def assms)

lemma tcp_parse_ok:
  assumes "bswap16 (e_type (eth_hdr_at m p)) = 0x800" "i_protocol (ipv4_hdr_at m (p + 14)) = 6"
  shows "tcp_parse_packet_payload m p = \<lparr>ptr = p + 34, sz = ucast (bswap16 (i_total_length (ipv4_hdr_at m (p + 14)))) - 20\<rparr>"
  using assms by (simp add: tcp_parse_packet_payload_def Let_def add.assoc)

text \<open>A handshake whose SYN is answered by a TCP packet connects exactly when the packet acknowledges number 1 and has the
  flags SYN and ACK: then an ACK with sequence number 1 follows that acknowledges the peer's number; any other answer ends
  it without a connection, after a packet with the flags RST and ACK.\<close>

lemma tcp_handshake_connects:
  assumes "polls e = Some (p, bs) # ps" "m = store_bytes (env_mem e) p bs" "p \<noteq> 0" "p + 34 \<noteq> 0"
    "bswap16 (e_type (eth_hdr_at m p)) = 0x800" "i_protocol (ipv4_hdr_at m (p + 14)) = 6" "sz (t_payload d) = 0"
    "h = tcp_hdr_at m (p + 34)"
    "n = (ucast (bswap16 (i_total_length (ipv4_hdr_at m (p + 14)))) - 20 - ucast (drop_bit 4 (h_data_offset_reserved h)) * 4 :: u64)"
    "ackno = bswap32 (bswap32 (h_sequence h) + max_int 1 (ucast n))"
    "ok = (bswap32 (h_ack h) = 1 \<and> h_flags h = (SYN_B OR ACK_B))"
  shows "\<exists>d' e'. tcp_handskake dest prt d 0 e = (ok, d', e') \<and> polls e' = ps
    \<and> map wire (sent e') = map wire (sent e)
        @ [(0, 0, SYN_B), if ok then (bswap32 1, ackno, ACK_B) else (bswap32 1, ackno, RST_B OR ACK_B)]"
proof -
  let ?d = "d\<lparr>t_sequence := 0, t_ack := 0, t_flags := SYN_B\<rparr>"
  have m1: "max_int 1 (ucast (sz (t_payload d))) = 1" using assms(7) by (simp add: max_int_def)
  define d1 where "d1 = ?d\<lparr>t_sequence := bswap32 1, expected_ack := 1\<rparr>"
  define e1 where "e1 = e\<lparr>sent := sent e @ [(prt, dest, ?d)]\<rparr>"
  have s: "tcp_send prt dest ?d e = (d1, e1)"
    unfolding tcp_send_def Let_def d1_def e1_def env_send_def using m1 by (simp add: flag_defs)
  define e2 where "e2 = e1\<lparr>polls := ps, env_mem := m\<rparr>"
  have x: "tcp_expect_response e1 = (Some \<lparr>ptr = p, sz = of_nat (length bs)\<rparr>, e2)"
    using expect_first [of e1 p bs ps] assms(1,2) by (simp add: e1_def e2_def)
  have m: "env_mem e2 = m" by (simp add: e2_def)
  define d2 where "d2 = d1\<lparr>t_ack := ackno\<rparr>"
  have c: "\<exists>out. tcp_check_response d1 e1 = ((if ok then TCP_OK else TCP_RESET), out, d2, e2)"
    unfolding tcp_check_response_def x prod.case option.case m Let_def sizedptr.simps tcp_parse_ok [OF assms(5,6)]
      assms(11) d2_def assms(8-10)
    using assms(3,4) by (simp add: d1_def)
  then obtain out where c: "tcp_check_response d1 e1 = ((if ok then TCP_OK else TCP_RESET), out, d2, e2)" by blast
  let ?last = "d2\<lparr>t_flags := (if ok then ACK_B else RST_B OR ACK_B)\<rparr>"
  obtain d3 e3 where f: "tcp_send prt dest ?last e2 = (d3, e3)" by fastforce
  then have e3: "sent e3 = sent e2 @ [(prt, dest, ?last)]" "polls e3 = ps"
    using tcp_send_simps [of prt dest ?last e2] by (simp_all add: e2_def)
  have "tcp_handskake dest prt d 0 e = (ok, d3, e3)"
    by (subst tcp_handskake.simps) (use s c f in \<open>auto simp: Let_def tcp_reset_def split: if_splits\<close>)
  moreover have "map wire (sent e3) = map wire (sent e)
        @ [(0, 0, SYN_B), if ok then (bswap32 1, ackno, ACK_B) else (bswap32 1, ackno, RST_B OR ACK_B)]"
    unfolding e3 e2_def e1_def d2_def d1_def by (simp add: wire_def)
  ultimately show ?thesis using e3(2) by blast
qed

definition demo_syn_ack :: "u8 list" where
  "demo_syn_ack =
     [0,0,0,0,0,0, 0,0,0,0,0,0, 8,0,  0x45,0,0,40, 0,0,0,0, 64,6,0,0, 10,0,0,2, 10,0,0,1,
      0,80,0x22,0xB8, 0,0,0,7, 0,0,0,1, 0x50,0x12,0,0, 0,0,0,0]"

definition demo_net :: net_env where
  "demo_net = \<lparr>sent = [], polls = [Some (0x1000, demo_syn_ack)], env_mem = (\<lambda>_. 0), slept = 0\<rparr>"

definition demo_data :: tcp_data where
  "demo_data = \<lparr>t_sequence = 0, t_ack = 0, t_padding = 0, t_flags = 0, t_window = 0xFFFF,
     t_options = \<lparr>ptr = 0, sz = 0\<rparr>, t_payload = \<lparr>ptr = 0, sz = 0\<rparr>, expected_ack = 0\<rparr>"

lemma demo_packet:
  defines "m \<equiv> store_bytes (\<lambda>_. 0) 0x1000 demo_syn_ack"
  shows "bswap16 (e_type (eth_hdr_at m 0x1000)) = 0x800" "i_protocol (ipv4_hdr_at m (0x1000 + 14)) = 6"
    "bswap32 (h_ack (tcp_hdr_at m (0x1000 + 34))) = 1" "h_flags (tcp_hdr_at m (0x1000 + 34)) = (SYN_B OR ACK_B)"
  unfolding eth_hdr_at_def ipv4_hdr_at_def tcp_hdr_at_def eth_hdr.simps ipv4_hdr.simps tcp_hdr.simps bswap_read
  by (simp_all add: m_def store_bytes_def demo_syn_ack_def load_bytes_def upt_rec flag_defs push_bit_or push_bit_push_bit)

lemma tcp_handshake_connects_witness:
  "\<exists>d' e' a. tcp_handskake \<lparr>port = 80, ip = 1, mac = []\<rparr> 8888 demo_data 0 demo_net = (True, d', e')
     \<and> map wire (sent e') = [(0, 0, SYN_B), (bswap32 1, a, ACK_B)]"
proof -
  have ok: "True = (bswap32 (h_ack (tcp_hdr_at (store_bytes (\<lambda>_. 0) 0x1000 demo_syn_ack) (0x1000 + 34))) = 1
      \<and> h_flags (tcp_hdr_at (store_bytes (\<lambda>_. 0) 0x1000 demo_syn_ack) (0x1000 + 34)) = (SYN_B OR ACK_B))"
    using demo_packet(3,4) by blast
  have "polls demo_net = [Some (0x1000, demo_syn_ack)]" "store_bytes (\<lambda>_. 0) 0x1000 demo_syn_ack = store_bytes (env_mem demo_net) 0x1000 demo_syn_ack"
    "sz (t_payload demo_data) = 0" "(0x1000 :: u64) \<noteq> 0" "(0x1000 :: u64) + 34 \<noteq> 0"
    by (simp_all add: demo_net_def demo_data_def)
  note p = this
  from tcp_handshake_connects [OF p(1,2,4,5) demo_packet(1,2) p(3) refl refl refl ok, of "\<lparr>port = 80, ip = 1, mac = []\<rparr>" 8888]
  show ?thesis unfolding if_True by (fastforce simp: demo_net_def)
qed

theorem tcp_close_reopens_witness:
  "\<exists>d' e'. tcp_close \<lparr>port = 80, ip = 1, mac = []\<rparr> 8888 demo_data 0 7 9 (demo_net\<lparr>polls := [None, None]\<rparr>) = (False, d', e')
     \<and> map wire (sent e') = (7, 9, FIN_B OR ACK_B) # replicate 4 (0, 0, SYN_B)"
proof -
  have "silent (demo_net\<lparr>polls := [None, None]\<rparr>)" by (simp add: silent_def)
  from tcp_close_reopens [OF this, of "\<lparr>port = 80, ip = 1, mac = []\<rparr>" 8888 demo_data 7 9]
  show ?thesis by (simp add: demo_net_def)
qed

end
