(* ===== verification/Index_Map.thy ===== *)
theory Index_Map
  imports Prelude
begin

section \<open>Maps by index (\<open>shared/data_struct/indexmap.hpp\<close>)\<close>

text \<open>
  The template \<open>IndexMap<T>\<close>: an array of fixed capacity whose operator [] does not check the index.
  The items are a list; an access past its end is a fault.  \<open>raw\<close> is what the allocated
  memory held before, since the constructor does not initialise it.
\<close>

record 'a indexmap =
  im_items :: "'a list"
  im_count :: u32
  im_capacity :: u32

definition im_new :: "'a list \<Rightarrow> u32 \<Rightarrow> 'a indexmap" where
  "im_new raw capacity = \<lparr>im_items = take (unat capacity) raw, im_count = 0, im_capacity = capacity\<rparr>"

definition im_get :: "'a indexmap \<Rightarrow> u32 \<Rightarrow> fault + 'a" where
  "im_get im i = (if unat i < length (im_items im) then Inr (im_items im ! unat i) else Inl WildDeref)"

definition im_set :: "'a indexmap \<Rightarrow> u32 \<Rightarrow> 'a \<Rightarrow> fault + 'a indexmap" where
  "im_set im i v =
     (if unat i < length (im_items im) then Inr (im\<lparr>im_items := (im_items im)[unat i := v]\<rparr>) else Inl WildDeref)"

definition im_add :: "'a indexmap \<Rightarrow> u32 \<Rightarrow> 'a \<Rightarrow> fault + (bool \<times> 'a indexmap)" where
  "im_add im i v =
     (if im_count im \<ge> im_capacity im then Inr (False, im)
      else bindE (im_set im i v) (\<lambda>im. Inr (True, im\<lparr>im_count := im_count im + 1\<rparr>)))"

definition im_size :: "'a indexmap \<Rightarrow> u32" where
  "im_size im = im_count im"

definition im_max_size :: "'a indexmap \<Rightarrow> u32" where
  "im_max_size im = im_capacity im"

lemma im_get_set:
  "im_set im i v = Inr im' \<Longrightarrow> im_get im' j = (if j = i then Inr v else im_get im j)"
  by (auto simp: im_set_def im_get_def word_unat_eq_iff split: if_splits)

lemma im_get_Inr: "im_get im i = Inr x \<Longrightarrow> \<exists>im'. im_set im i v = Inr im'"
  by (auto simp: im_get_def im_set_def split: if_splits)

lemma im_set_length: "im_set im i v = Inr im' \<Longrightarrow> length (im_items im') = length (im_items im)"
  by (auto simp: im_set_def split: if_splits)

end
