(* ===== verification/Network_Dispatch.thy ===== *)
theory Network_Dispatch
  imports Input_Dispatch Tcp Index_Map
begin

section \<open>The network dispatcher (\<open>kernel/networking/network_dispatch.cpp\<close>, \<open>network.cpp\<close>)\<close>

text \<open>
  Ports are bound to processes; a received packet is queued in the ring of the process its port is bound
  to, answered (ARP, ICMP) or dropped.  The object the methods work on is part of the kernel state; the
  driver is an object of the abstract class \<open>NetDriver\<close>, a record of its virtual methods, and the state
  says whether the pointer to it is set.  The state extends that of the input dispatcher,
  so that the interrupt handler and the system calls can use both.  \<open>count\<close> and \<open>stack\<close> are the counter and the address of the local
  packet that DHCP uses.  Console output is left out.
\<close>

record net_state = input_state +
  ports :: "u16 indexmap"
  net_context :: network_connection_ctx
  has_driver :: bool

record 's net_driver =
  d_header_size :: u16
  d_allocate :: "u64 \<Rightarrow> 's \<Rightarrow> fault + ((u64 \<times> u64) \<times> 's)"
  d_receive :: "'s \<Rightarrow> fault + ((u64 \<times> u64) \<times> 's)"
  d_sent :: "'s \<Rightarrow> 's"
  d_send :: "u64 \<times> u64 \<Rightarrow> 's \<Rightarrow> fault + 's"
  d_get_mac :: "network_connection_ctx \<Rightarrow> 's \<Rightarrow> network_connection_ctx"

text \<open>The argument of \<open>send_packet\<close>: the protocol with what its payload pointer points to.\<close>

datatype net_payload =
    UDP u64 u16
  | DHCP dhcp_request
  | ARP bool
  | ICMP icmp_data
  | TCP tcp_data

definition no_context :: network_connection_ctx where
  "no_context = \<lparr>port = 0, ip = 0, mac = replicate 6 0\<rparr>"

text \<open>The constructor: \<open>raw\<close> is the content of the allocated array.\<close>

definition NetworkDispatch :: "u16 list \<Rightarrow> 'a net_state_scheme \<Rightarrow> fault + 'a net_state_scheme" where
  "NetworkDispatch raw s =
     bindE (fold (\<lambda>i r. bindE r (\<lambda>im. im_set im (of_nat i) 0xFFFF)) [0..<65535] (Inr (im_new raw 0xFFFF))) (\<lambda>im.
       Inr (s\<lparr>ports := im, net_context := no_context\<rparr>))"

text \<open>\<open>virtio\<close> says whether \<open>VirtioNetDriver::try_init\<close> finds the device.\<close>

definition select_driver :: "hw \<Rightarrow> bool \<Rightarrow> bool" where
  "select_driver h virtio \<longleftrightarrow> (if BOARD_TYPE h = 1 then virtio else False)"

definition nd_init :: "'a net_state_scheme net_driver \<Rightarrow> hw \<Rightarrow> bool \<Rightarrow> 'a net_state_scheme \<Rightarrow> bool \<times> 'a net_state_scheme" where
  "nd_init drv h virtio s =
     (if select_driver h virtio then
        let s = s\<lparr>has_driver := True\<rparr> in (True, s\<lparr>net_context := d_get_mac drv (net_context s) s\<rparr>)
      else (False, s\<lparr>has_driver := False\<rparr>))"

definition bind_port :: "u16 \<Rightarrow> u16 \<Rightarrow> 'a net_state_scheme \<Rightarrow> fault + (bool \<times> 'a net_state_scheme)" where
  "bind_port prt pid s =
     bindE (im_get (ports s) (ucast prt)) (\<lambda>owner.
       if owner \<noteq> 0xFFFF then Inr (False, s)
       else bindE (im_set (ports s) (ucast prt) pid) (\<lambda>im. Inr (True, s\<lparr>ports := im\<rparr>)))"

definition unbind_port :: "u16 \<Rightarrow> u16 \<Rightarrow> 'a net_state_scheme \<Rightarrow> fault + (bool \<times> 'a net_state_scheme)" where
  "unbind_port prt pid s =
     bindE (im_get (ports s) (ucast prt)) (\<lambda>owner.
       if owner \<noteq> pid then Inr (False, s)
       else bindE (im_set (ports s) (ucast prt) 0xFFFF) (\<lambda>im. Inr (True, s\<lparr>ports := im\<rparr>)))"

definition send_packet ::
    "'a net_state_scheme net_driver \<Rightarrow> u64 \<Rightarrow> u64 \<Rightarrow> net_payload \<Rightarrow> u16 \<Rightarrow> network_connection_ctx \<Rightarrow> 'a net_state_scheme
     \<Rightarrow> fault + 'a net_state_scheme" where
  "send_packet drv count stack pl prt destination s =
     (if \<not> has_driver s then Inl NullDeref
      else
        let alloc = (\<lambda>n k. bindE (d_allocate drv n s) (\<lambda>(pb, s).
                       bindE (k (fst pb + ucast (d_header_size drv)) s) (\<lambda>s. d_send drv pb s)))
        in case pl of
             UDP p n \<Rightarrow> alloc (14 + 20 + 8 + ucast n) (\<lambda>a s.
               let s = s\<lparr>net_context := (net_context s)\<lparr>port := prt\<rparr>\<rparr>
               in Inr (s\<lparr>mm := create_udp_packet (mm s) a (net_context s) destination \<lparr>ptr = p, sz = ucast n\<rparr>\<rparr>))
           | DHCP req \<Rightarrow> alloc 590 (\<lambda>a s. Inr (s\<lparr>mm := create_dhcp_packet count stack (mm s) a req\<rparr>))
           | ARP req \<Rightarrow> alloc (14 + 28) (\<lambda>a s.
               Inr (s\<lparr>mm := create_arp_packet (mm s) a (mac (net_context s)) (ip (net_context s)) (mac destination) (ip destination) req\<rparr>))
           | ICMP d \<Rightarrow> alloc (14 + 20 + 64) (\<lambda>a s. Inr (s\<lparr>mm := create_icmp_packet (mm s) a (net_context s) destination d\<rparr>))
           | TCP d \<Rightarrow> alloc (14 + 20 + 20 + sz (t_options d) + sz (t_payload d)) (\<lambda>a s.
               let s = s\<lparr>net_context := (net_context s)\<lparr>port := prt\<rparr>\<rparr>
               in Inr (s\<lparr>mm := create_tcp_packet (mm s) a (net_context s) destination d\<rparr>)))"

text \<open>Queueing a packet: a full ring gives up its oldest one.\<close>

definition push_packet :: "u64 \<times> u64 \<Rightarrow> packet_buffer \<Rightarrow> packet_buffer" where
  "push_packet packet b =
     (let next_index = (pb_write b + 1) mod 128;
          b = b\<lparr>pb_entries := (pb_entries b)[unat (pb_write b) := packet], pb_write := next_index\<rparr>
      in if pb_write b = pb_read b then b\<lparr>pb_read := (pb_read b + 1) mod 128\<rparr> else b)"

text \<open>What a packet asks for: the second component says whether it is still to be freed.\<close>

definition deliver :: "u16 \<Rightarrow> u64 \<times> u64 \<Rightarrow> 'a net_state_scheme \<Rightarrow> fault + (bool \<times> 'a net_state_scheme)" where
  "deliver prt packet s =
     bindE (im_get (ports s) (ucast prt)) (\<lambda>owner.
       if owner \<noteq> 0xFFFF then
         case get_proc_by_pid s owner of
           None \<Rightarrow> bindE (unbind_port prt owner s) (\<lambda>(_, s). Inr (True, s))
         | Some i \<Rightarrow> Inr (False, upd_proc i (\<lambda>p. p\<lparr>p_packets := push_packet packet (p_packets p)\<rparr>) s)
       else Inr (True, s))"

definition handle_download_interrupt ::
    "'a net_state_scheme net_driver \<Rightarrow> u64 \<Rightarrow> u64 \<Rightarrow> 'a net_state_scheme \<Rightarrow> fault + 'a net_state_scheme" where
  "handle_download_interrupt drv count stack s =
     (if has_driver s then
        bindE (d_receive drv s) (\<lambda>(packet, s).
        bindE (let eth = fst packet in
               if eth \<noteq> 0 then
                 let ethtype = eth_parse_packet_type (mm s) eth; p = eth + 14 in
                 if ethtype = 0x806 then
                   if arp_should_handle (mm s) p (ip (net_context s)) then
                     let conn = arp_populate_response (mm s) no_context p
                     in bindE (send_packet drv count stack (ARP False) 0 conn s) (\<lambda>s. Inr (True, s))
                   else Inr (True, s)
                 else if ethtype = 0x800 then
                   let ipv4 = p; protocol = ipv4_get_protocol (mm s) ipv4; p = ipv4 + 20 in
                   if protocol = 0x11 \<or> protocol = 0x06 then deliver (udp_parse_packet (mm s) p) packet s
                   else if protocol = 0x1 then
                     let data = \<lparr>response = 1, seq = icmp_get_sequence (mm s) p, icmp_id = icmp_get_id (mm s) p,
                                 payload = c_payload (icmp_packet_at (mm s) p)\<rparr>;
                         conn = ipv4_populate_response (mm s) no_context eth ipv4
                     in bindE (send_packet drv count stack (ICMP data) 0 conn s) (\<lambda>s. Inr (True, s))
                   else Inr (True, s)
                 else Inr (True, s)
               else Inr (True, s)) (\<lambda>(need_free, s).
        Inr (if need_free then free_sized s packet else s)))
      else Inr s)"

definition handle_upload_interrupt :: "'a net_state_scheme net_driver \<Rightarrow> 'a net_state_scheme \<Rightarrow> fault + 'a net_state_scheme" where
  "handle_upload_interrupt drv s = (if has_driver s then Inr (d_sent drv s) else Inl NullDeref)"

definition pop_packet :: "packet_buffer \<Rightarrow> ((u64 \<times> u64) \<times> packet_buffer) option" where
  "pop_packet b =
     (if pb_read b = pb_write b then None
      else Some (pb_entries b ! unat (pb_read b), b\<lparr>pb_read := (pb_read b + 1) mod 128\<rparr>))"

text \<open>The copy is allocated in the heap of the current process, then the original is freed.\<close>

definition nd_read_packet ::
    "nat \<Rightarrow> linker \<Rightarrow> hw \<Rightarrow> u16 \<Rightarrow> 'a net_state_scheme \<Rightarrow> fault + ((u64 \<times> u64) option \<times> 'a net_state_scheme)" where
  "nd_read_packet fuel ld h pid s =
     (case get_proc_by_pid s pid of
        None \<Rightarrow> Inl NullDeref
      | Some i \<Rightarrow>
          (case pop_packet (p_packets (proc s i)) of
             None \<Rightarrow> Inr (None, s)
           | Some (original, b) \<Rightarrow>
               bindE (kalloc fuel ld h s (get_current_heap s) (snd original) 16 (get_current_privilege s) False) (\<lambda>(copy, s).
                 let s = s\<lparr>mm := memcpy (mm s) copy (fst original) (snd original)\<rparr>;
                     s = free_sized s original
                 in Inr (Some (copy, snd original), upd_proc i (\<lambda>p. p\<lparr>p_packets := (p_packets p)\<lparr>pb_read := pb_read b\<rparr>\<rparr>) s))))"

definition get_context :: "'a net_state_scheme \<Rightarrow> network_connection_ctx" where
  "get_context s = net_context s"

text \<open>The operations for the current process (\<open>network.cpp\<close>).\<close>

definition network_init :: "'a net_state_scheme net_driver \<Rightarrow> hw \<Rightarrow> bool \<Rightarrow> u16 list \<Rightarrow> 'a net_state_scheme \<Rightarrow> fault + (bool \<times> 'a net_state_scheme)" where
  "network_init drv h virtio raw s = bindE (NetworkDispatch raw s) (\<lambda>s. Inr (nd_init drv h virtio s))"

definition network_bind_port_current :: "u16 \<Rightarrow> 'a net_state_scheme \<Rightarrow> fault + (bool \<times> 'a net_state_scheme)" where
  "network_bind_port_current prt s = bind_port prt (get_current_proc_pid s) s"

definition network_unbind_port_current :: "u16 \<Rightarrow> 'a net_state_scheme \<Rightarrow> fault + (bool \<times> 'a net_state_scheme)" where
  "network_unbind_port_current prt s = unbind_port prt (get_current_proc_pid s) s"

definition network_read_packet_current ::
    "nat \<Rightarrow> linker \<Rightarrow> hw \<Rightarrow> 'a net_state_scheme \<Rightarrow> fault + ((u64 \<times> u64) option \<times> 'a net_state_scheme)" where
  "network_read_packet_current fuel ld h s = nd_read_packet fuel ld h (get_current_proc_pid s) s"

subsection \<open>The packet ring\<close>

definition packets_ok :: "packet_buffer \<Rightarrow> bool" where
  "packets_ok b \<longleftrightarrow> length (pb_entries b) = 128 \<and> unat (pb_write b) < 128 \<and> unat (pb_read b) < 128"

definition packets_in :: "packet_buffer \<Rightarrow> (u64 \<times> u64) list" where
  "packets_in b = ring_contents 128 (pb_entries b) (unat (pb_read b)) (unat (pb_write b))"

interpretation packets: dropping_buffer 127 packets_ok packets_in push_packet pop_packet
proof
  show "packets_ok (push_packet d b) \<and> packets_in (push_packet d b) = last_n 127 (packets_in b @ [d])" if "packets_ok b" for d b
    using that ring_push_word(1,2) [of "pb_read b" 128 "pb_write b" "pb_entries b" 128]
      ring_push_word(3) [of "pb_read b" 128 "pb_write b" "pb_entries b" 128 d]
    by (simp add: packets_ok_def packets_in_def push_packet_def Let_def split: if_splits)
  show "case pop_packet b of None \<Rightarrow> packets_in b = [] | Some (d, b') \<Rightarrow> packets_ok b' \<and> packets_in b = d # packets_in b'"
    if "packets_ok b" for b
    using that ring_pop_word(1) [of "pb_read b" 128 "pb_write b" 128] ring_pop_word(2,3) [of "pb_read b" 128 "pb_write b" 128 "pb_entries b"]
    by (simp add: packets_ok_def packets_in_def pop_packet_def)
  show "length (packets_in b) \<le> 127" if "packets_ok b" for b
    using that ring_len_lt [of "unat (pb_read b)" 128 "unat (pb_write b)"] by (simp add: packets_ok_def packets_in_def)
qed

subsection \<open>Ports\<close>

lemma im_fill:
  assumes "length (im_items im) = n" "n \<le> 65535"
  shows "fold (\<lambda>i r. bindE r (\<lambda>im. im_set im (of_nat i) v)) [0..<k] (Inr im)
    = (if k \<le> n then Inr (im\<lparr>im_items := replicate k v @ drop k (im_items im)\<rparr>) else Inl WildDeref)"
proof (induction k)
  case (Suc k)
  show ?case
  proof (cases "k \<le> n")
    case True
    have "unat (of_nat k :: u32) = k" using True assms(2) by (intro unat_of_nat_lt) simp
    moreover have "(replicate k v @ drop k (im_items im))[k := v] = replicate (Suc k) v @ drop (Suc k) (im_items im)" if "k < n"
      using that assms(1) by (simp add: list_update_append Cons_nth_drop_Suc [symmetric] replicate_app_Cons_same del: replicate_Suc)
         (simp add: replicate_append_same)
    ultimately show ?thesis using Suc True assms(1) by (auto simp: im_set_def)
  qed (simp add: Suc)
qed simp

lemma NetworkDispatch_ports:
  assumes "65535 \<le> length raw"
  shows "\<exists>s'. NetworkDispatch raw s = Inr s' \<and> length (im_items (ports s')) = 65535
    \<and> (\<forall>p. im_get (ports s') (ucast (p :: u16)) = (if p = 0xFFFF then Inl WildDeref else Inr 0xFFFF))"
proof -
  have l: "length (im_items (im_new raw 0xFFFF)) = 65535" using assms by (simp add: im_new_def)
  have items: "replicate 65535 (0xFFFF :: u16) @ drop 65535 (im_items (im_new raw 0xFFFF)) = replicate 65535 0xFFFF"
    using l by simp
  obtain s' where s': "NetworkDispatch raw s = Inr s'" "im_items (ports s') = replicate 65535 0xFFFF"
    unfolding NetworkDispatch_def im_fill [OF l le_refl] items by simp
  have "im_get (ports s') (ucast p) = (if p = 0xFFFF then Inl WildDeref else Inr 0xFFFF)" for p :: u16
  proof -
    have "unat (ucast p :: u32) = unat p" using unat_lt_2p [of p] by (simp add: unat_ucast_mod)
    moreover have "unat p < 65535 \<longleftrightarrow> p \<noteq> 0xFFFF" using unat_lt_2p [of p] by (auto simp: word_unat_eq_iff)
    ultimately show ?thesis by (simp add: im_get_def s'(2))
  qed
  then show ?thesis using s' by (metis length_replicate)
qed

lemma bind_port_cases:
  assumes "im_get (ports s) (ucast prt) = Inr owner"
  shows "bind_port prt pid s = (if owner \<noteq> 0xFFFF then Inr (False, s)
      else Inr (True, s\<lparr>ports := (ports s)\<lparr>im_items := (im_items (ports s))[unat prt := pid]\<rparr>\<rparr>))"
    "unbind_port prt pid s = (if owner \<noteq> pid then Inr (False, s)
      else Inr (True, s\<lparr>ports := (ports s)\<lparr>im_items := (im_items (ports s))[unat prt := 0xFFFF]\<rparr>\<rparr>))"
proof -
  have "unat (ucast prt :: u32) = unat prt" using unat_lt_2p [of prt] by (simp add: unat_ucast_mod)
  moreover have "unat (ucast prt :: u32) < length (im_items (ports s))" using assms by (simp add: im_get_def split: if_splits)
  ultimately show "bind_port prt pid s = (if owner \<noteq> 0xFFFF then Inr (False, s)
      else Inr (True, s\<lparr>ports := (ports s)\<lparr>im_items := (im_items (ports s))[unat prt := pid]\<rparr>\<rparr>))"
    "unbind_port prt pid s = (if owner \<noteq> pid then Inr (False, s)
      else Inr (True, s\<lparr>ports := (ports s)\<lparr>im_items := (im_items (ports s))[unat prt := 0xFFFF]\<rparr>\<rparr>))"
    using assms by (simp_all add: bind_port_def unbind_port_def im_set_def)
qed

lemma im_get_upd:
  assumes "im_get (ports s) (ucast prt) = Inr x"
  shows "im_get ((ports s)\<lparr>im_items := (im_items (ports s))[unat (prt :: u16) := v]\<rparr>) (ucast q)
    = (if q = prt then Inr v else im_get (ports s) (ucast (q :: u16)))"
proof -
  have u: "unat (ucast p :: u32) = unat p" for p :: u16 using unat_lt_2p [of p] by (simp add: unat_ucast_mod)
  show ?thesis using assms by (auto simp: im_get_def u word_unat_eq_iff split: if_splits)
qed

text \<open>A new dispatcher has every port free but 65535, whose entry lies past its table.  A free port is bound by the first
  process that asks for it; while it is bound no other process binds or unbinds it, its owner can give it
  back, and no other port is affected.\<close>

lemma port_ownership:
  assumes "65535 \<le> length raw" "prt \<noteq> 0xFFFF" "a \<noteq> 0xFFFF" "b \<noteq> a"
  shows "\<exists>s0 s1 s2. NetworkDispatch raw s = Inr s0 \<and> bind_port 0xFFFF a s0 = Inl WildDeref
    \<and> bind_port prt a s0 = Inr (True, s1) \<and> bind_port prt b s1 = Inr (False, s1) \<and> unbind_port prt b s1 = Inr (False, s1)
    \<and> (\<forall>q. q \<noteq> prt \<longrightarrow> im_get (ports s1) (ucast q) = im_get (ports s0) (ucast (q :: u16)))
    \<and> unbind_port prt a s1 = Inr (True, s2) \<and> (\<forall>q. im_get (ports s2) (ucast q) = im_get (ports s0) (ucast (q :: u16)))"
proof -
  obtain s0 where s0: "NetworkDispatch raw s = Inr s0"
    "\<And>p. im_get (ports s0) (ucast (p :: u16)) = (if p = 0xFFFF then Inl WildDeref else Inr 0xFFFF)"
    using NetworkDispatch_ports [OF assms(1), of s] by blast
  define s1 where "s1 = s0\<lparr>ports := (ports s0)\<lparr>im_items := (im_items (ports s0))[unat prt := a]\<rparr>\<rparr>"
  define s2 where "s2 = s1\<lparr>ports := (ports s1)\<lparr>im_items := (im_items (ports s1))[unat prt := 0xFFFF]\<rparr>\<rparr>"
  have free: "im_get (ports s0) (ucast prt) = Inr 0xFFFF" using s0(2) assms(2) by simp
  have at1: "im_get (ports s1) (ucast q) = (if q = prt then Inr a else im_get (ports s0) (ucast q))" for q
    unfolding s1_def using im_get_upd [OF free, of a q] by simp
  then have mine: "im_get (ports s1) (ucast prt) = Inr a" by simp
  have at2: "im_get (ports s2) (ucast q) = (if q = prt then Inr 0xFFFF else im_get (ports s1) (ucast q))" for q
    unfolding s2_def using im_get_upd [OF mine, of "0xFFFF" q] by simp
  have "bind_port 0xFFFF a s0 = Inl WildDeref" using s0(2) [of "0xFFFF"] by (simp add: bind_port_def)
  moreover have "bind_port prt a s0 = Inr (True, s1)" using bind_port_cases(1) [OF free, of a] by (simp add: s1_def)
  moreover have "bind_port prt b s1 = Inr (False, s1)" "unbind_port prt b s1 = Inr (False, s1)" "unbind_port prt a s1 = Inr (True, s2)"
    using bind_port_cases [OF mine, of b] bind_port_cases(2) [OF mine, of a] assms(3,4) by (simp_all add: s2_def)
  moreover have "\<forall>q. im_get (ports s2) (ucast q) = im_get (ports s0) (ucast (q :: u16))" using at1 at2 free by simp
  ultimately show ?thesis using s0(1) at1 by auto
qed

lemma port_ownership_witness:
  "\<exists>s0 s1. NetworkDispatch (replicate 65535 0) (input_state.extend demo_input
      \<lparr>ports = im_new [] 0, net_context = no_context, has_driver = False\<rparr> :: net_state) = Inr s0
    \<and> bind_port 68 2 s0 = Inr (True, s1) \<and> bind_port 68 3 s1 = Inr (False, s1)"
  using port_ownership [of "replicate 65535 0" 68 2 3] by fastforce

subsection \<open>Delivery\<close>

text \<open>Interrupts that find one packet after the other.\<close>

fun receive_all ::
    "'a net_state_scheme net_driver \<Rightarrow> (u64 \<times> u64) list \<Rightarrow> 'a net_state_scheme \<Rightarrow> fault + 'a net_state_scheme" where
  "receive_all drv [] s = Inr s"
| "receive_all drv (pk # pks) s =
     bindE (handle_download_interrupt (drv\<lparr>d_receive := (\<lambda>s. Inr (pk, s))\<rparr>) 0 0 s) (receive_all drv pks)"

lemma deliver_bound:
  assumes "im_get (ports s) (ucast prt) = Inr pid" "pid \<noteq> 0xFFFF" "get_proc_by_pid s pid = Some i"
  shows "deliver prt pk s = Inr (False, upd_proc i (\<lambda>p. p\<lparr>p_packets := push_packet pk (p_packets p)\<rparr>) s)"
  using assms by (simp add: deliver_def)

lemma get_proc_by_pid_packets [simp]:
  "get_proc_by_pid (upd_proc i (\<lambda>p. p\<lparr>p_packets := f p\<rparr>) s) pid = get_proc_by_pid s pid"
proof -
  have "p_id (proc (upd_proc i (\<lambda>p. p\<lparr>p_packets := f p\<rparr>) s) j) = p_id (proc s j)" for j by simp
  then show ?thesis by (simp only: get_proc_by_pid_def)
qed

lemma upd_proc_net [simp]:
  "ports (upd_proc i f s) = ports s" "has_driver (upd_proc i f s) = has_driver s" "mm (upd_proc i f s) = mm s"
  "net_context (upd_proc i f s) = net_context s"
  by (simp_all add: upd_proc_def)

text \<open>A packet that the interrupt handler queues for the port.\<close>

definition for_port :: "mem \<Rightarrow> u16 \<Rightarrow> u64 \<Rightarrow> bool" where
  "for_port m prt a \<longleftrightarrow> a \<noteq> 0 \<and> eth_parse_packet_type m a = 0x800 \<and> ipv4_get_protocol m (a + 14) \<in> {0x11, 0x06}
     \<and> udp_parse_packet m (a + 34) = prt"

lemma receive_one:
  assumes "has_driver s" "for_port (mm s) prt (fst pk)" "im_get (ports s) (ucast prt) = Inr pid" "pid \<noteq> 0xFFFF"
    "get_proc_by_pid s pid = Some i"
  shows "handle_download_interrupt (drv\<lparr>d_receive := (\<lambda>s. Inr (pk, s))\<rparr>) 0 0 s
    = Inr (upd_proc i (\<lambda>p. p\<lparr>p_packets := push_packet pk (p_packets p)\<rparr>) s)"
  using assms(1,2) deliver_bound [OF assms(3-5), of pk]
  by (auto simp: handle_download_interrupt_def for_port_def Let_def add.assoc)

lemma receive_all_queues:
  assumes "has_driver s" "\<forall>pk\<in>set pks. for_port (mm s) prt (fst pk)" "im_get (ports s) (ucast prt) = Inr pid" "pid \<noteq> 0xFFFF"
    "get_proc_by_pid s pid = Some i" "i < length (processes s)"
  shows "\<exists>s'. receive_all drv pks s = Inr s' \<and> p_packets (proc s' i) = fold push_packet pks (p_packets (proc s i))
    \<and> (\<forall>j. j \<noteq> i \<longrightarrow> proc s' j = proc s j) \<and> mm s' = mm s"
  using assms
proof (induction pks arbitrary: s)
  case (Cons pk pks)
  let ?s1 = "upd_proc i (\<lambda>p. p\<lparr>p_packets := push_packet pk (p_packets p)\<rparr>) s"
  have run: "handle_download_interrupt (drv\<lparr>d_receive := (\<lambda>s. Inr (pk, s))\<rparr>) 0 0 s = Inr ?s1"
    using Cons.prems by (intro receive_one) simp_all
  have "\<exists>s'. receive_all drv pks ?s1 = Inr s' \<and> p_packets (proc s' i) = fold push_packet pks (p_packets (proc ?s1 i))
    \<and> (\<forall>j. j \<noteq> i \<longrightarrow> proc s' j = proc ?s1 j) \<and> mm s' = mm ?s1"
    using Cons.prems by (intro Cons.IH) simp_all
  then show ?case using run Cons.prems(6) by auto
qed simp

text \<open>C22: Packets for a bound port are queued, unread and unfreed, for exactly the process that owns the port: from an empty ring it
  takes them in the order of their arrival, and when more than 127 wait the oldest ones are lost.\<close>

theorem packets_reach_bound_process:
  assumes "has_driver s" "\<forall>pk\<in>set pks. for_port (mm s) prt (fst pk)" "im_get (ports s) (ucast prt) = Inr pid" "pid \<noteq> 0xFFFF"
    "get_proc_by_pid s pid = Some i" "i < length (processes s)"
    "packets_ok (p_packets (proc s i))" "packets_in (p_packets (proc s i)) = []"
  shows "\<exists>s'. receive_all drv pks s = Inr s' \<and> get_all pop_packet 127 (p_packets (proc s' i)) = last_n 127 pks
    \<and> (\<forall>j. j \<noteq> i \<longrightarrow> proc s' j = proc s j) \<and> mm s' = mm s"
  using receive_all_queues [OF assms(1-6), of drv] packets.put_then_get [OF assms(7,8), of pks] by auto

text \<open>What the UDP code of another node builds is such a packet.\<close>

lemma udp_for_port:
  assumes "unat n \<le> 65527" "length (mac a) = 6" "length (mac d) = 6" "disj_regions p (42 + unat n) src (unat n)"
    "m (p + 24) = 0" "m (p + 25) = 0" "m (p + 40) = 0" "m (p + 41) = 0" "p \<noteq> 0"
  shows "for_port (create_udp_packet m p a d \<lparr>ptr = src, sz = n\<rparr>) (port d) p"
  using udp_packet_arrives [OF assms(1-8) refl] assms(9) by (simp add: for_port_def)

definition demo_mem :: mem where
  "demo_mem = create_udp_packet (\<lambda>_. 0) 0x1000 \<lparr>port = 67, ip = 0x0A000001, mac = [2, 0, 0, 0, 0, 1]\<rparr>
     \<lparr>port = 68, ip = 0x0A000002, mac = [2, 0, 0, 0, 0, 2]\<rparr> \<lparr>ptr = 0x2000, sz = 9\<rparr>"

definition demo_net_state :: net_state where
  "demo_net_state = input_state.extend (demo_input\<lparr>mm := demo_mem\<rparr>)
     \<lparr>ports = \<lparr>im_items = (replicate 65535 0xFFFF)[68 := 2], im_count = 0, im_capacity = 0xFFFF\<rparr>,
      net_context = no_context, has_driver = True\<rparr>"

definition demo_driver :: "net_state net_driver" where
  "demo_driver = \<lparr>d_header_size = 12, d_allocate = (\<lambda>n s. Inr ((0x8000, n + 12), s)), d_receive = (\<lambda>s. Inr ((0, 0), s)),
     d_sent = (\<lambda>s. s), d_send = (\<lambda>pk s. Inr s), d_get_mac = (\<lambda>c s. c)\<rparr>"

lemma demo_net_state_simps [simp]:
  "processes demo_net_state = processes demo_sched" "proc demo_net_state = proc demo_sched" "mm demo_net_state = demo_mem"
  "has_driver demo_net_state" "im_items (ports demo_net_state) = (replicate 65535 0xFFFF)[68 := 2]"
  by (simp_all add: demo_net_state_def demo_input_def demo_sched_def sched_state.defs input_state.defs proc_def fun_eq_iff)

theorem packets_reach_bound_process_witness:
  "\<exists>s'. receive_all demo_driver [(0x1000, 51), (0x1000, 51)] demo_net_state = Inr s'
    \<and> get_all pop_packet 127 (p_packets (proc s' 2)) = [(0x1000, 51), (0x1000, 51)]"
proof -
  have f: "\<forall>pk\<in>set [(0x1000, 51), (0x1000, 51 :: u64)]. for_port (mm demo_net_state) 68 (fst pk)"
    using udp_for_port [of 9 "\<lparr>port = 67, ip = 0x0A000001, mac = [2, 0, 0, 0, 0, 1]\<rparr>"
        "\<lparr>port = 68, ip = 0x0A000002, mac = [2, 0, 0, 0, 0, 2]\<rparr>" "0x1000" "0x2000" "\<lambda>_. 0"]
    by (simp add: demo_mem_def disj_regions_def)
  have g: "im_get (ports demo_net_state) (ucast (68 :: u16)) = Inr 2" by (simp add: im_get_def)
  have i: "get_proc_by_pid demo_net_state 2 = Some 2" "2 < length (processes demo_net_state)"
    by (simp add: get_proc_by_pid_def upt_rec demo_ids, simp add: demo_sched_def)
  have b: "packets_ok (p_packets (proc demo_net_state 2))" "packets_in (p_packets (proc demo_net_state 2)) = []"
    by (simp_all add: packets_ok_def packets_in_def demo_proc zero_process_def ring_contents_def ring_len_def)
  from packets_reach_bound_process [OF _ f g _ i b, of demo_driver]
  show ?thesis by (auto simp: last_n_def)
qed

end
