(* ===== verification/Interrupts.thy ===== *)
theory Interrupts
  imports Network_Dispatch
begin

section \<open>Interrupts (\<open>kernel/exceptions/irq.c\<close>)\<close>

text \<open>
  The registers of the interrupt controller are memory.  The drivers behind the input and audio interrupts
  and the network card are parameters.  The handler does not return: it ends in a process that is resumed
  (\<open>process_restore\<close>, \<open>switch_proc\<close>), so its result is the state in which that process goes on.
  Console output is left out.
\<close>

subsection \<open>The controller\<close>

text \<open>A shift of a 32-bit 1 takes its distance modulo 32 on AArch64 (beyond 31 it is undefined in C).\<close>

definition shl32 :: "u32 \<Rightarrow> u32 \<Rightarrow> u32" where
  "shl32 x n = push_bit (unat n mod 32) x"

definition gic_enable_irq :: "hw \<Rightarrow> u32 \<Rightarrow> u8 \<Rightarrow> u8 \<Rightarrow> mem \<Rightarrow> mem" where
  "gic_enable_irq h irq priority cpu_target m =
     (if RPI_BOARD h = 3 then write32 m (GICD_BASE h + 0x210) (shl32 1 irq)
      else
        let reg_offset = irq div 32 * 4;
            b = shl32 1 (irq mod 32);
            flag = read32 m (GICD_BASE h + 0x100 + ucast reg_offset);
            m = write32 m (GICD_BASE h + 0x100 + ucast reg_offset) (flag OR b);
            m = write8 m (GICD_BASE h + 0x800 + ucast irq) cpu_target;
            m = write8 m (GICD_BASE h + 0x400 + ucast irq) priority;
            config_offset = irq div 16 * 4;
            config_shift = irq mod 16 * 2;
            config = read32 m (GICD_BASE h + 0xC00 + ucast config_offset);
            config = config AND NOT (shl32 3 config_shift);
            config = config OR shl32 2 config_shift
        in write32 m (GICD_BASE h + 0xC00 + ucast config_offset) config)"

definition IRQ_TIMER :: u32 where "IRQ_TIMER = 30"
definition SLEEP_TIMER :: u32 where "SLEEP_TIMER = 27"
definition INPUT_IRQ :: u32 where "INPUT_IRQ = 36"
definition NET_IRQ :: u32 where "NET_IRQ = 32"
definition AUDIO_IRQ :: u32 where "AUDIO_IRQ = 34"

lemmas irq_defs = IRQ_TIMER_def SLEEP_TIMER_def INPUT_IRQ_def NET_IRQ_def AUDIO_IRQ_def

definition irq_init :: "hw \<Rightarrow> mem \<Rightarrow> mem" where
  "irq_init h m =
     (let m = (if RPI_BOARD h \<noteq> 3 then write32 (write32 m (GICD_BASE h) 0) (GICC_BASE h) 0 else m);
          m = gic_enable_irq h IRQ_TIMER 0x80 0 m;
          m = gic_enable_irq h (MSI_OFFSET h + INPUT_IRQ) 0x80 0 m;
          m = gic_enable_irq h (MSI_OFFSET h + NET_IRQ) 0x80 0 m;
          m = gic_enable_irq h (MSI_OFFSET h + NET_IRQ + 1) 0x80 0 m;
          m = gic_enable_irq h SLEEP_TIMER 0x80 0 m;
          m = gic_enable_irq h (MSI_OFFSET h + AUDIO_IRQ) 0x80 0 m
      in if RPI_BOARD h \<noteq> 3 then
           let m = write32 m (GICC_BASE h + 0x004) 0xF0;
               m = write32 m (GICC_BASE h) 1
           in write32 m (GICD_BASE h) 1
         else m)"

subsection \<open>The handler\<close>

definition clz32 :: "u32 \<Rightarrow> u32" where
  "clz32 w = (case List.find (\<lambda>i. bit w (31 - i)) [0..<32] of Some i \<Rightarrow> of_nat i | None \<Rightarrow> 32)"

definition acknowledged_irq :: "hw \<Rightarrow> mem \<Rightarrow> u32" where
  "acknowledged_irq h m =
     (if RPI_BOARD h = 3 then 31 - clz32 (read32 m (GICD_BASE h + 0x204)) else read32 m (GICC_BASE h + 0xC))"

definition end_of_irq :: "hw \<Rightarrow> u32 \<Rightarrow> 'a net_state_scheme \<Rightarrow> 'a net_state_scheme" where
  "end_of_irq h irq s = (if RPI_BOARD h \<noteq> 3 then s\<lparr>mm := write32 (mm s) (GICC_BASE h + 0x10) irq\<rparr> else s)"

record 's devices =
  dev_input :: "'s \<Rightarrow> fault + 's"
  dev_audio :: "'s \<Rightarrow> fault + 's"
  dev_net :: "'s net_driver"

definition enter_kernel :: "'a net_state_scheme \<Rightarrow> 'a net_state_scheme" where
  "enter_kernel s =
     (let s = save_return_address_interrupt (save_context_registers s)
      in if ksp s \<noteq> 0 then s\<lparr>cpu_regs := (cpu_regs s)\<lparr>sp_now := ksp s\<rparr>\<rparr> else s)"

text \<open>\<open>count\<close> and \<open>stack\<close> are what the network dispatcher takes for DHCP.\<close>

definition irq_el1_handler ::
    "nat \<Rightarrow> clock \<Rightarrow> hw \<Rightarrow> 'a net_state_scheme devices \<Rightarrow> u64 \<Rightarrow> u64 \<Rightarrow> 'a net_state_scheme \<Rightarrow> fault + 'a net_state_scheme" where
  "irq_el1_handler fuel ck h dev count stack s =
     (let s = enter_kernel s;
          irq = acknowledged_irq h (mm s);
          finish = (\<lambda>s. Inr (process_restore (end_of_irq h irq s)))
      in if irq = IRQ_TIMER then switch_proc fuel ck INTERRUPT (end_of_irq h irq s)
         else if irq = MSI_OFFSET h + INPUT_IRQ then bindE (handle_input_interrupt (dev_input dev) s) finish
         else if irq = SLEEP_TIMER then bindE (wake_processes ck s) finish
         else if irq = MSI_OFFSET h + NET_IRQ then bindE (handle_download_interrupt (dev_net dev) count stack s) finish
         else if irq = MSI_OFFSET h + NET_IRQ + 1 then bindE (handle_upload_interrupt (dev_net dev) s) finish
         else if irq = MSI_OFFSET h + AUDIO_IRQ then bindE (dev_audio dev s) finish
         else finish s)"

subsection \<open>Starting the controller\<close>

lemma gic_enable_irq_stores:
  assumes "RPI_BOARD h \<noteq> 3"
  shows "gic_enable_irq h irq pr tgt m =
    (let e = GICD_BASE h + 0x100 + ucast (irq div 32 * 4); c = GICD_BASE h + 0xC00 + ucast (irq div 16 * 4);
         m = write32 m e (read32 m e OR shl32 1 (irq mod 32));
         m = write8 (write8 m (GICD_BASE h + 0x800 + ucast irq) tgt) (GICD_BASE h + 0x400 + ucast irq) pr
     in write32 m c (read32 m c AND NOT (shl32 3 (irq mod 16 * 2)) OR shl32 2 (irq mod 16 * 2)))"
  using assms by (simp add: gic_enable_irq_def Let_def)

lemma read32_write_field:
  assumes "unat a + 4 \<le> unat b \<or> unat b + length bs \<le> unat a" "unat a + 4 \<le> 2 ^ 64" "unat b + length bs \<le> 2 ^ 64"
  shows "read32 (store_bytes m (p + b) bs) (p + a) = read32 m (p + a)"
  by (simp only: read32_def load_store_field [OF assms])

lemma unat_reg:
  assumes "unat (k :: u32) < 2 ^ 16" "unat (c :: u64) < 2 ^ 16"
  shows "unat (c + ucast (k * 4)) = unat c + 4 * unat k" "unat (c + ucast k) = unat c + unat k"
proof -
  have "unat (k * 4) = 4 * unat k" using assms(1) by (subst unat_mult_small) simp_all
  then have "unat (ucast (k * 4) :: u64) = 4 * unat k" "unat (ucast k :: u64) = unat k"
    using assms(1) by (simp_all add: unat_ucast_mod)
  then show "unat (c + ucast (k * 4)) = unat c + 4 * unat k" "unat (c + ucast k) = unat c + unat k"
    using assms by (simp_all add: unat_add_small)
qed

text \<open>Enabling an interrupt sets its bit among the enable bits and leaves the others as they are.\<close>

lemma gic_enable_irq_enable:
  assumes "RPI_BOARD h \<noteq> 3" "unat irq < 1020" "unat k < 32"
  shows "read32 (gic_enable_irq h irq pr tgt m) (GICD_BASE h + (0x100 + ucast (k * 4)))
    = read32 m (GICD_BASE h + (0x100 + ucast (k * 4))) OR (if k = irq div 32 then shl32 1 (irq mod 32) else 0)"
proof -
  let ?g = "GICD_BASE h" and ?a = "0x100 + ucast (k * 4) :: u64" and ?e = "0x100 + ucast (irq div 32 * 4) :: u64"
  have d: "unat (irq div 32) = unat irq div 32" "unat (irq div 16) = unat irq div 16" by (simp_all add: unat_div)
  have a: "unat ?a = 256 + 4 * unat k" using unat_reg(1) [of k "0x100"] assms(3) by simp
  have e: "unat ?e = 256 + 4 * unat (irq div 32)" using unat_reg(1) [of "irq div 32" "0x100"] assms(2) d by simp
  have c: "unat (0xC00 + ucast (irq div 16 * 4) :: u64) = 3072 + 4 * unat (irq div 16)"
    using unat_reg(1) [of "irq div 16" "0xC00"] assms(2) d by simp
  have t: "unat (0x800 + ucast irq :: u64) = 2048 + unat irq" "unat (0x400 + ucast irq :: u64) = 1024 + unat irq"
    using unat_reg(2) [of irq "0x800"] unat_reg(2) [of irq "0x400"] assms(2) by simp_all
  have later: "read32 (gic_enable_irq h irq pr tgt m) (?g + ?a) = read32 (write32 m (?g + ?e) (read32 m (?g + ?e) OR shl32 1 (irq mod 32))) (?g + ?a)"
    unfolding gic_enable_irq_stores [OF assms(1)] Let_def write8_store add.assoc write32_def [of _ "?g + (0xC00 + _)"]
    using a c t assms(2,3) d by (subst read32_write_field; (subst read32_write_field)?; (subst read32_write_field)?; simp)
  show ?thesis
  proof (cases "k = irq div 32")
    case True
    then show ?thesis unfolding later by simp
  next
    case False
    then have "4 * unat k + 4 \<le> 4 * unat (irq div 32) \<or> 4 * unat (irq div 32) + 4 \<le> 4 * unat k"
      unfolding word_unat_eq_iff by linarith
    then have "unat ?a + 4 \<le> unat ?e \<or> unat ?e + length (le_bytes 4 v) \<le> unat ?a" for v :: u32
      unfolding a e length_le_bytes by linarith
    moreover have "unat ?a + 4 \<le> 2 ^ 64" "unat ?e + length (le_bytes 4 v) \<le> 2 ^ 64" for v :: u32
      unfolding a e length_le_bytes using assms(2,3) d by simp_all
    ultimately have "read32 (write32 m (?g + ?e) v) (?g + ?a) = read32 m (?g + ?a)" for v
      unfolding write32_def by (intro read32_write_field)
    then show ?thesis unfolding later using False by simp
  qed
qed

definition used_irqs :: "hw \<Rightarrow> u32 list" where
  "used_irqs h = [30, MSI_OFFSET h + 36, MSI_OFFSET h + 32, MSI_OFFSET h + 33, 27, MSI_OFFSET h + 34]"

definition enable_bits :: "u32 \<Rightarrow> u32 list \<Rightarrow> u32 \<Rightarrow> u32" where
  "enable_bits k irqs w = fold (\<lambda>irq w. w OR (if k = irq div 32 then shl32 1 (irq mod 32) else 0)) irqs w"

lemma irq_init_eq:
  assumes "RPI_BOARD h \<noteq> 3"
  shows "irq_init h m = (let m = write32 (write32 m (GICD_BASE h) 0) (GICC_BASE h) 0;
      m = fold (\<lambda>irq. gic_enable_irq h irq 0x80 0) (used_irqs h) m
    in write32 (write32 (write32 m (GICC_BASE h + 4) 0xF0) (GICC_BASE h) 1) (GICD_BASE h) 1)"
  using assms by (simp add: irq_init_def used_irqs_def irq_defs Let_def add.assoc)

lemma gic_enable_all:
  assumes "RPI_BOARD h \<noteq> 3" "\<forall>irq\<in>set irqs. unat irq < 1020" "unat k < 32"
  shows "read32 (fold (\<lambda>irq. gic_enable_irq h irq 0x80 0) irqs m) (GICD_BASE h + (0x100 + ucast (k * 4)))
    = enable_bits k irqs (read32 m (GICD_BASE h + (0x100 + ucast (k * 4))))"
  using assms(2) by (induction irqs arbitrary: m) (simp_all add: enable_bits_def gic_enable_irq_enable [OF assms(1) _ assms(3)])

lemma read32_apart:
  assumes "disj_regions p n q k" "unat a + 4 \<le> n" "unat b + 4 \<le> k"
  shows "read32 (write32 m (q + b) v) (p + a) = read32 m (p + a)"
proof -
  have "disj_regions (p + a) 4 (q + b) 4" using assms by (intro disj_regions_sub [OF assms(1)]) simp_all
  then show ?thesis by (simp add: write32_def read32_def load_store_disj)
qed

text \<open>On boards with a GIC, starting the interrupt controller sets the enable bits of the six interrupts the kernel
  handles and leaves every other enable bit as it was, and ends with the priority mask at 0xF0 and the
  CPU interface and the distributor switched on.\<close>

lemma irq_init_enables:
  assumes "RPI_BOARD h \<noteq> 3" "unat (MSI_OFFSET h) < 900" "disj_regions (GICD_BASE h) 0x1000 (GICC_BASE h) 0x1000" "unat k < 32"
  shows "read32 (irq_init h m) (GICD_BASE h + (0x100 + ucast (k * 4)))
      = enable_bits k (used_irqs h) (read32 m (GICD_BASE h + (0x100 + ucast (k * 4))))
    \<and> read32 (irq_init h m) (GICC_BASE h + 4) = 0xF0 \<and> read32 (irq_init h m) (GICC_BASE h) = 1 \<and> read32 (irq_init h m) (GICD_BASE h) = 1"
proof -
  let ?d = "GICD_BASE h" and ?c = "GICC_BASE h" and ?a = "0x100 + ucast (k * 4) :: u64"
  have a: "unat ?a = 256 + 4 * unat k" using unat_reg(1) [of k "0x100"] assms(4) by simp
  have irqs: "\<forall>irq\<in>set (used_irqs h). unat irq < 1020"
    using assms(2) by (simp add: used_irqs_def unat_add_small)
  have dc: "disj_regions ?c 0x1000 ?d 0x1000" using assms(3) by (simp add: disj_regions_commute)
  have c: "read32 (write32 m (?c + b) v) (?d + ?a) = read32 m (?d + ?a)" if "unat b + 4 \<le> 0x1000" for m b v
    by (rule read32_apart [OF assms(3)]) (use a assms(4) that in simp_all)
  have d: "read32 (write32 m ?d v) (?d + ?a) = read32 m (?d + ?a)" for m v
  proof -
    have "read32 (store_bytes m (?d + 0) (le_bytes 4 v)) (?d + ?a) = read32 m (?d + ?a)"
      by (rule read32_write_field) (use a assms(4) in simp_all)
    then show ?thesis by (simp add: write32_def)
  qed
  have cd: "read32 (write32 m ?d v) (?c + b) = read32 m (?c + b)" if "unat b + 4 \<le> 0x1000" for m b v
    using read32_apart [OF dc that, of 0 m v] by simp
  have c4: "read32 (write32 m ?c v) (?c + 4) = read32 m (?c + 4)" for m v
  proof -
    have "read32 (store_bytes m (?c + 0) (le_bytes 4 v)) (?c + 4) = read32 m (?c + 4)"
      by (rule read32_write_field) simp_all
    then show ?thesis by (simp add: write32_def)
  qed
  have "read32 (irq_init h m) (?d + ?a) = enable_bits k (used_irqs h) (read32 m (?d + ?a))"
    unfolding irq_init_eq [OF assms(1)] Let_def using c [of 0] c [of 4] by (simp add: d gic_enable_all [OF assms(1) irqs assms(4)])
  moreover have "read32 (irq_init h m) (?c + 4) = 0xF0" "read32 (irq_init h m) ?c = 1" "read32 (irq_init h m) ?d = 1"
    unfolding irq_init_eq [OF assms(1)] Let_def using cd [of 0] cd [of 4] by (simp_all add: c4)
  ultimately show ?thesis by blast
qed

definition demo_gic :: hw where
  "demo_gic = \<lparr>BOARD_TYPE = 1, RPI_BOARD = 0, PCI_BASE = 0, RAM_START = 0x40000000, RAM_SIZE = 0x20000000, CRAM_START = 0x43600000,
     CRAM_END = 0x60000000, UART0_BASE = 0x9000000, XHCI_BASE = 0, MMIO_BASE = 0, GICD_BASE = 0x08000000, GICC_BASE = 0x08010000,
     SDHCI_BASE = 0, MAILBOX_BASE = 0, GPIO_BASE = 0, GPIO_PIN_BASE = 0, DWC2_BASE = 0, MSI_OFFSET = 50\<rparr>"

lemma read32_zero: "read32 (\<lambda>_. 0) a = 0"
proof -
  have "load_bytes (\<lambda>_. 0) a 4 = replicate 4 0" by (rule nth_equalityI) simp_all
  then show ?thesis by (simp only: read32_def of_le_replicate_0)
qed

lemma irq_init_enables_witness:
  "read32 (irq_init demo_gic (\<lambda>_. 0)) (0x08000000 + (0x100 + ucast (2 * 4 :: u32))) = 0x5C0000"
proof -
  have "RPI_BOARD demo_gic \<noteq> 3" "unat (MSI_OFFSET demo_gic) < 900" "GICD_BASE demo_gic = 0x08000000"
    "disj_regions (GICD_BASE demo_gic) 0x1000 (GICC_BASE demo_gic) 0x1000" "unat (2 :: u32) < 32"
    by (simp_all add: demo_gic_def disj_regions_def)
  note p = this
  have "enable_bits 2 (used_irqs demo_gic) 0 = 0x5C0000"
    by (simp add: enable_bits_def used_irqs_def demo_gic_def shl32_def)
  then show ?thesis using irq_init_enables [OF p(1,2,4,5), of "\<lambda>_. 0"] unfolding p(3) read32_zero by simp
qed

subsection \<open>The timer interrupt\<close>

lemma enter_kernel_simps [simp]:
  "length (processes (enter_kernel s)) = length (processes s)" "cur (enter_kernel s) = cur s" "mm (enter_kernel s) = mm s"
  "proc_count (enter_kernel s) = proc_count s" "next_proc_index (enter_kernel s) = next_proc_index s"
  "p_id (proc (enter_kernel s) j) = p_id (proc s j)" "p_state (proc (enter_kernel s) j) = p_state (proc s j)"
  "xr (cpu_regs (enter_kernel s)) = xr (cpu_regs s)" "elr_el1 (cpu_regs (enter_kernel s)) = elr_el1 (cpu_regs s)"
  by (simp_all add: enter_kernel_def save_return_address_interrupt_def save_context_registers_def Let_def save_context_def
      save_pc_interrupt_def)
    (simp_all add: upd_proc_def proc_def cur_def)

lemma proc_cpu_regs [simp]: "proc (s\<lparr>cpu_regs := c\<rparr>) j = proc s j"
  by (simp add: proc_def)

lemma enter_kernel_proc:
  assumes "cur s < length (processes s)"
  shows "proc (enter_kernel s) j = (if j = cur s then save_pc_interrupt (cpu_regs s) (save_context (cpu_regs s) (proc s j)) else proc s j)"
proof -
  have "cpu_regs (upd_proc i f s) = cpu_regs s" for i f by (simp add: upd_proc_def)
  then show ?thesis using assms
    by (simp add: enter_kernel_def save_return_address_interrupt_def save_context_registers_def Let_def)
qed

text \<open>C23: On the boards with an interrupt controller (all but the RPi 3), and when some process is READY, a timer interrupt takes the processor from the current process: its registers and pc are saved in its own
  slot and nowhere else, the end of the interrupt is signalled, and the next READY process in the order of the slots goes on
  from its saved context; the process table stays well formed.\<close>

theorem timer_interrupt_preempts:
  assumes "procs_ok s" "15 \<le> fuel" "RPI_BOARD h \<noteq> 3" "read32 (mm s) (GICC_BASE h + 0xC) = IRQ_TIMER"
    "j < 16" "p_state (proc s j) = READY"
  shows "\<exists>s' m. irq_el1_handler fuel ck h dev count stack s = Inr s' \<and> m < 16 \<and> cur s' = (cur s + 1 + m) mod 16
    \<and> p_state (proc s' (cur s')) = READY \<and> (\<forall>n<m. p_state (proc s ((cur s + 1 + n) mod 16)) \<noteq> READY)
    \<and> (\<forall>i. proc s' i = (if i = cur s then save_pc_interrupt (cpu_regs s) (save_context (cpu_regs s) (proc s i)) else proc s i))
    \<and> elr_el1 (cpu_regs s') = p_pc (proc s' (cur s')) \<and> sp_now (cpu_regs s') = p_sp (proc s' (cur s'))
    \<and> mm s' = write32 (mm s) (GICC_BASE h + 0x10) IRQ_TIMER \<and> procs_ok s'"
proof -
  let ?s1 = "end_of_irq h IRQ_TIMER (enter_kernel s)"
  have len: "cur s < length (processes s)" "length (processes s) = 16" using assms(1) by (simp_all add: procs_ok_def)
  have c1: "cur ?s1 = cur s" unfolding enter_kernel_simps(2) [of s, symmetric] by (simp add: end_of_irq_def cur_def)
  have s1: "proc ?s1 i = proc (enter_kernel s) i" "cur ?s1 = cur s" "length (processes ?s1) = 16" "proc_count ?s1 = proc_count s"
    "next_proc_index ?s1 = next_proc_index s" "mm ?s1 = write32 (mm s) (GICC_BASE h + 0x10) IRQ_TIMER" for i
    using assms(3) len(2) c1 by (simp_all add: end_of_irq_def)
  have ok: "procs_ok ?s1"
    by (rule procs_ok_live_cong(1) [OF assms(1)]) (simp_all add: s1 del: enter_kernel_proc)
  have r: "p_state (proc ?s1 j) = READY" using assms(6) by (simp add: s1)
  obtain m s' where m: "m < 16" "switch_proc fuel ck INTERRUPT ?s1 = Inr s'" "cur s' = (cur ?s1 + 1 + m) mod 16"
    "p_state (proc ?s1 (cur s')) = READY" "\<And>n. n < m \<Longrightarrow> p_state (proc ?s1 ((cur ?s1 + 1 + n) mod 16)) \<noteq> READY"
    "s' = process_restore (timer_reset ck (?s1\<lparr>current_proc := of_nat (cur s')\<rparr>))"
    by (rule switch_proc_Inr [OF ok assms(2,5) r]) blast
  have run: "irq_el1_handler fuel ck h dev count stack s = Inr s'"
    using m(2) assms(3,4) by (simp add: irq_el1_handler_def Let_def acknowledged_irq_def)
  have keep: "processes s' = processes ?s1" "proc_count s' = proc_count ?s1" "next_proc_index s' = next_proc_index ?s1" "mm s' = mm ?s1"
    by (subst m(6), simp add: process_restore_def timer_reset_def)+
  have c: "cur s' < 16" unfolding m(3) by simp
  have proc': "proc s' i = proc ?s1 i" for i by (simp add: proc_def keep(1))
  have u: "unat (of_nat (cur s') :: u16) = cur s'" using c by simp
  have regs: "elr_el1 (cpu_regs s') = p_pc (proc ?s1 (cur s'))" "sp_now (cpu_regs s') = p_sp (proc ?s1 (cur s'))"
    by (subst m(6), simp add: process_restore_def timer_reset_def restore_context_def Let_def proc_def cur_def u [unfolded cur_def])+
  have ok': "procs_ok s'" by (rule procs_ok_cong(1) [OF keep(1-3) c ok])
  have none: "\<forall>n<m. p_state (proc s ((cur s + 1 + n) mod 16)) \<noteq> READY" using m(5) by (simp add: s1)
  have saved: "\<forall>i. proc s' i = (if i = cur s then save_pc_interrupt (cpu_regs s) (save_context (cpu_regs s) (proc s i)) else proc s i)"
    by (simp add: proc' s1 enter_kernel_proc [OF len(1)])
  have "elr_el1 (cpu_regs s') = p_pc (proc s' (cur s'))" "sp_now (cpu_regs s') = p_sp (proc s' (cur s'))"
    "p_state (proc s' (cur s')) = READY" "cur s' = (cur s + 1 + m) mod 16" "mm s' = write32 (mm s) (GICC_BASE h + 0x10) IRQ_TIMER"
    using regs m(3,4) keep(4) by (simp_all only: proc' s1)
  then show ?thesis using run m(1) none saved ok' by blast
qed

definition demo_irq_state :: net_state where
  "demo_irq_state = demo_net_state\<lparr>mm := write32 (\<lambda>_. 0) 0x0801000C 30\<rparr>"

theorem timer_interrupt_preempts_witness:
  "\<exists>s'. irq_el1_handler 15 demo_clock demo_gic \<lparr>dev_input = Inr, dev_audio = Inr, dev_net = demo_driver\<rparr> 0 0 demo_irq_state = Inr s'
     \<and> p_state (proc s' (cur s')) = READY"
proof -
  have same: "processes demo_irq_state = processes demo_sched" "cur demo_irq_state = cur demo_sched"
    "proc_count demo_irq_state = proc_count demo_sched" "next_proc_index demo_irq_state = next_proc_index demo_sched"
    by (simp_all add: demo_irq_state_def demo_net_state_def demo_input_def demo_sched_def sched_state.defs input_state.defs cur_def)
  have pr: "proc demo_irq_state i = proc demo_sched i" for i by (simp add: proc_def same)
  have "procs_ok demo_irq_state"
    by (rule procs_ok_live_cong(1) [OF demo_procs_ok]) (simp_all add: same pr, simp add: demo_sched_def)
  moreover have "RPI_BOARD demo_gic \<noteq> 3" "GICC_BASE demo_gic + 0xC = 0x0801000C" by (simp_all add: demo_gic_def)
  moreover have "read32 (mm demo_irq_state) 0x0801000C = IRQ_TIMER" by (simp add: demo_irq_state_def IRQ_TIMER_def)
  moreover have "p_state (proc demo_irq_state 3) = READY" by (simp add: pr demo_proc)
  ultimately show ?thesis
    using timer_interrupt_preempts [of demo_irq_state 15 demo_gic 3 demo_clock "\<lparr>dev_input = Inr, dev_audio = Inr, dev_net = demo_driver\<rparr>" 0 0]
    by auto
qed

end
