(* ===== verification/Graphics.thy ===== *)
theory Graphics
  imports Interrupts Graphic_Types
begin

section \<open>The graphics interface (\<open>kernel/graph/graphics.cpp\<close>)\<close>

text \<open>
  Every call goes to the driver, an object of the abstract class \<open>GPUDriver\<close>: a record of its virtual methods.  The state
  says whether the driver pointer is set and holds the flags the code keeps; \<open>screen_overlay\<close> is set while
  the window manager is paused (\<open>window_manager.cpp\<close>).  A \<open>string\<close> is passed as its pointer and two lengths.
\<close>

record kernel_state = net_state +
  has_gpu :: bool
  gpu_is_ready :: bool
  screen_size :: gpu_size
  screen_overlay :: bool
  windows_paused :: bool

type_synonym text_arg = "u64 \<times> u32 \<times> u32"

record 's gpu_driver =
  g_flush :: "'s \<Rightarrow> 's"
  g_clear :: "u32 \<Rightarrow> 's \<Rightarrow> 's"
  g_pixel :: "u32 \<Rightarrow> u32 \<Rightarrow> u32 \<Rightarrow> 's \<Rightarrow> 's"
  g_rect :: "u32 \<Rightarrow> u32 \<Rightarrow> u32 \<Rightarrow> u32 \<Rightarrow> u32 \<Rightarrow> 's \<Rightarrow> 's"
  g_line :: "u32 \<Rightarrow> u32 \<Rightarrow> u32 \<Rightarrow> u32 \<Rightarrow> u32 \<Rightarrow> 's \<Rightarrow> 's"
  g_char :: "u32 \<Rightarrow> u32 \<Rightarrow> u8 \<Rightarrow> u32 \<Rightarrow> u32 \<Rightarrow> 's \<Rightarrow> 's"
  g_screen_size :: "'s \<Rightarrow> gpu_size"
  g_string :: "text_arg \<Rightarrow> u32 \<Rightarrow> u32 \<Rightarrow> u32 \<Rightarrow> u32 \<Rightarrow> 's \<Rightarrow> 's"
  g_char_size :: "u32 \<Rightarrow> 's \<Rightarrow> u32"

text \<open>The three flags say which drivers find their device; nothing tests whether one was found.\<close>

definition gpu_init :: "hw \<Rightarrow> bool \<Rightarrow> bool \<Rightarrow> bool \<Rightarrow> 'a kernel_state_scheme \<Rightarrow> bool \<times> 'a kernel_state_scheme" where
  "gpu_init h virtio ramfb videocore s =
     (if BOARD_TYPE h = 1 \<or> BOARD_TYPE h = 2 then
        let s = s\<lparr>has_gpu := (if BOARD_TYPE h = 1 then (if virtio \<or> ramfb then True else has_gpu s) else videocore)\<rparr>
        in (True, s\<lparr>screen_size := \<lparr>width = 1080, height = 720\<rparr>, gpu_is_ready := True\<rparr>)
      else (False, s))"

definition gpu_ready :: "'a kernel_state_scheme \<Rightarrow> bool" where
  "gpu_ready s \<longleftrightarrow> has_gpu s \<and> gpu_is_ready s"

definition gpu_flush :: "'a kernel_state_scheme gpu_driver \<Rightarrow> 'a kernel_state_scheme \<Rightarrow> 'a kernel_state_scheme" where
  "gpu_flush g s = (if \<not> gpu_ready s then s else g_flush g s)"

definition gpu_clear :: "'a kernel_state_scheme gpu_driver \<Rightarrow> u32 \<Rightarrow> 'a kernel_state_scheme \<Rightarrow> 'a kernel_state_scheme" where
  "gpu_clear g color s = (if \<not> gpu_ready s then s else g_clear g color s)"

definition gpu_draw_pixel :: "'a kernel_state_scheme gpu_driver \<Rightarrow> gpu_point \<Rightarrow> u32 \<Rightarrow> 'a kernel_state_scheme \<Rightarrow> 'a kernel_state_scheme" where
  "gpu_draw_pixel g p color s = (if \<not> gpu_ready s then s else g_pixel g (px p) (py p) color s)"

definition gpu_fill_rect :: "'a kernel_state_scheme gpu_driver \<Rightarrow> gpu_rect \<Rightarrow> u32 \<Rightarrow> 'a kernel_state_scheme \<Rightarrow> 'a kernel_state_scheme" where
  "gpu_fill_rect g r color s =
     (if \<not> gpu_ready s then s else g_rect g (px (point r)) (py (point r)) (width (rsize r)) (height (rsize r)) color s)"

definition gpu_draw_line ::
    "'a kernel_state_scheme gpu_driver \<Rightarrow> gpu_point \<Rightarrow> gpu_point \<Rightarrow> u32 \<Rightarrow> 'a kernel_state_scheme \<Rightarrow> 'a kernel_state_scheme" where
  "gpu_draw_line g p0 p1 color s = (if \<not> gpu_ready s then s else g_line g (px p0) (py p0) (px p1) (py p1) color s)"

definition gpu_draw_char ::
    "'a kernel_state_scheme gpu_driver \<Rightarrow> gpu_point \<Rightarrow> u8 \<Rightarrow> u32 \<Rightarrow> u32 \<Rightarrow> 'a kernel_state_scheme \<Rightarrow> 'a kernel_state_scheme" where
  "gpu_draw_char g p c scale color s = (if \<not> gpu_ready s then s else g_char g (px p) (py p) c scale color s)"

definition gpu_draw_string ::
    "'a kernel_state_scheme gpu_driver \<Rightarrow> text_arg \<Rightarrow> gpu_point \<Rightarrow> u32 \<Rightarrow> u32 \<Rightarrow> 'a kernel_state_scheme \<Rightarrow> 'a kernel_state_scheme" where
  "gpu_draw_string g t p scale color s = (if \<not> gpu_ready s then s else g_string g t (px p) (py p) scale color s)"

definition gpu_get_char_size :: "'a kernel_state_scheme gpu_driver \<Rightarrow> u32 \<Rightarrow> 'a kernel_state_scheme \<Rightarrow> u32" where
  "gpu_get_char_size g scale s = (if \<not> gpu_ready s then 0 else g_char_size g scale s)"

definition gpu_get_screen_size :: "'a kernel_state_scheme gpu_driver \<Rightarrow> 'a kernel_state_scheme \<Rightarrow> gpu_size" where
  "gpu_get_screen_size g s = (if \<not> gpu_ready s then \<lparr>width = 0, height = 0\<rparr> else g_screen_size g s)"

subsection \<open>The window manager's flag (\<open>window_manager.cpp\<close>)\<close>

definition wm_pause :: "'a kernel_state_scheme \<Rightarrow> 'a kernel_state_scheme" where
  "wm_pause s = s\<lparr>windows_paused := True, screen_overlay := True\<rparr>"

definition wm_resume :: "'a kernel_state_scheme \<Rightarrow> 'a kernel_state_scheme" where
  "wm_resume s = s\<lparr>windows_paused := False, screen_overlay := False\<rparr>"

text \<open>\<open>draw\<close> is \<open>draw_desktop\<close> of the desktop.\<close>

definition manage_windows :: "('a kernel_state_scheme \<Rightarrow> 'a kernel_state_scheme) \<Rightarrow> 'a kernel_state_scheme \<Rightarrow> 'a kernel_state_scheme" where
  "manage_windows draw s = (if windows_paused s then s else draw s)"

end
