(* ===== verification/Syscalls.thy ===== *)
theory Syscalls
  imports Graphics
begin

section \<open>System calls (\<open>kernel/process/syscall.c\<close>, \<open>syscall_as.S\<close>)\<close>

text \<open>
  A synchronous exception saves the caller's context, serves the call named by the immediate of \<open>svc\<close>
  and resumes the caller with the result in x0; some calls switch to another process and do not come back.
  The arguments that are pointers are read from and written to memory with the layouts of the
  structures.  \<open>kprint\<close>, the graphics driver and the other devices are parameters.
\<close>

text \<open>The vector code, with the condition on the exception level of the caller.\<close>

definition sync_el0_handler_as :: "cpu \<Rightarrow> cpu" where
  "sync_el0_handler_as c =
     (let x = xr c; x = x(10 := spsr_el1 c); x = x(18 := drop_bit 2 (x 10) AND 3);
          x = (if x 18 = 1 then x(11 := sp_now c) else if x 18 = 0 then x(11 := sp_el0 c) else x);
          x = x(15 := x 0); x = x(14 := x 1); x = x(9 := x 2); x = x(16 := x 3); x = x(13 := x 29); x = x(12 := x 30)
      in c\<lparr>xr := x\<rparr>)"

subsection \<open>Arguments in memory\<close>

definition point_at :: "mem \<Rightarrow> u64 \<Rightarrow> gpu_point" where
  "point_at m p = \<lparr>px = read32 m p, py = read32 m (p + 4)\<rparr>"

definition rect_at :: "mem \<Rightarrow> u64 \<Rightarrow> gpu_rect" where
  "rect_at m p = \<lparr>point = point_at m p, rsize = \<lparr>width = read32 m (p + 8), height = read32 m (p + 12)\<rparr>\<rparr>"

definition text_arg_at :: "mem \<Rightarrow> u64 \<Rightarrow> text_arg" where
  "text_arg_at m p = (read64 m p, read32 m (p + 8), read32 m (p + 12))"

definition context_at :: "mem \<Rightarrow> u64 \<Rightarrow> network_connection_ctx" where
  "context_at m p = \<lparr>port = read16 m p, ip = read32 m (p + 4), mac = load_bytes m (p + 8) 6\<rparr>"

definition sizedptr_at :: "mem \<Rightarrow> u64 \<Rightarrow> sizedptr" where
  "sizedptr_at m p = \<lparr>ptr = read64 m p, sz = read64 m (p + 8)\<rparr>"

text \<open>What a payload pointer points to, by the number of the protocol.\<close>

definition payload_at :: "mem \<Rightarrow> u64 \<Rightarrow> u64 \<Rightarrow> u64 \<Rightarrow> net_payload option" where
  "payload_at m protocol p len =
     (if protocol = 0 then Some (UDP p (ucast len))
      else if protocol = 1 then
        Some (DHCP \<lparr>r_mac = load_bytes m p 6, server_ip = read32 m (p + 8), offered_ip = read32 m (p + 12)\<rparr>)
      else if protocol = 2 then Some (ARP (m p \<noteq> 0))
      else if protocol = 3 then
        Some (TCP \<lparr>t_sequence = read32 m p, t_ack = read32 m (p + 4), t_padding = m (p + 8), t_flags = m (p + 9),
          t_window = read16 m (p + 10), t_options = sizedptr_at m (p + 16), t_payload = sizedptr_at m (p + 32),
          expected_ack = read32 m (p + 48)\<rparr>)
      else if protocol = 4 then
        Some (ICMP \<lparr>response = m p, seq = read16 m (p + 2), icmp_id = read16 m (p + 4), payload = load_bytes m (p + 6) 56\<rparr>)
      else None)"

definition key_bytes :: "keypress \<Rightarrow> u8 list" where
  "key_bytes k = [kp_modifier k, kp_rsvd k] @ kp_keys k"

subsection \<open>The handler\<close>

record 's kernel_env =
  ke_gpu :: "'s gpu_driver"
  ke_net :: "'s net_driver"
  ke_kprint :: "u64 \<Rightarrow> 's \<Rightarrow> 's"
  ke_count :: u64
  ke_stack :: u64

text \<open>A call returns a result to its caller or ends in the process the scheduler resumed.\<close>

definition returns :: "u64 \<Rightarrow> 's \<Rightarrow> fault + (u64, 's) flow" where
  "returns v s = Inr (Returned v s)"

definition overlay_guard :: "('a kernel_state_scheme \<Rightarrow> 'a kernel_state_scheme) \<Rightarrow> 'a kernel_state_scheme \<Rightarrow> fault + (u64, 'a kernel_state_scheme) flow" where
  "overlay_guard f s = returns 0 (if screen_overlay s then s else f s)"

definition syscall ::
    "nat \<Rightarrow> clock \<Rightarrow> linker \<Rightarrow> hw \<Rightarrow> 'a kernel_state_scheme kernel_env \<Rightarrow> u64 \<Rightarrow> (nat \<Rightarrow> u64) \<Rightarrow> 'a kernel_state_scheme
     \<Rightarrow> fault + (u64, 'a kernel_state_scheme) flow" where
  "syscall fuel ck ld h env iss x s =
     (let m = mm s; g = ke_gpu env in
      if iss = 0 then
        (if get_current_heap s = 0 then Inl (Panic ''Wrong process heap state'')
         else bindE (kalloc fuel ld h s (get_current_heap s) (x 0) 16 (get_current_privilege s) False) (\<lambda>(p, s). returns p s))
      else if iss = 1 then returns 0 (kfree s (x 0) (x 1))
      else if iss = 3 then returns 0 (ke_kprint env (x 0) s)
      else if iss = 5 then
        bindE (sys_read_input_current s) (\<lambda>(k, s).
          case k of None \<Rightarrow> returns 0 s
          | Some k \<Rightarrow> returns 1 (s\<lparr>mm := store_bytes (mm s) (x 0) (key_bytes k)\<rparr>))
      else if iss = 10 then overlay_guard (gpu_clear g (ucast (x 0))) s
      else if iss = 11 then overlay_guard (gpu_draw_pixel g (point_at m (x 0)) (ucast (x 1))) s
      else if iss = 12 then overlay_guard (gpu_draw_line g (point_at m (x 0)) (point_at m (x 1)) (ucast (x 2))) s
      else if iss = 13 then overlay_guard (gpu_fill_rect g (rect_at m (x 0)) (ucast (x 1))) s
      else if iss = 14 then overlay_guard (gpu_draw_char g (point_at m (x 0)) (ucast (x 1)) (ucast (x 2)) (ucast (x 3))) s
      else if iss = 15 then overlay_guard (gpu_draw_string g (text_arg_at m (x 0)) (point_at m (x 1)) (ucast (x 2)) (ucast (x 3))) s
      else if iss = 20 then overlay_guard (gpu_flush g) s
      else if iss = 21 then
        bindE (kalloc fuel ld h s (get_current_heap s) 8 16 (get_current_privilege s) False) (\<lambda>(p, s).
          let sc = gpu_get_screen_size g s
          in returns p (s\<lparr>mm := store_bytes (mm s) p (le_bytes 4 (width sc) @ le_bytes 4 (height sc))\<rparr>))
      else if iss = 22 then returns (ucast (gpu_get_char_size g (ucast (x 0)) s)) s
      else if iss = 30 then bindE (sleep_process fuel ck (x 0) s) (\<lambda>s. Inr (Resumed s))
      else if iss = 33 then
        bindE (stop_current_process fuel ck s) (\<lambda>f. case f of Returned _ s \<Rightarrow> returns 0 s | Resumed s \<Rightarrow> Inr (Resumed s))
      else if iss = 40 then (let (t, s) = timer_now_msec ck s in returns t s)
      else if iss = 51 then bindE (bind_port (ucast (x 0)) (get_current_proc_pid s) s) (\<lambda>(b, s). returns (of_bool b) s)
      else if iss = 52 then bindE (unbind_port (ucast (x 0)) (get_current_proc_pid s) s) (\<lambda>(b, s). returns (of_bool b) s)
      else if iss = 53 then
        (case payload_at m (x 0 AND 0xFFFFFFFF) (x 3) (x 4) of
           Some pl \<Rightarrow> bindE (send_packet (ke_net env) (ke_count env) (ke_stack env) pl (ucast (x 1)) (context_at m (x 2)) s) (returns 0)
         | None \<Rightarrow> if has_driver s then Inl Uninit else returns 0 s)
      else if iss = 54 then
        bindE (network_read_packet_current fuel ld h s) (\<lambda>(r, s).
          case r of None \<Rightarrow> returns 0 s
          | Some (p, n) \<Rightarrow> returns 1 (s\<lparr>mm := write64 (write64 (mm s) (x 0) p) (x 0 + 8) n\<rparr>))
      else Inl (Panic ''Unknown syscall''))"

text \<open>The arguments as \<open>sync_el0_handler_c\<close> finds them in the registers the vector code copied them to.\<close>

definition syscall_args :: "cpu \<Rightarrow> nat \<Rightarrow> u64" where
  "syscall_args c = (\<lambda>i. if i = 0 then xr c 15 else if i = 1 then xr c 14 else if i = 2 then xr c 9 else if i = 3 then xr c 16 else xr c 4)"

definition sync_el0_handler_c ::
    "nat \<Rightarrow> clock \<Rightarrow> linker \<Rightarrow> hw \<Rightarrow> 'a kernel_state_scheme kernel_env \<Rightarrow> 'a kernel_state_scheme \<Rightarrow> fault + 'a kernel_state_scheme" where
  "sync_el0_handler_c fuel ck ld h env s =
     (let s = enter_kernel s;
          c = cpu_regs s;
          currentEL = drop_bit 2 (spsr_el1 c) AND 3;
          ec = drop_bit 26 (esr_el1 c) AND 0x3F;
          iss = esr_el1 c AND 0xFFFFFF
      in bindE (if ec = 0x15 then syscall fuel ck ld h env iss (syscall_args c) s
                else if currentEL = 1 then Inl (Panic ''UNEXPECTED EXCEPTION'')
                else bindE (stop_current_process fuel ck s) (\<lambda>f. case f of Returned _ s \<Rightarrow> returns 0 s | Resumed s \<Rightarrow> Inr (Resumed s)))
           (\<lambda>f. case f of
              Returned result s \<Rightarrow> Inr (process_restore (save_syscall_return result s))
            | Resumed s \<Rightarrow> Inr s))"

text \<open>The stubs that programs call (\<open>shared/syscalls/syscalls_as.S\<close>): each is an \<open>svc\<close> with its number.\<close>

definition syscall_stubs :: "(string \<times> u64) list" where
  "syscall_stubs =
     [(''malloc'', 0), (''free'', 1), (''printl'', 3), (''read_key'', 5), (''register_shortcut'', 6), (''read_shortcut'', 7),
      (''clear_screen'', 10), (''draw_primitive_pixel'', 11), (''draw_primitive_line'', 12), (''draw_primitive_rect'', 13),
      (''draw_primitive_char'', 14), (''draw_primitive_string'', 15), (''gpu_flush_data'', 20), (''gpu_screen_size'', 21),
      (''gpu_char_size'', 21), (''sleep'', 30), (''process_yield'', 31), (''halt'', 33), (''get_time'', 40),
      (''bind_port'', 51), (''unbind_port'', 52), (''send_packet'', 53), (''read_packet'', 54)]"

subsection \<open>What the calls leave alone\<close>

text \<open>The part of a process that is saved and restored, and what every call that returns must keep of it.\<close>

definition saved :: "process \<Rightarrow> u64 list \<times> u64 \<times> u64 \<times> u64" where
  "saved p = (p_regs p, p_sp p, p_pc p, p_spsr p)"

definition contexts_kept :: "'a sched_state_scheme \<Rightarrow> 'b sched_state_scheme \<Rightarrow> bool" where
  "contexts_kept s s' \<longleftrightarrow> cur s' = cur s \<and> length (processes s') = length (processes s)
     \<and> (\<forall>j. saved (proc s' j) = saved (proc s j))"

lemma contexts_kept_refl [simp]: "contexts_kept s s"
  by (simp add: contexts_kept_def)

lemma contexts_kept_trans [trans]: "contexts_kept s t \<Longrightarrow> contexts_kept t u \<Longrightarrow> contexts_kept s u"
  by (simp add: contexts_kept_def)

lemma contexts_kept_same:
  assumes "processes s' = processes s" "current_proc s' = current_proc s"
  shows "contexts_kept s s'"
  using assms by (simp add: contexts_kept_def cur_def proc_def)

lemma contexts_kept_upd:
  assumes "\<And>p. saved (f p) = saved p"
  shows "contexts_kept s (upd_proc i f s)"
  using assms by (auto simp: contexts_kept_def)

text \<open>The drivers do not touch the process table.\<close>

definition devices_keep :: "'a kernel_state_scheme kernel_env \<Rightarrow> bool" where
  "devices_keep env \<longleftrightarrow>
     (let g = ke_gpu env; d = ke_net env in
       (\<forall>s. contexts_kept s (g_flush g s)) \<and> (\<forall>c s. contexts_kept s (g_clear g c s))
     \<and> (\<forall>x y c s. contexts_kept s (g_pixel g x y c s)) \<and> (\<forall>x y w h c s. contexts_kept s (g_rect g x y w h c s))
     \<and> (\<forall>x y x' y' c s. contexts_kept s (g_line g x y x' y' c s)) \<and> (\<forall>x y ch sc c s. contexts_kept s (g_char g x y ch sc c s))
     \<and> (\<forall>t x y sc c s. contexts_kept s (g_string g t x y sc c s)) \<and> (\<forall>a s. contexts_kept s (ke_kprint env a s))
     \<and> (\<forall>n s. case d_allocate d n s of Inr (pb, s') \<Rightarrow> contexts_kept s s' | Inl _ \<Rightarrow> True)
     \<and> (\<forall>pb s. case d_send d pb s of Inr s' \<Rightarrow> contexts_kept s s' | Inl _ \<Rightarrow> True))"

lemma kalloc_pages_keeps:
  "kalloc_pages k ld h n kern device i first s = Inr (p, s') \<Longrightarrow> palloc_upd s s'"
proof (induction k arbitrary: i first s)
  case 0
  then show ?case by (simp add: palloc_upd_def split: if_splits)
next
  case (Suc k)
  show ?case
  proof (cases "i < n")
    case True
    then obtain q t a where t: "palloc (Suc k) ld h s 0x1000 kern device True = Inr (q, t)"
      "kalloc_pages k ld h n kern device (i + 0x1000) a (t\<lparr>mm := memset (mm t) q 0 0x1000\<rparr>) = Inr (p, s')"
      using Suc.prems by (auto split: if_splits)
    show ?thesis using palloc_keeps [OF t(1)] Suc.IH [OF t(2)] by (simp add: palloc_upd_def)
  next
    case False
    with Suc.prems show ?thesis by (simp add: palloc_upd_def)
  qed
qed

lemma palloc_upd_mm [simp]: "palloc_upd s (t\<lparr>mm := m\<rparr>) \<longleftrightarrow> palloc_upd s t" "palloc_upd (s\<lparr>mm := m\<rparr>) t \<longleftrightarrow> palloc_upd s t"
  by (simp_all add: palloc_upd_def)

lemma palloc_upd_trans: "palloc_upd s t \<Longrightarrow> palloc_upd t u \<Longrightarrow> palloc_upd s u"
  by (simp add: palloc_upd_def)

lemma block_upd [simp]: "palloc_upd s (take_block page cell b n s)" "palloc_upd s (bump_block page r n s)"
  by (simp_all add: take_block_def bump_block_def add_used_def Let_def palloc_upd_def split: option.splits)

lemma kalloc_keeps:
  "kalloc k ld h s page n alignment kern device = Inr (p, s') \<Longrightarrow> palloc_upd s s'"
proof (induction k arbitrary: s page n)
  case 0
  then show ?case by simp
next
  case (Suc k)
  let ?n = "align_up n alignment"
  show ?case
  proof (cases "?n \<ge> 0x1000")
    case True
    then have "kalloc_pages (Suc k) ld h ?n kern device 0 0 s = Inr (p, s')"
      using Suc.prems by (simp add: Let_def del: kalloc_pages.simps)
    then show ?thesis by (rule kalloc_pages_keeps)
  next
    case False
    with Suc.prems obtain found where f: "page \<noteq> 0" "free_scan (Suc k) (mm s) ?n None (read64 (mm s) (page + 8)) = Inr found"
      by (auto simp: Let_def split: if_splits)
    show ?thesis
    proof (cases found)
      case (Some cb)
      then show ?thesis using Suc.prems False f by (cases cb) (auto simp: Let_def)
    next
      case None
      define np where "np = align_up (read64 (mm s) (page + 16)) alignment"
      define t where "t = s\<lparr>mm := write64 (mm s) (page + 16) np\<rparr>"
      have st: "palloc_upd s t" by (simp add: t_def palloc_upd_def)
      have run: "(if np + ?n > page + 0x1000 then
                    bindE (if read64 (mm t) page = 0 then
                             bindE (palloc (Suc k) ld h t 0x1000 kern device False) (\<lambda>(nxt, s).
                               Inr (s\<lparr>mm := write64 (mm s) page nxt\<rparr>))
                           else Inr t)
                      (\<lambda>s. kalloc k ld h s (read64 (mm s) page) ?n alignment kern device)
                  else Inr (np, bump_block page np ?n t)) = Inr (p, s')"
        unfolding np_def t_def
        using Suc.prems False f None by (simp add: Let_def del: free_scan.simps split del: if_split)
      show ?thesis
      proof (cases "np + ?n > page + 0x1000")
        case True
        obtain u where u: "palloc_upd t u" "kalloc k ld h u (read64 (mm u) page) ?n alignment kern device = Inr (p, s')"
        proof (cases "read64 (mm t) page = 0")
          case z: True
          with run True obtain q u where q: "palloc (Suc k) ld h t 0x1000 kern device False = Inr (q, u)"
            "kalloc k ld h (u\<lparr>mm := write64 (mm u) page q\<rparr>) (read64 (write64 (mm u) page q) page) ?n alignment kern device = Inr (p, s')"
            by auto
          show thesis using palloc_keeps [OF q(1)] q(2) by (intro that [of "u\<lparr>mm := write64 (mm u) page q\<rparr>"]) simp_all
        next
          case z: False
          with run True show thesis by (intro that [of t]) (simp_all add: palloc_upd_def)
        qed
        show ?thesis using st u(1) Suc.IH [OF u(2)] by (blast intro: palloc_upd_trans)
      next
        case False
        with run have "s' = bump_block page np ?n t" by auto
        then show ?thesis using st by (auto intro: palloc_upd_trans)
      qed
    qed
  qed
qed

lemma palloc_upd_contexts:
  fixes s s' :: "'a sched_state_scheme"
  shows "palloc_upd s s' \<Longrightarrow> contexts_kept s s'"
  using palloc_upd_sched(1,2) [of s s'] by (simp add: contexts_kept_def proc_def)

lemma kept_simps [simp]:
  "contexts_kept s (s'\<lparr>mm := m\<rparr>) \<longleftrightarrow> contexts_kept s s'" "contexts_kept s (s'\<lparr>irq_masked := b\<rparr>) \<longleftrightarrow> contexts_kept s s'"
  "contexts_kept (s\<lparr>mm := m\<rparr>) s' \<longleftrightarrow> contexts_kept s s'"
  by (simp_all add: contexts_kept_def cur_def)

lemma kept_net [simp]:
  "contexts_kept s (t\<lparr>ports := im\<rparr>) \<longleftrightarrow> contexts_kept s t" "contexts_kept s (t\<lparr>net_context := c\<rparr>) \<longleftrightarrow> contexts_kept s t"
  "contexts_kept (t\<lparr>net_context := c\<rparr>) s \<longleftrightarrow> contexts_kept t s"
  by (simp_all add: contexts_kept_def cur_def proc_def)

lemma read_input_keeps: "sys_read_input_current s = Inr (k, s') \<Longrightarrow> contexts_kept s s'"
  by (auto simp: sys_read_input_current_def sys_read_input_def split: option.splits
      intro!: contexts_kept_upd simp: saved_def)

lemma stop_keeps: "stop_current_process fuel ck s = Inr (Returned u s') \<Longrightarrow> contexts_kept s s'"
  by (auto simp: stop_current_process_def stop_process_def Let_def disable_interrupt_def split: option.splits if_splits)

lemma ports_keep:
  "bind_port prt pid s = Inr (b, s') \<Longrightarrow> contexts_kept s s'" "unbind_port prt pid s = Inr (b, s') \<Longrightarrow> contexts_kept s s'"
  by (auto simp: bind_port_def unbind_port_def split: if_splits)

lemma read_packet_keeps:
  assumes "network_read_packet_current fuel ld h s = Inr (r, s')"
  shows "contexts_kept s s'"
proof -
  obtain i where i: "get_proc_by_pid s (get_current_proc_pid s) = Some i"
    using assms by (auto simp: network_read_packet_current_def nd_read_packet_def split: option.splits)
  show ?thesis
  proof (cases "pop_packet (p_packets (proc s i))")
    case None
    then show ?thesis using assms i by (simp add: network_read_packet_current_def nd_read_packet_def)
  next
    case (Some ob)
    then obtain c t m k where t: "kalloc fuel ld h s (get_current_heap s) (snd (fst ob)) 16 (get_current_privilege s) False = Inr (c, t)"
      "s' = upd_proc i (\<lambda>p. p\<lparr>p_packets := (p_packets p)\<lparr>pb_read := k\<rparr>\<rparr>) (t\<lparr>mm := m\<rparr>)"
      using assms i by (cases ob) (auto simp: network_read_packet_current_def nd_read_packet_def Let_def free_sized_def kfree_def)
    have "contexts_kept s (t\<lparr>mm := m\<rparr>)" using palloc_upd_contexts [OF kalloc_keeps [OF t(1)]] by simp
    also have "contexts_kept (t\<lparr>mm := m\<rparr>) s'" unfolding t(2) by (rule contexts_kept_upd) (simp add: saved_def)
    finally show ?thesis .
  qed
qed

lemma send_keeps:
  assumes "devices_keep env" "send_packet (ke_net env) count stack pl prt dest s = Inr s'"
  shows "contexts_kept s s'"
proof -
  have a: "contexts_kept s t" if "d_allocate (ke_net env) n s = Inr (pb, t)" for n s pb t
    using assms(1) that unfolding devices_keep_def Let_def by (metis (no_types, lifting) sum.case(2) case_prod_conv)
  have d: "contexts_kept s t" if "d_send (ke_net env) pb s = Inr t" for pb s t
    using assms(1) that unfolding devices_keep_def Let_def by (metis (no_types, lifting) sum.case(2))
  show ?thesis using assms(2)
    by (auto simp: send_packet_def Let_def split: if_splits net_payload.splits dest!: a d elim!: contexts_kept_trans)
qed

lemma overlay_keeps:
  assumes "overlay_guard f s = Inr (Returned v s')" "contexts_kept s (f s)"
  shows "contexts_kept s s'"
  using assms by (auto simp: overlay_guard_def returns_def split: if_splits)

lemma gpu_keeps:
  assumes "devices_keep env"
  shows "contexts_kept s (gpu_flush (ke_gpu env) s)" "contexts_kept s (gpu_clear (ke_gpu env) c s)"
    "contexts_kept s (gpu_draw_pixel (ke_gpu env) p c s)" "contexts_kept s (gpu_draw_line (ke_gpu env) p q c s)"
    "contexts_kept s (gpu_fill_rect (ke_gpu env) r c s)" "contexts_kept s (gpu_draw_char (ke_gpu env) p ch sc c s)"
    "contexts_kept s (gpu_draw_string (ke_gpu env) t p sc c s)" "contexts_kept s (ke_kprint env a s)"
  using assms unfolding devices_keep_def Let_def
  by (cases t; simp add: gpu_flush_def gpu_clear_def gpu_draw_pixel_def gpu_draw_line_def gpu_fill_rect_def gpu_draw_char_def
      gpu_draw_string_def)+

lemma kalloc_contexts:
  fixes s s' :: "'a sched_state_scheme"
  shows "kalloc k ld h s page n alignment kern device = Inr (p, s') \<Longrightarrow> contexts_kept s s'"
  by (rule palloc_upd_contexts [OF kalloc_keeps])

lemma clock_keeps: "contexts_kept s (snd (timer_now_msec ck s))"
  by (simp add: timer_now_msec_def contexts_kept_def cur_def proc_def)

text \<open>No call that returns changes the saved context of a process, or which process is the current one.\<close>

lemma syscall_keeps:
  assumes "devices_keep env" "syscall fuel ck ld h env iss x s = Inr (Returned v s')"
  shows "contexts_kept s s'"
proof -
  note g = overlay_keeps [OF _ gpu_keeps(1) [OF assms(1)]] overlay_keeps [OF _ gpu_keeps(2) [OF assms(1)]]
    overlay_keeps [OF _ gpu_keeps(3) [OF assms(1)]] overlay_keeps [OF _ gpu_keeps(4) [OF assms(1)]]
    overlay_keeps [OF _ gpu_keeps(5) [OF assms(1)]] overlay_keeps [OF _ gpu_keeps(6) [OF assms(1)]]
    overlay_keeps [OF _ gpu_keeps(7) [OF assms(1)]]
  have k: "contexts_kept s (ke_kprint env a s)" for a by (rule gpu_keeps(8) [OF assms(1)])
  have t: "contexts_kept s t" if "timer_now_msec ck s = (a, t)" for a t using clock_keeps [of s ck] that by simp
  from assms(2) show ?thesis unfolding syscall_def Let_def
    by (simp only: split: if_split_asm)
      (auto simp: returns_def kfree_def Let_def k dest!: kalloc_contexts read_input_keeps t ports_keep stop_keeps
        send_keeps [OF assms(1)] read_packet_keeps g split: option.split_asm prod.split_asm if_split_asm flow.split_asm)
qed

text \<open>The vector code leaves the arguments where the handler looks for them.\<close>

lemma syscall_args_regs:
  assumes "i \<le> 4"
  shows "syscall_args (sync_el0_handler_as c) i = xr c i"
proof -
  have "i \<in> {0, 1, 2, 3, 4}" using assms by auto
  then show ?thesis by (auto simp: syscall_args_def sync_el0_handler_as_def Let_def)
qed

definition el_of :: "cpu \<Rightarrow> u64" where
  "el_of c = drop_bit 2 (spsr_el1 c) AND 3"

definition stack_of :: "cpu \<Rightarrow> u64" where
  "stack_of c = (if el_of c = 1 then sp_now c else sp_el0 c)"

lemma el0_entry:
  assumes "el_of c \<in> {0, 1}"
  shows "xr (sync_el0_handler_as c) 11 = stack_of c" "xr (sync_el0_handler_as c) 10 = spsr_el1 c"
    "elr_el1 (sync_el0_handler_as c) = elr_el1 c" "esr_el1 (sync_el0_handler_as c) = esr_el1 c"
  using assms by (auto simp: sync_el0_handler_as_def Let_def stack_of_def el_of_def)

lemma enter_kernel_cpu:
  "spsr_el1 (cpu_regs (enter_kernel s)) = spsr_el1 (cpu_regs s)" "esr_el1 (cpu_regs (enter_kernel s)) = esr_el1 (cpu_regs s)"
  by (simp_all add: enter_kernel_def save_return_address_interrupt_def save_context_registers_def Let_def)
    (simp_all add: upd_proc_def)

lemma enter_kernel_args: "syscall_args (cpu_regs (enter_kernel s)) = syscall_args (cpu_regs s)"
  by (simp add: syscall_args_def cong: if_cong)

text \<open>What a process finds when its call returned \<open>v\<close>.\<close>

lemma restored_after_call:
  assumes "el_of c \<in> {0, 1}" "length (p_regs p) = 31"
    "p' = save_pc_interrupt (sync_el0_handler_as c) (save_context (sync_el0_handler_as c) p)"
    "c' = restore_context (q\<lparr>p_regs := (p_regs p')[14 := v], p_sp := p_sp p', p_pc := p_pc p', p_spsr := p_spsr p'\<rparr>) c0"
  shows "xr c' 0 = v" "map (xr c') ([1..<9] @ [17] @ [19..<29] @ [30]) = map (xr c) ([1..<9] @ [17] @ [19..<29] @ [30])"
    "elr_el1 c' = elr_el1 c" "sp_now c' = stack_of c" "sp_el0 c' = stack_of c" "xr c' 29 = stack_of c"
    "xr c' 18 = el_of c" "spsr_el1 c' = spsr_el1 c AND 0xFFF"
proof -
  have r: "p_regs p' ! i = xr (sync_el0_handler_as c) (i + 1)" if "i < 30" for i
    using save_context_regs [OF that] by (simp add: assms(3) save_pc_interrupt_def)
  have l: "length (p_regs p') = 31" using assms(2) by (simp add: assms(3) save_pc_interrupt_def save_context_def)
  have sp: "p_sp p' = stack_of c" "p_pc p' = elr_el1 c" "p_spsr p' = spsr_el1 c AND 0xFFF"
    by (simp_all add: assms(3) save_pc_interrupt_def save_context_def el0_entry [OF assms(1)])
  have x: "xr (sync_el0_handler_as c) i = xr c i" if "i \<in> {4, 5, 6, 7, 8, 17, 19, 20, 21, 22, 23, 24, 25, 26, 27, 28}" for i
    using that by (auto simp: sync_el0_handler_as_def Let_def)
  have y: "xr (sync_el0_handler_as c) 14 = xr c 1" "xr (sync_el0_handler_as c) 9 = xr c 2" "xr (sync_el0_handler_as c) 16 = xr c 3"
    "xr (sync_el0_handler_as c) 12 = xr c 30" "xr (sync_el0_handler_as c) 18 = el_of c"
    by (simp_all add: sync_el0_handler_as_def Let_def el_of_def)
  have u: "[1..<9] = [1, 2, 3, 4, 5, 6, 7, 8 :: nat]" "[19..<29] = [19, 20, 21, 22, 23, 24, 25, 26, 27, 28 :: nat]"
    by (simp_all add: upt_rec)
  show "xr c' 0 = v" "xr c' 29 = stack_of c" "elr_el1 c' = elr_el1 c" "sp_now c' = stack_of c" "sp_el0 c' = stack_of c"
    "xr c' 18 = el_of c" "spsr_el1 c' = spsr_el1 c AND 0xFFF"
    by (simp_all add: assms(4) restore_context_def Let_def l sp r y)
  show "map (xr c') ([1..<9] @ [17] @ [19..<29] @ [30]) = map (xr c) ([1..<9] @ [17] @ [19..<29] @ [30])"
    unfolding u by (simp add: assms(4) restore_context_def Let_def r x y)
qed

text \<open>C24: A system call that returns does so to its caller: whatever the call (as long as the drivers leave the process table
  alone), the process that made it goes on behind the \<open>svc\<close> with the result in x0, on the stack it had, with the registers
  x1 to x8, x17, x19 to x28 and x30 as they were; the frame pointer is set to the stack pointer, x18 to the
  exception level, and the condition flags are lost.  The saved contexts of all other processes are untouched.\<close>

theorem syscall_returns_to_caller:
  assumes "devices_keep env" "cpu_regs s = sync_el0_handler_as c" "el_of c \<in> {0, 1}" "drop_bit 26 (esr_el1 c) AND 0x3F = 0x15"
    "cur s < length (processes s)" "length (p_regs (proc s (cur s))) = 31"
    "syscall fuel ck ld h env (esr_el1 c AND 0xFFFFFF) (syscall_args (cpu_regs s)) (enter_kernel s) = Inr (Returned v s2)"
  shows "\<exists>s'. sync_el0_handler_c fuel ck ld h env s = Inr s' \<and> cur s' = cur s
    \<and> (let c' = cpu_regs s'; kept = [1..<9] @ [17] @ [19..<29] @ [30] in xr c' 0 = v \<and> map (xr c') kept = map (xr c) kept
         \<and> elr_el1 c' = elr_el1 c \<and> sp_now c' = stack_of c \<and> sp_el0 c' = stack_of c \<and> xr c' 29 = stack_of c
         \<and> xr c' 18 = el_of c \<and> spsr_el1 c' = spsr_el1 c AND 0xFFF)
    \<and> (\<forall>j. j \<noteq> cur s \<longrightarrow> saved (proc s' j) = saved (proc s j))"
proof -
  let ?i = "cur s" and ?p = "proc (enter_kernel s) (cur s)" and ?t = "save_syscall_return v s2"
  let ?s' = "process_restore ?t"
  have run: "sync_el0_handler_c fuel ck ld h env s = Inr ?s'"
    using assms(4,7) el0_entry(4) [OF assms(3)] by (simp add: sync_el0_handler_c_def Let_def enter_kernel_cpu enter_kernel_args assms(2))
  have k: "cur s2 = ?i" "length (processes s2) = length (processes s)" "\<And>j. saved (proc s2 j) = saved (proc (enter_kernel s) j)"
    using syscall_keeps [OF assms(1,7)] by (simp_all add: contexts_kept_def)
  have p: "?p = save_pc_interrupt (sync_el0_handler_as c) (save_context (sync_el0_handler_as c) (proc s ?i))"
    by (simp add: enter_kernel_proc [OF assms(5)] assms(2))
  have e: "p_regs (proc s2 ?i) = p_regs ?p" "p_sp (proc s2 ?i) = p_sp ?p" "p_pc (proc s2 ?i) = p_pc ?p" "p_spsr (proc s2 ?i) = p_spsr ?p"
    using k(3) [of ?i] by (simp_all add: saved_def)
  have c: "cur ?t = ?i" by (simp add: save_syscall_return_def k)
  have "proc ?t ?i = (proc s2 ?i)\<lparr>p_regs := (p_regs ?p)[14 := v], p_sp := p_sp ?p, p_pc := p_pc ?p, p_spsr := p_spsr ?p\<rparr>"
    using assms(5) by (simp add: save_syscall_return_def k(1,2) e flip: e(2-4))
  then have "cpu_regs ?s' = restore_context ((proc s2 ?i)\<lparr>p_regs := (p_regs ?p)[14 := v], p_sp := p_sp ?p, p_pc := p_pc ?p, p_spsr := p_spsr ?p\<rparr>) (cpu_regs ?t)"
    by (simp add: process_restore_def c)
  note r = restored_after_call [OF assms(3,6) p this]
  have "cur ?s' = ?i" using c by (simp add: process_restore_def cur_def)
  moreover have "\<forall>j. j \<noteq> ?i \<longrightarrow> saved (proc ?s' j) = saved (proc s j)"
    by (simp add: save_syscall_return_def k enter_kernel_proc [OF assms(5)])
  ultimately show ?thesis using run r unfolding Let_def by blast
qed

definition demo_env :: "kernel_state kernel_env" where
  "demo_env = \<lparr>ke_gpu = \<lparr>g_flush = (\<lambda>s. s), g_clear = (\<lambda>c s. s), g_pixel = (\<lambda>x y c s. s), g_rect = (\<lambda>x y w h c s. s),
       g_line = (\<lambda>x y x' y' c s. s), g_char = (\<lambda>x y ch sc c s. s), g_screen_size = (\<lambda>s. \<lparr>width = 1080, height = 720\<rparr>),
       g_string = (\<lambda>t x y sc c s. s), g_char_size = (\<lambda>sc s. 8 * sc)\<rparr>,
     ke_net = \<lparr>d_header_size = 12, d_allocate = (\<lambda>n s. Inr ((0x8000, n + 12), s)), d_receive = (\<lambda>s. Inr ((0, 0), s)),
       d_sent = (\<lambda>s. s), d_send = (\<lambda>pk s. Inr s), d_get_mac = (\<lambda>c s. c)\<rparr>,
     ke_kprint = (\<lambda>a s. s), ke_count = 0, ke_stack = 0\<rparr>"

lemma demo_env_keeps: "devices_keep demo_env"
  by (simp add: devices_keep_def demo_env_def)

text \<open>A process in its code at 0x5000 that executes \<open>svc\<close> with the number \<open>n\<close>.\<close>

definition demo_cpu :: "u64 \<Rightarrow> cpu" where
  "demo_cpu n = \<lparr>xr = (\<lambda>i. of_nat i), sp_now = 0x9000, sp_el0 = 0x7000, elr_el1 = 0x5000, spsr_el1 = 0, esr_el1 = push_bit 26 0x15 OR n,
     far_el1 = 0\<rparr>"

definition demo_kernel :: "u64 \<Rightarrow> kernel_state" where
  "demo_kernel n = net_state.extend (demo_net_state\<lparr>cpu_regs := sync_el0_handler_as (demo_cpu n)\<rparr>)
     \<lparr>has_gpu = True, gpu_is_ready = True, screen_size = \<lparr>width = 1080, height = 720\<rparr>, screen_overlay = False, windows_paused = False\<rparr>"

lemma demo_kernel_simps:
  "processes (demo_kernel n) = processes demo_sched" "cpu_regs (demo_kernel n) = sync_el0_handler_as (demo_cpu n)" "cur (demo_kernel n) = 2"
  "el_of (demo_cpu n) = 0" "esr_el1 (demo_cpu n) = push_bit 26 0x15 OR n"
proof -
  have "current_proc (demo_kernel n) = current_proc demo_net_state" by (simp add: demo_kernel_def net_state.defs)
  also have "\<dots> = current_proc demo_input" by (simp add: demo_net_state_def input_state.defs)
  also have "\<dots> = 2" by (simp add: demo_input_def sched_state.defs demo_sched_def)
  finally show "cur (demo_kernel n) = 2" by (simp add: cur_def)
  show "processes (demo_kernel n) = processes demo_sched" "cpu_regs (demo_kernel n) = sync_el0_handler_as (demo_cpu n)"
    by (simp_all add: demo_kernel_def net_state.defs)
  show "el_of (demo_cpu n) = 0" "esr_el1 (demo_cpu n) = push_bit 26 0x15 OR n"
    by (simp_all add: demo_cpu_def el_of_def)
qed

lemma syscall_get_time:
  "syscall fuel ck ld h env 40 x s = Inr (Returned (fst (timer_now_msec ck s)) (snd (timer_now_msec ck s)))"
  by (simp add: syscall_def returns_def case_prod_beta)

theorem syscall_returns_to_caller_witness:
  "\<exists>s'. sync_el0_handler_c 16 demo_clock demo_linker demo_gic demo_env (demo_kernel 40) = Inr s' \<and> elr_el1 (cpu_regs s') = 0x5000
    \<and> xr (cpu_regs s') 0 = fst (timer_now_msec demo_clock (enter_kernel (demo_kernel 40)))"
proof -
  let ?s = "demo_kernel 40"
  have e: "drop_bit 26 (esr_el1 (demo_cpu 40)) AND 0x3F = 0x15" "esr_el1 (demo_cpu 40) AND 0xFFFFFF = 40" "el_of (demo_cpu 40) \<in> {0, 1}"
    by (simp_all add: demo_kernel_simps)
  have c: "syscall 16 demo_clock demo_linker demo_gic demo_env (esr_el1 (demo_cpu 40) AND 0xFFFFFF) x t
      = Inr (Returned (fst (timer_now_msec demo_clock t)) (snd (timer_now_msec demo_clock t)))" for x t
    unfolding e(2) by (rule syscall_get_time)
  have l: "cur ?s < length (processes ?s)" "length (p_regs (proc ?s (cur ?s))) = 31"
    using demo_proc(2) by (simp_all add: proc_def demo_kernel_simps zero_process_def) (simp add: demo_sched_def)
  have x: "elr_el1 (demo_cpu 40) = 0x5000" by (simp add: demo_cpu_def)
  from syscall_returns_to_caller [OF demo_env_keeps demo_kernel_simps(2) e(3,1) l c]
  obtain s' where "sync_el0_handler_c 16 demo_clock demo_linker demo_gic demo_env ?s = Inr s'" "elr_el1 (cpu_regs s') = elr_el1 (demo_cpu 40)"
    "xr (cpu_regs s') 0 = fst (timer_now_msec demo_clock (enter_kernel ?s))"
    unfolding Let_def by blast
  then show ?thesis unfolding x by blast
qed

text \<open>C25: Four of the stubs that programs link against end in the panic of the unknown system call or in another call: \<open>svc\<close> 6, 7 and
  31 (registering and reading shortcuts, yielding) are not served, so a program that uses them halts the
  whole kernel; and the character size is asked for with the number of the screen size.\<close>

theorem unserved_stubs_halt:
  assumes "(name, n) \<in> set syscall_stubs" "name \<in> {''register_shortcut'', ''read_shortcut'', ''process_yield''}"
    "cpu_regs s = sync_el0_handler_as c" "el_of c \<in> {0, 1}" "esr_el1 c = push_bit 26 0x15 OR n"
  shows "sync_el0_handler_c fuel ck ld h env s = Inl (Panic ''Unknown syscall'')
    \<and> map_of syscall_stubs ''gpu_char_size'' = map_of syscall_stubs ''gpu_screen_size''"
proof -
  have n: "n \<in> {6, 7, 31}" using assms(1,2) by (auto simp: syscall_stubs_def)
  then have "drop_bit 26 (esr_el1 c) AND 0x3F = 0x15 \<and> esr_el1 c AND 0xFFFFFF = n"
    unfolding assms(5) by auto
  then have "sync_el0_handler_c fuel ck ld h env s = Inl (Panic ''Unknown syscall'')"
    using n el0_entry(4) [OF assms(4)] by (auto simp: sync_el0_handler_c_def Let_def enter_kernel_cpu enter_kernel_args assms(3) syscall_def)
  then show ?thesis by (simp add: syscall_stubs_def)
qed

theorem unserved_stubs_halt_witness:
  "sync_el0_handler_c 16 demo_clock demo_linker demo_gic demo_env (demo_kernel 31) = Inl (Panic ''Unknown syscall'')"
proof -
  have "(''process_yield'', 31) \<in> set syscall_stubs" "el_of (demo_cpu 31) \<in> {0, 1}"
    by (simp_all add: syscall_stubs_def demo_kernel_simps)
  note p = this
  show ?thesis using unserved_stubs_halt [OF p(1) _ demo_kernel_simps(2) p(2) demo_kernel_simps(5), of 16 demo_clock demo_linker demo_gic demo_env]
    by simp
qed

end
