(* ===== verification/Memory_Access.thy ===== *)
theory Memory_Access
  imports Timer
begin

section \<open>Raw memory accesses and waiting (\<open>kernel/memory/memory_access.c\<close>, \<open>kernel/async.c\<close>)\<close>

text \<open>
  The aligned accesses are those of \<open>Byte_Memory\<close>.  The unaligned ones go byte by byte.  Waiting reads a
  register again and again: \<open>reg k\<close> is the answer of its reading number \<open>k\<close>, and the counter answers as in \<open>Timer\<close>.
\<close>

subsection \<open>Unaligned accesses\<close>

definition read_any :: "mem \<Rightarrow> u64 \<Rightarrow> u64" where
  "read_any m addr = read64 m addr"

definition write_any :: "mem \<Rightarrow> u64 \<Rightarrow> u64 \<Rightarrow> mem" where
  "write_any m addr v = write64 m addr v"

definition read_unaligned16 :: "mem \<Rightarrow> u64 \<Rightarrow> u16" where
  "read_unaligned16 m p = ucast (m p) OR push_bit 8 (ucast (m (p + 1)))"

definition read_unaligned32 :: "mem \<Rightarrow> u64 \<Rightarrow> u32" where
  "read_unaligned32 m p = ucast (m p) OR push_bit 8 (ucast (m (p + 1))) OR push_bit 16 (ucast (m (p + 2)))
     OR push_bit 24 (ucast (m (p + 3)))"

definition read_unaligned64 :: "mem \<Rightarrow> u64 \<Rightarrow> u64" where
  "read_unaligned64 m p = ucast (m p) OR push_bit 8 (ucast (m (p + 1))) OR push_bit 16 (ucast (m (p + 2)))
     OR push_bit 24 (ucast (m (p + 3))) OR push_bit 32 (ucast (m (p + 4))) OR push_bit 40 (ucast (m (p + 5)))
     OR push_bit 48 (ucast (m (p + 6))) OR push_bit 56 (ucast (m (p + 7)))"

definition write_unaligned32 :: "mem \<Rightarrow> u64 \<Rightarrow> u32 \<Rightarrow> mem" where
  "write_unaligned32 m p v =
     m(p := ucast (v AND 0xFF), p + 1 := ucast (drop_bit 8 v AND 0xFF), p + 2 := ucast (drop_bit 16 v AND 0xFF),
       p + 3 := ucast (drop_bit 24 v AND 0xFF))"

lemma load_bytes_Suc: "load_bytes m p (Suc n) = m p # load_bytes m (p + 1) n"
  by (rule nth_equalityI) (auto simp: nth_Cons' add.assoc of_nat_diff)

lemma load_bytes_numerals:
  "load_bytes m p 2 = [m p, m (p + 1)]" "load_bytes m p 4 = [m p, m (p + 1), m (p + 2), m (p + 3)]"
  "load_bytes m p 8 = [m p, m (p + 1), m (p + 2), m (p + 3), m (p + 4), m (p + 5), m (p + 6), m (p + 7)]"
  by (simp_all add: load_bytes_Suc numeral_eq_Suc add.assoc)

lemma ucast_and_FF: "(ucast (v AND 0xFF :: u32) :: u8) = ucast v"
proof -
  have "(ucast (v AND mask 8) :: u8) = ucast v" by (rule bit_word_eqI) (auto simp: bit_simps)
  then show ?thesis by (simp add: mask_eq_exp_minus_1)
qed

lemma store_bytes_Cons: "length bs < 2 ^ 64 \<Longrightarrow> store_bytes m p (b # bs) = store_bytes (m(p := b)) (p + 1) bs"
  using store_store_append [of "[b]" bs m p] by (simp add: write8_store [unfolded write8_def])

text \<open>C29: The byte-wise accesses that the code uses for unaligned addresses are the little-endian accesses: reading 16, 32 and 64
  bits and writing 32 bits gives what the aligned access at the same address would give.\<close>

theorem unaligned_is_aligned:
  "read_unaligned16 m p = read16 m p \<and> read_unaligned32 m p = read32 m p \<and> read_unaligned64 m p = read64 m p
   \<and> write_unaligned32 m p v = write32 m p v"
proof (intro conjI)
  show "read_unaligned16 m p = read16 m p"
    by (simp add: read_unaligned16_def read16_def load_bytes_numerals)
  show "read_unaligned32 m p = read32 m p"
    by (simp add: read_unaligned32_def read32_def load_bytes_numerals push_bit_or or.assoc)
  show "read_unaligned64 m p = read64 m p"
    by (simp add: read_unaligned64_def read64_def load_bytes_numerals push_bit_or or.assoc)
  show "write_unaligned32 m p v = write32 m p v"
    unfolding write_unaligned32_def write32_def ucast_and_FF
    by (simp add: le_bytes_def upt_rec store_bytes_Cons add.assoc)
qed

subsection \<open>Waiting\<close>

fun delay_loop :: "nat \<Rightarrow> clock \<Rightarrow> u64 \<Rightarrow> nat \<Rightarrow> fault + nat" where
  "delay_loop 0 ck target r = Inl OutOfFuel"
| "delay_loop (Suc k) ck target r = (if cntvct ck r \<ge> target then Inr (r + 1) else delay_loop k ck target (r + 1))"

text \<open>\<open>r\<close> counts the readings of the counter.\<close>

definition delay :: "nat \<Rightarrow> clock \<Rightarrow> u32 \<Rightarrow> nat \<Rightarrow> fault + nat" where
  "delay fuel ck ms r = delay_loop fuel ck (cntvct ck r + cntfrq ck div 1000 * ucast ms) (r + 1)"

definition wait_cond :: "(nat \<Rightarrow> u32) \<Rightarrow> u32 \<Rightarrow> nat \<Rightarrow> bool" where
  "wait_cond reg expected_value k \<longleftrightarrow> reg k AND expected_value = expected_value"

definition wait_check :: "bool \<Rightarrow> bool \<Rightarrow> bool" where
  "wait_check match condition \<longleftrightarrow> match \<noteq> condition"

fun wait_loop :: "nat \<Rightarrow> nat \<Rightarrow> clock \<Rightarrow> (nat \<Rightarrow> u32) \<Rightarrow> u32 \<Rightarrow> bool \<Rightarrow> nat \<Rightarrow> nat \<Rightarrow> fault + (bool \<times> nat)" where
  "wait_loop 0 fuel ck reg e match k r =
     (if \<not> wait_check match (wait_cond reg e k) then Inr (True, r)
      else Inr (wait_check match (wait_cond reg e (k + 1)), r))"
| "wait_loop (Suc timeout) fuel ck reg e match k r =
     (if \<not> wait_check match (wait_cond reg e k) then Inr (True, r)
      else bindE (delay fuel ck 1 r) (\<lambda>r.
        if timeout = 0 then Inr (wait_check match (wait_cond reg e (k + 1)), r)
        else wait_loop timeout fuel ck reg e match (k + 1) r))"

definition wait :: "nat \<Rightarrow> clock \<Rightarrow> (nat \<Rightarrow> u32) \<Rightarrow> u32 \<Rightarrow> bool \<Rightarrow> u32 \<Rightarrow> nat \<Rightarrow> fault + (bool \<times> nat)" where
  "wait fuel ck reg e match timeout r = wait_loop (unat timeout) fuel ck reg e match 0 r"

definition met :: "(nat \<Rightarrow> u32) \<Rightarrow> u32 \<Rightarrow> bool \<Rightarrow> nat \<Rightarrow> bool" where
  "met reg e match k \<longleftrightarrow> (reg k AND e = e) = match"

lemma wait_loop_answer:
  assumes "\<And>r. \<exists>r'. delay fuel ck 1 r = Inr r'" "n = max 1 t"
  shows "\<exists>r'. wait_loop t fuel ck reg e match k r
    = Inr ((\<exists>i<n. met reg e match (k + i)) \<or> \<not> met reg e match (k + n), r')"
  using assms(2)
proof (induction t arbitrary: k r n)
  case 0
  then show ?case by (auto simp: wait_check_def wait_cond_def met_def)
next
  case (Suc t)
  obtain r' where d: "delay fuel ck 1 r = Inr r'" using assms(1) by blast
  show ?case
  proof (cases "met reg e match k")
    case True
    then have "\<exists>i<n. met reg e match (k + i)" using Suc.prems by (intro exI [of _ 0]) auto
    then show ?thesis using True by (auto simp: wait_check_def wait_cond_def met_def)
  next
    case no: False
    show ?thesis
    proof (cases t)
      case 0
      then have "n = 1" using Suc.prems by simp
      then show ?thesis using no d 0 by (auto simp: wait_check_def wait_cond_def met_def)
    next
      case (Suc u)
      have n: "n = Suc (max 1 t)" using Suc.prems Suc by simp
      have ex: "(\<exists>i<n. met reg e match (k + i)) \<longleftrightarrow> (\<exists>i<max 1 t. met reg e match (Suc k + i))"
        unfolding n using no by (auto simp: less_Suc_eq_0_disj)
      have "t \<noteq> 0" using Suc by simp
      then have "wait_loop (Suc t) fuel ck reg e match k r = wait_loop t fuel ck reg e match (Suc k) r'"
        using no d by (auto simp: wait_check_def wait_cond_def met_def)
      moreover have "met reg e match (k + n) = met reg e match (Suc k + max 1 t)" by (simp add: n)
      ultimately show ?thesis using Suc.IH [OF refl, of "Suc k" r'] unfolding ex by (simp del: wait_loop.simps)
    qed
  qed
qed

text \<open>C30: \<open>wait\<close> returns whenever each \<open>delay\<close> of a millisecond does (which is so when the counter advances), but its answer on the last reading is inverted: it is true when the condition
  is met before the last reading, and also when it is not met even then; it is false exactly when the
  condition is met only by the last reading.  A timeout of 0 reads the register once more, like a timeout of 1.\<close>

theorem wait_answer:
  assumes "\<And>r. \<exists>r'. delay fuel ck 1 r = Inr r'" "n = max 1 (unat timeout)"
  shows "\<exists>r'. wait fuel ck reg e match timeout r = Inr ((\<exists>i<n. met reg e match i) \<or> \<not> met reg e match n, r')"
  using wait_loop_answer [OF assms, of reg e match 0 r] by (simp add: wait_def)

text \<open>A register whose bit 0 never gets set: the wait for it ends with true.\<close>

theorem wait_answer_witness:
  "\<exists>r'. wait 1 \<lparr>cntfrq = 1000, cntvct = of_nat, cntv_left = (\<lambda>_. 0)\<rparr> (\<lambda>_. 0) 1 True 3 0 = Inr (True, r')"
proof -
  let ?ck = "\<lparr>cntfrq = 1000, cntvct = of_nat, cntv_left = (\<lambda>_. 0)\<rparr> :: clock"
  have "\<exists>r'. delay 1 ?ck 1 r = Inr r'" for r by (simp add: delay_def) (simp add: add.commute)
  from wait_answer [OF this refl, where timeout = 3 and reg = "\<lambda>_. 0" and e = 1 and match = True and r = 0] show ?thesis by (simp add: met_def)
qed

end
