(* ===== verification/Fat32.thy ===== *)
theory Fat32
  imports Page_Allocator Strings Index_Map Memory_Access
begin

section \<open>The FAT32 file system (\<open>kernel/filesystem/fat32.cpp\<close>)\<close>

text \<open>
  The object is part of the kernel state.  What is on the disk gets into memory through \<open>disk_read\<close>, a
  parameter.  Directory entries, the boot sector and the allocation table are read from memory with the
  layouts of the packed structures.  \<open>char\<close> is unsigned, as on AArch64.  The walk over a directory
  gets its handler as a function, as in the code; a walk takes one unit of fuel per entry, a handler one per level.
  The output for the console is left out.
\<close>

record fat_state = palloc_state +
  fs_page :: u64
  mbs :: u64
  cluster_count :: u32
  data_start_sector :: u32
  fat_table :: u64
  total_fat_entries :: u32
  bytes_per_sector :: u16
  partition_first_sector :: u32
  open_files :: "u64 indexmap"

text \<open>Fuel, linker symbols, board and disk: buffer, sector, count.\<close>

record fs_env =
  fe_fuel :: nat
  fe_ld :: linker
  fe_hw :: hw
  disk_read :: "u64 \<Rightarrow> u32 \<Rightarrow> u32 \<Rightarrow> mem \<Rightarrow> mem"

definition fs_alloc :: "fs_env \<Rightarrow> u64 \<Rightarrow> 'a fat_state_scheme \<Rightarrow> fault + (u64 \<times> 'a fat_state_scheme)" where
  "fs_alloc e n s = kalloc (fe_fuel e) (fe_ld e) (fe_hw e) s (fs_page s) n 64 True True"

text \<open>The boot sector.\<close>

definition mbs8 :: "'a fat_state_scheme \<Rightarrow> u64 \<Rightarrow> u8" where "mbs8 s off = mm s (mbs s + off)"
definition mbs16 :: "'a fat_state_scheme \<Rightarrow> u64 \<Rightarrow> u16" where "mbs16 s off = read_unaligned16 (mm s) (mbs s + off)"
definition mbs32 :: "'a fat_state_scheme \<Rightarrow> u64 \<Rightarrow> u32" where "mbs32 s off = read_unaligned32 (mm s) (mbs s + off)"

definition sectors_per_cluster :: "'a fat_state_scheme \<Rightarrow> u32" where "sectors_per_cluster s = ucast (mbs8 s 13)"
definition root_cluster :: "'a fat_state_scheme \<Rightarrow> u32" where "root_cluster s = mbs32 s 44"

subsection \<open>Clusters\<close>

definition read_FAT :: "fs_env \<Rightarrow> u32 \<Rightarrow> u32 \<Rightarrow> u8 \<Rightarrow> 'a fat_state_scheme \<Rightarrow> fault + 'a fat_state_scheme" where
  "read_FAT e location sz count s =
     (let n = sz * ucast count * 512
      in bindE (fs_alloc e (ucast n) s) (\<lambda>(p, s).
        Inr (s\<lparr>fat_table := p, mm := disk_read e p (partition_first_sector s + location) sz (mm s), total_fat_entries := n div 4\<rparr>)))"

definition fat_entry :: "'a fat_state_scheme \<Rightarrow> u32 \<Rightarrow> u32" where
  "fat_entry s i = read32 (mm s) (fat_table s + 4 * ucast i)"

fun count_loop :: "nat \<Rightarrow> 'a fat_state_scheme \<Rightarrow> u32 \<Rightarrow> u32 \<Rightarrow> fault + u32" where
  "count_loop 0 s entry count = (if entry < 0x0FFFFFF8 \<and> entry \<noteq> 0 then Inl OutOfFuel else Inr count)"
| "count_loop (Suc k) s entry count =
     (if entry < 0x0FFFFFF8 \<and> entry \<noteq> 0 then count_loop k s (fat_entry s entry) (count + 1) else Inr count)"

definition count_FAT :: "nat \<Rightarrow> 'a fat_state_scheme \<Rightarrow> u32 \<Rightarrow> fault + u32" where
  "count_FAT fuel s first = count_loop fuel s (fat_entry s first) 1"

fun read_clusters ::
    "fs_env \<Rightarrow> u32 \<Rightarrow> u32 \<Rightarrow> u64 \<Rightarrow> nat list \<Rightarrow> u32 \<Rightarrow> 'a fat_state_scheme \<Rightarrow> 'a fat_state_scheme" where
  "read_clusters e start csize buffer [] next_index s = s"
| "read_clusters e start csize buffer (i # is) next_index s =
     (let s = s\<lparr>mm := disk_read e (buffer + ucast (of_nat i * csize * 512))
                (partition_first_sector s + start + (next_index - 2) * csize) csize (mm s)\<rparr>;
          next_index = fat_entry s next_index
      in if next_index \<ge> 0x0FFFFFF8 then s else read_clusters e start csize buffer is next_index s)"

definition read_cluster ::
    "fs_env \<Rightarrow> u32 \<Rightarrow> u32 \<Rightarrow> u32 \<Rightarrow> u32 \<Rightarrow> 'a fat_state_scheme \<Rightarrow> fault + ((u64 \<times> u64) \<times> 'a fat_state_scheme)" where
  "read_cluster e start csize count root s =
     (let n = ucast (count * csize * 512)
      in bindE (fs_alloc e n s) (\<lambda>(buffer, s).
        Inr ((buffer, n), read_clusters e start csize buffer [0..<unat count] root s)))"

definition read_full_file ::
    "fs_env \<Rightarrow> u32 \<Rightarrow> u32 \<Rightarrow> u32 \<Rightarrow> u64 \<Rightarrow> u32 \<Rightarrow> 'a fat_state_scheme \<Rightarrow> fault + ((u64 \<times> u64) \<times> 'a fat_state_scheme)" where
  "read_full_file e start csize count file_size root s =
     bindE (read_cluster e start csize count root s) (\<lambda>((buffer, _), s).
     bindE (fs_alloc e file_size s) (\<lambda>(fp, s).
       Inr ((fp, file_size), s\<lparr>mm := memcpy (mm s) fp buffer file_size\<rparr>)))"

subsection \<open>Names\<close>

text \<open>A C string in memory; the search for its end takes fuel.\<close>

fun c_string :: "nat \<Rightarrow> mem \<Rightarrow> u64 \<Rightarrow> fault + u8 list" where
  "c_string 0 m p = Inl OutOfFuel"
| "c_string (Suc k) m p = (if m p = 0 then Inr [] else bindE (c_string k m (p + 1)) (\<lambda>cs. Inr (m p # cs)))"

fun advance_path :: "nat \<Rightarrow> mem \<Rightarrow> u64 \<Rightarrow> fault + u64" where
  "advance_path 0 m path = Inl OutOfFuel"
| "advance_path (Suc k) m path = (if m path \<noteq> 47 \<and> m path \<noteq> 0 then advance_path k m (path + 1) else Inr (path + 1))"

text \<open>One entry of a long name: the 13 units are put together from bytes \<open>b\<close> of the entry.\<close>

definition longname_units :: "(u64 \<Rightarrow> u8) \<Rightarrow> u16 list" where
  "longname_units b =
     map (\<lambda>j. push_bit 8 (ucast (b (1 + 2 * j))) OR ucast (b (1 + 2 * j + 1))) [0, 1, 2, 3, 4]
     @ map (\<lambda>j. push_bit 8 (ucast (b (14 + 2 * j))) OR ucast (b (1 + 2 * j + 1))) [0, 1, 2, 3, 4, 5]
     @ map (\<lambda>j. push_bit 8 (ucast (b (18 + 2 * j))) OR ucast (b (1 + 2 * j + 1))) [0, 1]"

text \<open>The index \<open>f\<close> and the size of the buffer have 16 bits: with too many entries both wrap around, and the units are written
  past the end of the buffer.\<close>

definition parse_longnames :: "fs_env \<Rightarrow> u64 \<Rightarrow> u16 \<Rightarrow> u64 \<Rightarrow> 'a fat_state_scheme \<Rightarrow> fault + 'a fat_state_scheme" where
  "parse_longnames e entries count out s =
     (if count = 0 then Inr s
      else
        let total = 13 * count + 1 :: u16; n = 2 * ucast total :: u64
        in bindE (fs_alloc e n s) (\<lambda>(filename, s).
          if 13 * unat count + 1 \<ge> 2 ^ 16 then Inl WildDeref else
          let ws = concat (map (\<lambda>i. longname_units (\<lambda>j. mm s (entries + 32 * of_nat i + j))) (rev [0..<unat count])) @ [0];
              s = s\<lparr>mm := store_bytes (mm s) filename (concat (map (le_bytes 2) ws))\<rparr>;
              s = s\<lparr>mm := store_bytes (mm s) out (snd (utf16tochar ws (ucast (of_nat (length ws) :: u16))))\<rparr>
          in Inr (kfree s filename n)))"

text \<open>The bytes written to \<open>out\<close> for a short name.\<close>

fun short_loop :: "u8 list \<Rightarrow> bool \<Rightarrow> u8 list" where
  "short_loop [] ext_found = [0]"
| "short_loop (b # bs) ext_found =
     (if b = 0 then [0]
      else if b \<noteq> 32 then b # short_loop bs ext_found
      else if \<not> ext_found then 46 # short_loop bs True
      else short_loop bs ext_found)"

definition parse_shortnames :: "u64 \<Rightarrow> u64 \<Rightarrow> 'a fat_state_scheme \<Rightarrow> 'a fat_state_scheme" where
  "parse_shortnames entry out s = s\<lparr>mm := store_bytes (mm s) out (short_loop (load_bytes (mm s) entry 11) False)\<rparr>"

text \<open>The entries of a long name: the index behind them and their number.\<close>

fun long_run :: "nat \<Rightarrow> mem \<Rightarrow> u64 \<Rightarrow> u64 \<Rightarrow> u16 \<Rightarrow> fault + (u64 \<times> u16)" where
  "long_run 0 m buffer i count = Inl OutOfFuel"
| "long_run (Suc k) m buffer i count =
     (let i = i + 32; count = count + 1
      in if m (buffer + i + 0xB) = 0xF then long_run k m buffer i count else Inr (i, count))"

text \<open>The common part of both walks: the name of the entry at index \<open>i\<close> and the index of its short entry.\<close>

definition entry_name :: "fs_env \<Rightarrow> u64 \<Rightarrow> u64 \<Rightarrow> 'a fat_state_scheme \<Rightarrow> fault + (u64 \<times> u64 \<times> 'a fat_state_scheme)" where
  "entry_name e buffer i s =
     (let long_name = mm s (buffer + i + 0xB) = 0xF
      in bindE (fs_alloc e 255 s) (\<lambda>(filename, s).
        if long_name then
          bindE (long_run (fe_fuel e) (mm s) buffer i 0) (\<lambda>(i', count).
          bindE (parse_longnames e (buffer + i) count filename s) (\<lambda>s. Inr (filename, i', s)))
        else Inr (filename, i, parse_shortnames (buffer + i) filename s)))"

subsection \<open>Directories\<close>

fun list_loop ::
    "nat \<Rightarrow> fs_env \<Rightarrow> u64 \<Rightarrow> u64 \<Rightarrow> u64 \<Rightarrow> u32 \<Rightarrow> u64 \<Rightarrow> 'a fat_state_scheme \<Rightarrow> fault + (u32 \<times> u64 \<times> 'a fat_state_scheme)" where
  "list_loop 0 e buffer bound i count wp s = Inl OutOfFuel"
| "list_loop (Suc k) e buffer bound i count wp s =
     (if i \<ge> bound then Inr (count, wp, s)
      else if mm s (buffer + i) = 0 then Inr (count, wp, s)
      else if mm s (buffer + i) = 0xE5 then list_loop k e buffer bound (i + 32) count wp s
      else bindE (entry_name e buffer i s) (\<lambda>(filename, i, s).
           bindE (c_string (fe_fuel e) (mm s) filename) (\<lambda>name.
             let s = kfree (s\<lparr>mm := store_bytes (mm s) wp (name @ [0])\<rparr>) filename 255
             in list_loop k e buffer bound (i + 32) (count + 1) (wp + of_nat (length name) + 1) s)))"

definition list_directory :: "fs_env \<Rightarrow> u32 \<Rightarrow> u32 \<Rightarrow> 'a fat_state_scheme \<Rightarrow> fault + ((u64 \<times> u64) \<times> 'a fat_state_scheme)" where
  "list_directory e count root s =
     (if mbs s = 0 then Inr ((0, 0), s)
      else
        let csize = sectors_per_cluster s
        in bindE (read_cluster e (data_start_sector s) csize count root s) (\<lambda>((buffer, _), s).
           bindE (fs_alloc e (ucast (0x1000 * count)) s) (\<lambda>(lb, s).
           bindE (list_loop (fe_fuel e) e buffer (ucast (count * csize * 512)) 0 0 (lb + 4) s) (\<lambda>(n, wp, s).
             Inr ((lb, wp - lb), s\<lparr>mm := write32 (mm s) lb n\<rparr>)))))"

definition entry_flag :: "mem \<Rightarrow> u64 \<Rightarrow> nat \<Rightarrow> bool" where
  "entry_flag m entry b \<longleftrightarrow> bit (m (entry + 11)) b"

definition entry_cluster :: "mem \<Rightarrow> u64 \<Rightarrow> u32" where
  "entry_cluster m entry = push_bit 16 (ucast (read_unaligned16 m (entry + 20))) OR ucast (read_unaligned16 m (entry + 26))"

definition entry_size :: "mem \<Rightarrow> u64 \<Rightarrow> u32" where
  "entry_size m entry = read_unaligned32 m (entry + 28)"

text \<open>A handler gets the entry, its name and the path that is left, and returns pointer and size.\<close>

type_synonym 's entry_fn = "u64 \<Rightarrow> u64 \<Rightarrow> u64 \<Rightarrow> 's \<Rightarrow> fault + ((u64 \<times> u64) \<times> 's)"

primrec walk_loop ::
    "nat \<Rightarrow> fs_env \<Rightarrow> 'a fat_state_scheme entry_fn \<Rightarrow> u64 \<Rightarrow> u64 \<Rightarrow> u64 \<Rightarrow> u64 \<Rightarrow> 'a fat_state_scheme
     \<Rightarrow> fault + ((u64 \<times> u64) \<times> 'a fat_state_scheme)" where
  "walk_loop 0 e handler buffer bound seek i s = Inl OutOfFuel"
| "walk_loop (Suc k) e handler buffer bound seek i s =
     (if i \<ge> bound then Inr ((0, 0), s)
      else if mm s (buffer + i) = 0 then Inr ((0, 0), s)
      else if mm s (buffer + i) = 0xE5 then walk_loop k e handler buffer bound seek (i + 32) s
      else bindE (entry_name e buffer i s) (\<lambda>(filename, i, s).
           bindE (handler (buffer + i) filename seek s) (\<lambda>(r, s).
             let s = kfree s filename 255
             in if fst r \<noteq> 0 \<and> snd r \<noteq> 0 then Inr (r, s) else walk_loop k e handler buffer bound seek (i + 32) s)))"

definition walk_directory ::
    "fs_env \<Rightarrow> 'a fat_state_scheme entry_fn \<Rightarrow> u32 \<Rightarrow> u32 \<Rightarrow> u64 \<Rightarrow> 'a fat_state_scheme
     \<Rightarrow> fault + ((u64 \<times> u64) \<times> 'a fat_state_scheme)" where
  "walk_directory e handler count root seek s =
     (let csize = sectors_per_cluster s
      in bindE (read_cluster e (data_start_sector s) csize count root s) (\<lambda>((buffer, _), s).
        walk_loop (fe_fuel e) e handler buffer (ucast (count * csize * 512)) seek 0 s))"

definition is_last_component :: "fs_env \<Rightarrow> u64 \<Rightarrow> 'a fat_state_scheme \<Rightarrow> fault + bool" where
  "is_last_component e seek s = bindE (advance_path (fe_fuel e) (mm s) seek) (\<lambda>rest. Inr (mm s rest = 0))"

text \<open>The comparisons of a handler read the strings at \<open>seek\<close> and \<open>filename\<close>.\<close>

definition matched :: "fs_env \<Rightarrow> u64 \<Rightarrow> u64 \<Rightarrow> 'a fat_state_scheme \<Rightarrow> fault + (cstr \<times> cstr)" where
  "matched e seek filename s =
     bindE (c_string (fe_fuel e) (mm s) seek) (\<lambda>sk. bindE (c_string (fe_fuel e) (mm s) filename) (\<lambda>name. Inr (sk, name)))"

primrec read_entry_handler :: "nat \<Rightarrow> fs_env \<Rightarrow> 'a fat_state_scheme entry_fn" where
  "read_entry_handler 0 e = (\<lambda>entry filename seek s. Inl OutOfFuel)"
| "read_entry_handler (Suc k) e = (\<lambda>entry filename seek s.
     if entry_flag (mm s) entry 3 then Inr ((0, 0), s)
     else
       bindE (is_last_component e seek s) (\<lambda>is_last.
       bindE (matched e seek filename s) (\<lambda>(sk, name).
         if \<not> is_last \<and> strstart sk name True = 0 then Inr ((0, 0), s)
         else if is_last \<and> strcmp (Some sk) (Some name) True \<noteq> 0 then Inr ((0, 0), s)
         else
           let filecluster = entry_cluster (mm s) entry; filesize = entry_size (mm s) entry;
               bpc = ucast (bytes_per_sector s) * sectors_per_cluster s
           in bindE (if filesize > 0 then Inr ((filesize + bpc - 1) div bpc) else count_FAT (fe_fuel e) s filecluster) (\<lambda>count.
                if entry_flag (mm s) entry 4 then
                  bindE (advance_path (fe_fuel e) (mm s) seek) (\<lambda>rest.
                    walk_directory e (read_entry_handler k e) count filecluster rest s)
                else read_full_file e (data_start_sector s) (sectors_per_cluster s) count (ucast filesize) filecluster s))))"

primrec list_entries_handler :: "nat \<Rightarrow> fs_env \<Rightarrow> 'a fat_state_scheme entry_fn" where
  "list_entries_handler 0 e = (\<lambda>entry filename seek s. Inl OutOfFuel)"
| "list_entries_handler (Suc k) e = (\<lambda>entry filename seek s.
     if entry_flag (mm s) entry 3 then Inr ((0, 0), s)
     else
       bindE (matched e seek filename s) (\<lambda>(sk, name).
         if strstart sk name True = 0 then Inr ((0, 0), s)
         else
           bindE (is_last_component e seek s) (\<lambda>is_last.
             let filecluster = entry_cluster (mm s) entry
             in bindE (count_FAT (fe_fuel e) s filecluster) (\<lambda>count.
                  if is_last then list_directory e count filecluster s
                  else if entry_flag (mm s) entry 4 then
                    bindE (advance_path (fe_fuel e) (mm s) seek) (\<lambda>rest.
                      walk_directory e (list_entries_handler k e) count filecluster rest s)
                  else Inr ((0, 0), s)))))"

subsection \<open>The operations of the driver\<close>

datatype FS_RESULT = FS_RESULT_SUCCESS | FS_RESULT_NOTFOUND | FS_RESULT_DRIVER_ERROR

record fs_file =
  fd_id :: u64
  fd_size :: u64

definition fat32_init :: "fs_env \<Rightarrow> u64 list \<Rightarrow> u32 \<Rightarrow> 'a fat_state_scheme \<Rightarrow> fault + (bool \<times> 'a fat_state_scheme)" where
  "fat32_init e raw partition_sector s =
     bindE (palloc (fe_fuel e) (fe_ld e) (fe_hw e) s 0x1000 True True False) (\<lambda>(p, s).
     bindE (fs_alloc e 512 (s\<lparr>fs_page := p\<rparr>)) (\<lambda>(b, s).
       let s = s\<lparr>mbs := b, partition_first_sector := partition_sector\<rparr>;
           s = s\<lparr>mm := disk_read e (mbs s) (partition_first_sector s) 1 (mm s)\<rparr>
       in if mbs16 s 510 \<noteq> 0xAA55 then Inr (False, s)
          else if mbs8 s 66 \<noteq> 0x29 \<and> mbs8 s 66 \<noteq> 0x28 then Inr (False, s)
          else
            let num_sectors = mbs16 s 19;
                s = s\<lparr>cluster_count := (if num_sectors = 0 then mbs32 s 32 else ucast num_sectors) div ucast (mbs8 s 13),
                      data_start_sector := ucast (mbs16 s 14) + mbs32 s 36 * ucast (mbs8 s 16)\<rparr>
            in if root_cluster s > cluster_count s then Inr (False, s)
               else
                 let s = s\<lparr>bytes_per_sector := mbs16 s 11\<rparr>
                 in bindE (read_FAT e (ucast (mbs16 s 14)) (mbs32 s 36) (mbs8 s 16) s) (\<lambda>s.
                      Inr (True, s\<lparr>open_files := im_new raw 128\<rparr>))))"

definition open_file :: "fs_env \<Rightarrow> u64 \<Rightarrow> fs_file \<Rightarrow> 'a fat_state_scheme \<Rightarrow> fault + (FS_RESULT \<times> fs_file \<times> 'a fat_state_scheme)" where
  "open_file e path descriptor s =
     (if mbs s = 0 then Inr (FS_RESULT_DRIVER_ERROR, descriptor, s)
      else
        bindE (advance_path (fe_fuel e) (mm s) path) (\<lambda>path.
        bindE (count_FAT (fe_fuel e) s (root_cluster s)) (\<lambda>count.
        bindE (walk_directory e (read_entry_handler (fe_fuel e) e) count (root_cluster s) path s) (\<lambda>(buf, s).
          if fst buf = 0 then Inr (FS_RESULT_NOTFOUND, descriptor, s)
          else
            let descriptor = descriptor\<lparr>fd_id := ucast (im_size (open_files s)), fd_size := snd buf\<rparr>
            in bindE (im_add (open_files s) (ucast (fd_id descriptor)) (fst buf)) (\<lambda>(_, im).
                 Inr (FS_RESULT_SUCCESS, descriptor, s\<lparr>open_files := im\<rparr>))))))"

definition fat32_read_file :: "fs_file \<Rightarrow> u64 \<Rightarrow> u64 \<Rightarrow> 'a fat_state_scheme \<Rightarrow> fault + (u64 \<times> 'a fat_state_scheme)" where
  "fat32_read_file descriptor buf sz s =
     bindE (im_get (open_files s) (ucast (fd_id descriptor))) (\<lambda>fp. Inr (sz, s\<lparr>mm := memcpy (mm s) buf fp sz\<rparr>))"

definition list_contents :: "fs_env \<Rightarrow> u64 \<Rightarrow> 'a fat_state_scheme \<Rightarrow> fault + ((u64 \<times> u64) \<times> 'a fat_state_scheme)" where
  "list_contents e path s =
     (if mbs s = 0 then Inr ((0, 0), s)
      else
        bindE (advance_path (fe_fuel e) (mm s) path) (\<lambda>path.
        bindE (count_FAT (fe_fuel e) s (root_cluster s)) (\<lambda>count.
          walk_directory e (list_entries_handler (fe_fuel e) e) count (root_cluster s) path s)))"

subsection \<open>Chains of clusters\<close>

text \<open>The disk as a sequence of sectors, and what the transfer of \<open>disk_read\<close> puts into memory.\<close>

definition sectors :: "(u32 \<Rightarrow> u8 list) \<Rightarrow> u32 \<Rightarrow> nat \<Rightarrow> u8 list" where
  "sectors disk first n = concat (map (\<lambda>i. disk (first + of_nat i)) [0..<n])"

definition serves :: "fs_env \<Rightarrow> (u32 \<Rightarrow> u8 list) \<Rightarrow> bool" where
  "serves e disk \<longleftrightarrow> (\<forall>i. length (disk i) = 512)
     \<and> (\<forall>p first n m. disk_read e p first n m = store_bytes m p (sectors disk first (unat n)))"

text \<open>The clusters \<open>cs\<close> follow each other in the table at \<open>fat\<close>.\<close>

fun fat_chain :: "mem \<Rightarrow> u64 \<Rightarrow> u32 list \<Rightarrow> bool" where
  "fat_chain m fat (c # d # cs) \<longleftrightarrow> read32 m (fat + 4 * ucast c) = d \<and> d < 0x0FFFFFF8 \<and> fat_chain m fat (d # cs)"
| "fat_chain m fat cs \<longleftrightarrow> True"

lemma length_sectors [simp]: "\<forall>i. length (disk i) = 512 \<Longrightarrow> length (sectors disk first n) = 512 * n"
  by (induction n) (simp_all add: sectors_def)

lemma fat_chain_cong:
  "\<forall>c\<in>set cs. read32 m' (fat + 4 * ucast c) = read32 m (fat + 4 * ucast c) \<Longrightarrow> fat_chain m' fat cs = fat_chain m fat cs"
  by (induction m fat cs rule: fat_chain.induct) auto

lemma read32_store_disj: "disj_regions a 4 b (length bs) \<Longrightarrow> read32 (store_bytes m b bs) a = read32 m a"
  by (simp add: read32_def load_store_disj)

lemma read_clusters_store:
  assumes d: "serves e disk"
    and small: "(k + length cs) * (unat csize * 512) < 2 ^ 32"
    and apart: "\<forall>c\<in>set cs. disj_regions (fat_table s + 4 * ucast c) 4 buffer ((k + length cs) * (unat csize * 512))"
    and ch: "fat_chain (mm s) (fat_table s) cs" and ne: "cs \<noteq> []"
  shows "read_clusters e start csize buffer [k..<k + length cs] (hd cs) s
    = s\<lparr>mm := store_bytes (mm s) (buffer + of_nat (k * (unat csize * 512)))
        (concat (map (\<lambda>c. sectors disk (partition_first_sector s + start + (c - 2) * csize) (unat csize)) cs))\<rparr>"
  using small apart ch ne
proof (induction cs arbitrary: k s)
  case (Cons c cs)
  let ?n = "unat csize * 512" and ?at = "buffer + of_nat (k * (unat csize * 512)) :: u64"
  let ?blk = "\<lambda>c. sectors disk (partition_first_sector s + start + (c - 2) * csize) (unat csize)"
  let ?s = "s\<lparr>mm := store_bytes (mm s) ?at (?blk c)\<rparr>"
  have len: "\<And>c. length (?blk c) = ?n" using d by (simp add: serves_def)
  have kb: "k * ?n < 2 ^ 32" using Cons.prems(1) by (rule le_less_trans [rotated]) (simp add: algebra_simps)
  have off: "(ucast (of_nat k * csize * 512 :: u32) :: u64) = of_nat (k * ?n)"
  proof -
    have "(of_nat k * csize * 512 :: u32) = of_nat (k * ?n)" by (simp add: mult.assoc)
    moreover have "unat (of_nat (k * ?n) :: u32) = k * ?n" using kb by (intro unat_of_nat_lt) simp
    ultimately have "unat (of_nat k * csize * 512 :: u32) = k * ?n" by argo
    moreover have "(ucast w :: u64) = of_nat (unat w)" for w :: u32 by simp
    ultimately show ?thesis by (simp only:)
  qed
  have rd: "disk_read e (buffer + ucast (of_nat k * csize * 512 :: u32)) (partition_first_sector s + start + (c - 2) * csize) csize (mm s)
      = store_bytes (mm s) ?at (?blk c)"
    using d by (simp only: serves_def off)
  have same: "read32 (store_bytes (mm s) ?at (?blk c)) (fat_table s + 4 * ucast x) = read32 (mm s) (fat_table s + 4 * ucast x)"
    if "x \<in> set (c # cs)" for x
  proof (cases "?n = 0")
    case True
    then have "?blk c = []" using len [of c] by (simp only: length_0_conv [symmetric])
    then show ?thesis by (simp only: store_bytes_Nil)
  next
    case False
    have "disj_regions (fat_table s + 4 * ucast x) 4 ?at ?n"
    proof (rule disj_regions_sub [OF Cons.prems(2) [rule_format, OF that]])
      have "unat (of_nat (k * ?n) :: u64) = k * ?n" using kb by (intro unat_of_nat_lt) simp
      then have "unat (?at - buffer) = k * ?n" by (simp only: add_diff_cancel_left')
      then show "unat (?at - buffer) + ?n \<le> (k + length (c # cs)) * ?n" by (simp only:) (simp add: algebra_simps)
    qed (use False in auto)
    then show ?thesis by (intro read32_store_disj) (simp only: len)
  qed
  have up: "[k..<k + length (c # cs)] = k # [Suc k..<Suc k + length cs]" by (simp add: upt_conv_Cons del: upt_Suc)
  show ?case
  proof (cases cs)
    case Nil
    then show ?thesis by (simp add: rd [simplified] Let_def)
  next
    case (Cons c2 cs2)
    have nx: "fat_entry ?s c = c2" "c2 < 0x0FFFFFF8"
      using Cons.prems(3) same [of c] by (simp_all add: Cons fat_entry_def)
    have ch': "fat_chain (mm ?s) (fat_table ?s) cs"
      using Cons.prems(3) fat_chain_cong [of cs "mm ?s" "fat_table s" "mm s"] same by (simp add: Cons)
    have ih: "read_clusters e start csize buffer [Suc k..<Suc k + length cs] c2 ?s
      = ?s\<lparr>mm := store_bytes (mm ?s) (buffer + of_nat (Suc k * ?n)) (concat (map ?blk cs))\<rparr>"
      using Cons.IH [of "Suc k" ?s] Cons.prems(1,2) ch' by (simp add: Cons)
    have total: "length (concat (map ?blk cs)) = length cs * ?n" by (induction cs) (simp_all add: len)
    have "?n * (1 + length cs) < 2 ^ 32"
      using Cons.prems(1) by (rule le_less_trans [rotated]) (simp add: algebra_simps)
    then have sm: "length (?blk c) + length (concat (map ?blk cs)) \<le> 2 ^ 64"
      by (simp only: len total) (simp add: algebra_simps)
    have next_at: "buffer + of_nat (Suc k * ?n) = ?at + of_nat (length (?blk c))"
      by (simp only: len) (simp add: algebra_simps)
    show ?thesis
      unfolding up read_clusters.simps Let_def rd list.sel nx(1)
      using nx(2) ih store_store_append [OF sm, of "mm s" ?at]
      by (simp only: next_at) simp
  qed
qed simp

text \<open>C31: When the entries of the table link a list of clusters, in whatever order they lie on the disk, \<open>read_cluster\<close>
  delivers a buffer with their contents one after the other, in the order of the chain.\<close>

theorem read_cluster_delivers:
  assumes "serves e disk" "fs_alloc e (ucast (count * csize * 512)) s = Inr (buffer, t)"
    and "fat_chain (mm t) (fat_table t) (root # cs)" "unat count = Suc (length cs)"
    and "unat count * (unat csize * 512) < 2 ^ 32"
    and "\<forall>c\<in>set (root # cs). disj_regions (fat_table t + 4 * ucast c) 4 buffer (unat count * (unat csize * 512))"
  shows "\<exists>n s'. read_cluster e start csize count root s = Inr ((buffer, n), s') \<and> unat n = unat count * unat csize * 512
    \<and> load_bytes (mm s') buffer (unat n)
      = concat (map (\<lambda>c. sectors disk (partition_first_sector t + start + (c - 2) * csize) (unat csize)) (root # cs))"
proof -
  let ?n = "unat count * (unat csize * 512)"
  let ?data = "concat (map (\<lambda>c. sectors disk (partition_first_sector t + start + (c - 2) * csize) (unat csize)) (root # cs))"
  have n: "unat (ucast (count * csize * 512) :: u64) = unat count * unat csize * 512"
  proof -
    have "(count * csize * 512 :: u32) = of_nat ?n" by (simp add: mult.assoc)
    moreover have "unat (of_nat ?n :: u32) = ?n" using assms(5) by (intro unat_of_nat_lt) simp
    ultimately have u: "unat (count * csize * 512 :: u32) = ?n" by (simp only:)
    have "unat (ucast w :: u64) = unat w" for w :: u32 using unat_lt_2p [of w] by (simp add: unat_ucast_mod)
    then show ?thesis by (simp only: u)
  qed
  have rd: "read_clusters e start csize buffer [0..<unat count] root t = t\<lparr>mm := store_bytes (mm t) buffer ?data\<rparr>"
    using read_clusters_store [of e disk 0 "root # cs" csize t buffer start] assms by simp
  have per: "length (sectors disk (partition_first_sector t + start + (c - 2) * csize) (unat csize)) = unat csize * 512" for c
    using assms(1) by (simp add: serves_def)
  have len: "length ?data = ?n"
    unfolding length_concat map_map comp_def per by (simp add: assms(4) sum_list_triv)
  show ?thesis
    unfolding read_cluster_def Let_def assms(2) bindE_simps prod.case rd
    using len n assms(5) by (simp add: mult.assoc)
qed

subsection \<open>The length of a chain\<close>

definition chain_at :: "'a fat_state_scheme \<Rightarrow> u32 \<Rightarrow> nat \<Rightarrow> u32" where
  "chain_at s c i = (fat_entry s ^^ i) c"

definition chain_end :: "u32 \<Rightarrow> bool" where
  "chain_end x \<longleftrightarrow> x = 0 \<or> x \<ge> 0x0FFFFFF8"

lemma chain_at_Suc: "chain_at s c (Suc i) = chain_at s (fat_entry s c) i"
  by (simp add: chain_at_def funpow_Suc_right del: funpow.simps)

lemma count_loop_unfold:
  "count_loop k s x n = (if chain_end x then Inr n
     else case k of 0 \<Rightarrow> Inl OutOfFuel | Suc k \<Rightarrow> count_loop k s (fat_entry s x) (n + 1))"
  by (cases k) (auto simp: chain_end_def not_less)

lemma count_loop_steps:
  "count_loop k s x n =
     (if \<exists>i\<le>k. chain_end (chain_at s x i) then Inr (n + of_nat (LEAST i. chain_end (chain_at s x i))) else Inl OutOfFuel)"
proof (induction k arbitrary: x n)
  case 0
  then show ?case by (subst count_loop_unfold) (simp add: chain_at_def)
next
  case (Suc k)
  show ?case
  proof (cases "chain_end x")
    case True
    then have 0: "chain_end (chain_at s x 0)" by (simp add: chain_at_def)
    then have "(LEAST i. chain_end (chain_at s x i)) = 0" by (rule Least_eq_0)
    with 0 True show ?thesis by (subst count_loop_unfold) auto
  next
    case False
    let ?P = "\<lambda>i. chain_end (chain_at s x i)"
    have n0: "\<not> ?P 0" using False by (simp add: chain_at_def)
    have ex: "(\<exists>i\<le>Suc k. ?P i) \<longleftrightarrow> (\<exists>i\<le>k. ?P (Suc i))"
      using n0 by (metis Suc_le_mono not0_implies_Suc)
    have "(LEAST i. ?P i) = Suc (LEAST i. ?P (Suc i))" if "?P (Suc i)" for i
      using that n0 by (rule Least_Suc)
    then show ?thesis using Suc.IH [of "fat_entry s x" "n + 1"] False ex
      by (subst count_loop_unfold) (auto simp: chain_at_Suc add.assoc)
  qed
qed

text \<open>C32: \<open>count_FAT\<close> gives one more than the number of links that follow the first entry up to the first end mark (0 or
  0x0FFFFFF8 and above), and fuel for that many links is enough; on a chain without an end mark, a cycle, no fuel is: the loop
  of the code does not end.\<close>

theorem count_FAT_length:
  "count_FAT fuel s c =
     (if \<exists>i\<le>fuel. chain_end (chain_at s c (Suc i)) then Inr (1 + of_nat (LEAST i. chain_end (chain_at s c (Suc i))))
      else Inl OutOfFuel)"
  unfolding count_FAT_def count_loop_steps chain_at_Suc by (rule refl)

subsection \<open>Names\<close>

lemma short_loop_text:
  "0 \<notin> set t \<Longrightarrow> 32 \<notin> set t \<Longrightarrow> short_loop (t @ bs) f = t @ short_loop bs f"
  by (induction t) auto

lemma short_loop_spaces: "short_loop (replicate n 32 @ bs) f = (if n = 0 \<or> f then short_loop bs f else 46 # short_loop bs True)"
  by (induction n arbitrary: f) auto

lemma short_loop_spaces_end: "short_loop (replicate n 32) f = (if n = 0 \<or> f then [0] else [46, 0])"
  using short_loop_spaces [of n "[]" f] by simp

text \<open>The text of a short name, from its base and extension as the entry stores them, filled up with spaces: base, dot,
  extension when the base has fewer than eight characters (the dot stays when there is no extension); a base of eight
  characters loses its dot, and a dot appears behind an extension that is not full.\<close>

lemma short_name_text:
  assumes "load_bytes (mm s) entry 11 = base @ replicate (8 - length base) 32 @ ext @ replicate (3 - length ext) 32"
    and "0 \<notin> set (base @ ext)" "32 \<notin> set (base @ ext)" "length base \<le> 8" "length ext \<le> 3"
  shows "mm (parse_shortnames entry out s) =
    store_bytes (mm s) out (base @ (if length base < 8 then [46] else []) @ ext
      @ (if length base = 8 \<and> length ext < 3 then [46] else []) @ [0])"
  using assms
  by (simp add: parse_shortnames_def short_loop_text short_loop_spaces short_loop_spaces_end)







lemma length_longname_units [simp]: "length (longname_units b) = 13"
  by (simp add: longname_units_def)




lemma ucast_u8_u16 [simp]: "ucast (ucast x :: u16) = (x :: u8)" "drop_bit 8 (ucast x :: u16) = 0"
proof -
  show "ucast (ucast x :: u16) = x" by (rule bit_word_eqI) (simp add: bit_simps)
  show "drop_bit 8 (ucast x :: u16) = 0" by (rule bit_word_eqI) (auto simp: bit_simps dest: bit_imp_le_length)
qed







subsection \<open>A small volume\<close>

definition demo_disk :: "u32 \<Rightarrow> u8 list" where
  "demo_disk i = replicate 512 (ucast i)"

definition demo_fs_env :: fs_env where
  "demo_fs_env = \<lparr>fe_fuel = 1, fe_ld = demo_linker, fe_hw = no_hw,
     disk_read = \<lambda>p first n m. store_bytes m p (sectors demo_disk first (unat n))\<rparr>"

lemma demo_serves: "serves demo_fs_env demo_disk"
  by (simp add: serves_def demo_fs_env_def demo_disk_def)

text \<open>The driver with its page at 0x5000 and its table at 0x9000, where cluster 5 is followed by cluster 3.\<close>

definition demo_volume :: fat_state where
  "demo_volume = palloc_state.extend (palloc_boot\<lparr>mm := write32 (write64 (\<lambda>_. 0) 0x5010 0x5040) 0x9014 3\<rparr>)
     (fat_state.fields 0x5000 0 0 0 0x9000 0 512 0 (im_new [] 0))"

lemma demo_volume_fields [simp]:
  "mm demo_volume = write32 (write64 (\<lambda>_. 0) 0x5010 0x5040) 0x9014 3" "fs_page demo_volume = 0x5000"
  "fat_table demo_volume = 0x9000" "partition_first_sector demo_volume = 0"
  by (simp_all add: demo_volume_def palloc_state.defs fat_state.defs)

lemma read64_write32_disj: "disj_regions a 8 b 4 \<Longrightarrow> read64 (write32 m b v) a = read64 m a"
  by (simp add: write32_def read64_store_disj)

lemma demo_volume_reads:
  "read64 (mm demo_volume) 0x5010 = 0x5040" "read64 (mm demo_volume) 0x5008 = 0"
proof -
  show "read64 (mm demo_volume) 0x5010 = 0x5040"
    by (simp add: read64_write32_disj disj_regions_def)
  have "read64 (\<lambda>_. 0) 0x5008 = 0" by (simp add: read64_def load_bytes_def map_replicate_const)
  then show "read64 (mm demo_volume) 0x5008 = 0"
    by (simp add: read64_write32_disj read64_write64_disj disj_regions_def)
qed

definition demo_given :: "mem \<Rightarrow> u64 \<Rightarrow> fat_state" where
  "demo_given m sz = bump_block 0x5000 0x5040 sz (demo_volume\<lparr>mm := write64 m 0x5010 0x5040\<rparr>)"

lemma demo_alloc:
  assumes "align_up n 64 = sz" "unat sz \<le> 2048" "read64 m 0x5010 = 0x5040" "read64 m 0x5008 = 0"
  shows "fs_alloc demo_fs_env n (demo_volume\<lparr>mm := m\<rparr>) = Inr (0x5040, demo_given m sz)"
proof -
  have "align_up 0x5040 64 = 0x5040" by (simp add: align_up_def)
  moreover have "\<not> sz \<ge> 0x1000" "\<not> 0x5040 + sz > 0x6000"
    using assms(2) by (simp_all add: word_le_nat_alt word_less_nat_alt unat_add_small)
  ultimately show ?thesis
    using assms by (simp add: fs_alloc_def demo_fs_env_def demo_given_def Let_def del: demo_volume_fields(1))
qed

lemma demo_given_fields [simp]:
  "fat_table (demo_given m sz) = 0x9000" "partition_first_sector (demo_given m sz) = 0"
  by (simp_all add: demo_given_def bump_block_def add_used_def)

lemma demo_given_far:
  assumes x: "\<not> in_region 0x5000 0x1000 x" and sz: "unat sz \<le> 2048"
  shows "mm (demo_given m sz) x = m x"
proof -
  have o: "\<not> in_region b k x" if "unat (b - 0x5000) + k \<le> 0x1000" for b k
    using x in_region_sub [OF _ that] by blast
  have "\<not> in_region 0x5010 8 x" "\<not> in_region 0x5018 8 x" "\<not> in_region 0x5040 (unat sz) x"
    using sz by (simp_all add: o)
  then show ?thesis
    by (simp add: demo_given_def bump_block_def add_used_def memset_store write64_def store_bytes_outside)
qed

theorem read_cluster_delivers_witness:
  "\<exists>n s'. read_cluster demo_fs_env 100 1 2 5 (demo_volume\<lparr>mm := mm demo_volume\<rparr>) = Inr ((0x5040, n), s')
    \<and> load_bytes (mm s') 0x5040 (unat n) = sectors demo_disk 103 1 @ sectors demo_disk 101 1"
proof -
  have "align_up 0x400 64 = 0x400" by (simp add: align_up_def)
  then have al: "fs_alloc demo_fs_env 0x400 (demo_volume\<lparr>mm := mm demo_volume\<rparr>) = Inr (0x5040, demo_given (mm demo_volume) 0x400)"
    using demo_volume_reads by (intro demo_alloc) simp_all
  have "load_bytes (mm (demo_given (mm demo_volume) 0x400)) 0x9014 4 = load_bytes (mm demo_volume) 0x9014 4"
    by (simp add: load_bytes_numerals demo_given_far in_region_def del: demo_volume_fields)
  then have ch: "fat_chain (mm (demo_given (mm demo_volume) 0x400)) 0x9000 [5, 3]"
    by (simp add: read32_def write32_def)
  show ?thesis
    using read_cluster_delivers [OF demo_serves, where count = 2 and csize = 1 and s = "demo_volume\<lparr>mm := mm demo_volume\<rparr>"
        and buffer = "0x5040" and t = "demo_given (mm demo_volume) 0x400" and root = 5 and cs = "[3]" and start = 100] al ch
    by (auto simp: disj_regions_def simp del: demo_volume_fields(1))
qed

definition kernel_elf :: "u8 list" where
  "kernel_elf = [75, 69, 82, 32, 32, 32, 32, 32, 69, 76, 70]"

lemma short_name_text_witness:
  "mm (parse_shortnames 0x100 0x200 (demo_volume\<lparr>mm := store_bytes (\<lambda>_. 0) 0x100 kernel_elf\<rparr>))
    = store_bytes (store_bytes (\<lambda>_. 0) 0x100 kernel_elf) 0x200 [75, 69, 82, 46, 69, 76, 70, 0]"
proof -
  have "kernel_elf = [75, 69, 82] @ replicate 5 32 @ [69, 76, 70] @ replicate 0 32"
    by (simp add: kernel_elf_def numeral_eq_Suc)
  moreover have "length kernel_elf = 11" by (simp add: kernel_elf_def)
  ultimately show ?thesis
    using short_name_text [of "demo_volume\<lparr>mm := store_bytes (\<lambda>_. 0) 0x100 kernel_elf\<rparr>" "0x100" "[75, 69, 82]" "[69, 76, 70]" "0x200"]
    by simp
qed







end
