(* ===== verification/Filesystem.thy ===== *)
theory Filesystem
  imports Fat32 Linked_List
begin

section \<open>Modules and the boot file system (\<open>dev/module_loader.c\<close>, \<open>filesystem/filesystem.cpp\<close>, \<open>filesystem/mbr.c\<close>)\<close>

text \<open>
  A driver module is a record of functions on the state; a module pointer is an address that
  \<open>drivers\<close> maps to its record.  The list of modules is a list of \<open>Linked_List\<close> in a heap of its own.
\<close>

record fs_state = fat_state +
  modules :: "clist option"
  module_heap :: cl_heap

record 's driver_module =
  dm_name :: cstr
  dm_mount :: cstr
  dm_version :: u64
  dm_init :: "'s \<Rightarrow> fault + (bool \<times> 's)"
  dm_fini :: "'s \<Rightarrow> fault + (bool \<times> 's)"
  dm_open :: "u64 \<Rightarrow> fs_file \<Rightarrow> 's \<Rightarrow> fault + (FS_RESULT \<times> fs_file \<times> 's)"
  dm_read :: "fs_file \<Rightarrow> u64 \<Rightarrow> u64 \<Rightarrow> u64 \<Rightarrow> 's \<Rightarrow> fault + (u64 \<times> 's)"
  dm_write :: "fs_file \<Rightarrow> u64 \<Rightarrow> u64 \<Rightarrow> u64 \<Rightarrow> 's \<Rightarrow> fault + (u64 \<times> 's)"
  dm_seek :: "fs_file \<Rightarrow> u64 \<Rightarrow> 's \<Rightarrow> fault + (u64 \<times> 's)"
  dm_readdir :: "u64 \<Rightarrow> 's \<Rightarrow> fault + ((u64 \<times> u64) \<times> 's)"

subsection \<open>The module loader\<close>

definition load_module ::
    "(u64 \<Rightarrow> 'a fs_state_scheme driver_module) \<Rightarrow> u64 \<Rightarrow> 'a fs_state_scheme \<Rightarrow> fault + (bool \<times> 'a fs_state_scheme)" where
  "load_module drivers module s =
     (let (h, l) = (if modules s = None then clinkedlist_create (module_heap s) else (module_heap s, modules s))
      in bindE (clinkedlist_push_front h l module) (\<lambda>(h, l).
           dm_init (drivers module) (s\<lparr>module_heap := h, modules := l\<rparr>)))"

definition unload_module :: "u64 \<Rightarrow> bool" where
  "unload_module module = False"

text \<open>The result, and by how far the path moves.\<close>

definition fs_search :: "cstr \<Rightarrow> cstr \<Rightarrow> int \<times> int" where
  "fs_search path mount =
     (let index = strstart path mount False
      in if index = sint (strlen (Some mount) 0) then (0, index) else (-1, 0))"

definition get_module ::
    "nat \<Rightarrow> (u64 \<Rightarrow> 'a fs_state_scheme driver_module) \<Rightarrow> u64 \<Rightarrow> 'a fs_state_scheme \<Rightarrow> fault + (u64 \<times> u64)" where
  "get_module fuel drivers full_path s =
     bindE (c_string fuel (mm s) full_path) (\<lambda>path.
     bindE (clinkedlist_find fuel (module_heap s) (modules s) full_path
              (Some (\<lambda>node key. fst (fs_search path (dm_mount (drivers node)))))) (\<lambda>node.
     bindE (nh_get (module_heap s) node) (\<lambda>n.
       Inr (cl_data n, full_path + of_int (snd (fs_search path (dm_mount (drivers (cl_data n)))))))))"

subsection \<open>Partitions\<close>

definition mbr_entry :: "mem \<Rightarrow> u64 \<Rightarrow> nat \<Rightarrow> u8 \<times> u32" where
  "mbr_entry m entries i =
     (let p = entries + 0x1BE + 16 * of_nat i in (m (p + 4), read_unaligned32 m (p + 8)))"

definition mbr_find_partition :: "fs_env \<Rightarrow> u8 \<Rightarrow> 'a fat_state_scheme \<Rightarrow> fault + (u32 \<times> 'a fat_state_scheme)" where
  "mbr_find_partition e partition_type s =
     bindE (palloc (fe_fuel e) (fe_ld e) (fe_hw e) s 0x1000 True True False) (\<lambda>(mbr_page, s).
     bindE (kalloc (fe_fuel e) (fe_ld e) (fe_hw e) s mbr_page 512 64 True True) (\<lambda>(p, s).
       let s = s\<lparr>mm := disk_read e p 0 1 (mm s)\<rparr>
       in Inr (fold (\<lambda>i offset. if fst (mbr_entry (mm s) p i) = partition_type then snd (mbr_entry (mm s) p i) else offset)
                 [0..<4] 0, s)))"

subsection \<open>The boot partition\<close>

text \<open>\<open>new FAT32FS()\<close>: all fields start as 0.\<close>

definition new_FAT32FS :: "'a fat_state_scheme \<Rightarrow> 'a fat_state_scheme" where
  "new_FAT32FS s = s\<lparr>fs_page := 0, mbs := 0, cluster_count := 0, data_start_sector := 0, fat_table := 0, total_fat_entries := 0,
     bytes_per_sector := 0, partition_first_sector := 0, open_files := \<lparr>im_items = [], im_count = 0, im_capacity = 0\<rparr>\<rparr>"

definition boot_partition_init :: "fs_env \<Rightarrow> u64 list \<Rightarrow> 'a fat_state_scheme \<Rightarrow> fault + (bool \<times> 'a fat_state_scheme)" where
  "boot_partition_init e raw s =
     bindE (mbr_find_partition e 0xC s) (\<lambda>(f32_partition, s).
     bindE (fat32_init e raw f32_partition (new_FAT32FS s)) (\<lambda>(_, s). Inr (True, s)))"

definition boot_fs_module :: "fs_env \<Rightarrow> u64 list \<Rightarrow> 'a fat_state_scheme driver_module" where
  "boot_fs_module e raw =
     \<lparr>dm_name = [98, 111, 111, 116],
      dm_mount = [47, 98, 111, 111, 116],
      dm_version = push_bit 32 1,
      dm_init = boot_partition_init e raw,
      dm_fini = (\<lambda>s. Inr (False, s)),
      dm_open = open_file e,
      dm_read = (\<lambda>fd out_buf sz offset s. fat32_read_file fd out_buf sz s),
      dm_write = (\<lambda>fd buf sz offset s. Inr (0, s)),
      dm_seek = (\<lambda>fd offset s. Inr (0, s)),
      dm_readdir = list_contents e\<rparr>"

definition init_boot_filesystem ::
    "(u64 \<Rightarrow> 'a fs_state_scheme driver_module) \<Rightarrow> u64 \<Rightarrow> 'a fs_state_scheme \<Rightarrow> fault + (bool \<times> 'a fs_state_scheme)" where
  "init_boot_filesystem drivers boot s = load_module drivers boot s"

subsection \<open>Files and directories by path\<close>

text \<open>The test for a missing module comes after \<open>get_module\<close> has read from the node.\<close>

definition read_file ::
    "fs_env \<Rightarrow> (u64 \<Rightarrow> 'a fs_state_scheme driver_module) \<Rightarrow> u64 \<Rightarrow> 'a fs_state_scheme \<Rightarrow> fault + (u64 \<times> 'a fs_state_scheme)" where
  "read_file e drivers path s =
     bindE (get_module (fe_fuel e) drivers path s) (\<lambda>(module, search_path).
       if module = 0 then Inr (0, s)
       else
         bindE (dm_open (drivers module) search_path \<lparr>fd_id = 0, fd_size = 0\<rparr> s) (\<lambda>(_, fd, s).
         bindE (palloc (fe_fuel e) (fe_ld e) (fe_hw e) s 0x1000 True False False) (\<lambda>(pg, s).
         bindE (kalloc (fe_fuel e) (fe_ld e) (fe_hw e) s pg (fd_size fd) 64 True False) (\<lambda>(tmp_buf, s).
         bindE (dm_read (drivers module) fd tmp_buf (fd_size fd) 0 s) (\<lambda>(_, s). Inr (tmp_buf, s))))))"

definition list_directory_contents ::
    "fs_env \<Rightarrow> (u64 \<Rightarrow> 'a fs_state_scheme driver_module) \<Rightarrow> u64 \<Rightarrow> 'a fs_state_scheme
     \<Rightarrow> fault + ((u64 \<times> u64) \<times> 'a fs_state_scheme)" where
  "list_directory_contents e drivers path s =
     bindE (get_module (fe_fuel e) drivers path s) (\<lambda>(module, search_path).
       if module = 0 then Inr ((0, 0), s) else dm_readdir (drivers module) search_path s)"

subsection \<open>Which module serves a path\<close>

lemma strlen_full: "0 \<notin> set t \<Longrightarrow> length t < 2 ^ 31 \<Longrightarrow> sint (strlen (Some t) 0) = int (length t)"
proof -
  assume a: "0 \<notin> set t" "length t < 2 ^ 31"
  have "strlen (Some t) 0 = of_nat (length t)"
    using a by (simp add: strlen_def strlen_loop_length cut_id)
  then show ?thesis using a(2) by (simp add: signed_of_nat signed_take_bit_int_eq_self)
qed

lemma strstart_prefix: "0 \<notin> set t \<Longrightarrow> 0 \<notin> set p \<Longrightarrow> strstart p t False = int (length t) \<longleftrightarrow> prefix t p"
proof -
  assume a: "0 \<notin> set t" "0 \<notin> set p"
  have lcp: "length (longest_common_prefix xs ys) = length ys \<longleftrightarrow> prefix ys xs" for xs ys :: cstr
    by (induction xs ys rule: longest_common_prefix.induct) auto
  have "map (fold_case False) xs = xs" for xs by (induction xs) (simp_all add: fold_case_def)
  then show ?thesis using strstart_loop_lcp [OF a(2,1), of False 0] lcp [of p t] by (simp add: strstart_def)
qed

lemma fs_search_prefix:
  assumes "0 \<notin> set mount" "length mount < 2 ^ 31" "0 \<notin> set path"
  shows "fst (fs_search path mount) = 0 \<longleftrightarrow> prefix mount path"
    and "prefix mount path \<Longrightarrow> snd (fs_search path mount) = int (length mount)"
  using strlen_full [OF assms(1,2)] strstart_prefix [OF assms(1,3)] by (auto simp: fs_search_def Let_def)

lemma c_string_nonzero: "c_string k m p = Inr t \<Longrightarrow> 0 \<notin> set t"
  by (induction k arbitrary: p t) (auto split: if_splits)

text \<open>Mount points are C strings.\<close>

definition mounts_ok :: "(u64 \<Rightarrow> 's driver_module) \<Rightarrow> (u64 \<times> u64) list \<Rightarrow> bool" where
  "mounts_ok drivers mods \<longleftrightarrow>
     (\<forall>(a, d)\<in>set mods. 0 \<notin> set (dm_mount (drivers d)) \<and> length (dm_mount (drivers d)) < 2 ^ 31)"

lemma find_cong_set: "(\<And>x. x \<in> set xs \<Longrightarrow> P x = Q x) \<Longrightarrow> find P xs = find Q xs"
  by (induction xs) auto

text \<open>C34: \<open>get_module\<close> gives the first module of the list (which is the one loaded last: \<open>load_module\<close> pushes to the front)
  among those whose mount point is a prefix of the path, and moves the path
  behind the mount point.  When there is none it reads through a null pointer: the test of the callers for a missing module
  is never reached.\<close>

theorem get_module_picks:
  assumes "modules s = Some l" "clist_rep (module_heap s) l mods" "length mods \<le> fuel"
    and "c_string fuel (mm s) p = Inr path" "mounts_ok drivers mods"
  shows "get_module fuel drivers p s =
    (case find (\<lambda>(a, d). prefix (dm_mount (drivers d)) path) mods of
       None \<Rightarrow> Inl NullDeref
     | Some (a, d) \<Rightarrow> Inr (d, p + of_nat (length (dm_mount (drivers d)))))"
proof -
  let ?cmp = "\<lambda>d key :: u64. fst (fs_search path (dm_mount (drivers d)))"
  have nz: "0 \<notin> set path" by (rule c_string_nonzero [OF assms(4)])
  have ch: "chain (nh_nodes (module_heap s)) (cl_head l) mods 0" using assms(2) by (simp add: clist_rep_def)
  have "find (\<lambda>(a, d). ?cmp d p = 0) mods = find (\<lambda>(a, d). prefix (dm_mount (drivers d)) path) mods"
    using assms(5) nz fs_search_prefix(1) by (intro find_cong_set) (fastforce simp: mounts_ok_def)
  then have f: "clinkedlist_find fuel (module_heap s) (Some l) p (Some ?cmp)
      = Inr (case find (\<lambda>(a, d). prefix (dm_mount (drivers d)) path) mods of None \<Rightarrow> 0 | Some (a, d) \<Rightarrow> a)"
    using cl_find_first [OF ch assms(3), of p ?cmp] by (simp add: clinkedlist_find_def)
  show ?thesis
  proof (cases "find (\<lambda>(a, d). prefix (dm_mount (drivers d)) path) mods")
    case None
    then show ?thesis unfolding get_module_def assms(1,4) bindE_simps f by simp
  next
    case (Some x)
    obtain a d where x: "x = (a, d)" by (cases x)
    have ad: "(a, d) \<in> set mods" "prefix (dm_mount (drivers d)) path"
      using Some x by (auto simp: find_Some_iff) (metis nth_mem)
    obtain r where "nh_nodes (module_heap s) a = Some \<lparr>cl_data = d, cl_next = r\<rparr>" using chain_in_dom [OF ch ad(1)] by blast
    moreover have "a \<noteq> 0" by (rule chain_nz [OF ch ad(1)])
    moreover have "snd (fs_search path (dm_mount (drivers d))) = int (length (dm_mount (drivers d)))"
      using assms(5) ad nz fs_search_prefix(2) by (fastforce simp: mounts_ok_def)
    ultimately show ?thesis
      unfolding get_module_def assms(1,4) bindE_simps f Some x by simp
  qed
qed

lemma c_string_numeral:
  "c_string (numeral k) m p = (if m p = 0 then Inr [] else bindE (c_string (pred_numeral k) m (p + 1)) (\<lambda>cs. Inr (m p # cs)))"
  by (simp add: numeral_eq_Suc)

text \<open>Two modules: 7 at \<open>/boot\<close>, loaded last, and 9 at \<open>/\<close>.\<close>

definition demo_drivers :: "fs_env \<Rightarrow> u64 \<Rightarrow> fs_state driver_module" where
  "demo_drivers e d = (boot_fs_module e [])\<lparr>dm_mount := (if d = 7 then [47, 98, 111, 111, 116] else [47])\<rparr>"

definition demo_modules :: "u8 list \<Rightarrow> fs_state" where
  "demo_modules path = fat_state.extend (fat_state.truncate (demo_volume\<lparr>mm := store_bytes (\<lambda>_. 0) 0x100 path\<rparr>))
     (fs_state.fields (Some demo_list) demo_nodes)"

lemma demo_modules_fields [simp]:
  "mm (demo_modules path) = store_bytes (\<lambda>_. 0) 0x100 path" "modules (demo_modules path) = Some demo_list"
  "module_heap (demo_modules path) = demo_nodes"
  by (simp_all add: demo_modules_def fat_state.defs fs_state.defs)

theorem get_module_picks_witness:
  "get_module 8 (demo_drivers demo_fs_env) 0x100 (demo_modules [47, 98, 111, 111, 116, 47, 97]) = Inr (7, 0x105)
   \<and> get_module 8 (demo_drivers demo_fs_env) 0x100 (demo_modules [47, 98, 105, 110]) = Inr (9, 0x101)
   \<and> get_module 8 (demo_drivers demo_fs_env) 0x100 (demo_modules [98]) = Inl NullDeref"
proof -
  have ok: "mounts_ok (demo_drivers demo_fs_env) [(16, 7), (32, 9)]"
    by (simp add: mounts_ok_def demo_drivers_def)
  have "c_string 8 (store_bytes (\<lambda>_. 0) 0x100 [47, 98, 111, 111, 116, 47, 97]) 0x100 = Inr [47, 98, 111, 111, 116, 47, 97]"
    "c_string 8 (store_bytes (\<lambda>_. 0) 0x100 [47, 98, 105, 110]) 0x100 = Inr [47, 98, 105, 110]"
    "c_string 8 (store_bytes (\<lambda>_. 0) 0x100 [98]) 0x100 = Inr [98]"
    by (simp_all add: store_bytes_def c_string_numeral)
  then show ?thesis
    using get_module_picks [where mods = "[(16, 7), (32, 9)]" and l = demo_list and fuel = 8 and drivers = "demo_drivers demo_fs_env"
        and p = "0x100"] ok demo_rep
    by (auto simp: demo_drivers_def)
qed

end
