(* ===== verification/Pci.thy ===== *)
theory Pci
  imports Page_Allocator
begin

section \<open>PCI configuration (\<open>kernel/pci.c\<close>)\<close>

text \<open>
  Configuration space and device registers are memory.  A device may answer a store to one of its registers by changing
  memory: \<open>react a\<close> is what happens behind a store to \<open>a\<close>, and \<open>tick\<close> what happens while the processor waits.
  Both are parameters.  Capability lists may be cyclic, so the walks over them take fuel.  The output for the console is left out.
\<close>

record dev_env =
  de_fuel :: nat
  de_ld :: linker
  de_hw :: hw
  react :: "u64 \<Rightarrow> mem \<Rightarrow> mem"
  tick :: "mem \<Rightarrow> mem"

record pci_state = palloc_state +
  pci_initialized :: bool

definition dwrite16 :: "dev_env \<Rightarrow> u64 \<Rightarrow> u16 \<Rightarrow> 'a kmem_scheme \<Rightarrow> 'a kmem_scheme" where
  "dwrite16 e a v s = s\<lparr>mm := react e a (write16 (mm s) a v)\<rparr>"

definition dwrite32 :: "dev_env \<Rightarrow> u64 \<Rightarrow> u32 \<Rightarrow> 'a kmem_scheme \<Rightarrow> 'a kmem_scheme" where
  "dwrite32 e a v s = s\<lparr>mm := react e a (write32 (mm s) a v)\<rparr>"

subsection \<open>Finding tables and devices\<close>

definition byte_sum :: "mem \<Rightarrow> u64 \<Rightarrow> nat \<Rightarrow> u8" where
  "byte_sum m p n = fold (\<lambda>i sum. sum + m (p + of_nat i)) [0..<n] 0"

definition rsdp_ok :: "mem \<Rightarrow> u64 \<Rightarrow> bool" where
  "rsdp_ok m addr \<longleftrightarrow> load_bytes m addr 8 = [82, 83, 68, 32, 80, 84, 82, 32] \<and> byte_sum m addr 20 = 0
     \<and> (m (addr + 15) \<ge> 2 \<longrightarrow> byte_sum m addr (unat (read32 m (addr + 20))) = 0)"

definition find_rsdp :: "mem \<Rightarrow> u64" where
  "find_rsdp m = (case find (rsdp_ok m) (map (\<lambda>i. 0xE0000 + 16 * of_nat i) [0..<8192]) of None \<Rightarrow> 0 | Some addr \<Rightarrow> addr)"

fun map_window :: "dev_env \<Rightarrow> nat list \<Rightarrow> 'a pci_state_scheme \<Rightarrow> fault + 'a pci_state_scheme" where
  "map_window e [] s = Inr s"
| "map_window e (i # is) s =
     (let addr = PCI_BASE (de_hw e) + 0x200000 * of_nat i
      in bindE (register_device_memory_2mb (de_fuel e) (de_ld e) s addr addr) (map_window e is))"

definition find_pci :: "dev_env \<Rightarrow> 'a pci_state_scheme \<Rightarrow> fault + 'a pci_state_scheme" where
  "find_pci e s = (if pci_initialized s then Inr s else map_window e [0..<128] (s\<lparr>pci_initialized := True\<rparr>))"

definition pci_make_addr :: "dev_env \<Rightarrow> u32 \<Rightarrow> u32 \<Rightarrow> u32 \<Rightarrow> u32 \<Rightarrow> u64" where
  "pci_make_addr e bus slot func off =
     PCI_BASE (de_hw e) OR push_bit 20 (ucast bus) OR push_bit 15 (ucast slot) OR push_bit 12 (ucast func) OR ucast (off AND 0xFFF)"

definition pci_functions :: "dev_env \<Rightarrow> u64 list" where
  "pci_functions e = concat (map (\<lambda>bus. concat (map (\<lambda>slot. map (\<lambda>func.
     pci_make_addr e (of_nat bus) (of_nat slot) (of_nat func) 0) [0..<8]) [0..<32])) [0..<256])"

definition has_ids :: "mem \<Rightarrow> u32 \<Rightarrow> u32 \<Rightarrow> u64 \<Rightarrow> bool" where
  "has_ids m vendor_id device_id addr \<longleftrightarrow>
     (let vendor_device = read32 m addr
      in vendor_device AND 0xFFFF = vendor_id \<and> drop_bit 16 vendor_device AND 0xFFFF = device_id)"

definition find_pci_device :: "dev_env \<Rightarrow> u32 \<Rightarrow> u32 \<Rightarrow> 'a pci_state_scheme \<Rightarrow> fault + (u64 \<times> 'a pci_state_scheme)" where
  "find_pci_device e vendor_id device_id s =
     (if PCI_BASE (de_hw e) = 0 then Inr (0, s)
      else bindE (if \<not> pci_initialized s then find_pci e s else Inr s) (\<lambda>s.
        Inr (case find (has_ids (mm s) vendor_id device_id) (pci_functions e) of None \<Rightarrow> 0 | Some a \<Rightarrow> a, s)))"

definition pci_enable_device :: "dev_env \<Rightarrow> u64 \<Rightarrow> 'a kmem_scheme \<Rightarrow> 'a kmem_scheme" where
  "pci_enable_device e pci_addr s = dwrite16 e (pci_addr + 4) (read16 (mm s) (pci_addr + 4) OR (0x2 OR 0x4)) s"

fun register_loop :: "nat \<Rightarrow> dev_env \<Rightarrow> u64 \<Rightarrow> u64 \<Rightarrow> 'a mmu_state_scheme \<Rightarrow> fault + 'a mmu_state_scheme" where
  "register_loop 0 e addr bound s = (if addr \<le> bound then Inl OutOfFuel else Inr s)"
| "register_loop (Suc k) e addr bound s =
     (if addr \<le> bound then
        bindE (register_device_memory (de_fuel e) (de_ld e) s addr addr) (register_loop k e (addr + 0x1000) bound)
      else Inr s)"

definition pci_register :: "dev_env \<Rightarrow> u64 \<Rightarrow> u64 \<Rightarrow> 'a mmu_state_scheme \<Rightarrow> fault + 'a mmu_state_scheme" where
  "pci_register e mmio_addr mmio_size s = register_loop (de_fuel e) e mmio_addr (mmio_addr + mmio_size) s"

subsection \<open>Base address registers\<close>

definition pci_get_bar_address :: "dev_env \<Rightarrow> u64 \<Rightarrow> u8 \<Rightarrow> u8 \<Rightarrow> u64" where
  "pci_get_bar_address e base off index = (if PCI_BASE (de_hw e) = 0 then 0 else base + ucast off + ucast index * 4)"

definition pci_read_address_bar :: "dev_env \<Rightarrow> mem \<Rightarrow> u64 \<Rightarrow> u32 \<Rightarrow> u64" where
  "pci_read_address_bar e m pci_addr bar_index =
     (let original = read32 m (pci_get_bar_address e pci_addr 0x10 (ucast bar_index));
          full = (if original AND 0x6 = 0x4
                  then ucast original OR push_bit 32 (ucast (read32 m (pci_get_bar_address e pci_addr 0x10 (ucast (bar_index + 1)))))
                  else ucast original)
      in full AND NOT 0xF)"

text \<open>The start and the size of the region; the start is also the value of the function.\<close>

definition pci_setup_bar :: "dev_env \<Rightarrow> u64 \<Rightarrow> u32 \<Rightarrow> 'a kmem_scheme \<Rightarrow> fault + ((u64 \<times> u64) \<times> 'a kmem_scheme)" where
  "pci_setup_bar e pci_addr bar_index s =
     (let bar_addr = pci_get_bar_address e pci_addr 0x10 (ucast bar_index);
          original = read32 (mm s) bar_addr;
          s = dwrite32 e bar_addr 0xFFFFFFFF s;
          bar_low = read32 (mm s) bar_addr
      in bindE
          (if original AND 0x6 = 0x4 then
             let bar_addr_hi = pci_get_bar_address e pci_addr 0x10 (ucast (bar_index + 1));
                 s = dwrite32 e bar_addr_hi 0xFFFFFFFF s;
                 bar_high = read32 (mm s) bar_addr_hi;
                 sz = NOT (push_bit 32 (ucast bar_high) OR ucast (bar_low AND NOT 0xF)) + 1
             in bindE (alloc_mmio_region (MMIO_BASE (de_hw e)) s sz) (\<lambda>(config_base, s).
                  let s = dwrite32 e bar_addr (ucast (config_base AND 0xFFFFFFFF)) s;
                      s = dwrite32 e bar_addr_hi (ucast (drop_bit 32 config_base)) s;
                      new_hi = ucast (read32 (mm s) bar_addr_hi) :: u64;
                      new_lo = ucast (read32 (mm s) bar_addr) :: u64;
                      full = push_bit 32 new_hi OR (new_lo AND NOT 0xF)
                  in Inr ((if full \<noteq> config_base then full else config_base, sz), s))
           else
             let size32 = NOT (bar_low AND NOT 0xF) + 1
             in bindE (alloc_mmio_region (MMIO_BASE (de_hw e)) s (ucast size32)) (\<lambda>(config_base, s).
                  Inr ((config_base, ucast size32), dwrite32 e bar_addr (ucast (config_base AND 0xFFFFFFFF)) s)))
          (\<lambda>(r, s). Inr (r, dwrite32 e (pci_addr + 4) (read32 (mm s) (pci_addr + 4) OR 0x2) s)))"

subsection \<open>Interrupts\<close>

fun rp1_walk :: "nat \<Rightarrow> dev_env \<Rightarrow> u64 \<Rightarrow> u8 \<Rightarrow> 'a kmem_scheme \<Rightarrow> fault + 'a kmem_scheme" where
  "rp1_walk 0 e pci_addr cap_ptr s = (if cap_ptr = 0 then Inr s else Inl OutOfFuel)"
| "rp1_walk (Suc k) e pci_addr cap_ptr s =
     (if cap_ptr = 0 then Inr s
      else
        let cap = pci_addr + ucast cap_ptr;
            s = (if mm s cap = 0x11 then dwrite16 e (cap + 2) (read16 (mm s) (cap + 2) OR push_bit 15 1) s else s)
        in rp1_walk k e pci_addr (mm s (cap + 1)) s)"

definition pci_setup_rp1 :: "dev_env \<Rightarrow> 'a pci_state_scheme \<Rightarrow> fault + (bool \<times> 'a pci_state_scheme)" where
  "pci_setup_rp1 e s =
     bindE (find_pci_device e 0x1de4 1 s) (\<lambda>(pci_addr, s).
     bindE (rp1_walk (de_fuel e) e pci_addr (mm s (pci_addr + 0x34)) s) (\<lambda>s.
       let msi_pci_addr = 0xFFFFFFF000 :: u64; msi_phys_addr = 0x1000130000 :: u64;
           s = dwrite32 e (pci_addr + 0x402c) (ucast ((msi_pci_addr AND 0xFFFFFFFF) OR 0x1C)) s;
           s = dwrite32 e (pci_addr + 0x4030) (ucast (drop_bit 32 msi_pci_addr AND 0xFFFFFFFF)) s;
           s = dwrite32 e (pci_addr + 0x40ac) (ucast ((msi_phys_addr AND 0xFFFFFFFF) OR 1)) s;
           s = dwrite32 e (pci_addr + 0x40b0) (ucast (drop_bit 32 msi_phys_addr AND 0xFFFFFFFF)) s;
           s = dwrite32 e (pci_addr + 0x4514) 0xFFFFFFFF s;
           s = dwrite32 e (pci_addr + 0x4044) (ucast ((msi_pci_addr AND 0xFFFFFFFF) OR 1)) s;
           s = dwrite32 e (pci_addr + 0x4048) (ucast (drop_bit 32 msi_pci_addr AND 0xFFFFFFFF)) s;
           s = dwrite32 e (pci_addr + 0x404c) 0xffe03210 s
       in Inr (True, s)))"

definition pci_setup_msi_rp1 :: "dev_env \<Rightarrow> u8 \<Rightarrow> bool \<Rightarrow> 'a kmem_scheme \<Rightarrow> bool \<times> 'a kmem_scheme" where
  "pci_setup_msi_rp1 e irq_line edge_triggered s =
     (let base = 0x1F00108000; cfg = 0x008 + ucast irq_line * 4;
          s = dwrite32 e (base + (if edge_triggered then 0xC00 else 0x800) + cfg) 8 s;
          s = dwrite32 e (base + 0x800 + cfg) 1 s;
          s = dwrite32 e (base + 0x800 + cfg) 2 s
      in (False, s))"

fun pci_setup_msi :: "nat \<Rightarrow> dev_env \<Rightarrow> u64 \<Rightarrow> u8 \<Rightarrow> u8 \<Rightarrow> 'a kmem_scheme \<Rightarrow> fault + (bool \<times> 'a kmem_scheme)" where
  "pci_setup_msi 0 e pci_addr irq_line cap_ptr s = (if cap_ptr = 0 then Inr (False, s) else Inl OutOfFuel)"
| "pci_setup_msi (Suc k) e pci_addr irq_line cap_ptr s =
     (if cap_ptr = 0 then Inr (False, s)
      else
        let cap = pci_addr + ucast cap_ptr
        in if mm s cap = 0x05 then
             let msg_ctrl = read16 (mm s) (cap + 2); is_64bit = bit msg_ctrl 7;
                 s = dwrite32 e (cap + 4) 0x8020040 s;
                 s = (if is_64bit then dwrite32 e (cap + 8) 0 s else s);
                 s = dwrite16 e (cap + (if is_64bit then 0xC else 0x8)) (ucast (MSI_OFFSET (de_hw e)) + ucast irq_line) s;
                 s = dwrite16 e (cap + 2) (msg_ctrl OR 1) s
             in Inr (True, s)
           else pci_setup_msi k e pci_addr irq_line (mm s (cap + 1)) s)"

record msix_irq_line =
  addr_offset :: u32
  irq_num :: u8

definition msix_entry :: "dev_env \<Rightarrow> u64 \<Rightarrow> msix_irq_line \<Rightarrow> 'a kmem_scheme \<Rightarrow> 'a kmem_scheme" where
  "msix_entry e p l s =
     (let addr_full = ucast (0x8020040 + addr_offset l) :: u64;
          s = dwrite32 e p (ucast (addr_full AND 0xFFFFFFFF)) s;
          s = dwrite32 e (p + 4) (ucast (drop_bit 32 addr_full)) s;
          s = dwrite32 e (p + 8) (ucast (MSI_OFFSET (de_hw e)) + ucast (irq_num l)) s
      in dwrite32 e (p + 12) (read32 (mm s) (p + 12) AND NOT 1) s)"

fun msix_entries :: "dev_env \<Rightarrow> u64 \<Rightarrow> msix_irq_line list \<Rightarrow> 'a kmem_scheme \<Rightarrow> 'a kmem_scheme" where
  "msix_entries e p [] s = s"
| "msix_entries e p (l # ls) s = msix_entries e (p + 16) ls (msix_entry e p l s)"

definition msix_capability ::
    "dev_env \<Rightarrow> u64 \<Rightarrow> u64 \<Rightarrow> msix_irq_line list \<Rightarrow> 'a kmem_scheme \<Rightarrow> fault + (bool \<times> 'a kmem_scheme)" where
  "msix_capability e pci_addr cap irq_lines s =
     (let msg_ctrl = read16 (mm s) (cap + 2) AND NOT (push_bit 15 1);
          s = dwrite16 e (cap + 2) msg_ctrl s;
          table_size = (msg_ctrl AND 0x07FF) + 1
      in if length irq_lines > unat table_size then Inr (False, s)
         else
           let table_offset = read32 (mm s) (cap + 4); bir = table_offset AND 0x7; table_addr_offset = table_offset AND NOT 0x7;
               table_addr = pci_read_address_bar e (mm s) pci_addr bir
           in bindE (if table_addr = 0 then bindE (pci_setup_bar e pci_addr bir s) (\<lambda>((start, _), s). Inr (start, s))
                     else Inr (table_addr, s)) (\<lambda>(table_addr, s).
                let s = msix_entries e (table_addr + ucast table_addr_offset) irq_lines s;
                    msg_ctrl = (msg_ctrl OR push_bit 15 1) AND NOT (push_bit 14 1)
                in Inr (True, dwrite16 e (cap + 2) msg_ctrl s)))"

fun pci_setup_msix ::
    "nat \<Rightarrow> dev_env \<Rightarrow> u64 \<Rightarrow> msix_irq_line list \<Rightarrow> u8 \<Rightarrow> 'a kmem_scheme \<Rightarrow> fault + (bool \<times> 'a kmem_scheme)" where
  "pci_setup_msix 0 e pci_addr irq_lines cap_ptr s = (if cap_ptr = 0 then Inr (True, s) else Inl OutOfFuel)"
| "pci_setup_msix (Suc k) e pci_addr irq_lines cap_ptr s =
     (if cap_ptr = 0 then Inr (True, s)
      else
        let cap = pci_addr + ucast cap_ptr
        in if mm s cap = 0x11 then msix_capability e pci_addr cap irq_lines s
           else pci_setup_msix k e pci_addr irq_lines (mm s (cap + 1)) s)"

fun msi_lines :: "dev_env \<Rightarrow> u64 \<Rightarrow> u8 \<Rightarrow> nat list \<Rightarrow> bool \<Rightarrow> 'a kmem_scheme \<Rightarrow> fault + (bool \<times> 'a kmem_scheme)" where
  "msi_lines e pci_addr irq_line [] ok s = Inr (ok, s)"
| "msi_lines e pci_addr irq_line (i # is) ok s =
     bindE (pci_setup_msi (de_fuel e) e pci_addr (irq_line + of_nat i) (mm s (pci_addr + 0x34)) s) (\<lambda>(b, s).
       msi_lines e pci_addr irq_line is (ok \<and> b) s)"

definition pci_setup_interrupts ::
    "dev_env \<Rightarrow> u64 \<Rightarrow> u8 \<Rightarrow> u8 \<Rightarrow> 'a kmem_scheme \<Rightarrow> fault + (u8 \<times> 'a kmem_scheme)" where
  "pci_setup_interrupts e pci_addr irq_line amount s =
     (let irq_lines = map (\<lambda>i. \<lparr>addr_offset = 0, irq_num = irq_line + of_nat i\<rparr>) [0..<unat amount]
      in bindE (pci_setup_msix (de_fuel e) e pci_addr irq_lines (mm s (pci_addr + 0x34)) s) (\<lambda>(msix_ok, s).
           if msix_ok then Inr (1, s)
           else bindE (msi_lines e pci_addr irq_line [0..<unat amount] True s) (\<lambda>(msi_ok, s).
             Inr (if msi_ok then 2 else 0, s))))"

subsection \<open>The message interrupts without MSI-X\<close>

text \<open>\<open>cs\<close> are the pointers of the capability list that starts at \<open>p\<close>.\<close>

fun cap_list :: "mem \<Rightarrow> u64 \<Rightarrow> u8 \<Rightarrow> u8 list \<Rightarrow> bool" where
  "cap_list m pci_addr p [] \<longleftrightarrow> p = 0"
| "cap_list m pci_addr p (c # cs) \<longleftrightarrow> p = c \<and> c \<noteq> 0 \<and> cap_list m pci_addr (m (pci_addr + ucast c + 1)) cs"

lemma msix_absent:
  "cap_list (mm s) pci_addr p cs \<Longrightarrow> length cs \<le> k \<Longrightarrow> \<forall>c\<in>set cs. mm s (pci_addr + ucast c) \<noteq> 0x11 \<Longrightarrow>
   pci_setup_msix k e pci_addr lines p s = Inr (True, s)"
proof (induction cs arbitrary: p k)
  case Nil
  then show ?case by (cases k) auto
next
  case (Cons c cs)
  then show ?case by (cases k) (auto simp: Let_def)
qed

text \<open>C35: A device whose capability list has no MSI-X entry gets no interrupt at all: \<open>pci_setup_interrupts\<close> reports 1, MSI-X in
  use, and has changed nothing, even when the list has an MSI entry.\<close>

theorem msi_never_reached:
  assumes "cap_list (mm s) pci_addr (mm s (pci_addr + 0x34)) cs" "length cs \<le> de_fuel e"
    and "\<forall>c\<in>set cs. mm s (pci_addr + ucast c) \<noteq> 0x11"
  shows "pci_setup_interrupts e pci_addr irq_line amount s = Inr (1, s)"
  by (simp add: pci_setup_interrupts_def Let_def msix_absent [OF assms])

definition plain_env :: dev_env where
  "plain_env = \<lparr>de_fuel = 4, de_ld = demo_linker, de_hw = no_hw\<lparr>PCI_BASE := 0x4010000000, MMIO_BASE := 0x10000000\<rparr>,
     react = (\<lambda>a m. m), tick = (\<lambda>m. m)\<rparr>"

text \<open>A device at 0x1000 with one capability, MSI, at offset 0x50.\<close>

theorem msi_never_reached_witness:
  "pci_setup_interrupts plain_env 0x1000 36 1 (palloc_boot\<lparr>mm := (\<lambda>_. 0)(0x1034 := 0x50, 0x1050 := 0x05)\<rparr>)
   = Inr (1, palloc_boot\<lparr>mm := (\<lambda>_. 0)(0x1034 := 0x50, 0x1050 := 0x05)\<rparr>)"
  using msi_never_reached [of "palloc_boot\<lparr>mm := (\<lambda>_. 0)(0x1034 := 0x50, 0x1050 := 0x05)\<rparr>" "0x1000" "[0x50]" plain_env 36 1]
  by (simp add: plain_env_def)

subsection \<open>The size of a region\<close>

text \<open>A device whose register pair at \<open>bar\<close> stands for a region of \<open>2 ^ k\<close> bytes: the address bits below that stay 0, the
  low four bits of the low register are the type.\<close>

definition bar_device :: "dev_env \<Rightarrow> u64 \<Rightarrow> nat \<Rightarrow> u32 \<Rightarrow> bool" where
  "bar_device e bar k flags \<longleftrightarrow> (\<forall>a m. react e a m =
     (if a = bar then write32 m bar ((read32 m bar AND ucast (NOT (mask k) :: u64)) OR flags)
      else if a = bar + 4 then write32 m (bar + 4) (read32 m (bar + 4) AND ucast (drop_bit 32 (NOT (mask k) :: u64)))
      else m))"

lemma read32_write32_disj: "disj_regions a 4 b 4 \<Longrightarrow> read32 (write32 m b v) a = read32 m a"
  by (simp add: read32_def write32_def load_store_disj)

lemma bar_disj: "disj_regions (bar + 4) 4 bar 4" "disj_regions bar 4 (bar + 4) 4"
  by (simp_all add: disj_regions_def)

lemma bar_reads:
  assumes "bar_device e bar k flags"
  shows "read32 (mm (dwrite32 e bar v s)) bar = (v AND ucast (NOT (mask k) :: u64)) OR flags"
    and "read32 (mm (dwrite32 e bar v s)) (bar + 4) = read32 (mm s) (bar + 4)"
    and "read32 (mm (dwrite32 e (bar + 4) v s)) bar = read32 (mm s) bar"
    and "read32 (mm (dwrite32 e (bar + 4) v s)) (bar + 4) = v AND ucast (drop_bit 32 (NOT (mask k) :: u64))"
  using assms by (simp_all add: dwrite32_def bar_device_def read32_write32_disj bar_disj)

lemma join_halves:
  fixes flags :: u32
  assumes "flags AND 0xF = flags" "4 \<le> k"
  shows "push_bit 32 (ucast (ucast (drop_bit 32 b) AND ucast (drop_bit 32 (NOT (mask k) :: u64)) :: u32))
      OR (ucast ((ucast (b AND 0xFFFFFFFF) AND ucast (NOT (mask k) :: u64)) OR flags :: u32) AND NOT 0xF)
    = (b AND NOT (mask k) :: u64)"
proof -
  have masks: "(0xF :: u64) = mask 4" "(0xF :: u32) = mask 4" "(0xFFFFFFFF :: u64) = mask 32"
    by (simp_all add: mask_eq_exp_minus_1)
  have hi: "\<not> bit flags n" if "4 \<le> n" for n
  proof -
    have "bit (flags AND mask 4) n = bit flags n" using assms(1) by (simp add: masks(2))
    then show ?thesis using that by (simp add: bit_simps)
  qed
  show ?thesis
    unfolding masks
  proof (rule bit_word_eqI)
    fix n assume "n < LENGTH(64)"
    then show "bit (push_bit 32 (ucast (ucast (drop_bit 32 b) AND ucast (drop_bit 32 (NOT (mask k) :: u64)) :: u32))
        OR (ucast ((ucast (b AND mask 32) AND ucast (NOT (mask k) :: u64)) OR flags :: u32) AND NOT (mask 4)) :: u64) n
      = bit (b AND NOT (mask k)) n"
      using hi [of n] assms(2) by (cases "n < 4"; cases "n < 32") (auto simp: bit_simps)
  qed
qed

lemma size_from_mask:
  fixes flags :: u32
  assumes "flags AND 0xF = flags" "4 \<le> k" "k < 64"
  shows "NOT (push_bit 32 (ucast (0xFFFFFFFF AND ucast (drop_bit 32 (NOT (mask k) :: u64)) :: u32))
      OR ucast (((0xFFFFFFFF AND ucast (NOT (mask k) :: u64)) OR flags) AND NOT 0xF :: u32)) + 1 = (push_bit k 1 :: u64)"
proof -
  have masks: "(0xF :: u32) = mask 4" "(0xFFFFFFFF :: u32) = mask 32"
    by (simp_all add: mask_eq_exp_minus_1)
  have hi: "\<not> bit flags n" if "4 \<le> n" for n
  proof -
    have "bit (flags AND mask 4) n = bit flags n" using assms(1) by (simp add: masks(1))
    then show ?thesis using that by (simp add: bit_simps)
  qed
  have "push_bit 32 (ucast (mask 32 AND ucast (drop_bit 32 (NOT (mask k) :: u64)) :: u32))
      OR ucast (((mask 32 AND ucast (NOT (mask k) :: u64)) OR flags) AND NOT (mask 4) :: u32) = (NOT (mask k) :: u64)"
  proof (rule bit_word_eqI)
    fix n assume "n < LENGTH(64)"
    then show "bit (push_bit 32 (ucast (mask 32 AND ucast (drop_bit 32 (NOT (mask k) :: u64)) :: u32))
        OR ucast (((mask 32 AND ucast (NOT (mask k) :: u64)) OR flags) AND NOT (mask 4) :: u32) :: u64) n
      = bit (NOT (mask k) :: u64) n"
      using hi [of n] assms(2) by (cases "n < 4"; cases "n < 32") (auto simp: bit_simps)
  qed
  then show ?thesis unfolding masks by (simp add: mask_eq_exp_minus_1 push_bit_eq_mult)
qed

lemma alloc_mmio_mm:
  "alloc_mmio_region mb s sz = Inr (base, t) \<Longrightarrow> next_mmio_base s' = next_mmio_base s \<Longrightarrow>
   alloc_mmio_region mb s' sz = Inr (base, s'\<lparr>next_mmio_base := base + round_page sz\<rparr>)"
  by (auto simp: alloc_mmio_region_def Let_def split: if_splits)

text \<open>C36: For a device with a 64-bit base address register, \<open>pci_setup_bar\<close> finds out the size of its region and has a region
  of that size allocated, but the allocator knows only pages: the region that is set up and reported begins at the next lower
  multiple of the size, below the allocated one when that is not aligned.\<close>

theorem pci_setup_bar_region:
  assumes "bar_device e bar k flags" "flags AND 0xF = flags" "flags AND 0x6 = 0x4" "4 \<le> k" "k < 64"
    and "bar = pci_get_bar_address e pci_addr 0x10 (ucast idx)" "bar + 4 = pci_get_bar_address e pci_addr 0x10 (ucast (idx + 1))"
    and "read32 (mm s) bar AND 0x6 = 0x4"
    and "alloc_mmio_region (MMIO_BASE (de_hw e)) s (push_bit k 1) = Inr (base, t)"
  shows "\<exists>s'. pci_setup_bar e pci_addr idx s = Inr ((base AND NOT (mask k), push_bit k 1), s')
    \<and> next_mmio_base s' = base + round_page (push_bit k 1)"
proof -
  let ?s1 = "dwrite32 e bar 0xFFFFFFFF s"
  let ?s2 = "dwrite32 e (bar + 4) 0xFFFFFFFF ?s1"
  let ?t = "?s2\<lparr>next_mmio_base := base + round_page (push_bit k 1)\<rparr>"
  let ?u = "dwrite32 e (bar + 4) (ucast (drop_bit 32 base)) (dwrite32 e bar (ucast (base AND 0xFFFFFFFF)) ?t)"
  have low: "read32 (mm ?s1) bar = (0xFFFFFFFF AND ucast (NOT (mask k) :: u64)) OR flags"
    and high: "read32 (mm ?s2) (bar + 4) = 0xFFFFFFFF AND ucast (drop_bit 32 (NOT (mask k) :: u64))"
    and new: "read32 (mm ?u) bar = (ucast (base AND 0xFFFFFFFF) AND ucast (NOT (mask k) :: u64)) OR flags"
      "read32 (mm ?u) (bar + 4) = ucast (drop_bit 32 base) AND ucast (drop_bit 32 (NOT (mask k) :: u64))"
    by (rule bar_reads [OF assms(1)] | simp only: bar_reads [OF assms(1)])+
  have al: "alloc_mmio_region (MMIO_BASE (de_hw e)) ?s2 (push_bit k 1) = Inr (base, ?t)"
    using assms(9) by (rule alloc_mmio_mm [where s' = ?s2]) (simp_all add: dwrite32_def)
  show ?thesis
    unfolding pci_setup_bar_def Let_def assms(6) [symmetric] assms(7) [symmetric] low high
      size_from_mask [OF assms(2,4,5)] al bindE_simps prod.case new join_halves [OF assms(2,4)]
    using assms(8) by (simp add: dwrite32_def)
qed


text \<open>A device at 0x1000 with a region of 16 KiB; the allocator is at 0x10001000, so the region begins one page too low.\<close>

definition bar_env :: dev_env where
  "bar_env = plain_env\<lparr>react := (\<lambda>a m.
     if a = 0x1010 then write32 m 0x1010 ((read32 m 0x1010 AND ucast (NOT (mask 14) :: u64)) OR 4)
     else if a = 0x1014 then write32 m 0x1014 (read32 m 0x1014 AND ucast (drop_bit 32 (NOT (mask 14) :: u64)))
     else m)\<rparr>"

theorem pci_setup_bar_region_witness:
  "\<exists>s'. pci_setup_bar bar_env 0x1000 0 (palloc_boot\<lparr>mm := write32 (\<lambda>_. 0) 0x1010 4, next_mmio_base := 0x10001000\<rparr>)
      = Inr ((0x10000000, 0x4000), s') \<and> next_mmio_base s' = 0x10005000"
proof -
  have d: "bar_device bar_env 0x1010 14 4" by (simp add: bar_device_def bar_env_def)
  have r: "round_page 0x4000 = 0x4000" by (simp add: round_page_def)
  have m: "(0x10001000 :: u64) AND NOT (mask 14) = 0x10000000" by (simp add: mask_eq_exp_minus_1)
  show ?thesis
    using pci_setup_bar_region [OF d, where pci_addr = "0x1000" and idx = 0 and base = "0x10001000"
        and s = "palloc_boot\<lparr>mm := write32 (\<lambda>_. 0) 0x1010 4, next_mmio_base := 0x10001000\<rparr>"]
    by (simp add: pci_get_bar_address_def bar_env_def plain_env_def alloc_mmio_region_def r m)
qed

end
