(* ===== verification/Virtio.thy ===== *)
theory Virtio
  imports Pci Fat32
begin

section \<open>Virtio devices and the block device (\<open>kernel/virtio/virtio_pci.c\<close>, \<open>kernel/filesystem/virtio_blk_pci.c\<close>, \<open>disk.cpp\<close>)\<close>

text \<open>
  Descriptors, rings and buffers are memory shared with the device.  A store to a device register is answered by
  \<open>react\<close>; each test of a waiting loop is preceded by one step of the device, \<open>tick\<close>.  Waiting takes fuel.  The address of the
  status byte on the stack is a parameter.  The output for the console is left out.
\<close>

record virtio_device =
  common_cfg :: u64
  notify_cfg :: u64
  device_cfg :: u64
  isr_cfg :: u64
  notify_off_multiplier :: u32
  memory_page :: u64

record virtio_state = pci_state +
  feature_mask :: u32
  blk_dev :: virtio_device

definition dwrite8 :: "dev_env \<Rightarrow> u64 \<Rightarrow> u8 \<Rightarrow> 'a kmem_scheme \<Rightarrow> 'a kmem_scheme" where
  "dwrite8 e a v s = s\<lparr>mm := react e a (write8 (mm s) a v)\<rparr>"

definition dwrite64 :: "dev_env \<Rightarrow> u64 \<Rightarrow> u64 \<Rightarrow> 'a kmem_scheme \<Rightarrow> 'a kmem_scheme" where
  "dwrite64 e a v s = s\<lparr>mm := react e a (write64 (mm s) a v)\<rparr>"

subsection \<open>Setting a device up\<close>

definition virtio_set_feature_mask :: "u32 \<Rightarrow> 'a virtio_state_scheme \<Rightarrow> 'a virtio_state_scheme" where
  "virtio_set_feature_mask msk s = s\<lparr>feature_mask := msk\<rparr>"

text \<open>One capability: the fields of the device it fills in.\<close>

definition take_capability :: "mem \<Rightarrow> u64 \<Rightarrow> u64 \<Rightarrow> virtio_device \<Rightarrow> virtio_device" where
  "take_capability m cap val dev =
     (let addr = val + ucast (read32 m (cap + 8))
      in if m (cap + 3) = 1 then dev\<lparr>common_cfg := addr\<rparr>
         else if m (cap + 3) = 2 then dev\<lparr>notify_cfg := addr, notify_off_multiplier := read32 m (cap + 16)\<rparr>
         else if m (cap + 3) = 4 then dev\<lparr>device_cfg := addr\<rparr>
         else if m (cap + 3) = 3 then dev\<lparr>isr_cfg := addr\<rparr>
         else dev)"

fun capabilities ::
    "nat \<Rightarrow> dev_env \<Rightarrow> u64 \<Rightarrow> u64 \<Rightarrow> virtio_device \<Rightarrow> u64 \<times> u64 \<Rightarrow> 'a kmem_scheme
     \<Rightarrow> fault + (virtio_device \<times> (u64 \<times> u64) \<times> 'a kmem_scheme)" where
  "capabilities 0 e pci_addr off dev mmio s = (if off = 0 then Inr (dev, mmio, s) else Inl OutOfFuel)"
| "capabilities (Suc k) e pci_addr off dev mmio s =
     (if off = 0 then Inr (dev, mmio, s)
      else
        let cap = pci_addr + off;
            val = ucast (read32 (mm s) (pci_get_bar_address e pci_addr 0x10 (mm s (cap + 4))) AND NOT 0xF)
        in bindE (if mm s cap = 9 \<and> mm s (cap + 3) < 5 \<and> val = 0
                  then bindE (pci_setup_bar e pci_addr (ucast (mm s (cap + 4))) s) (\<lambda>(r, s). Inr (fst r, r, s))
                  else Inr (val, mmio, s)) (\<lambda>(val, mmio, s).
             capabilities k e pci_addr (ucast (mm s (cap + 1)))
               (if mm s cap = 9 then take_capability (mm s) cap val dev else dev) mmio s))"

definition virtio_get_capabilities ::
    "dev_env \<Rightarrow> virtio_device \<Rightarrow> u64 \<Rightarrow> u64 \<times> u64 \<Rightarrow> 'a kmem_scheme
     \<Rightarrow> fault + (virtio_device \<times> (u64 \<times> u64) \<times> 'a kmem_scheme)" where
  "virtio_get_capabilities e dev pci_addr mmio s =
     capabilities (de_fuel e) e pci_addr (ucast (read32 (mm s) (pci_addr + 0x34))) dev mmio s"

definition select_queue :: "dev_env \<Rightarrow> virtio_device \<Rightarrow> u32 \<Rightarrow> 'a kmem_scheme \<Rightarrow> u32 \<times> 'a kmem_scheme" where
  "select_queue e dev index s =
     (let s = dwrite16 e (common_cfg dev + 22) (ucast index) s in (ucast (read16 (mm s) (common_cfg dev + 24)), s))"

definition dev_alloc :: "dev_env \<Rightarrow> u64 \<Rightarrow> u64 \<Rightarrow> u16 \<Rightarrow> 'a palloc_state_scheme \<Rightarrow> fault + (u64 \<times> 'a palloc_state_scheme)" where
  "dev_alloc e page n alignment s = kalloc (de_fuel e) (de_ld e) (de_hw e) s page n alignment True True"

fun setup_queues :: "nat \<Rightarrow> dev_env \<Rightarrow> virtio_device \<Rightarrow> u32 \<Rightarrow> 'a palloc_state_scheme \<Rightarrow> fault + 'a palloc_state_scheme" where
  "setup_queues 0 e dev queue_index s = Inl OutOfFuel"
| "setup_queues (Suc k) e dev queue_index s =
     (case select_queue e dev queue_index s of (n, s) \<Rightarrow>
        if n = 0 then Inr s
        else
          bindE (dev_alloc e (memory_page dev) (ucast (16 * n)) 4096 s) (\<lambda>(base, s).
          bindE (dev_alloc e (memory_page dev) (ucast (4 + 2 * n)) 4096 s) (\<lambda>(avail, s).
          bindE (dev_alloc e (memory_page dev) (2 * ucast (2 + n)) 4096 s) (\<lambda>(used, s).
            let cfg = common_cfg dev;
                s = dwrite64 e (cfg + 32) base s;
                s = dwrite64 e (cfg + 40) avail s;
                s = dwrite64 e (cfg + 48) used s;
                s = dwrite16 e (cfg + 28) 1 s
            in setup_queues k e dev (queue_index + 1) s))))"

definition or_status :: "dev_env \<Rightarrow> virtio_device \<Rightarrow> u8 \<Rightarrow> 'a kmem_scheme \<Rightarrow> 'a kmem_scheme" where
  "or_status e dev b s = dwrite8 e (common_cfg dev + 20) (mm s (common_cfg dev + 20) OR b) s"

text \<open>The wait after the reset has the mask 0, so it does not depend on the register: it goes through all its 2000 rounds.\<close>

definition virtio_init_device ::
    "dev_env \<Rightarrow> clock \<Rightarrow> nat \<Rightarrow> virtio_device \<Rightarrow> 'a virtio_state_scheme \<Rightarrow> fault + (bool \<times> virtio_device \<times> 'a virtio_state_scheme)" where
  "virtio_init_device e ck r dev s =
     (let cfg = common_cfg dev; s = dwrite8 e (cfg + 20) 0 s
      in bindE (wait (de_fuel e) ck (\<lambda>k. read32 ((tick e ^^ k) (mm s)) (cfg + 20)) 0 False 2000 r) (\<lambda>(ok, r).
        let s = s\<lparr>mm := (tick e ^^ 2000) (mm s)\<rparr>
        in if \<not> ok then Inr (False, dev, s)
           else
             let s = or_status e dev 1 s;
                 s = or_status e dev 2 s;
                 s = dwrite32 e cfg 0 s;
                 features = read32 (mm s) (cfg + 4) AND feature_mask s;
                 s = dwrite32 e (cfg + 8) 0 s;
                 s = dwrite32 e (cfg + 12) features s;
                 s = or_status e dev 8 s
             in if mm s (cfg + 20) AND 8 = 0 then Inr (False, dev, s)
                else
                  bindE (palloc (de_fuel e) (de_ld e) (de_hw e) s 0x1000 True True False) (\<lambda>(page, s).
                    let dev = dev\<lparr>memory_page := page\<rparr>
                    in bindE (setup_queues (de_fuel e) e dev 0 s) (\<lambda>s.
                         Inr (True, dev, or_status e dev 4 (snd (select_queue e dev 0 s)))))))"

subsection \<open>Requests\<close>

definition put_desc :: "u64 \<Rightarrow> nat \<Rightarrow> u64 \<Rightarrow> u32 \<Rightarrow> u16 \<Rightarrow> u16 \<Rightarrow> mem \<Rightarrow> mem" where
  "put_desc desc i addr n flags nxt m =
     (let d = desc + 16 * of_nat i
      in write16 (write16 (write32 (write64 m d addr) (d + 8) n) (d + 12) flags) (d + 14) nxt)"

definition put_avail :: "u64 \<Rightarrow> u16 \<Rightarrow> mem \<Rightarrow> mem" where
  "put_avail avail v m =
     (let m = write16 m (avail + 4 + 2 * ucast (read16 m (avail + 2) mod 128)) v
      in write16 m (avail + 2) (read16 m (avail + 2) + 1))"

definition notify_addr :: "virtio_device \<Rightarrow> mem \<Rightarrow> u64" where
  "notify_addr dev m = notify_cfg dev + ucast (notify_off_multiplier dev * ucast (read16 m (common_cfg dev + 22)))"

definition notify :: "dev_env \<Rightarrow> virtio_device \<Rightarrow> 'a kmem_scheme \<Rightarrow> 'a kmem_scheme" where
  "notify e dev s = dwrite16 e (notify_addr dev (mm s)) 0 s"

fun wait_used :: "nat \<Rightarrow> dev_env \<Rightarrow> u64 \<Rightarrow> u16 \<Rightarrow> 'a kmem_scheme \<Rightarrow> fault + 'a kmem_scheme" where
  "wait_used 0 e used last_used_idx s = Inl OutOfFuel"
| "wait_used (Suc k) e used last_used_idx s =
     (let s = s\<lparr>mm := tick e (mm s)\<rparr>
      in if last_used_idx = read16 (mm s) (used + 2) then wait_used k e used last_used_idx s else Inr s)"

text \<open>\<open>status\<close> is the address of the local variable.\<close>

definition virtio_send ::
    "dev_env \<Rightarrow> u64 \<Rightarrow> virtio_device \<Rightarrow> u64 \<Rightarrow> u64 \<Rightarrow> u64 \<Rightarrow> u64 \<Rightarrow> u32 \<Rightarrow> u64 \<Rightarrow> u32 \<Rightarrow> u8 \<Rightarrow> 'a kmem_scheme
     \<Rightarrow> fault + (bool \<times> 'a kmem_scheme)" where
  "virtio_send e status dev desc avail used cmd cmd_len resp resp_len flags s =
     (let m = put_desc desc 0 cmd cmd_len 1 1 (mm s);
          m = put_desc desc 1 resp resp_len (1 OR ucast flags) 2 m;
          m = m(status := 0);
          m = put_desc desc 2 status 1 2 0 m;
          last_used_idx = read16 m (used + 2);
          s = notify e dev (s\<lparr>mm := put_avail avail 0 m\<rparr>)
      in bindE (wait_used (de_fuel e) e used last_used_idx s) (\<lambda>s. Inr (mm s status = 0, s)))"

definition virtio_send2 ::
    "dev_env \<Rightarrow> virtio_device \<Rightarrow> u64 \<Rightarrow> u64 \<Rightarrow> u64 \<Rightarrow> u64 \<Rightarrow> u32 \<Rightarrow> u64 \<Rightarrow> u32 \<Rightarrow> u8 \<Rightarrow> 'a kmem_scheme
     \<Rightarrow> fault + (bool \<times> 'a kmem_scheme)" where
  "virtio_send2 e dev desc avail used cmd cmd_len resp resp_len flags s =
     (let last_used_idx = read16 (mm s) (used + 2);
          m = put_desc desc 0 cmd cmd_len (ucast flags) 1 (mm s);
          m = put_desc desc 1 resp resp_len 2 0 m;
          s = notify e dev (s\<lparr>mm := put_avail avail 0 m\<rparr>)
      in bindE (wait_used (de_fuel e) e used last_used_idx s) (\<lambda>s. Inr (True, s)))"

definition virtio_send_1d :: "dev_env \<Rightarrow> virtio_device \<Rightarrow> u64 \<Rightarrow> u32 \<Rightarrow> 'a kmem_scheme \<Rightarrow> fault + (bool \<times> 'a kmem_scheme)" where
  "virtio_send_1d e dev cmd cmd_len s =
     (let cfg = common_cfg dev; desc = read64 (mm s) (cfg + 32); avail = read64 (mm s) (cfg + 40); used = read64 (mm s) (cfg + 48);
          last_used_idx = read16 (mm s) (used + 2);
          m = put_desc desc 0 cmd cmd_len 0 0 (mm s);
          s = notify e dev (s\<lparr>mm := put_avail avail 0 m\<rparr>)
      in bindE (wait_used (de_fuel e) e used last_used_idx s) (\<lambda>s. Inr (True, s)))"

definition virtio_add_buffer :: "dev_env \<Rightarrow> virtio_device \<Rightarrow> u16 \<Rightarrow> u64 \<Rightarrow> u32 \<Rightarrow> 'a kmem_scheme \<Rightarrow> 'a kmem_scheme" where
  "virtio_add_buffer e dev index buf buf_len s =
     (let cfg = common_cfg dev; desc = read64 (mm s) (cfg + 32); avail = read64 (mm s) (cfg + 40);
          m = put_desc desc (unat index) buf buf_len 2 0 (mm s)
      in notify e dev (s\<lparr>mm := put_avail avail index m\<rparr>))"

subsection \<open>The block device\<close>

definition vblk_find_disk ::
    "dev_env \<Rightarrow> clock \<Rightarrow> nat \<Rightarrow> u64 \<times> u64 \<Rightarrow> 'a virtio_state_scheme \<Rightarrow> fault + (bool \<times> 'a virtio_state_scheme)" where
  "vblk_find_disk e ck r garbage s =
     bindE (find_pci_device e 0x1AF4 0x1001 s) (\<lambda>(addr, s).
       if addr = 0 then Inr (False, s)
       else
         bindE (virtio_get_capabilities e (blk_dev s) addr garbage (pci_enable_device e addr s)) (\<lambda>(dev, (start, sz), s).
         bindE (pci_register e start sz (s\<lparr>blk_dev := dev\<rparr>)) (\<lambda>s.
         bindE (virtio_init_device e ck r dev s) (\<lambda>(ok, dev, s). Inr (ok, s\<lparr>blk_dev := dev\<rparr>)))))"

definition put_request :: "u64 \<Rightarrow> u32 \<Rightarrow> u32 \<Rightarrow> mem \<Rightarrow> mem" where
  "put_request cmd ty sector m = write64 (write32 (write32 m cmd ty) (cmd + 4) 0) (cmd + 8) (ucast sector)"

definition blk_send ::
    "dev_env \<Rightarrow> u64 \<Rightarrow> u64 \<Rightarrow> u64 \<Rightarrow> u32 \<Rightarrow> u8 \<Rightarrow> 'a virtio_state_scheme \<Rightarrow> fault + (bool \<times> 'a virtio_state_scheme)" where
  "blk_send e status cmd data n flags s =
     (let cfg = common_cfg (blk_dev s)
      in virtio_send e status (blk_dev s) (read64 (mm s) (cfg + 32)) (read64 (mm s) (cfg + 40)) (read64 (mm s) (cfg + 48)) cmd 16 data n flags s)"

definition vblk_write :: "dev_env \<Rightarrow> u64 \<Rightarrow> u64 \<Rightarrow> u32 \<Rightarrow> u32 \<Rightarrow> 'a virtio_state_scheme \<Rightarrow> fault + 'a virtio_state_scheme" where
  "vblk_write e status buffer sector count s =
     (let n = ucast (count * 512)
      in bindE (dev_alloc e (memory_page (blk_dev s)) 16 64 s) (\<lambda>(cmd, s).
         bindE (dev_alloc e (memory_page (blk_dev s)) n 64 s) (\<lambda>(data, s).
         let m = put_request cmd 1 sector (memcpy (mm s) data buffer n)
         in bindE (blk_send e status cmd data (count * 512) 0 (s\<lparr>mm := m\<rparr>)) (\<lambda>(_, s).
              Inr (kfree (kfree s cmd 16) data n)))))"

definition vblk_read :: "dev_env \<Rightarrow> u64 \<Rightarrow> u64 \<Rightarrow> u32 \<Rightarrow> u32 \<Rightarrow> 'a virtio_state_scheme \<Rightarrow> fault + 'a virtio_state_scheme" where
  "vblk_read e status buffer sector count s =
     (let n = ucast (count * 512)
      in bindE (dev_alloc e (memory_page (blk_dev s)) 16 64 s) (\<lambda>(cmd, s).
         bindE (dev_alloc e (memory_page (blk_dev s)) n 64 s) (\<lambda>(data, s).
         bindE (blk_send e status cmd data (count * 512) 2 (s\<lparr>mm := put_request cmd 0 sector (mm s)\<rparr>)) (\<lambda>(_, s).
           Inr (kfree (kfree (s\<lparr>mm := memcpy (mm s) buffer data n\<rparr>) cmd 16) data n)))))"

subsection \<open>Waiting for the device\<close>

definition answered :: "dev_env \<Rightarrow> u64 \<Rightarrow> u16 \<Rightarrow> mem \<Rightarrow> nat \<Rightarrow> bool" where
  "answered e used last_used_idx m i \<longleftrightarrow> read16 ((tick e ^^ Suc i) m) (used + 2) \<noteq> last_used_idx"

text \<open>The wait ends behind the first step of the device that moves the index of the used ring; when no step does, no fuel is
  enough.\<close>

lemma wait_used_first:
  "wait_used k e used idx s =
     (if \<exists>i<k. answered e used idx (mm s) i then Inr (s\<lparr>mm := (tick e ^^ Suc (LEAST i. answered e used idx (mm s) i)) (mm s)\<rparr>)
      else Inl OutOfFuel)"
proof (induction k arbitrary: s)
  case (Suc k)
  let ?P = "answered e used idx (mm s)" and ?s = "s\<lparr>mm := tick e (mm s)\<rparr>"
  have step: "answered e used idx (mm ?s) i = ?P (Suc i)" for i
    by (simp add: answered_def funpow_Suc_right del: funpow.simps)
  show ?case
  proof (cases "?P 0")
    case True
    then have "(LEAST i. ?P i) = 0" by (rule Least_eq_0)
    then show ?thesis using True by (auto simp: answered_def)
  next
    case False
    have l: "(LEAST i. ?P i) = Suc (LEAST i. ?P (Suc i))" if "\<exists>i<k. ?P (Suc i)"
      using that False by (auto intro: Least_Suc)
    have ex: "(\<exists>i<Suc k. ?P i) \<longleftrightarrow> (\<exists>i<k. ?P (Suc i))"
      using False by (metis Suc_less_eq less_Suc_eq_0_disj)
    have it: "(tick e ^^ Suc n) (mm ?s) = (tick e ^^ Suc (Suc n)) (mm s)" for n
      by (simp add: funpow_swap1)
    have "wait_used (Suc k) e used idx s = wait_used k e used idx ?s" using False by (simp add: answered_def)
    also have "\<dots> = (if \<exists>i<k. ?P (Suc i) then Inr (?s\<lparr>mm := (tick e ^^ Suc (Suc (LEAST i. ?P (Suc i)))) (mm s)\<rparr>)
      else Inl OutOfFuel)"
      unfolding Suc.IH step it by (rule refl)
    finally show ?thesis using l ex by (simp del: funpow.simps)
  qed
qed simp

subsection \<open>A virtio block device\<close>

text \<open>
  The device, as the virtio specification describes it (split queues, block device; the device only reads from its disk).  It
  takes the head of a chain of descriptors from the ring of available chains when its index is behind the driver's, follows the
  chain as long as the flag NEXT is set, answers the request, records the chain in the ring of used ones and moves its index.
  A chain that is not a request gets no answer.
\<close>

definition desc_at :: "mem \<Rightarrow> u64 \<Rightarrow> u64 \<times> u32 \<times> u16 \<times> u16" where
  "desc_at m d = (read64 m d, read32 m (d + 8), read16 m (d + 12), read16 m (d + 14))"

text \<open>The buffers of a chain: address, length, and whether the device may write; None when there are more than the queue is long.\<close>

fun vq_chain :: "nat \<Rightarrow> mem \<Rightarrow> u64 \<Rightarrow> u16 \<Rightarrow> (u64 \<times> u32 \<times> bool) list option" where
  "vq_chain 0 m desc i = None"
| "vq_chain (Suc k) m desc i =
     (case desc_at m (desc + 16 * ucast i) of (addr, n, flags, nxt) \<Rightarrow>
        if flags AND 1 \<noteq> 0 then map_option (Cons (addr, n, flags AND 2 \<noteq> 0)) (vq_chain k m desc nxt)
        else Some [(addr, n, flags AND 2 \<noteq> 0)])"

text \<open>The answer to a request: the number of bytes written, and the memory.  The status is 0 for a read, 1 for any other request.\<close>

definition blk_answer :: "(u32 \<Rightarrow> u8 list) \<Rightarrow> (u64 \<times> u32 \<times> bool) list \<Rightarrow> mem \<Rightarrow> (u32 \<times> mem) option" where
  "blk_answer disk bufs m =
     (case bufs of
        [(req, rn, rw), (data, n, w), (st, sn, sw)] \<Rightarrow>
          if rw \<or> rn \<noteq> 16 \<or> sn \<noteq> 1 \<or> \<not> sw then None
          else if read32 m req = 0 \<and> w then
            Some (n + 1, (store_bytes m data (sectors disk (ucast (read64 m (req + 8))) (unat n div 512)))(st := 0))
          else Some (1, m(st := 1))
      | _ \<Rightarrow> None)"

definition vq_serve :: "(u32 \<Rightarrow> u8 list) \<Rightarrow> nat \<Rightarrow> u64 \<Rightarrow> u64 \<Rightarrow> u64 \<Rightarrow> mem \<Rightarrow> mem" where
  "vq_serve disk qsize desc avail used m =
     (let idx = read16 m (used + 2); slot = unat idx mod qsize
      in if idx = read16 m (avail + 2) then m
         else
           let head = read16 m (avail + 4 + 2 * of_nat slot)
           in case vq_chain qsize m desc head of
                None \<Rightarrow> m
              | Some bufs \<Rightarrow>
                  (case blk_answer disk bufs m of
                     None \<Rightarrow> m
                   | Some (n, m) \<Rightarrow>
                       let el = used + 4 + 8 * of_nat slot
                       in write16 (write32 (write32 m el (ucast head)) (el + 4) n) (used + 2) (idx + 1)))"

text \<open>The device looks at its queue when its doorbell at \<open>bell\<close> is written, and has served the queue after at most as many steps
  as there is fuel; until then it does not move its index.\<close>

definition blk_device :: "dev_env \<Rightarrow> (u32 \<Rightarrow> u8 list) \<Rightarrow> nat \<Rightarrow> u64 \<Rightarrow> u64 \<Rightarrow> u64 \<Rightarrow> u64 \<Rightarrow> bool" where
  "blk_device e disk qsize desc avail used bell \<longleftrightarrow> (\<forall>i. length (disk i) = 512)
     \<and> (\<forall>m. \<exists>k\<le>de_fuel e. (\<forall>i<k. read16 ((tick e ^^ i) (react e bell m)) (used + 2) = read16 m (used + 2))
          \<and> (\<forall>j\<ge>k. (tick e ^^ j) (react e bell m) = vq_serve disk qsize desc avail used m))"

lemma wait_for_device:
  assumes "blk_device e disk qsize desc avail used bell" "0 < de_fuel e"
    and "read16 (vq_serve disk qsize desc avail used m) (used + 2) \<noteq> read16 m (used + 2)"
  shows "wait_used (de_fuel e) e used (read16 m (used + 2)) (s\<lparr>mm := react e bell m\<rparr>)
    = Inr (s\<lparr>mm := vq_serve disk qsize desc avail used m\<rparr>)"
proof -
  let ?N = "react e bell m" and ?u = "read16 m (used + 2)"
  let ?P = "answered e used ?u ?N"
  obtain k where k: "k \<le> de_fuel e" "\<forall>i<k. read16 ((tick e ^^ i) ?N) (used + 2) = ?u"
    "\<forall>j\<ge>k. (tick e ^^ j) ?N = vq_serve disk qsize desc avail used m"
    using assms(1) unfolding blk_device_def by blast
  have "?P (k - 1)" using k(3) assms(3) by (cases k) (simp_all add: answered_def del: funpow.simps)
  moreover have "k - 1 < de_fuel e" using k(1) assms(2) by linarith
  ultimately have ex: "\<exists>i<de_fuel e. ?P i" by blast
  let ?l = "LEAST i. ?P i"
  have "?P ?l" using ex by (metis LeastI_ex)
  then have "k \<le> Suc ?l" using k(2) unfolding answered_def by (meson not_le)
  then show ?thesis using ex k(3) by (simp add: wait_used_first del: funpow.simps)
qed

fun pairwise_apart :: "(u64 \<times> nat) list \<Rightarrow> bool" where
  "pairwise_apart [] \<longleftrightarrow> True"
| "pairwise_apart ((a, n) # rs) \<longleftrightarrow> (\<forall>(b, k)\<in>set rs. disj_regions a n b k) \<and> pairwise_apart rs"

lemma put_desc_store:
  "put_desc desc i addr n flags nxt m
    = store_bytes m (desc + 16 * of_nat i) (le_bytes 8 addr @ le_bytes 4 n @ le_bytes 2 flags @ le_bytes 2 nxt)"
proof -
  let ?d = "desc + 16 * of_nat i :: u64"
  have "store_bytes (store_bytes (store_bytes (store_bytes m ?d (le_bytes 8 addr)) (?d + 8) (le_bytes 4 n)) (?d + 12) (le_bytes 2 flags)) (?d + 14) (le_bytes 2 nxt)
    = store_bytes m ?d (((le_bytes 8 addr @ le_bytes 4 n) @ le_bytes 2 flags) @ le_bytes 2 nxt)"
    using store_store_append [of "le_bytes 8 addr" "le_bytes 4 n" m ?d]
      store_store_append [of "le_bytes 8 addr @ le_bytes 4 n" "le_bytes 2 flags" m ?d]
      store_store_append [of "(le_bytes 8 addr @ le_bytes 4 n) @ le_bytes 2 flags" "le_bytes 2 nxt" m ?d]
    by (simp add: length_le_bytes)
  then show ?thesis by (simp add: put_desc_def write64_def write32_def write16_def)
qed

lemma load_store_within:
  assumes "off + k \<le> length bs" "length bs \<le> 2 ^ 64"
  shows "load_bytes (store_bytes m a bs) (a + of_nat off) k = take k (drop off bs)"
proof (rule nth_equalityI)
  fix i assume "i < length (load_bytes (store_bytes m a bs) (a + of_nat off) k)"
  then have i: "i < k" by simp
  then have "unat (of_nat (off + i) :: u64) = off + i" using assms by (intro unat_of_nat_lt) simp
  then have "unat (a + of_nat off + of_nat i - a) = off + i" by (simp add: add.assoc)
  then show "load_bytes (store_bytes m a bs) (a + of_nat off) k ! i = take k (drop off bs) ! i"
    using i assms by (simp add: store_bytes_def)
qed (use assms in simp)

lemma put_desc_at: "desc_at (put_desc desc i addr n flags nxt m) (desc + 16 * of_nat i) = (addr, n, flags, nxt)"
proof -
  let ?bs = "le_bytes 8 addr @ le_bytes 4 n @ le_bytes 2 flags @ le_bytes 2 nxt"
  note r = load_store_within [of _ _ ?bs m "desc + 16 * of_nat i"]
  show ?thesis
    using r [of 0 8] r [of 8 4] r [of 12 2] r [of 14 2]
    by (simp add: desc_at_def put_desc_store read64_def read32_def read16_def)
qed

lemma desc_at_cong:
  assumes "load_bytes m d 16 = load_bytes m' d 16"
  shows "desc_at m d = desc_at m' d"
proof -
  have "m (d + of_nat i) = m' (d + of_nat i)" if "i < 16" for i
    using arg_cong [OF assms, of "\<lambda>bs. bs ! i"] that by simp
  from this [of "o' + i" for o' i]
  have "load_bytes m (d + of_nat o') n = load_bytes m' (d + of_nat o') n" if "o' + n \<le> 16" for o' n
    using that by (intro nth_equalityI) (simp_all add: add.assoc)
  from this [of 0 8] this [of 8 4] this [of 12 2] this [of 14 2] show ?thesis
    by (simp add: desc_at_def read64_def read32_def read16_def)
qed

lemma put_desc_other:
  "disj_regions p k (desc + 16 * of_nat i) 16 \<Longrightarrow> k \<le> 2 ^ 64 \<Longrightarrow>
   load_bytes (put_desc desc i addr n flags nxt m) p k = load_bytes m p k"
  by (simp add: put_desc_store load_store_disj)

lemma put_avail_other:
  assumes "disj_regions p k avail 260" "0 < k" "k \<le> 2 ^ 64"
  shows "load_bytes (put_avail avail v m) p k = load_bytes m p k"
proof -
  let ?o = "4 + 2 * ucast (read16 m (avail + 2) mod 128) :: u64"
  have "unat (read16 m (avail + 2) mod 128) < 128" by (simp add: unat_mod_word)
  then have "unat ?o + 2 \<le> 260"
    by (simp add: unat_add_small unat_mult_small unat_ucast_mod)
  then have "disj_regions p k (avail + ?o) 2"
    using assms(2) by (intro disj_regions_sub [OF assms(1)]) simp_all
  moreover have "disj_regions p k (avail + 2) 2"
    using assms(2) by (intro disj_regions_sub [OF assms(1)]) simp_all
  ultimately show ?thesis
    using assms(3) by (simp add: put_avail_def Let_def write16_def load_store_disj add.assoc)
qed

lemma upd_other: "disj_regions p k a 1 \<Longrightarrow> k \<le> 2 ^ 64 \<Longrightarrow> load_bytes (m(a := v)) p k = load_bytes m p k"
  using load_store_disj [of p k a "[v]" m] by (simp add: write8_store [unfolded write8_def, symmetric])

definition chain_mem :: "u64 \<Rightarrow> u64 \<Rightarrow> u32 \<Rightarrow> u64 \<Rightarrow> u32 \<Rightarrow> u8 \<Rightarrow> mem \<Rightarrow> mem" where
  "chain_mem desc cmd cmd_len resp resp_len flags m =
     put_desc desc 1 resp resp_len (1 OR ucast flags) 2 (put_desc desc 0 cmd cmd_len 1 1 m)"

definition request_mem :: "u64 \<Rightarrow> u64 \<Rightarrow> u64 \<Rightarrow> u32 \<Rightarrow> u64 \<Rightarrow> u32 \<Rightarrow> u8 \<Rightarrow> mem \<Rightarrow> mem" where
  "request_mem status desc cmd cmd_len resp resp_len flags m =
     put_desc desc 2 status 1 2 0 ((chain_mem desc cmd cmd_len resp resp_len flags m)(status := 0))"

lemma request_mem_other:
  assumes "disj_regions p k desc 48" "disj_regions p k status 1" "0 < k" "k \<le> 2 ^ 64"
  shows "load_bytes (request_mem status desc cmd cmd_len resp resp_len flags m) p k = load_bytes m p k"
proof -
  have "disj_regions p k (desc + 16 * of_nat i) 16" if "i < 3" for i
  proof (rule disj_regions_sub [OF assms(1)])
    have "unat (16 * of_nat i :: u64) = 16 * i" using that by (simp add: unat_mult_small)
    then show "unat (desc + 16 * of_nat i - desc) + 16 \<le> 48" using that by simp
  qed (use assms(3) in simp_all)
  from this [of 0] this [of 1] this [of 2] show ?thesis
    using assms by (simp add: request_mem_def chain_mem_def put_desc_other upd_other del: of_nat_numeral of_nat_0 of_nat_1)
qed

lemma request_mem_descs:
  fixes m :: mem and cmd resp :: u64 and cmd_len resp_len :: u32 and flags :: u8
  assumes "disj_regions desc 48 status 1"
  defines "M \<equiv> request_mem status desc cmd cmd_len resp resp_len flags m"
  shows "desc_at M desc = (cmd, cmd_len, 1, 1)" "desc_at M (desc + 16) = (resp, resp_len, 1 OR ucast flags, 2)"
    "desc_at M (desc + 32) = (status, 1, 2, 0)"
proof -
  have st: "disj_regions (desc + o') 16 status 1" if "unat o' + 16 \<le> 48" for o'
    using that by (intro disj_regions_sub [OF assms(1)]) simp_all
  have a: "disj_regions (desc + 16) 16 (desc + 32) 16" "disj_regions desc 16 (desc + 32) 16" "disj_regions desc 16 (desc + 16) 16"
    by (simp_all add: disj_regions_def)
  have "desc_at M desc = desc_at (put_desc desc 0 cmd cmd_len 1 1 m) desc"
    using a st [of 0] put_desc_other [of desc 16 desc 1] put_desc_other [of desc 16 desc 2]
    by (intro desc_at_cong) (simp add: M_def request_mem_def chain_mem_def upd_other)
  then show "desc_at M desc = (cmd, cmd_len, 1, 1)" using put_desc_at [of desc 0 cmd cmd_len 1 1 m] by simp
  have "desc_at M (desc + 16) = desc_at (chain_mem desc cmd cmd_len resp resp_len flags m) (desc + 16)"
    using a st [of 16] put_desc_other [of "desc + 16" 16 desc 2]
    by (intro desc_at_cong) (simp add: M_def request_mem_def upd_other)
  then show "desc_at M (desc + 16) = (resp, resp_len, 1 OR ucast flags, 2)"
    using put_desc_at [of desc 1 resp resp_len "1 OR ucast flags" 2 "put_desc desc 0 cmd cmd_len 1 1 m"] by (simp add: chain_mem_def)
  show "desc_at M (desc + 32) = (status, 1, 2, 0)"
    using put_desc_at [of desc 2 status 1 2 0] by (simp add: M_def request_mem_def)
qed

lemma read16_other: "load_bytes m p 2 = load_bytes m' p 2 \<Longrightarrow> read16 m p = read16 m' p"
  by (simp add: read16_def)

lemma read16_write16: "read16 (write16 m p v) p = v"
  by (simp add: read16_def write16_def)

lemma put_avail_reads:
  fixes avail :: u64
  defines "a \<equiv> \<lambda>m. read16 m (avail + 2)"
  shows "read16 (put_avail avail v m) (avail + 2) = a m + 1"
    and "read16 (put_avail avail v m) (avail + 4 + 2 * of_nat (unat (a m) mod 128)) = v"
proof -
  let ?j = "unat (a m) mod 128"
  let ?p = "avail + 4 + 2 * of_nat ?j"
  have j: "?j < 128" by simp
  have "of_nat (unat (a m mod 128)) = (ucast (a m mod 128) :: u64)" by simp
  then have eq: "avail + 4 + 2 * ucast (a m mod 128) = ?p" by (simp add: unat_mod)
  have "unat (2 * of_nat ?j :: u64) = 2 * ?j" using j by (subst unat_mult_small) simp_all
  moreover have "?p - (avail + 2) = 2 + 2 * of_nat ?j" by simp
  moreover have "unat (2 + 2 * of_nat ?j :: u64) = 2 + unat (2 * of_nat ?j :: u64)"
    using calculation(1) j by (subst unat_add_small) simp_all
  ultimately have d: "unat (?p - (avail + 2)) = 2 + 2 * ?j" by simp
  then have dj: "disj_regions (avail + 2) 2 ?p 2"
  proof -
    have ne: "?p \<noteq> avail + 2" using d by auto
    have "unat (avail + 2 - ?p) + (2 + 2 * ?j) = 2 ^ 64" using unat_diff_swap [OF ne] unfolding d by simp
    then show ?thesis unfolding disj_regions_def d using j by simp
  qed
  have keep: "read16 (write16 m' ?p w) (avail + 2) = read16 m' (avail + 2)" "read16 (write16 m' (avail + 2) w) ?p = read16 m' ?p" for m' w
    using dj by (simp_all add: read16_def write16_def load_store_disj disj_regions_commute)
  have W: "put_avail avail v m = write16 (write16 m ?p v) (avail + 2) (a m + 1)"
    by (simp only: put_avail_def Let_def eq [unfolded a_def] a_def keep [unfolded a_def])
  show "read16 (put_avail avail v m) (avail + 2) = a m + 1" "read16 (put_avail avail v m) ?p = v"
    unfolding W by (simp_all only: keep read16_write16)
qed

definition put_used :: "u64 \<Rightarrow> nat \<Rightarrow> u32 \<Rightarrow> u32 \<Rightarrow> u16 \<Rightarrow> mem \<Rightarrow> mem" where
  "put_used used j x y z m =
     write16 (write32 (write32 m (used + 4 + 8 * of_nat j) x) (used + 4 + 8 * of_nat j + 4) y) (used + 2) z"

lemma put_used_other:
  assumes "disj_regions p k used (4 + 8 * q)" "j < q" "q \<le> 32768" "0 < k" "k \<le> 2 ^ 64"
  shows "load_bytes (put_used used j x y z m) p k = load_bytes m p k"
proof -
  have "unat (8 * of_nat j :: u64) = 8 * j" using assms(2,3) by (subst unat_mult_small) simp_all
  then have o: "unat (4 + 8 * of_nat j :: u64) = 4 + 8 * j" "unat (8 + 8 * of_nat j :: u64) = 8 + 8 * j"
    using assms(2,3) by (subst unat_add_small; simp)+
  have "4 + 8 * j + 4 \<le> 4 + 8 * q" "8 + 8 * j + 4 \<le> 4 + 8 * q + 4" using assms(2) by linarith+
  then have le: "unat (4 + 8 * of_nat j :: u64) + 4 \<le> 4 + 8 * q" "unat (8 + 8 * of_nat j :: u64) + 4 \<le> 4 + 8 * q"
    using assms(2) unfolding o by linarith+
  have sub: "disj_regions p k (used + o') 4" if "unat o' + 4 \<le> 4 + 8 * q" for o'
    using that assms(4) by (intro disj_regions_sub [OF assms(1)]) simp_all
  have "disj_regions p k (used + 2) 2" using assms(2,4) by (intro disj_regions_sub [OF assms(1)]) simp_all
  then show ?thesis
    using assms(5) sub [OF le(1)] sub [OF le(2)]
    by (simp add: put_used_def write16_def write32_def load_store_disj add.assoc add.left_commute)
qed

lemma vq_serve_request:
  assumes "read16 m (avail + 2) \<noteq> read16 m (used + 2)" "read16 m (avail + 4 + 2 * of_nat (unat (read16 m (used + 2)) mod q)) = 0" "3 \<le> q"
    and "desc_at m desc = (req, 16, 1, 1)" "desc_at m (desc + 16) = (data, n, 3, 2)" "desc_at m (desc + 32) = (st, 1, 2, 0)"
    and "read32 m req = 0"
  shows "vq_serve disk q desc avail used m = put_used used (unat (read16 m (used + 2)) mod q) 0 (n + 1) (read16 m (used + 2) + 1)
    ((store_bytes m data (sectors disk (ucast (read64 m (req + 8))) (unat n div 512)))(st := 0))"
proof -
  obtain k where "q = 3 + k" using assms(3) by (auto simp: le_iff_add)
  then have q: "q = Suc (Suc (Suc k))" by simp
  have "vq_chain q m desc 0 = Some [(req, 16, False), (data, n, True), (st, 1, True)]"
    using assms(4-6) by (simp add: q)
  then show ?thesis
    using assms(1,2,7) by (simp add: vq_serve_def blk_answer_def put_used_def Let_def del: vq_chain.simps)
qed

lemma disj_offset:
  assumes "disj_regions x z b i" "unat o' + j \<le> z" "0 < j" "0 < i"
  shows "disj_regions (x + o') j b i"
  using assms by (intro disj_regions_sub [OF assms(1)]) simp_all

text \<open>The memory behind the doorbell of a request.\<close>

lemma sent_request:
  fixes s :: "'a kmem_scheme" and used avail desc status cmd resp bell :: u64 and n :: u32
  defines "m \<equiv> mm s" and "a \<equiv> read16 (mm s) (used + 2)"
  assumes qu: "3 \<le> q" "q \<le> 32768" "read16 (mm s) (avail + 2) = a" "unat a mod q = unat a mod 128"
    and req: "read32 (mm s) cmd = 0" "read64 (mm s) (cmd + 8) = ucast sector"
    and apart: "pairwise_apart [(desc, 48), (avail, 260), (used, 4 + 8 * q), (status, 1), (cmd, 16), (resp, k), (bell, 2)]"
  defines "M \<equiv> write16 (put_avail avail 0 (request_mem status desc cmd 16 resp n 2 m)) bell 0"
  shows "vq_serve disk q desc avail used M = put_used used (unat a mod q) 0 (n + 1) (a + 1)
      ((store_bytes M resp (sectors disk sector (unat n div 512)))(status := 0))"
    and "read16 M (used + 2) = a" "read16 M (avail + 2) = a + 1"
proof -
  let ?R = "request_mem status desc cmd 16 resp n 2 m" and ?W = "put_avail avail 0 (request_mem status desc cmd 16 resp n 2 m)"
  have R: "load_bytes ?R p j = load_bytes m p j"
    if "disj_regions p j desc 48" "disj_regions p j status 1" "0 < j" "j \<le> 2 ^ 64" for p j
    using that by (simp add: request_mem_other)
  have bell: "load_bytes M p j = load_bytes ?W p j" if "disj_regions p j bell 2" "j \<le> 2 ^ 64" for p j
    using that by (simp add: M_def write16_def load_store_disj)
  have ap: "disj_regions desc 48 bell 2" "disj_regions desc 48 avail 260" "disj_regions desc 48 status 1" "disj_regions avail 260 bell 2"
    "disj_regions used (4 + 8 * q) bell 2" "disj_regions used (4 + 8 * q) avail 260" "disj_regions used (4 + 8 * q) desc 48"
    "disj_regions used (4 + 8 * q) status 1" "disj_regions avail 260 desc 48" "disj_regions avail 260 status 1"
    "disj_regions cmd 16 desc 48" "disj_regions cmd 16 status 1" "disj_regions cmd 16 avail 260" "disj_regions cmd 16 bell 2"
    using apart by (simp_all add: disj_regions_commute)
  note sub = disj_offset
  have D: "desc_at M (desc + o') = desc_at ?R (desc + o')" if "unat o' + 16 \<le> 48" for o'
    using that ap by (intro desc_at_cong) (simp add: bell put_avail_other sub)
  have d: "desc_at M desc = (cmd, 16, 1, 1)" "desc_at M (desc + 16) = (resp, n, 3, 2)" "desc_at M (desc + 32) = (status, 1, 2, 0)"
    using request_mem_descs [OF ap(3), of cmd 16 resp n 2 m] D [of 0] D [of 16] D [of 32] by simp_all
  have A: "read16 ?R (avail + 2) = a"
    using ap qu(3) R [of "avail + 2" 2] sub [of avail 260 desc 48 2 2] sub [of avail 260 status 1 2 2]
    by (simp add: read16_def m_def)
  have av: "read16 M (avail + o') = read16 ?W (avail + o')" if "unat o' + 2 \<le> 260" for o'
    using that ap(4) by (intro read16_other) (simp add: bell sub)
  show a1: "read16 M (avail + 2) = a + 1" using av [of 2] put_avail_reads(1) [of avail 0 ?R] A by simp
  have "unat (2 * of_nat (unat a mod 128) :: u64) = 2 * (unat a mod 128)" by (subst unat_mult_small) simp_all
  then have "unat (4 + 2 * of_nat (unat a mod 128) :: u64) = 4 + 2 * (unat a mod 128)" by (subst unat_add_small) simp_all
  then have "unat (4 + 2 * of_nat (unat a mod 128) :: u64) + 2 \<le> 260" by simp
  then have slot: "read16 M (avail + 4 + 2 * of_nat (unat a mod q)) = 0"
    using av [of "4 + 2 * of_nat (unat a mod 128)"] put_avail_reads(2) [of avail 0 ?R] A qu(4) by (simp add: add.assoc)
  show u: "read16 M (used + 2) = a"
    using ap(5-8) qu(1) unfolding a_def m_def [symmetric]
    by (intro read16_other) (simp add: bell put_avail_other R sub)
  have C: "load_bytes M (cmd + o') j = load_bytes m (cmd + o') j" if "unat o' + j \<le> 16" "0 < j" for o' j
    using that ap(11-14) by (simp add: bell put_avail_other R sub)
  have ty: "read32 M cmd = 0" "read64 M (cmd + 8) = ucast sector"
    using C [of 0 4] C [of 8 8] req by (simp_all add: read32_def read64_def m_def)
  have sec: "(ucast (ucast sector :: u64) :: u32) = sector" by (rule bit_word_eqI) (simp add: bit_simps)
  have "a + 1 \<noteq> a" by simp
  then show "vq_serve disk q desc avail used M = put_used used (unat a mod q) 0 (n + 1) (a + 1)
      ((store_bytes M resp (sectors disk sector (unat n div 512)))(status := 0))"
    using vq_serve_request [OF _ _ qu(1) d ty(1), where disk = disk and avail = avail and used = used] by (simp only: a1 u slot ty(2) sec not_False_eq_True simp_thms)
qed

text \<open>C37: A read request of whole sectors to a virtio block device comes back: when the device is in step with the driver (it has
  answered all earlier requests) and the driver's ring position, which is taken modulo 128 whatever the size of the queue, is
  the one the device looks at, then \<open>virtio_send\<close> puts a chain into the queue and rings, the device, which follows the
  specification and answers after any number of steps up to the fuel, finds it, and \<open>virtio_send\<close> returns true with the sectors in the response buffer
  and the device in step for the next request.\<close>

theorem virtio_send_reads:
  assumes dv: "blk_device e disk qsize desc avail used (notify_addr dev (mm s))" "0 < de_fuel e" "3 \<le> qsize" "qsize \<le> 32768"
    and sync: "read16 (mm s) (avail + 2) = read16 (mm s) (used + 2)"
      "unat (read16 (mm s) (used + 2)) mod qsize = unat (read16 (mm s) (used + 2)) mod 128"
    and req: "read32 (mm s) cmd = 0" "read64 (mm s) (cmd + 8) = ucast sector" "unat n = 512 * c" "0 < c"
    and apart: "pairwise_apart [(desc, 48), (avail, 260), (used, 4 + 8 * qsize), (status, 1), (cmd, 16), (resp, unat n),
      (notify_addr dev (mm s), 2), (common_cfg dev + 22, 2)]"
  shows "\<exists>s'. virtio_send e status dev desc avail used cmd 16 resp n 2 s = Inr (True, s')
    \<and> load_bytes (mm s') resp (unat n) = sectors disk sector c
    \<and> read16 (mm s') (used + 2) = read16 (mm s) (used + 2) + 1 \<and> read16 (mm s') (avail + 2) = read16 (mm s') (used + 2)"
proof -
  let ?bell = "notify_addr dev (mm s)" and ?R = "request_mem status desc cmd 16 resp n 2 (mm s)" and ?a = "read16 (mm s) (used + 2)"
  let ?W = "put_avail avail 0 ?R"
  let ?M = "write16 ?W ?bell 0" and ?A = "(store_bytes (write16 ?W ?bell 0) resp (sectors disk sector c))(status := 0)"
  let ?j = "unat ?a mod qsize"
  let ?V = "put_used used ?j 0 (n + 1) (?a + 1) ?A"
  have n64: "unat n \<le> 2 ^ 64" using unat_lt_2p [of n] by simp
  have ap: "pairwise_apart [(desc, 48), (avail, 260), (used, 4 + 8 * qsize), (status, 1), (cmd, 16), (resp, unat n), (?bell, 2)]"
    using apart by simp
  note M = sent_request [OF dv(3,4) sync req(1,2) ap]
  have serve: "vq_serve disk qsize desc avail used ?M = ?V" and idx: "read16 ?M (used + 2) = ?a" "read16 ?M (avail + 2) = ?a + 1"
    using M(1) [where disk = disk and n = n] M(2,3) [where n = n] req(3) by simp_all
  have j: "?j < qsize" using dv(3) by simp
  have len: "length (sectors disk sector c) = unat n" using dv(1) req(3) by (simp add: blk_device_def)
  have other: "load_bytes ?V p k = load_bytes ?A p k" if "disj_regions p k used (4 + 8 * qsize)" "0 < k" "k \<le> 2 ^ 64" for p k
    by (rule put_used_other [OF that(1) j dv(4) that(2,3)])
  have q: "disj_regions (common_cfg dev + 22) 2 desc 48" "disj_regions (common_cfg dev + 22) 2 status 1"
    "disj_regions (common_cfg dev + 22) 2 avail 260"
    using apart by (simp_all add: disj_regions_commute)
  have "read16 ?W (common_cfg dev + 22) = read16 (mm s) (common_cfg dev + 22)"
    using q by (intro read16_other) (simp add: put_avail_other request_mem_other)
  then have bell: "notify_addr dev ?W = ?bell" by (simp add: notify_addr_def)
  have V: "read16 ?V (used + 2) = ?a + 1" by (simp add: put_used_def read16_write16)
  then have "read16 (vq_serve disk qsize desc avail used ?M) (used + 2) \<noteq> read16 ?M (used + 2)" by (simp only: serve idx) simp
  from wait_for_device [OF dv(1,2) this, of s]
  have wait: "wait_used (de_fuel e) e used ?a (s\<lparr>mm := react e ?bell ?M\<rparr>) = Inr (s\<lparr>mm := ?V\<rparr>)" by (simp only: serve idx)
  have "notify e dev (s\<lparr>mm := ?W\<rparr>) = s\<lparr>mm := react e ?bell ?M\<rparr>" by (simp add: notify_def dwrite16_def bell)
  moreover have "read16 ?R (used + 2) = ?a"
  proof -
    have u: "disj_regions used (4 + 8 * qsize) desc 48" "disj_regions used (4 + 8 * qsize) status 1" using apart by (simp_all add: disj_regions_commute)
    have "disj_regions (used + 2) 2 desc 48" "disj_regions (used + 2) 2 status 1"
      using disj_offset [OF u(1), of 2 2] disj_offset [OF u(2), of 2 2] by simp_all
    then show ?thesis by (intro read16_other) (simp add: request_mem_other)
  qed
  ultimately have send: "virtio_send e status dev desc avail used cmd 16 resp n 2 s = Inr (?V status = 0, s\<lparr>mm := ?V\<rparr>)"
    using wait by (simp add: virtio_send_def Let_def request_mem_def chain_mem_def)
  have "load_bytes ?V status 1 = load_bytes ?A status 1" using apart by (intro other) (simp_all add: disj_regions_commute)
  then have "?V status = 0" by (simp add: load_bytes_def)
  moreover have "load_bytes ?V resp (unat n) = sectors disk sector c"
    using apart len n64 req(3,4) other [of resp "unat n"] by (simp add: upd_other disj_regions_commute)
  moreover have "read16 ?V (avail + 2) = ?a + 1"
  proof -
    have v: "disj_regions avail 260 used (4 + 8 * qsize)" "disj_regions avail 260 resp (unat n)" "disj_regions avail 260 status 1"
      using apart by (simp_all add: disj_regions_commute)
    have "disj_regions (avail + 2) 2 used (4 + 8 * qsize)" "disj_regions (avail + 2) 2 resp (unat n)" "disj_regions (avail + 2) 2 status 1"
      using disj_offset [OF v(1), of 2 2] disj_offset [OF v(2), of 2 2] disj_offset [OF v(3), of 2 2] req(3,4) by simp_all
    then have "read16 ?V (avail + 2) = read16 ?M (avail + 2)"
      using len by (intro read16_other) (simp add: other upd_other load_store_disj)
    then show ?thesis by (simp only: idx)
  qed
  ultimately show ?thesis using send V by auto
qed

text \<open>A device with a queue of 256 that answers while its doorbell is written.\<close>

definition blk_env :: dev_env where
  "blk_env = plain_env\<lparr>react := \<lambda>a m. if a = 0xA000 then vq_serve demo_disk 256 0x1000 0x2000 0x3000 m else m\<rparr>"

definition demo_blk :: virtio_device where
  "demo_blk = \<lparr>common_cfg = 0x9000, notify_cfg = 0xA000, device_cfg = 0, isr_cfg = 0, notify_off_multiplier = 4, memory_page = 0\<rparr>"

lemma read16_zero: "of_le [0, 0 :: u8] = (0 :: u16)"
  using of_le_le_bytes [of 2 "0 :: u16"] by (simp add: le_bytes_def upt_rec)

theorem virtio_send_reads_witness:
  "\<exists>s'. virtio_send blk_env 0x4000 demo_blk 0x1000 0x2000 0x3000 0x5000 16 0x6000 1024 2
      (palloc_boot\<lparr>mm := put_request 0x5000 0 7 (\<lambda>_. 0)\<rparr>) = Inr (True, s')
    \<and> load_bytes (mm s') 0x6000 1024 = sectors demo_disk 7 2"
proof -
  let ?m = "put_request 0x5000 0 7 (\<lambda>_. 0)"
  have z: "read16 ?m p = 0" if "disj_regions p 2 0x5000 16" for p
  proof -
    have "disj_regions 0x5000 16 p 2" using that by (simp add: disj_regions_commute)
    note d = disj_offset [OF this, of _ _]
    have "load_bytes ?m p 2 = load_bytes (\<lambda>_. 0) p 2"
      using d [of 0 4] d [of 4 4] d [of 8 8]
      by (simp add: put_request_def write64_def write32_def load_store_disj disj_regions_commute)
    then show ?thesis by (simp add: read16_def) (simp add: load_bytes_numerals read16_zero)
  qed
  have zs: "read16 ?m 0x9016 = 0" "read16 ?m 0x2002 = 0" "read16 ?m 0x3002 = 0" by (simp_all add: z disj_regions_def)
  then have bell: "notify_addr demo_blk ?m = 0xA000" by (simp add: notify_addr_def demo_blk_def)
  have tick: "(tick blk_env ^^ j) m = m" for j m by (induction j) (simp_all add: blk_env_def plain_env_def)
  then have dv: "blk_device blk_env demo_disk 256 0x1000 0x2000 0x3000 0xA000"
    unfolding blk_device_def by (intro conjI allI exI [of _ 0]) (simp_all add: demo_disk_def blk_env_def)
  have "read32 ?m 0x5000 = 0"
    by (simp add: put_request_def read32_def write64_def write32_def load_store_disj disj_regions_def)
  moreover have "read64 ?m 0x5008 = 7" by (simp add: put_request_def)
  ultimately show ?thesis
    using virtio_send_reads [where e = blk_env and disk = demo_disk and qsize = 256 and desc = "0x1000" and avail = "0x2000" and used = "0x3000"
        and status = "0x4000" and cmd = "0x5000" and resp = "0x6000" and dev = demo_blk and s = "palloc_boot\<lparr>mm := ?m\<rparr>"
        and sector = 7 and n = 1024 and c = 2]
      dv bell zs by (simp add: disj_regions_def blk_env_def plain_env_def demo_blk_def) blast
qed

end
