(* ===== verification/Sdhci.thy ===== *)
theory Sdhci
  imports Virtio
begin

section \<open>The SD host controller, the mailbox and the pins of the boards (\<open>sdhci.cpp\<close>, \<open>mailbox.c\<close>, \<open>gpio.c\<close>, \<open>disk.cpp\<close>)\<close>

text \<open>
  Registers are memory as in \<open>Pci\<close>; a step of waiting is one \<open>tick\<close> of the device.  A reading of the data port takes a word
  out of it, which is the parameter \<open>pop\<close>.  \<open>se_qemu\<close> is the build flag, \<open>se_mbox\<close> the address of the static message.
\<close>

record sd_env = dev_env +
  se_clk :: clock
  pop :: "mem \<Rightarrow> mem"
  se_qemu :: bool
  se_mbox :: u64

record sdhci_state = virtio_state +
  regs :: u64
  clock_rate :: u32
  rca :: u32
  v2_card :: bool
  sd_reads :: nat

subsection \<open>Waiting\<close>

definition pause :: "sd_env \<Rightarrow> u32 \<Rightarrow> 'a sdhci_state_scheme \<Rightarrow> fault + 'a sdhci_state_scheme" where
  "pause e ms s = bindE (delay (de_fuel e) (se_clk e) ms (sd_reads s)) (\<lambda>r. Inr (s\<lparr>sd_reads := r, mm := tick e (mm s)\<rparr>))"

text \<open>How many rounds \<open>wait\<close> goes through.\<close>

fun wait_rounds :: "nat \<Rightarrow> (nat \<Rightarrow> u32) \<Rightarrow> u32 \<Rightarrow> bool \<Rightarrow> nat \<Rightarrow> nat" where
  "wait_rounds 0 reg v match k = (if wait_check match (wait_cond reg v k) then k + 1 else k)"
| "wait_rounds (Suc t) reg v match k =
     (if wait_check match (wait_cond reg v k) then (if t = 0 then k + 1 else wait_rounds t reg v match (k + 1)) else k)"

definition wait_reg :: "sd_env \<Rightarrow> u64 \<Rightarrow> u32 \<Rightarrow> bool \<Rightarrow> u32 \<Rightarrow> 'a sdhci_state_scheme \<Rightarrow> fault + (bool \<times> 'a sdhci_state_scheme)" where
  "wait_reg e off v match timeout s =
     (let reg = \<lambda>k. read32 ((tick e ^^ k) (mm s)) (regs s + off)
      in bindE (wait (de_fuel e) (se_clk e) reg v match timeout (sd_reads s)) (\<lambda>(ok, r).
           Inr (ok, s\<lparr>sd_reads := r, mm := (tick e ^^ wait_rounds (unat timeout) reg v match 0) (mm s)\<rparr>)))"

definition reg :: "'a sdhci_state_scheme \<Rightarrow> u64 \<Rightarrow> u32" where
  "reg s off = read32 (mm s) (regs s + off)"

definition set_reg :: "sd_env \<Rightarrow> u64 \<Rightarrow> u32 \<Rightarrow> 'a sdhci_state_scheme \<Rightarrow> 'a sdhci_state_scheme" where
  "set_reg e off v s = dwrite32 (dev_env.truncate e) (regs s + off) v s"

subsection \<open>Mailbox and pins\<close>

fun poll :: "nat \<Rightarrow> sd_env \<Rightarrow> u64 \<Rightarrow> u32 \<Rightarrow> 'a kmem_scheme \<Rightarrow> fault + 'a kmem_scheme" where
  "poll 0 e addr msk s = Inl OutOfFuel"
| "poll (Suc k) e addr msk s =
     (if read32 (mm s) addr AND msk \<noteq> 0 then poll k e addr msk (s\<lparr>mm := tick e (mm s)\<rparr>) else Inr s)"

definition mailbox_call :: "sd_env \<Rightarrow> u64 \<Rightarrow> u8 \<Rightarrow> 'a kmem_scheme \<Rightarrow> fault + (bool \<times> 'a kmem_scheme)" where
  "mailbox_call e mbox channel s =
     (let addr = ucast mbox AND NOT 0xF :: u32; base = MAILBOX_BASE (de_hw e)
      in bindE (poll (de_fuel e) e (base + 0x18) 0x80000000 s) (\<lambda>s.
         bindE (poll (de_fuel e) e (base + 0x18) 0x40000000 (dwrite32 (dev_env.truncate e) (base + 0x20) (addr OR (ucast channel AND 0xF)) s)) (\<lambda>s.
           let resp = read32 (mm s) base
           in Inr (if resp AND 0xF = ucast channel \<and> resp AND NOT 0xF = addr then read32 (mm s) (mbox + 4) = 0x80000000 else False, s))))"

definition pin_base :: "sd_env \<Rightarrow> u64" where
  "pin_base e = GPIO_BASE (de_hw e) + ucast (GPIO_PIN_BASE (de_hw e))"

definition reset_gpio :: "sd_env \<Rightarrow> 'a sdhci_state_scheme \<Rightarrow> fault + 'a sdhci_state_scheme" where
  "reset_gpio e s = pause e 150 (dwrite32 (dev_env.truncate e) (pin_base e + 0x94) 0 s)"

definition enable_gpio_pin :: "sd_env \<Rightarrow> u8 \<Rightarrow> 'a kmem_scheme \<Rightarrow> 'a kmem_scheme" where
  "enable_gpio_pin e pin s =
     dwrite32 (dev_env.truncate e) (pin_base e + 0x98) (read32 (mm s) (pin_base e + 0x98) OR push_bit (unat pin) 1) s"

definition dma_read :: "mem \<Rightarrow> u64 \<Rightarrow> u32 \<Rightarrow> u64 \<Rightarrow> mem" where
  "dma_read m dest sz pointer = fold (\<lambda>i m. m(dest + of_nat i := m (pointer + of_nat i))) [0..<unat sz] m"

subsection \<open>Clock\<close>

definition clock_divider :: "u32 \<Rightarrow> u32 \<Rightarrow> u32" where
  "clock_divider rate target_rate =
     (let target_div = (if target_rate \<le> rate then if rate mod target_rate \<noteq> 0 then 0 else rate div target_rate else 1);
          d = (case find (bit target_div) (rev [0..<32]) of
                 None \<Rightarrow> 31
               | Some fb \<Rightarrow> if target_div AND NOT (push_bit fb 1) \<noteq> 0 then fb + 1 else fb);
          d = (if d \<ge> 32 then 31 else d);
          d = (if d \<noteq> 0 then 2 ^ (d - 1) else d);
          d = (if d \<ge> 0x400 then 0x3FF else d);
          w = of_nat d
      in push_bit 8 (w AND 0xff) OR push_bit 6 (drop_bit 8 w AND 0x3))"

definition switch_clock_rate :: "sd_env \<Rightarrow> u32 \<Rightarrow> 'a sdhci_state_scheme \<Rightarrow> fault + (bool \<times> 'a sdhci_state_scheme)" where
  "switch_clock_rate e target_rate s =
     (let dv = clock_divider (clock_rate s) target_rate
      in bindE (wait_reg e 36 3 False 2000 s) (\<lambda>(ok, s).
           if \<not> ok then Inr (False, s)
           else
             bindE (pause e 3 (set_reg e 44 (reg s 44 AND NOT 4) s)) (\<lambda>s.
             bindE (pause e 3 (set_reg e 44 ((reg s 44 OR dv) AND NOT 0xFFE0) s)) (\<lambda>s.
             bindE (pause e 3 (set_reg e 44 (reg s 44 OR 4) s)) (\<lambda>s. Inr (True, s))))))"

definition setup_clock :: "sd_env \<Rightarrow> 'a sdhci_state_scheme \<Rightarrow> fault + (bool \<times> 'a sdhci_state_scheme)" where
  "setup_clock e s =
     bindE (mailbox_call e (se_mbox e) 8 (set_reg e 60 0 s)) (\<lambda>(ok, s).
       if \<not> ok then Inr (False, s)
       else
         let s = s\<lparr>clock_rate := read32 (mm s) (se_mbox e + 24)\<rparr>;
             s = set_reg e 44 (reg s 44 OR 1) s;
             s = set_reg e 44 (reg s 44 OR clock_divider (clock_rate s) 400000) s;
             s = set_reg e 44 (reg s 44 AND NOT 0xF0000) s;
             s = set_reg e 44 (reg s 44 OR 0xB0000) s;
             s = set_reg e 44 (reg s 44 OR 4) s
         in bindE (wait_reg e 44 2 True 2000 s) (\<lambda>(ok, s).
              if \<not> ok then Inr (False, s)
              else bindE (pause e 30 s) (\<lambda>s.
                   bindE (pause e 30 (set_reg e 44 (reg s 44 OR 4) s)) (\<lambda>s. Inr (True, s)))))"

subsection \<open>Commands\<close>

definition command :: "u32 \<Rightarrow> u32 \<Rightarrow> u32" where
  "command index flags = push_bit 8 index OR flags"

definition SEND_CID :: u32 where "SEND_CID = command 2 (1 OR 8)"
definition IF_COND :: u32 where "IF_COND = command 8 (2 OR 8 OR 16)"
definition RCA :: u32 where "RCA = command 3 (2 OR 8)"
definition APP :: u32 where "APP = command 55 (2 OR 8 OR 16)"
definition SELECT_CARD :: u32 where "SELECT_CARD = command 7 (3 OR 8 OR 16)"
definition OCR :: u32 where "OCR = command 41 2"
definition READ_ONE :: u32 where "READ_ONE = command 17 (2 OR 8 OR 32)"
definition READ_MULTIPLE :: u32 where "READ_MULTIPLE = command 18 (2 OR 8 OR 32)"
definition SET_BLOCKLEN :: u32 where "SET_BLOCKLEN = command 16 (2 OR 8)"

definition issue_command :: "sd_env \<Rightarrow> u32 \<Rightarrow> u32 \<Rightarrow> u32 \<Rightarrow> 'a sdhci_state_scheme \<Rightarrow> fault + (bool \<times> 'a sdhci_state_scheme)" where
  "issue_command e cmd arg flags s =
     bindE (wait_reg e 36 3 False 2000 s) (\<lambda>(ok, s).
       if \<not> ok then Inr (False, s)
       else
         let s = set_reg e 48 0xFFFFFFFF s;
             s = set_reg e 8 arg s;
             s = set_reg e 12 (push_bit 16 cmd OR flags) s
         in bindE (wait_reg e 48 1 True 2000 s) (\<lambda>(ok, s).
              Inr (ok \<and> reg s 48 AND 0x8000 = 0 \<and> reg s 48 AND 1 \<noteq> 0, s)))"

definition issue_app_command :: "sd_env \<Rightarrow> u32 \<Rightarrow> u32 \<Rightarrow> u32 \<Rightarrow> 'a sdhci_state_scheme \<Rightarrow> fault + (bool \<times> 'a sdhci_state_scheme)" where
  "issue_app_command e cmd arg flags s =
     bindE (issue_command e APP 0 8 s) (\<lambda>(ok, s). if ok then issue_command e cmd arg 0 s else Inr (False, s))"

fun ocr_loop :: "nat \<Rightarrow> sd_env \<Rightarrow> 'a sdhci_state_scheme \<Rightarrow> fault + (bool \<times> 'a sdhci_state_scheme)" where
  "ocr_loop 0 e s = Inl OutOfFuel"
| "ocr_loop (Suc k) e s =
     bindE (issue_app_command e OCR (0xFF8000 OR push_bit 30 (c_bool (v2_card s))) 0 s) (\<lambda>(ok, s).
       if \<not> ok then Inr (False, s)
       else if bit (reg s 16) 31 then Inr (True, s)
       else bindE (pause e 500 s) (ocr_loop k e))"

text \<open>The steps of \<open>init\<close> behind the voltage loop; each one ends it when it fails.\<close>

definition select_card :: "sd_env \<Rightarrow> 'a sdhci_state_scheme \<Rightarrow> fault + (bool \<times> 'a sdhci_state_scheme)" where
  "select_card e s =
     bindE (pause e 1000 s) (\<lambda>s.
     bindE (issue_command e SEND_CID 0 0 s) (\<lambda>(ok, s). if \<not> ok then Inr (False, s) else
     bindE (issue_command e RCA 0 0 s) (\<lambda>(ok, s). if \<not> ok then Inr (False, s) else
       let s = s\<lparr>rca := drop_bit 16 (reg s 16) AND 0xFFFF\<rparr>
       in bindE (issue_command e SELECT_CARD (push_bit 16 (rca s)) 0 s) (\<lambda>(ok, s). if \<not> ok then Inr (False, s) else
          issue_command e SET_BLOCKLEN 512 0 s))))"

definition sd_init :: "sd_env \<Rightarrow> 'a sdhci_state_scheme \<Rightarrow> fault + (bool \<times> 'a sdhci_state_scheme)" where
  "sd_init e s =
     (let base = SDHCI_BASE (de_hw e)
      in if base = 0 then Inr (False, s)
         else bindE (register_device_memory (de_fuel e) (de_ld e) s base base) (\<lambda>s.
           let s = s\<lparr>regs := base\<rparr>; s = set_reg e 44 (reg s 44 OR push_bit 24 1) s
           in bindE (wait_reg e 44 (push_bit 24 1) False 2000 s) (\<lambda>(ok, s).
             if \<not> ok then Inr (False, s)
             else
               bindE (if RPI_BOARD (de_hw e) \<ge> 4 then pause e 3 (set_reg e 40 (reg s 40 OR push_bit 8 0xF) s) else Inr s) (\<lambda>s.
               bindE (setup_clock e s) (\<lambda>(_, s).
                 let s = set_reg e 48 0 s; s = set_reg e 56 0xFFFFFFFF s; s = set_reg e 52 0xFFFFFFFF s
                 in bindE (pause e 203 s) (\<lambda>s.
                    bindE (issue_command e 0 0 0 s) (\<lambda>(ok, s).
                      if \<not> ok then Inr (False, s)
                      else
                        bindE (switch_clock_rate e 25000000 s) (\<lambda>(_, s).
                        bindE (issue_command e IF_COND 0x1AA 0 (s\<lparr>v2_card := False\<rparr>)) (\<lambda>(ok, s).
                          if \<not> ok \<and> reg s 48 AND 0x10000 = 0 then Inr (False, s)
                          else if ok \<and> reg s 16 AND 0xFFF \<noteq> 0x1AA then Inr (False, s)
                          else bindE (ocr_loop (de_fuel e) e (s\<lparr>v2_card := ok\<rparr>)) (\<lambda>(ok, s).
                            if \<not> ok then Inr (False, s) else select_card e s))))))))))"

subsection \<open>Reading\<close>

fun retry :: "nat \<Rightarrow> sd_env \<Rightarrow> u32 \<Rightarrow> u32 \<Rightarrow> u32 \<Rightarrow> 'a sdhci_state_scheme \<Rightarrow> fault + (bool \<times> 'a sdhci_state_scheme)" where
  "retry i e cmd sector flags s =
     bindE (issue_command e cmd sector flags s) (\<lambda>(ok, s).
       if ok then Inr (True, s)
       else case i of 0 \<Rightarrow> Inr (False, s) | Suc i \<Rightarrow> bindE (pause e 500 s) (retry i e cmd sector flags))"

definition take_word :: "sd_env \<Rightarrow> u64 \<Rightarrow> 'a sdhci_state_scheme \<Rightarrow> 'a sdhci_state_scheme" where
  "take_word e p s = (let v = reg s 32 in s\<lparr>mm := write32 (pop e (mm s)) p v\<rparr>)"

text \<open>The answer tells whether all blocks came in, or the controller reported the end.\<close>

fun blocks :: "sd_env \<Rightarrow> u64 \<Rightarrow> u32 \<Rightarrow> nat list \<Rightarrow> 'a sdhci_state_scheme \<Rightarrow> fault + (bool \<times> 'a sdhci_state_scheme)" where
  "blocks e buffer count [] s = Inr (True, s)"
| "blocks e buffer count (i # is) s =
     bindE (wait_reg e 48 32 True 2000 s) (\<lambda>(ok, s).
       if \<not> ok then Inr (False, s\<lparr>mm := memset (mm s) buffer 0 (ucast (count * 128))\<rparr>)
       else
         let s = set_reg e 48 0xFFFFFFFF s;
             s = fold (\<lambda>j s. take_word e (buffer + 4 * (of_nat i * 128 + of_nat j)) s) [0..<128] s
         in if reg s 48 AND 2 \<noteq> 0 then Inr (True, s) else blocks e buffer count is s)"

definition sd_read :: "sd_env \<Rightarrow> u64 \<Rightarrow> u32 \<Rightarrow> u32 \<Rightarrow> 'a sdhci_state_scheme \<Rightarrow> fault + (bool \<times> 'a sdhci_state_scheme)" where
  "sd_read e buffer sector count s =
     (let multiple = count > 1;
          s = set_reg e 4 (push_bit 16 count OR 512) s;
          sector = (if se_qemu e then sector * 512 else sector)
      in bindE (retry 5 e (if multiple then READ_MULTIPLE else READ_ONE) sector (if multiple then 54 else 16) s) (\<lambda>(ok, s).
           if \<not> ok then Inr (False, s)
           else bindE (blocks e buffer count [0..<unat count] s) (\<lambda>(ok, s).
             if \<not> ok then Inr (False, s)
             else if multiple then
               bindE (wait_reg e 48 2 True 2000 s) (\<lambda>(ok, s). Inr (ok, if ok then set_reg e 48 0xFFFFFFFF s else s))
             else Inr (True, s))))"

subsection \<open>The disk of the board\<close>

definition init_disk_device :: "sd_env \<Rightarrow> u64 \<times> u64 \<Rightarrow> 'a sdhci_state_scheme \<Rightarrow> fault + (bool \<times> 'a sdhci_state_scheme)" where
  "init_disk_device e garbage s =
     (if BOARD_TYPE (de_hw e) = 2 then sd_init e s
      else vblk_find_disk (dev_env.truncate e) (se_clk e) (sd_reads s) garbage s)"

definition disk_write :: "sd_env \<Rightarrow> u64 \<Rightarrow> u64 \<Rightarrow> u32 \<Rightarrow> u32 \<Rightarrow> 'a sdhci_state_scheme \<Rightarrow> fault + 'a sdhci_state_scheme" where
  "disk_write e status buffer sector count s = vblk_write (dev_env.truncate e) status buffer sector count s"

definition board_disk_read :: "sd_env \<Rightarrow> u64 \<Rightarrow> u64 \<Rightarrow> u32 \<Rightarrow> u32 \<Rightarrow> 'a sdhci_state_scheme \<Rightarrow> fault + 'a sdhci_state_scheme" where
  "board_disk_read e status buffer sector count s =
     (if BOARD_TYPE (de_hw e) = 2 then bindE (sd_read e buffer sector count s) (\<lambda>(_, s). Inr s)
      else vblk_read (dev_env.truncate e) status buffer sector count s)"

subsection \<open>The divider of the clock\<close>

definition divider_field :: "nat \<Rightarrow> u32" where
  "divider_field f = push_bit 8 (of_nat f AND 0xff) OR push_bit 6 (drop_bit 8 (of_nat f) AND 0x3)"

lemma find_rev_upt: "P t \<Longrightarrow> t < n \<Longrightarrow> \<forall>j. t < j \<longrightarrow> j < n \<longrightarrow> \<not> P j \<Longrightarrow> find P (rev [0..<n]) = Some t"
proof (induction n)
  case (Suc n)
  then show ?case by (cases "t = n") auto
qed simp

lemma unat_push_bit_1: "t < 32 \<Longrightarrow> unat (push_bit t 1 :: u32) = 2 ^ t"
proof -
  assume "t < 32"
  then have "(2 :: nat) ^ t < 2 ^ 32" by (intro power_strict_increasing) auto
  then have "unat (of_nat (2 ^ t) :: u32) = 2 ^ t" by (intro unat_of_nat_lt) simp
  then show ?thesis by (simp add: push_bit_eq_mult)
qed

lemma find_top_bit:
  assumes "q \<noteq> 0"
  obtains t where "find (bit (q :: u32)) (rev [0..<32]) = Some t" "2 ^ t \<le> unat q" "unat q < 2 ^ Suc t" "t < 32"
    "q AND NOT (push_bit t 1) = 0 \<longleftrightarrow> unat q = 2 ^ t"
proof -
  let ?N = "{n. bit q n}"
  have fin: "finite ?N" by (rule finite_subset [of _ "{..<32}"]) (auto dest: bit_imp_le_length)
  have ne: "?N \<noteq> {}" using assms by (auto simp: bit_eq_iff)
  define t where "t = Max ?N"
  have t: "bit q t" using Max_in [OF fin ne] by (simp add: t_def)
  have above: "\<not> bit q j" if "t < j" for j
  proof
    assume "bit q j"
    then have "j \<le> t" unfolding t_def by (intro Max_ge fin) simp
    then show False using that by simp
  qed
  have t32: "t < 32" using bit_imp_le_length [OF t] by simp
  have "find (bit q) (rev [0..<32]) = Some t" using t t32 above by (intro find_rev_upt) auto
  moreover have "2 ^ t \<le> unat q"
  proof (rule ccontr)
    assume "\<not> 2 ^ t \<le> unat q"
    then have "drop_bit t (unat q) = 0" by (simp add: drop_bit_eq_div)
    then have "drop_bit t q = 0" by (simp only: unat_drop_bit_eq [symmetric] unat_eq_0)
    then have "\<not> bit (drop_bit t q) 0" by (simp only: bit_0_eq bot_apply) simp
    then show False using t by (simp add: bit_simps)
  qed
  moreover have "unat q < 2 ^ Suc t"
  proof -
    have "take_bit (Suc t) q = q" by (rule bit_word_eqI) (auto simp: bit_simps, meson above less_Suc_eq_le not_le)
    then have "take_bit (Suc t) (unat q) = unat q" by (metis unsigned_take_bit_eq)
    then show ?thesis by (metis take_bit_nat_less_exp)
  qed
  moreover have "q AND NOT (push_bit t 1) = 0 \<longleftrightarrow> unat q = 2 ^ t"
  proof
    assume z: "q AND NOT (push_bit t 1) = 0"
    have "q = push_bit t 1"
    proof (rule bit_word_eqI)
      fix n assume n: "n < LENGTH(32)"
      have "\<not> bit (q AND NOT (push_bit t 1)) n" unfolding z by simp
      then show "bit q n = bit (push_bit t 1 :: u32) n" using t n by (auto simp: bit_simps)
    qed
    then show "unat q = 2 ^ t" using unat_push_bit_1 [OF t32] by simp
  next
    assume "unat q = 2 ^ t"
    then have "q = push_bit t 1" using unat_push_bit_1 [OF t32] by (simp add: word_unat_eq_iff)
    then show "q AND NOT (push_bit t 1) = 0" by simp
  qed
  ultimately show thesis using t32 by (intro that) auto
qed

text \<open>When the target rate divides the base rate and the quotient fits, the field that \<open>clock_divider\<close> computes is the smallest
  power of two whose double is at least the quotient: the clock of the card, the base rate over twice the field, does not exceed the target
  and is more than half of it.\<close>

lemma clock_divider_rate:
  assumes "target_rate \<noteq> 0" "rate mod target_rate = 0" "1 < unat (rate div target_rate)" "unat (rate div target_rate) \<le> 1024"
  shows "\<exists>k. clock_divider rate target_rate = divider_field (2 ^ k)
    \<and> unat (rate div target_rate) \<le> 2 * 2 ^ k \<and> 2 ^ k < unat (rate div target_rate)"
proof -
  let ?q = "rate div target_rate"
  have le: "target_rate \<le> rate" using assms(3) by (cases "rate < target_rate") (auto simp: unat_div_word word_less_nat_alt word_le_nat_alt)
  have "?q \<noteq> 0" using assms(3) by (auto simp: unat_eq_0)
  then obtain t where t: "find (bit ?q) (rev [0..<32]) = Some t" "2 ^ t \<le> unat ?q" "unat ?q < 2 ^ Suc t" "t < 32"
    "?q AND NOT (push_bit t 1) = 0 \<longleftrightarrow> unat ?q = 2 ^ t" by (rule find_top_bit)
  have "(2 :: nat) ^ t \<le> 2 ^ 10" using t(2) assms(4) by simp
  then have t10: "t \<le> 10" by (rule power_le_imp_le_exp [rotated]) simp
  let ?d = "if ?q AND NOT (push_bit t 1) \<noteq> 0 then t + 1 else t"
  have d: "0 < ?d" "unat ?q \<le> 2 ^ ?d" "2 ^ (?d - 1) < unat ?q" "?d \<le> 10"
  proof -
    have e: "?q AND NOT (push_bit t 1) = 0 \<longleftrightarrow> unat ?q = 2 ^ t" by (rule t(5))
    show "0 < ?d" using e assms(3) by (cases t) auto
    show "unat ?q \<le> 2 ^ ?d" using e t(3) by auto
    show "2 ^ (?d - 1) < unat ?q"
    proof (cases "unat ?q = 2 ^ t")
      case True
      then show ?thesis using e assms(3) by (cases t) auto
    next
      case False
      then show ?thesis using e t(2) by simp
    qed
    show "?d \<le> 10"
    proof (cases "unat ?q = 2 ^ t")
      case False
      then have "(2 :: nat) ^ t < 2 ^ 10" using t(2) assms(4) by simp
      then have "t < 10" by (rule power_less_imp_less_exp [rotated]) simp
      then show ?thesis by simp
    qed (use e t10 in simp)
  qed
  have "(2 :: nat) ^ (?d - 1) \<le> 2 ^ 9" using d(4) by (intro power_increasing) auto
  then have "clock_divider rate target_rate = divider_field (2 ^ (?d - 1))"
    using le assms(2) t(1) d(1,4) by (simp add: clock_divider_def divider_field_def Let_def)
  moreover have "2 * 2 ^ (?d - 1) = (2 :: nat) ^ ?d" using d(1) by (simp add: power_eq_if)
  ultimately show ?thesis using d(2,3) by metis
qed

lemma clock_divider_rate_witness:
  "\<exists>k. clock_divider 100000000 25000000 = divider_field (2 ^ k) \<and> 4 \<le> 2 * (2 :: nat) ^ k \<and> 2 ^ k < (4 :: nat)"
  using clock_divider_rate [of 25000000 100000000] by simp

subsection \<open>Switching the rate\<close>

text \<open>Registers that keep what is stored.\<close>

definition plain_registers :: "sd_env \<Rightarrow> bool" where
  "plain_registers e \<longleftrightarrow> react e = (\<lambda>a m. m) \<and> tick e = (\<lambda>m. m)"

lemma plain_steps:
  assumes "plain_registers e"
  shows "reg (set_reg e off v s) off = v" "regs (set_reg e off v s) = regs s"
    and "pause e ms s = Inr s' \<Longrightarrow> reg s' off = reg s off \<and> regs s' = regs s"
  using assms by (auto simp: plain_registers_def reg_def set_reg_def dwrite32_def pause_def dev_env.defs)

text \<open>C38: On a controller whose registers keep what is stored, \<open>switch_clock_rate\<close> takes the divider that it has just put into the control
  register out again, together with the old one: whatever the target, the field of the divider ends as 0 and the card is
  clocked with the undivided base rate.\<close>

theorem switch_clock_rate_loses_divider:
  assumes "plain_registers e" "switch_clock_rate e target_rate s = Inr (True, s')"
  shows "reg s' 44 AND 0xFFE0 = 0"
proof -
  note p = plain_steps [OF assms(1)]
  obtain s1 s2 s3 where s: "pause e 3 (set_reg e 44 ((reg s1 44 OR clock_divider (clock_rate s) target_rate) AND NOT 0xFFE0) s1) = Inr s2"
    "pause e 3 (set_reg e 44 (reg s2 44 OR 4) s2) = Inr s'"
    using assms(2) by (auto simp: switch_clock_rate_def Let_def bindE_eq_Inr split: prod.splits if_splits)
  let ?x = "reg s1 44 OR clock_divider (clock_rate s) target_rate"
  have "reg s2 44 = ?x AND NOT 0xFFE0" using p(3) [OF s(1)] p(1) by simp
  moreover have "reg s' 44 = reg s2 44 OR 4" using p(3) [OF s(2)] p(1) by simp
  moreover have "((?x AND NOT 0xFFE0) OR 4) AND 0xFFE0 = 0"
    by (simp add: bit.conj_disj_distrib2 and.assoc)
  ultimately show ?thesis by simp
qed

text \<open>With a counter that advances, a controller that is not busy lets the switch come to its end.\<close>

lemma plain_funpow: "plain_registers e \<Longrightarrow> (tick e ^^ k) m = m"
  by (induction k) (simp_all add: plain_registers_def)

lemma pause_total: "(\<And>ms r. \<exists>r'. delay (de_fuel e) (se_clk e) ms r = Inr r') \<Longrightarrow> \<exists>s'. pause e ms s = Inr s'"
  by (simp add: pause_def) (metis bindE_simps(2))

lemma wait_reg_ready:
  assumes "plain_registers e" "\<And>ms r. \<exists>r'. delay (de_fuel e) (se_clk e) ms r = Inr r'" "(reg s off AND v = v) = match"
  shows "\<exists>s'. wait_reg e off v match 2000 s = Inr (True, s')"
proof -
  have "met (\<lambda>k. read32 ((tick e ^^ k) (mm s)) (regs s + off)) v match 0"
    using assms(3) by (simp add: met_def reg_def)
  then have "\<exists>r'. wait (de_fuel e) (se_clk e) (\<lambda>k. read32 ((tick e ^^ k) (mm s)) (regs s + off)) v match 2000 (sd_reads s) = Inr (True, r')"
    using wait_loop_answer [of "de_fuel e" "se_clk e" 2000 2000 "\<lambda>k. read32 ((tick e ^^ k) (mm s)) (regs s + off)" v match 0 "sd_reads s"] assms(2)
    by (auto simp: wait_def intro: exI [of _ 0])
  then show ?thesis by (auto simp: wait_reg_def)
qed

lemma switch_clock_rate_ends:
  assumes "plain_registers e" "\<And>ms r. \<exists>r'. delay (de_fuel e) (se_clk e) ms r = Inr r'" "reg s 36 AND 3 \<noteq> 3"
  shows "\<exists>s'. switch_clock_rate e target_rate s = Inr (True, s')"
proof -
  obtain s1 where s1: "wait_reg e 36 3 False 2000 s = Inr (True, s1)"
    using wait_reg_ready [OF assms(1,2), where match = False] assms(3) by blast
  obtain s2 where s2: "pause e 3 (set_reg e 44 (reg s1 44 AND NOT 4) s1) = Inr s2" using pause_total [OF assms(2)] by blast
  obtain s3 where s3: "pause e 3 (set_reg e 44 ((reg s2 44 OR clock_divider (clock_rate s) target_rate) AND NOT 0xFFE0) s2) = Inr s3"
    using pause_total [OF assms(2)] by blast
  obtain s4 where s4: "pause e 3 (set_reg e 44 (reg s3 44 OR 4) s3) = Inr s4" using pause_total [OF assms(2)] by blast
  show ?thesis
    unfolding switch_clock_rate_def Let_def s1 bindE_simps prod.case not_True_eq_False if_False s2 s3 s4 by blast
qed

definition demo_sd :: sd_env where
  "demo_sd = dev_env.extend plain_env (sd_env.fields \<lparr>cntfrq = 0, cntvct = (\<lambda>_. 0), cntv_left = (\<lambda>_. 0)\<rparr> (\<lambda>m. m) True 0)"

definition demo_card :: sdhci_state where
  "demo_card = virtio_state.extend (pci_state.extend (palloc_state.extend palloc_boot (pci_state.fields True)) (virtio_state.fields 0 demo_blk))
     (sdhci_state.fields 0x8000 100000000 0 False 0)"

theorem switch_clock_rate_loses_divider_witness:
  "\<exists>s'. switch_clock_rate demo_sd 25000000 demo_card = Inr (True, s') \<and> reg s' 44 AND 0xFFE0 = 0"
proof -
  have pr: "plain_registers demo_sd" by (simp add: plain_registers_def demo_sd_def dev_env.defs sd_env.defs plain_env_def)
  have dl: "\<exists>r'. delay (de_fuel demo_sd) (se_clk demo_sd) ms r = Inr r'" for ms r
    by (simp add: delay_def demo_sd_def dev_env.defs sd_env.defs plain_env_def numeral_eq_Suc)
  have "read32 (\<lambda>_. 0) (0x8024) = 0" by (simp add: read32_def load_bytes_def map_replicate_const)
  then have "reg demo_card 36 AND 3 \<noteq> 3"
    by (simp add: reg_def demo_card_def palloc_state.defs pci_state.defs virtio_state.defs sdhci_state.defs palloc_boot_def)
  then obtain s' where "switch_clock_rate demo_sd 25000000 demo_card = Inr (True, s')"
    using switch_clock_rate_ends [OF pr dl] by blast
  then show ?thesis using switch_clock_rate_loses_divider [OF pr] by blast
qed

end
