(* ===== verification/Ring_Template.thy ===== *)
theory Ring_Template
  imports Fifo Sequences
begin

section \<open>The ring of the C++ side (\<open>shared/data_struct/ring_buffer.hpp\<close>)\<close>

text \<open>
  The template \<open>RingBuffer<T, Capacity>\<close>: the array is a list as long as the capacity, and an out parameter is part of the
  result.  \<open>ring_list\<close> is the queue that a ring stands for.
\<close>

record 'a ring =
  r_data :: "'a list"
  r_head :: u64
  r_tail :: u64
  r_full :: bool

definition ring_capacity :: "'a ring \<Rightarrow> u64" where
  "ring_capacity r = of_nat (length (r_data r))"

definition ring_push :: "'a ring \<Rightarrow> 'a \<Rightarrow> bool \<times> 'a ring" where
  "ring_push r item =
     (if r_full r then (False, r)
      else
        let head = (r_head r + 1) mod ring_capacity r
        in (True, r\<lparr>r_data := (r_data r)[unat (r_head r) := item], r_head := head, r_full := (head = r_tail r)\<rparr>))"

definition ring_is_empty :: "'a ring \<Rightarrow> bool" where
  "ring_is_empty r \<longleftrightarrow> \<not> r_full r \<and> r_head r = r_tail r"

definition ring_pop :: "'a ring \<Rightarrow> 'a option \<times> 'a ring" where
  "ring_pop r =
     (if ring_is_empty r then (None, r)
      else (Some (r_data r ! unat (r_tail r)), r\<lparr>r_tail := (r_tail r + 1) mod ring_capacity r, r_full := False\<rparr>))"

definition ring_is_full :: "'a ring \<Rightarrow> bool" where
  "ring_is_full r = r_full r"

definition ring_clear :: "'a ring \<Rightarrow> 'a ring" where
  "ring_clear r = r\<lparr>r_head := 0, r_tail := 0, r_full := False\<rparr>"

definition ring_size :: "'a ring \<Rightarrow> u64" where
  "ring_size r =
     (if r_full r then ring_capacity r
      else if r_head r \<ge> r_tail r then r_head r - r_tail r
      else ring_capacity r + r_head r - r_tail r)"

definition ring_peek :: "'a ring \<Rightarrow> 'a" where
  "ring_peek r = r_data r ! unat (r_tail r)"

definition ring_at :: "'a ring \<Rightarrow> u32 \<Rightarrow> 'a" where
  "ring_at r i = r_data r ! unat ((r_tail r + ucast i) mod ring_capacity r)"

subsection \<open>The queue it stands for\<close>

definition ring_used :: "'a ring \<Rightarrow> nat" where
  "ring_used r = ring_count (unat (r_head r)) (unat (r_tail r)) (length (r_data r)) (r_full r)"

definition ring_list :: "'a ring \<Rightarrow> 'a list" where
  "ring_list r = map ((!) (r_data r)) (ring_idx (unat (r_tail r)) (ring_used r) (length (r_data r)))"

definition ring_ok :: "'a ring \<Rightarrow> bool" where
  "ring_ok r \<longleftrightarrow> 0 < length (r_data r) \<and> length (r_data r) < 2 ^ 63
     \<and> unat (r_head r) < length (r_data r) \<and> unat (r_tail r) < length (r_data r) \<and> (r_full r \<longrightarrow> r_head r = r_tail r)"

lemma length_ring_list [simp]: "length (ring_list r) = ring_used r"
  by (simp add: ring_list_def)

lemma unat_ring_next:
  assumes "unat i < n" "n < 2 ^ 63"
  shows "unat ((i + 1) mod of_nat n :: u64) = Suc (unat i) mod n"
proof -
  have "unat (of_nat n :: u64) = n" using assms(2) by (intro unat_of_nat_lt) simp
  moreover have "unat (i + 1) = Suc (unat i)" using assms by (subst unat_add_1) auto
  ultimately show ?thesis by (simp only: unat_mod_word)
qed

lemma ring_clear_ok: "0 < length (r_data r) \<Longrightarrow> length (r_data r) < 2 ^ 63 \<Longrightarrow> ring_ok (ring_clear r) \<and> ring_list (ring_clear r) = []"
  by (simp add: ring_clear_def ring_ok_def ring_list_def ring_used_def ring_count_def)

lemma ring_push_list:
  assumes "ring_ok r" "ring_used r < length (r_data r)"
  shows "\<exists>r'. ring_push r x = (True, r') \<and> ring_ok r' \<and> ring_list r' = ring_list r @ [x] \<and> length (r_data r') = length (r_data r)"
proof -
  let ?c = "length (r_data r)" and ?h = "unat (r_head r)" and ?t = "unat (r_tail r)"
  note ok = assms(1) [unfolded ring_ok_def]
  have nf: "\<not> r_full r" using assms(2) by (auto simp: ring_used_def ring_count_def)
  have nx: "unat ((r_head r + 1) mod ring_capacity r) = Suc ?h mod ?c"
    unfolding ring_capacity_def using ok by (intro unat_ring_next) auto
  have hd: "(?t + ring_used r) mod ?c = ?h" unfolding ring_used_def using ok by (intro ring_count_head) auto
  have fresh: "?h \<notin> set (ring_idx ?t (ring_used r) ?c)" using ring_idx_fresh [OF assms(2), of ?t] hd by simp
  define r' where "r' = snd (ring_push r x)"
  have r': "ring_push r x = (True, r')" "r_data r' = (r_data r)[?h := x]" "r_tail r' = r_tail r"
    "unat (r_head r') = Suc ?h mod ?c" "r_full r' = (Suc ?h mod ?c = ?t)"
    using nf nx by (auto simp: r'_def ring_push_def Let_def word_unat_eq_iff)
  have used: "ring_used r' = Suc (ring_used r)"
    using ring_count_push [of ?h ?c ?t] ok nf by (simp add: ring_used_def r')
  have "ring_list r' = ring_list r @ [x]"
    using fresh hd ok by (auto simp: ring_list_def used r' ring_idx_snoc nth_list_update)
  moreover have "ring_ok r'" using ok by (auto simp: ring_ok_def r' word_unat_eq_iff)
  ultimately show ?thesis using r' by auto
qed

lemma ring_pop_list:
  assumes "ring_ok r" "ring_list r = x # xs"
  shows "\<exists>r'. ring_pop r = (Some x, r') \<and> ring_ok r' \<and> ring_list r' = xs \<and> length (r_data r') = length (r_data r) \<and> ring_peek r = x
    \<and> ring_used r' < length (r_data r')"
proof -
  let ?c = "length (r_data r)" and ?h = "unat (r_head r)" and ?t = "unat (r_tail r)"
  note ok = assms(1) [unfolded ring_ok_def]
  have u: "ring_used r = Suc (length xs)" using assms(2) by (metis length_Cons length_ring_list)
  have ne: "\<not> ring_is_empty r"
    using u ring_count_0_iff [of ?h ?c ?t "r_full r"] ok by (auto simp: ring_is_empty_def ring_used_def)
  have nx: "unat ((r_tail r + 1) mod ring_capacity r) = Suc ?t mod ?c"
    unfolding ring_capacity_def using ok by (intro unat_ring_next) auto
  have idx: "ring_idx ?t (ring_used r) ?c = ?t # ring_idx (Suc ?t mod ?c) (length xs) ?c"
    unfolding u using ok by (intro ring_idx_Cons) auto
  define r' where "r' = snd (ring_pop r)"
  have r': "ring_pop r = (Some (r_data r ! ?t), r')" "r_data r' = r_data r" "r_head r' = r_head r"
    "unat (r_tail r') = Suc ?t mod ?c" "\<not> r_full r'"
    using ne nx by (auto simp: r'_def ring_pop_def Let_def)
  have used: "ring_used r' = length xs"
    using ring_count_pop [of ?h ?c ?t "r_full r"] ok u by (auto simp: ring_used_def r')
  have "r_data r ! ?t = x \<and> ring_list r' = xs"
    using assms(2) by (simp add: ring_list_def idx used r')
  moreover have "ring_ok r'" using ok by (simp add: ring_ok_def r')
  moreover have "length xs < ?c"
    using u ring_count_le [of ?c ?h ?t "r_full r"] ok by (simp add: ring_used_def)
  ultimately show ?thesis using r' used by (auto simp: ring_peek_def)
qed

text \<open>Taking the first element and appending it: what the walks over a ring do at each step.\<close>

lemma ring_rotate:
  assumes "ring_ok r" "ring_list r = x # xs"
  shows "\<exists>r1 r2. ring_pop r = (Some x, r1) \<and> ring_push r1 x = (True, r2) \<and> ring_ok r2 \<and> ring_list r2 = xs @ [x]
    \<and> length (r_data r2) = length (r_data r) \<and> ring_peek r = x"
  using ring_pop_list [OF assms] ring_push_list by (metis length_ring_list)

text \<open>As a sequence: elements go in at the end and come out at the front.\<close>

definition ring_put :: "'a ring \<Rightarrow> 'a \<Rightarrow> fault + 'a ring" where
  "ring_put r x = Inr (snd (ring_push r x))"

definition ring_get :: "'a ring \<Rightarrow> fault + ('a \<times> 'a ring)" where
  "ring_get r = (case ring_pop r of (None, r) \<Rightarrow> Inl NullDeref | (Some x, r) \<Rightarrow> Inr (x, r))"

interpretation rt: sequence "\<lambda>r ds. ring_ok r \<and> ring_list r = ds" "\<lambda>n r. ring_used r + n \<le> length (r_data r)" "\<lambda>d ds. ds @ [d]"
    ring_put ring_get
proof unfold_locales
  fix r :: "'a ring" and ds n d
  assume a: "ring_ok r \<and> ring_list r = ds" "ring_used r + Suc n \<le> length (r_data r)"
  then obtain r' where "ring_push r d = (True, r')" "ring_ok r'" "ring_list r' = ds @ [d]" "length (r_data r') = length (r_data r)"
    using ring_push_list [of r d] by auto
  then show "\<exists>r'. ring_put r d = Inr r' \<and> (ring_ok r' \<and> ring_list r' = ds @ [d]) \<and> ring_used r' + n \<le> length (r_data r')"
    using a by (auto simp: ring_put_def simp flip: length_ring_list)
next
  fix r :: "'a ring" and d ds
  assume "ring_ok r \<and> ring_list r = d # ds"
  then show "\<exists>r'. ring_get r = Inr (d, r') \<and> ring_ok r' \<and> ring_list r' = ds"
    using ring_pop_list [of r d ds] by (auto simp: ring_get_def)
qed

lemma ring_stores_and_reads:
  assumes "0 < length (r_data r)" "length (r_data r) < 2 ^ 63" "length ds \<le> length (r_data r)"
  shows "\<exists>r'. bindE (push_all ring_put ds (ring_clear r)) (pop_n ring_get (length ds)) = Inr (ds, r') \<and> ring_list r' = []"
proof -
  have "ring_used (ring_clear r) = 0" by (simp add: ring_used_def ring_clear_def ring_count_def)
  then show ?thesis
    using rt.store_and_read [of "ring_clear r" ds] ring_clear_ok [OF assms(1,2)] assms(3)
    by (auto simp: fold_snoc ring_clear_def)
qed

end
