(* ===== verification/Console.thy ===== *)
theory Console
  imports Graphics Sdhci Ring_Template
begin

section \<open>The console (\<open>kernel/console\<close>: \<open>uart.c\<close>, \<open>kconsole.cpp\<close>, \<open>console.cpp\<close>, \<open>kio.c\<close>)\<close>

text \<open>
  The screen goes through the graphics driver \<open>g\<close> of \<open>Graphics\<close>, the serial line through registers as in \<open>Pci\<close>.
  The console keeps its lines in one block of memory, a ring of line numbers gives their order.  A string that is written
  in the code (the diagnosis of \<open>resize\<close>) is given by its bytes.
\<close>

record console_state = kernel_state +
  cursor_x :: u32
  cursor_y :: u32
  columns :: u32
  rows :: u32
  is_initialized :: bool
  row_ring :: "u32 ring"
  row_data :: u64
  buffer_data_size :: u32
  mem_page :: u64
  use_visual :: bool
  print_buf :: u64

subsection \<open>The serial line\<close>

definition uart_write :: "sd_env \<Rightarrow> u64 \<Rightarrow> u32 \<Rightarrow> 'a kmem_scheme \<Rightarrow> 'a kmem_scheme" where
  "uart_write e off v s = dwrite32 (dev_env.truncate e) (UART0_BASE (de_hw e) + off) v s"

definition uart_divisors :: "u32 \<Rightarrow> u32 \<times> u32" where
  "uart_divisors uart_clk =
     (let baud = 115200; rem = uart_clk mod (16 * baud) in (uart_clk div (16 * baud), (rem * 64 + baud div 2) div baud))"

definition enable_uart :: "sd_env \<Rightarrow> u64 \<Rightarrow> 'a kmem_scheme \<Rightarrow> fault + 'a kmem_scheme" where
  "enable_uart e mbox s =
     (let h = de_hw e; rpi = BOARD_TYPE h = 2;
          s = uart_write e 0x30 0 s;
          s = (if rpi \<and> RPI_BOARD h \<noteq> 5 then enable_gpio_pin e 15 (enable_gpio_pin e 14 s) else s)
      in bindE (if rpi \<and> RPI_BOARD h \<ge> 4 then
                  bindE (mailbox_call e mbox 8 s) (\<lambda>(ok, s).
                    Inr (if ok then uart_divisors (read32 (mm s) (mbox + 24)) else (1, 40), s))
                else Inr ((1, 40), s)) (\<lambda>((ibrd, fbrd), s).
           let s = uart_write e 0x24 ibrd s;
               s = uart_write e 0x28 fbrd s;
               s = uart_write e 0x2C (push_bit 4 1 OR push_bit 5 3) s
           in Inr (uart_write e 0x30 (push_bit 0 1 OR push_bit 8 1 OR push_bit 9 1) s)))"

definition uart_raw_putc :: "sd_env \<Rightarrow> u8 \<Rightarrow> 'a kmem_scheme \<Rightarrow> fault + 'a kmem_scheme" where
  "uart_raw_putc e c s =
     bindE (poll (de_fuel e) e (UART0_BASE (de_hw e) + 0x18) 0x20 s) (\<lambda>s. Inr (uart_write e 0 (ucast c) s))"

fun uart_string :: "nat \<Rightarrow> sd_env \<Rightarrow> u64 \<Rightarrow> 'a kmem_scheme \<Rightarrow> fault + 'a kmem_scheme" where
  "uart_string 0 e p s = Inl OutOfFuel"
| "uart_string (Suc k) e p s =
     (if mm s p = 0 then Inr s else bindE (uart_raw_putc e (mm s p) s) (uart_string k e (p + 1)))"

definition uart_raw_puts :: "sd_env \<Rightarrow> u64 \<Rightarrow> 'a kmem_scheme \<Rightarrow> fault + 'a kmem_scheme" where
  "uart_raw_puts e p s = uart_string (de_fuel e) e p s"

definition uart_literal :: "sd_env \<Rightarrow> string \<Rightarrow> 'a kmem_scheme \<Rightarrow> fault + 'a kmem_scheme" where
  "uart_literal e t s = fold (\<lambda>c r. bindE r (uart_raw_putc e (of_char c))) t (Inr s)"

definition uart_putc :: "sd_env \<Rightarrow> u8 \<Rightarrow> 'a kmem_scheme \<Rightarrow> fault + 'a kmem_scheme" where
  "uart_putc e c s = uart_raw_putc e c s"

definition uart_puts :: "sd_env \<Rightarrow> u64 \<Rightarrow> 'a kmem_scheme \<Rightarrow> fault + 'a kmem_scheme" where
  "uart_puts e p s = uart_raw_puts e p s"

fun hex_out :: "sd_env \<Rightarrow> u64 \<Rightarrow> nat list \<Rightarrow> bool \<Rightarrow> 'a kmem_scheme \<Rightarrow> fault + 'a kmem_scheme" where
  "hex_out e v [] started s = Inr s"
| "hex_out e v (i # is) started s =
     (let nibble = ucast (drop_bit i v AND 0xF) :: u8;
          c = (if nibble < 10 then 48 + nibble else 65 + (nibble - 10))
      in if started \<or> c \<noteq> 48 \<or> i = 0 then bindE (uart_raw_putc e c s) (hex_out e v is True) else hex_out e v is started s)"

definition uart_puthex :: "sd_env \<Rightarrow> u64 \<Rightarrow> 'a kmem_scheme \<Rightarrow> fault + 'a kmem_scheme" where
  "uart_puthex e v s =
     bindE (uart_raw_putc e 48 s) (\<lambda>s. bindE (uart_raw_putc e 120 s) (hex_out e v (map ((*) 4) (rev [0..<16])) False))"

subsection \<open>The screen\<close>

definition line_addr :: "'a console_state_scheme \<Rightarrow> u32 \<Rightarrow> u64" where
  "line_addr s row_index = row_data s + ucast (row_index * columns s)"

text \<open>Zeros from a column to the end of a line.\<close>

definition blank_line :: "u32 \<Rightarrow> u32 \<Rightarrow> 'a console_state_scheme \<Rightarrow> 'a console_state_scheme" where
  "blank_line row_index from s =
     s\<lparr>mm := fold (\<lambda>x m. m(line_addr s row_index + of_nat x := 0)) [unat from..<unat (columns s)] (mm s)\<rparr>"

text \<open>The first line of the ring is blanked from a column and goes to its end.\<close>

definition retire_line :: "u32 \<Rightarrow> 'a console_state_scheme \<Rightarrow> 'a console_state_scheme" where
  "retire_line from s =
     (case ring_pop (row_ring s) of
        (None, r) \<Rightarrow> s
      | (Some row_index, r) \<Rightarrow> (blank_line row_index from s)\<lparr>row_ring := snd (ring_push r row_index)\<rparr>)"

definition screen_clear :: "'a console_state_scheme gpu_driver \<Rightarrow> 'a console_state_scheme \<Rightarrow> 'a console_state_scheme" where
  "screen_clear g s = gpu_clear g 0 s"

definition clear :: "'a console_state_scheme gpu_driver \<Rightarrow> 'a console_state_scheme \<Rightarrow> 'a console_state_scheme" where
  "clear g s =
     (let s = fold (\<lambda>_. retire_line 0) [0..<unat (rows s)] (screen_clear g s) in s\<lparr>cursor_x := 0, cursor_y := 0\<rparr>)"

definition resize ::
    "sd_env \<Rightarrow> 'a console_state_scheme gpu_driver \<Rightarrow> 'a console_state_scheme \<Rightarrow> fault + 'a console_state_scheme" where
  "resize e g s =
     (let screen = gpu_get_screen_size g s;
          s = s\<lparr>columns := width screen div 8, rows := height screen div 16\<rparr>;
          s = (if row_data s \<noteq> 0 then kfree s (row_data s) (ucast (buffer_data_size s)) else s);
          s = s\<lparr>buffer_data_size := rows s * columns s\<rparr>
      in bindE (uart_literal e ''Data Size '' s) (\<lambda>s.
         bindE (uart_puthex e (ucast (buffer_data_size s)) s) (\<lambda>s.
         bindE (kalloc (de_fuel e) (de_ld e) (de_hw e) s (mem_page s) (ucast (buffer_data_size s)) 16 True True) (\<lambda>(p, s).
           let s = s\<lparr>row_data := p, row_ring := ring_clear (row_ring s)\<rparr>
           in Inr (if p = 0 then s\<lparr>rows := 0, columns := 0\<rparr>
                   else s\<lparr>row_ring := fold (\<lambda>i r. snd (ring_push r (of_nat i))) [0..<unat (rows s)] (row_ring s)\<rparr>)))))"

text \<open>The constructor of the one console that the kernel has.\<close>

definition kconsole_make ::
    "sd_env \<Rightarrow> 'a console_state_scheme gpu_driver \<Rightarrow> 'a console_state_scheme \<Rightarrow> fault + 'a console_state_scheme" where
  "kconsole_make e g s =
     bindE (resize e g (s\<lparr>cursor_x := 0, cursor_y := 0, is_initialized := False\<rparr>)) (\<lambda>s. Inr (clear g s))"

definition check_ready ::
    "sd_env \<Rightarrow> 'a console_state_scheme gpu_driver \<Rightarrow> 'a console_state_scheme \<Rightarrow> fault + (bool \<times> 'a console_state_scheme)" where
  "check_ready e g s =
     (if \<not> gpu_ready s then Inr (False, s)
      else if is_initialized s then Inr (True, s)
      else bindE (palloc (de_fuel e) (de_ld e) (de_hw e) (s\<lparr>is_initialized := True\<rparr>) 0x1000 True True False) (\<lambda>(p, s).
           bindE (resize e g (s\<lparr>mem_page := p\<rparr>)) (\<lambda>s. Inr (True, clear g s))))"

text \<open>One line of \<open>redraw\<close>, at height \<open>y\<close>.\<close>

definition redraw_line :: "'a console_state_scheme gpu_driver \<Rightarrow> nat \<Rightarrow> 'a console_state_scheme \<Rightarrow> 'a console_state_scheme" where
  "redraw_line g y s =
     (case ring_pop (row_ring s) of
        (None, r) \<Rightarrow> s
      | (Some row_index, r) \<Rightarrow>
          let s = s\<lparr>row_ring := snd (ring_push r row_index)\<rparr>; line = line_addr s row_index
          in fold (\<lambda>x s. gpu_draw_char g \<lparr>px = of_nat x * 8, py = of_nat y * 16\<rparr> (mm s (line + of_nat x)) 1 0xFFFFFFFF s)
               [0..<unat (columns s)] s)"

definition redraw :: "'a console_state_scheme gpu_driver \<Rightarrow> 'a console_state_scheme \<Rightarrow> 'a console_state_scheme" where
  "redraw g s = fold (redraw_line g) [0..<unat (rows s)] (screen_clear g s)"

definition scroll ::
    "sd_env \<Rightarrow> 'a console_state_scheme gpu_driver \<Rightarrow> 'a console_state_scheme \<Rightarrow> fault + 'a console_state_scheme" where
  "scroll e g s =
     bindE (check_ready e g s) (\<lambda>(ok, s). Inr (if \<not> ok then s else redraw g (retire_line 0 s)))"

definition newline ::
    "sd_env \<Rightarrow> 'a console_state_scheme gpu_driver \<Rightarrow> 'a console_state_scheme \<Rightarrow> fault + 'a console_state_scheme" where
  "newline e g s =
     bindE (check_ready e g s) (\<lambda>(ok, s).
       if \<not> ok then Inr s
       else
         let s = retire_line (cursor_x s) s; s = s\<lparr>cursor_x := 0, cursor_y := cursor_y s + 1\<rparr>
         in if cursor_y s \<ge> rows s then bindE (scroll e g s) (\<lambda>s. Inr (s\<lparr>cursor_y := rows s - 1\<rparr>)) else Inr s)"

definition put_char ::
    "sd_env \<Rightarrow> 'a console_state_scheme gpu_driver \<Rightarrow> u8 \<Rightarrow> 'a console_state_scheme \<Rightarrow> fault + 'a console_state_scheme" where
  "put_char e g c s =
     bindE (check_ready e g s) (\<lambda>(ok, s).
       if \<not> ok then Inr s
       else if c = 10 then newline e g s
       else bindE (if cursor_x s \<ge> columns s then newline e g s else Inr s) (\<lambda>s.
         let s = s\<lparr>mm := (mm s)(line_addr s (ring_peek (row_ring s)) + ucast (cursor_x s) := c)\<rparr>;
             s = gpu_draw_char g \<lparr>px = cursor_x s * 8, py = cursor_y s * 16\<rparr> c 1 0xFFFFFFFF s
         in Inr (s\<lparr>cursor_x := cursor_x s + 1\<rparr>)))"

fun put_loop ::
    "nat \<Rightarrow> sd_env \<Rightarrow> 'a console_state_scheme gpu_driver \<Rightarrow> u64 \<Rightarrow> 'a console_state_scheme \<Rightarrow> fault + 'a console_state_scheme" where
  "put_loop 0 e g p s = Inl OutOfFuel"
| "put_loop (Suc k) e g p s = (if mm s p = 0 then Inr s else bindE (put_char e g (mm s p) s) (put_loop k e g (p + 1)))"

definition put_string ::
    "sd_env \<Rightarrow> 'a console_state_scheme gpu_driver \<Rightarrow> u64 \<Rightarrow> 'a console_state_scheme \<Rightarrow> fault + 'a console_state_scheme" where
  "put_string e g p s =
     bindE (check_ready e g s) (\<lambda>(ok, s).
       if \<not> ok then Inr s else bindE (put_loop (de_fuel e) e g p s) (\<lambda>s. Inr (gpu_flush g s)))"

definition kconsole_putc ::
    "sd_env \<Rightarrow> 'a console_state_scheme gpu_driver \<Rightarrow> u8 \<Rightarrow> 'a console_state_scheme \<Rightarrow> fault + 'a console_state_scheme" where
  "kconsole_putc e g c s = bindE (put_char e g c s) (\<lambda>s. Inr (gpu_flush g s))"

subsection \<open>Output of the kernel\<close>

definition puts ::
    "sd_env \<Rightarrow> 'a console_state_scheme gpu_driver \<Rightarrow> u64 \<Rightarrow> 'a console_state_scheme \<Rightarrow> fault + 'a console_state_scheme" where
  "puts e g p s = bindE (uart_raw_puts e p s) (\<lambda>s. if use_visual s then put_string e g p s else Inr s)"

definition putc ::
    "sd_env \<Rightarrow> 'a console_state_scheme gpu_driver \<Rightarrow> u8 \<Rightarrow> 'a console_state_scheme \<Rightarrow> fault + 'a console_state_scheme" where
  "putc e g c s = bindE (uart_raw_putc e c s) (\<lambda>s. if use_visual s then kconsole_putc e g c s else Inr s)"

definition kprint ::
    "sd_env \<Rightarrow> 'a console_state_scheme gpu_driver \<Rightarrow> u64 \<Rightarrow> 'a console_state_scheme \<Rightarrow> fault + 'a console_state_scheme" where
  "kprint e g p s = bindE (puts e g p s) (\<lambda>s. bindE (putc e g 13 s) (putc e g 10))"

definition kputf ::
    "sd_env \<Rightarrow> 'a console_state_scheme gpu_driver \<Rightarrow> ('d \<Rightarrow> bool \<times> u64 \<times> u8 list) \<Rightarrow> cstr \<Rightarrow> 'd fmt_arg list
     \<Rightarrow> 'a console_state_scheme \<Rightarrow> fault + 'a console_state_scheme" where
  "kputf e g fd fmt args s =
     bindE (if print_buf s = 0 then
              bindE (palloc (de_fuel e) (de_ld e) (de_hw e) s 0x1000 True False False) (\<lambda>(p, s). Inr (s\<lparr>print_buf := p\<rparr>))
            else Inr s) (\<lambda>s.
     bindE (kalloc (de_fuel e) (de_ld e) (de_hw e) s (print_buf s) 256 64 True False) (\<lambda>(buf, s).
     bindE (string_format_va_buf fd fmt args) (\<lambda>(bs, len).
       puts e g buf (s\<lparr>mm := store_bytes (mm s) buf bs\<rparr>))))"

definition kprintf ::
    "sd_env \<Rightarrow> 'a console_state_scheme gpu_driver \<Rightarrow> ('d \<Rightarrow> bool \<times> u64 \<times> u8 list) \<Rightarrow> cstr \<Rightarrow> 'd fmt_arg list
     \<Rightarrow> 'a console_state_scheme \<Rightarrow> fault + 'a console_state_scheme" where
  "kprintf e g fd fmt args s = bindE (kputf e g fd fmt args s) (\<lambda>s. bindE (putc e g 13 s) (putc e g 10))"

text \<open>The module of the console: everything but \<open>init\<close> and \<open>write\<close> is a constant, and \<open>write\<close> prints the bytes of the
  user as a format string without arguments.\<close>

definition console_init :: "sd_env \<Rightarrow> u64 \<Rightarrow> 'a kmem_scheme \<Rightarrow> fault + (bool \<times> 'a kmem_scheme)" where
  "console_init e mbox s = bindE (enable_uart e mbox s) (\<lambda>s. Inr (True, s))"

definition console_write ::
    "sd_env \<Rightarrow> 'a console_state_scheme gpu_driver \<Rightarrow> ('d \<Rightarrow> bool \<times> u64 \<times> u8 list) \<Rightarrow> cstr
     \<Rightarrow> 'a console_state_scheme \<Rightarrow> fault + 'a console_state_scheme" where
  "console_write e g fd buf s = kprintf e g fd buf [] s"

definition set_visual :: "bool \<Rightarrow> 'a console_state_scheme \<Rightarrow> 'a console_state_scheme" where
  "set_visual b s = s\<lparr>use_visual := b\<rparr>"

subsection \<open>What the screen shows\<close>

text \<open>The lines in the order of the ring, which is the order in which \<open>redraw\<close> shows them, and the cursor.\<close>

definition con_lines :: "'a console_state_scheme \<Rightarrow> u8 list list" where
  "con_lines s = map (\<lambda>i. load_bytes (mm s) (line_addr s i) (unat (columns s))) (ring_list (row_ring s))"







text \<open>A driver that only draws.\<close>

definition con_same :: "'a console_state_scheme \<Rightarrow> 'a console_state_scheme \<Rightarrow> bool" where
  "con_same s s' \<longleftrightarrow> mm s' = mm s \<and> cursor_x s' = cursor_x s \<and> cursor_y s' = cursor_y s \<and> columns s' = columns s
     \<and> rows s' = rows s \<and> is_initialized s' = is_initialized s \<and> row_ring s' = row_ring s \<and> row_data s' = row_data s
     \<and> gpu_ready s' = gpu_ready s"


definition con_base :: "'a console_state_scheme \<Rightarrow> bool" where
  "con_base s \<longleftrightarrow> gpu_ready s \<and> is_initialized s \<and> ring_ok (row_ring s) \<and> distinct (ring_list (row_ring s))
     \<and> (\<forall>i\<in>set (ring_list (row_ring s)). i < rows s) \<and> ring_used (row_ring s) = unat (rows s)
     \<and> 0 < rows s \<and> 0 < columns s \<and> unat (rows s) * unat (columns s) < 2 ^ 32"


lemma con_same_refl [simp]: "con_same s s"
  by (simp add: con_same_def)






subsection \<open>Lines in memory\<close>





lemma con_base_mm [simp]: "con_base (s\<lparr>mm := m\<rparr>) = con_base s"
  by (simp add: con_base_def gpu_ready_def)









lemma con_base_upd [simp]:
  "con_base (s\<lparr>cursor_x := x\<rparr>) = con_base s" "con_base (s\<lparr>cursor_y := y\<rparr>) = con_base s"
  "con_lines (s\<lparr>cursor_x := x\<rparr>) = con_lines s" "con_lines (s\<lparr>cursor_y := y\<rparr>) = con_lines s"
  by (simp_all add: con_base_def con_lines_def gpu_ready_def line_addr_def)






subsection \<open>The divisors of the serial line\<close>

text \<open>The fraction that the code computes is sixteen times the one that the clock asks for, and does not fit its six bits.\<close>

lemma uart_fraction_overflows: "uart_divisors 44000000 = (23, 892)"
  by (simp add: uart_divisors_def)

subsection \<open>A console of two lines\<close>










end
