(* ===== verification/Spec2Isabelle.thy ===== *)
theory Spec2Isabelle
  imports Ring_Buffer Cqueue Relocation Draw Linked_List Double_List Chunked_List Input_Dispatch Syscalls Filesystem Sdhci Console
begin

text \<open>
  A verification development for the C code of RedactedOS.

  \<^item> \<open>Prelude\<close> (integers, faults), \<open>Byte_Memory\<close> (byte-addressed memory), \<open>Mem_Functions\<close>
    (\<open>shared/std/memfunctions.c\<close>).
  \<^item> \<open>Fifo\<close> (the interface of the bounded queues), \<open>Ring_Buffer\<close> and \<open>Cqueue\<close>
    (\<open>shared/data_struct\<close>).
  \<^item> \<open>Regions\<close> (free lists in memory), \<open>Talloc\<close> (\<open>kernel/memory/kalloc.c\<close>), \<open>Mmu\<close>
    (\<open>kernel/memory/mmu.c\<close>), \<open>Page_Allocator\<close> (\<open>kernel/memory/page_allocator.c\<close>).
  \<^item> \<open>Strings\<close> (\<open>shared/std/string.c\<close>), \<open>Platform\<close> (\<open>kernel/dtb.c\<close>, \<open>kernel/hw/hw.c\<close>).
\<close>

end
